(* ===== verification/RB_Prelude.thy ===== *)
theory RB_Prelude
  imports Main "HOL-Library.Word" "HOL-Library.Char_ord" "HOL-Library.List_Lexorder"
    "HOL-Library.Product_Lexorder"
begin

text \<open>
  What every theory of this development shares: names for the machine integers of the
  source, the part of the Rust standard library on strings that the hand-written applets
  under \<^verbatim>\<open>src/modern/\<close> use, and generic lemmas on lists, maps and words.

  A \<^typ>\<open>char\<close> stands for a Unicode scalar value of the range U+0000 to U+00FF. The order
  of strings is the lexicographic order of the scalar values, which is also the order of
  their UTF-8 encodings, so it is the order Rust's \<^verbatim>\<open>String\<close> has in a \<^verbatim>\<open>BTreeSet\<close>.
\<close>

unbundle bit_operations_syntax

type_synonym u8 = "8 word"
type_synonym u16 = "16 word"
type_synonym u32 = "32 word"
type_synonym u64 = "64 word"

named_theorems rb_defs \<open>definitions of the model that automation may unfold\<close>
named_theorems rb_inv \<open>preservation of the invariants of the components\<close>

section \<open>Rust strings\<close>

text \<open>\<^verbatim>\<open>char::is_whitespace\<close> on the scalar values up to U+00FF.\<close>

definition is_whitespace :: "char \<Rightarrow> bool" where
  "is_whitespace c =
     (let n = (of_char c :: nat) in (9 \<le> n \<and> n \<le> 13) \<or> n = 32 \<or> n = 133 \<or> n = 160)"

text \<open>\<^verbatim>\<open>str::trim\<close>.\<close>

definition trim :: "string \<Rightarrow> string" where
  "trim s = rev (dropWhile is_whitespace (rev (dropWhile is_whitespace s)))"

text \<open>\<^verbatim>\<open>str::split_whitespace\<close>: the maximal runs of non-blank characters.\<close>

fun split_ws_acc :: "string \<Rightarrow> string \<Rightarrow> string list" where
  "split_ws_acc acc [] = (if acc = [] then [] else [rev acc])"
| "split_ws_acc acc (c # cs) =
     (if is_whitespace c
      then (if acc = [] then split_ws_acc [] cs else rev acc # split_ws_acc [] cs)
      else split_ws_acc (c # acc) cs)"

definition split_whitespace :: "string \<Rightarrow> string list" where
  "split_whitespace s = split_ws_acc [] s"

text \<open>\<^verbatim>\<open>str::split(c)\<close> for a single character \<^term>\<open>c\<close>: always at least one piece.\<close>

fun split_char :: "char \<Rightarrow> string \<Rightarrow> string list" where
  "split_char d [] = [[]]"
| "split_char d (c # cs) =
     (if c = d then [] # split_char d cs
      else (case split_char d cs of [] \<Rightarrow> [[c]] | p # ps \<Rightarrow> (c # p) # ps))"

text \<open>\<^verbatim>\<open>str::splitn(n, c)\<close>: at most \<^term>\<open>n\<close> pieces, the last one unsplit.\<close>

fun splitn :: "nat \<Rightarrow> char \<Rightarrow> string \<Rightarrow> string list" where
  "splitn 0 d s = []"
| "splitn (Suc 0) d s = [s]"
| "splitn (Suc (Suc n)) d s =
     (case dropWhile (\<lambda>c. c \<noteq> d) s of
        [] \<Rightarrow> [s]
      | _ # rest \<Rightarrow> takeWhile (\<lambda>c. c \<noteq> d) s # splitn (Suc n) d rest)"

text \<open>\<^verbatim>\<open>str::lines\<close>: pieces ended by a line feed, one carriage return before it dropped,
  no last empty piece.\<close>

abbreviation LF :: char where "LF \<equiv> CHR 0x0A"
abbreviation CR :: char where "CR \<equiv> CHR 0x0D"

definition strip_cr :: "string \<Rightarrow> string" where
  "strip_cr s = (if s \<noteq> [] \<and> last s = CR then butlast s else s)"

definition str_lines :: "string \<Rightarrow> string list" where
  "str_lines s =
     (let ps = split_char LF s
      in map strip_cr (butlast ps) @ (if last ps = [] then [] else [last ps]))"

definition starts_with :: "string \<Rightarrow> string \<Rightarrow> bool" where
  "starts_with p s = (take (length p) s = p)"

text \<open>\<^verbatim>\<open>{}\<close> formatting of an unsigned integer.\<close>

fun show_nat :: "nat \<Rightarrow> string" where
  "show_nat n =
     (if n < 10 then [char_of (48 + n)] else show_nat (n div 10) @ [char_of (48 + n mod 10)])"

declare show_nat.simps [simp del]

section \<open>Lists and options\<close>

text \<open>Sequencing of operations that may panic.\<close>

abbreviation do_opt :: "'a option \<Rightarrow> ('a \<Rightarrow> 'b option) \<Rightarrow> 'b option" where
  "do_opt x f \<equiv> Option.bind x f"

text \<open>Sequencing of operations that end the process with an error.\<close>

abbreviation do_res :: "'e + 'a \<Rightarrow> ('a \<Rightarrow> 'e + 'b) \<Rightarrow> 'e + 'b" where
  "do_res x f \<equiv> case_sum Inl f x"

definition expect :: "'e \<Rightarrow> 'a option \<Rightarrow> 'e + 'a" where
  "expect e x = (case x of None \<Rightarrow> Inl e | Some a \<Rightarrow> Inr a)"

lemma expect_simps [simp]: "expect e (Some a) = Inr a" "expect e None = Inl e"
  by (simp_all add: expect_def)

lemma do_res_Inr: "do_res x f = Inr b \<longleftrightarrow> (\<exists>a. x = Inr a \<and> f a = Inr b)"
  by (cases x) auto

lemma expect_Inr: "expect e x = Inr a \<longleftrightarrow> x = Some a"
  by (cases x) auto

fun find_index :: "('a \<Rightarrow> bool) \<Rightarrow> 'a list \<Rightarrow> nat option" where
  "find_index P [] = None"
| "find_index P (x # xs) = (if P x then Some 0 else map_option Suc (find_index P xs))"

lemma find_index_Some:
  "find_index P xs = Some i \<longleftrightarrow> i < length xs \<and> P (xs ! i) \<and> (\<forall>j < i. \<not> P (xs ! j))"
proof (induction xs arbitrary: i)
  case Nil
  show ?case by simp
next
  case (Cons x xs)
  show ?case by (cases i) (auto simp: Cons.IH All_less_Suc2 nth_Cons')
qed

lemma find_index_None: "find_index P xs = None \<longleftrightarrow> (\<forall>x \<in> set xs. \<not> P x)"
  by (induction xs) auto

lemma split_char_not_Nil [simp]: "split_char d s \<noteq> []"
  by (induction s) (auto split: list.splits)

lemma splitn_length: "length (splitn n d s) \<le> n"
proof (induction n d s rule: splitn.induct)
  case (3 n d s)
  then show ?case by (auto split: list.splits)
qed auto

section \<open>Bytes in little-endian order\<close>

primrec bval :: "u8 list \<Rightarrow> nat" where
  "bval [] = 0"
| "bval (b # bs) = unat b + 256 * bval bs"

lemma unat_byte_less: "unat (b :: u8) < 256"
  using unsigned_less [of b, where 'a = nat] by simp

lemma bval_bound: "bval x < 256 ^ length x"
proof (induction x)
  case (Cons b x)
  have "unat b + 256 * bval x < 256 + 256 * bval x" using unat_byte_less by simp
  also have "\<dots> = 256 * Suc (bval x)" by simp
  also have "\<dots> \<le> 256 * 256 ^ length x" using Cons by (intro mult_le_mono2) simp
  finally show ?case by simp
qed simp

lemma bval_append: "bval (x @ y) = bval x + 256 ^ length x * bval y"
  by (induction x) (simp_all add: algebra_simps)

section \<open>Event-driven systems\<close>

text \<open>
  The interface of a component that consumes a log of events one by one, where a step may
  fail to return: \<open>inv\<close> is the component's invariant and \<open>allowed\<close> singles out the events
  under which it is promised. Clients get totality and the invariant for whole logs, and
  that a log can be cut anywhere.
\<close>

locale replayable =
  fixes step :: "'s \<Rightarrow> 'e \<Rightarrow> 's option"
    and run_log :: "'s \<Rightarrow> 'e list \<Rightarrow> 's option"
    and inv :: "'s \<Rightarrow> bool"
    and allowed :: "'e \<Rightarrow> bool"
  assumes run_log_Nil: "run_log s [] = Some s"
    and run_log_Cons: "run_log s (e # es) = Option.bind (step s e) (\<lambda>s'. run_log s' es)"
    and step_inv: "inv s \<Longrightarrow> allowed e \<Longrightarrow> \<exists>s'. step s e = Some s' \<and> inv s'"
begin

lemma run_log_inv:
  "inv s \<Longrightarrow> \<forall>e \<in> set es. allowed e \<Longrightarrow> \<exists>s'. run_log s es = Some s' \<and> inv s'"
proof (induction es arbitrary: s)
  case Nil
  then show ?case by (simp add: run_log_Nil)
next
  case (Cons e es)
  then obtain s' where "step s e = Some s'" "inv s'"
    using step_inv [of s e] by auto
  with Cons show ?case by (auto simp: run_log_Cons)
qed

lemma run_log_append:
  "run_log s (es @ fs) = Option.bind (run_log s es) (\<lambda>s'. run_log s' fs)"
  by (induction es arbitrary: s) (auto simp: run_log_Nil run_log_Cons)

end

end
