(* ===== verification/RB_Spherepop.thy ===== *)
theory RB_Spherepop
  imports RB_Prelude
begin

text \<open>
  The \<^verbatim>\<open>spherepop\<close> applet, \<^verbatim>\<open>src/modern/spherepop.rs\<close>: a deterministic event-log kernel
  (objects, a union-find of equivalences, typed relations, metadata), the parser of its
  line format and the applet's \<^verbatim>\<open>run\<close>. The kernel state is a record with the fields of the
  source's struct: a \<^verbatim>\<open>BTreeSet\<close> is a finite set, read in ascending order where the code
  iterates over it, and a \<^verbatim>\<open>BTreeMap\<close> is a map. \<open>rep\<close> follows parent pointers in a loop
  that would not end on a cyclic parent map, so it is a partial function into
  \<^typ>\<open>'a option\<close>, where \<^const>\<open>None\<close> is \<open>does not return\<close>; every operation that calls
  it inherits the option. The lemmas show that no reachable kernel has a cycle.
\<close>

section \<open>Data\<close>

type_synonym objid = string
type_synonym relation = "objid \<times> objid \<times> string"

datatype event =
    Pop objid
  | Merge objid objid
  | Link objid objid string
  | Unlink objid objid string
  | Collapse "objid list" objid
  | SetMeta objid string string

record diff =
  objects_added :: "objid list"
  relations_added :: "relation list"
  relations_removed :: "relation list"
  equivalences_changed :: "(objid \<times> objid) list"
  metadata_set :: "(objid \<times> string \<times> string) list"

record kernel =
  objects :: "objid set"
  parent :: "objid \<rightharpoonup> objid"
  relations :: "relation set"
  metadata :: "objid \<rightharpoonup> (string \<rightharpoonup> string)"

definition empty_diff :: diff where
  "empty_diff = \<lparr>objects_added = [], relations_added = [], relations_removed = [],
     equivalences_changed = [], metadata_set = []\<rparr>"

definition new_kernel :: kernel where
  "new_kernel = \<lparr>objects = {}, parent = Map.empty, relations = {}, metadata = Map.empty\<rparr>"

section \<open>Operations\<close>

text \<open>The first loop of \<open>rep\<close>: follow parents to a self-parent or an unknown id, with the
  nodes passed pushed on \<open>path\<close>.\<close>

partial_function (option) rep_loop ::
  "(objid \<rightharpoonup> objid) \<Rightarrow> objid \<Rightarrow> objid list \<Rightarrow> (objid \<times> objid list) option" where
  "rep_loop P cur path =
     (case P cur of
        Some p \<Rightarrow> if p \<noteq> cur then rep_loop P p (path @ [cur]) else Some (cur, path)
      | None \<Rightarrow> Some (cur, path))"

text \<open>The second loop: path compression.\<close>

definition compress :: "(objid \<rightharpoonup> objid) \<Rightarrow> objid list \<Rightarrow> objid \<Rightarrow> (objid \<rightharpoonup> objid)" where
  "compress P path r = fold (\<lambda>node Q. Q(node \<mapsto> r)) path P"

definition rep :: "kernel \<Rightarrow> objid \<Rightarrow> (objid \<times> kernel) option" where
  "rep k x =
     (case rep_loop (parent k) x [] of
        None \<Rightarrow> None
      | Some (cur, path) \<Rightarrow> Some (cur, k\<lparr>parent := compress (parent k) path cur\<rparr>))"

text \<open>The rewriting loop of the \<open>Merge\<close> arm, over the relations incident to \<open>r2\<close> in the
  order of the set.\<close>

definition rewrite_rel :: "objid \<Rightarrow> objid \<Rightarrow> relation \<Rightarrow> relation" where
  "rewrite_rel r1 r2 old =
     (case old of (a, b, t) \<Rightarrow> (if a = r2 then r1 else a, if b = r2 then r1 else b, t))"

fun rewrite_loop ::
  "objid \<Rightarrow> objid \<Rightarrow> relation list \<Rightarrow> relation set \<times> relation list \<Rightarrow> relation set \<times> relation list"
where
  "rewrite_loop r1 r2 [] (R, added) = (R, added)"
| "rewrite_loop r1 r2 (old # olds) (R, added) =
     (let R' = R - {old}; new = rewrite_rel r1 r2 old
      in rewrite_loop r1 r2 olds
           (if new \<in> R' then (R', added) else (insert new R', added @ [new])))"

definition incident :: "objid \<Rightarrow> relation \<Rightarrow> bool" where
  "incident r rel = (case rel of (a, b, t) \<Rightarrow> a = r \<or> b = r)"

definition to_rewrite :: "kernel \<Rightarrow> objid \<Rightarrow> relation list" where
  "to_rewrite k r2 = filter (incident r2) (sorted_list_of_set (relations k))"

text \<open>The loop over the members of a \<open>Collapse\<close>.\<close>

fun collapse_loop :: "objid \<Rightarrow> objid list \<Rightarrow> kernel \<times> (objid \<times> objid) list \<Rightarrow>
    (kernel \<times> (objid \<times> objid) list) option" where
  "collapse_loop tgt [] (k, ch) = Some (k, ch)"
| "collapse_loop tgt (m # ms) (k, ch) =
     (case rep k m of
        None \<Rightarrow> None
      | Some (rm, k') \<Rightarrow>
          collapse_loop tgt ms
            (if rm \<noteq> tgt
             then (k'\<lparr>parent := (parent k')(rm \<mapsto> tgt)\<rparr>, ch @ [(rm, tgt)])
             else (k', ch)))"

fun apply_event :: "kernel \<Rightarrow> event \<Rightarrow> (diff \<times> kernel) option" where
  "apply_event k (Pop x) =
     Some (if x \<notin> objects k
           then (empty_diff\<lparr>objects_added := [x]\<rparr>,
                 k\<lparr>objects := insert x (objects k), parent := (parent k)(x \<mapsto> x)\<rparr>)
           else (empty_diff, k))"
| "apply_event k (Merge o1 o2) =
     (case rep k o1 of None \<Rightarrow> None | Some (r1, k1) \<Rightarrow>
      case rep k1 o2 of None \<Rightarrow> None | Some (r2, k2) \<Rightarrow>
        Some (if r1 \<noteq> r2
              then (case rewrite_loop r1 r2 (to_rewrite k2 r2) (relations k2, []) of
                      (R, added) \<Rightarrow>
                        (empty_diff\<lparr>relations_added := added, equivalences_changed := [(r2, r1)]\<rparr>,
                         k2\<lparr>relations := R, parent := (parent k2)(r2 \<mapsto> r1)\<rparr>))
              else (empty_diff, k2)))"
| "apply_event k (Link o1 o2 t) =
     (case rep k o1 of None \<Rightarrow> None | Some (r1, k1) \<Rightarrow>
      case rep k1 o2 of None \<Rightarrow> None | Some (r2, k2) \<Rightarrow>
        Some (if (r1, r2, t) \<notin> relations k2
              then (empty_diff\<lparr>relations_added := [(r1, r2, t)]\<rparr>,
                    k2\<lparr>relations := insert (r1, r2, t) (relations k2)\<rparr>)
              else (empty_diff, k2)))"
| "apply_event k (Unlink o1 o2 t) =
     (case rep k o1 of None \<Rightarrow> None | Some (r1, k1) \<Rightarrow>
      case rep k1 o2 of None \<Rightarrow> None | Some (r2, k2) \<Rightarrow>
        Some (if (r1, r2, t) \<in> relations k2
              then (empty_diff\<lparr>relations_removed := [(r1, r2, t)]\<rparr>,
                    k2\<lparr>relations := relations k2 - {(r1, r2, t)}\<rparr>)
              else (empty_diff, k2)))"
| "apply_event k (Collapse members x) =
     (case rep k x of None \<Rightarrow> None | Some (tgt, k1) \<Rightarrow>
      case collapse_loop tgt members (k1, []) of None \<Rightarrow> None | Some (k2, ch) \<Rightarrow>
        Some (empty_diff\<lparr>equivalences_changed := ch\<rparr>, k2))"
| "apply_event k (SetMeta x key v) =
     Some (empty_diff\<lparr>metadata_set := [(x, key, v)]\<rparr>,
           k\<lparr>metadata := (metadata k)(x \<mapsto>
                ((case metadata k x of None \<Rightarrow> Map.empty | Some m \<Rightarrow> m)(key \<mapsto> v)))\<rparr>)"

fun apply_events :: "kernel \<Rightarrow> event list \<Rightarrow> kernel option" where
  "apply_events k [] = Some k"
| "apply_events k (e # es) =
     (case apply_event k e of None \<Rightarrow> None | Some (d, k') \<Rightarrow> apply_events k' es)"

definition replay :: "event list \<Rightarrow> kernel option" where
  "replay evs = apply_events new_kernel evs"

text \<open>\<open>canonical_relations\<close> maps \<open>rep\<close> over the relations; every call compresses paths.\<close>

fun canon_rels_loop :: "relation list \<Rightarrow> kernel \<times> relation set \<Rightarrow> (kernel \<times> relation set) option"
where
  "canon_rels_loop [] (k, R) = Some (k, R)"
| "canon_rels_loop ((a, b, t) # rels) (k, R) =
     (case rep k a of None \<Rightarrow> None | Some (ra, k1) \<Rightarrow>
      case rep k1 b of None \<Rightarrow> None | Some (rb, k2) \<Rightarrow>
        canon_rels_loop rels (k2, insert (ra, rb, t) R))"

definition canonical_relations :: "kernel \<Rightarrow> (kernel \<times> relation set) option" where
  "canonical_relations k = canon_rels_loop (sorted_list_of_set (relations k)) (k, {})"

fun canon_eqs_loop :: "objid list \<Rightarrow> kernel \<times> (objid \<rightharpoonup> objid) \<Rightarrow>
    (kernel \<times> (objid \<rightharpoonup> objid)) option" where
  "canon_eqs_loop [] (k, m) = Some (k, m)"
| "canon_eqs_loop (x # xs) (k, m) =
     (case rep k x of None \<Rightarrow> None | Some (r, k') \<Rightarrow> canon_eqs_loop xs (k', m(x \<mapsto> r)))"

definition canonical_equivalences :: "kernel \<Rightarrow> (kernel \<times> (objid \<rightharpoonup> objid)) option" where
  "canonical_equivalences k = canon_eqs_loop (sorted_list_of_set (objects k)) (k, Map.empty)"

section \<open>The line format and the applet\<close>

definition parse_parts :: "string list \<Rightarrow> event option" where
  "parse_parts parts =
     (case parts of
        [] \<Rightarrow> None
      | w # args \<Rightarrow>
          if w = ''POP'' \<and> length args = 1 then Some (Pop (args ! 0))
          else if w = ''MERGE'' \<and> length args = 2 then Some (Merge (args ! 0) (args ! 1))
          else if w = ''LINK'' \<and> length args = 3
            then Some (Link (args ! 0) (args ! 1) (args ! 2))
          else if w = ''UNLINK'' \<and> length args = 3
            then Some (Unlink (args ! 0) (args ! 1) (args ! 2))
          else if w = ''COLLAPSE'' \<and> length args \<ge> 3 \<and> args ! (length args - 2) = ''->''
            then Some (Collapse (take (length args - 2) args) (args ! (length args - 1)))
          else if w = ''SETMETA'' \<and> length args = 3
            then Some (SetMeta (args ! 0) (args ! 1) (args ! 2))
          else None)"

definition parse_line :: "string \<Rightarrow> event option" where
  "parse_line line =
     (let l = trim line
      in if l = [] \<or> starts_with ''#'' l then None else parse_parts (split_whitespace l))"

text \<open>
  \<open>run\<close>. A line reader yields one result per line (\<^const>\<open>None\<close> for a line that could not
  be read, which the code drops); \<open>open_file\<close> is the file system, with the text of the
  error on failure. The result is the exit code, the lines on standard output and the
  lines on standard error; \<^const>\<open>None\<close> stands for a run that does not return.
\<close>

definition usage_text :: "string list" where
  "usage_text =
     [''Usage: spherepop [FILE]'',
      ''Replay a deterministic event log and print the resulting kernel state.'',
      ''Reads from FILE, or stdin if no FILE given.'', [],
      ''Event format (one per line):'', ''POP <id>'', ''MERGE <a> <b>'',
      ''LINK <a> <b> <type>'', ''UNLINK <a> <b> <type>'',
      ''COLLAPSE <id...> -> <representative>'', ''SETMETA <id> <key> <value>'',
      ''Lines starting with # and blank lines are ignored.'']"

definition read_events :: "string option list \<Rightarrow> event list" where
  "read_events ls =
     List.map_filter (\<lambda>l. case l of None \<Rightarrow> None | Some s \<Rightarrow> parse_line s) ls"

definition map_entries :: "(string \<rightharpoonup> 'v) \<Rightarrow> (string \<times> 'v) list" where
  "map_entries m = map (\<lambda>x. (x, the (m x))) (sorted_list_of_set (dom m))"

definition print_kernel :: "kernel \<Rightarrow> string list option" where
  "print_kernel k =
     (case canonical_equivalences k of None \<Rightarrow> None | Some (k1, equivs) \<Rightarrow>
      case canonical_relations k1 of None \<Rightarrow> None | Some (k2, rels) \<Rightarrow>
        Some ([''objects: '' @ show_nat (card (objects k))]
          @ map (\<lambda>(x, r). ''  '' @ x @ '' ~ '' @ r)
              (filter (\<lambda>(x, r). x \<noteq> r) (map_entries equivs))
          @ [''relations:'']
          @ map (\<lambda>(a, b, t). ''  '' @ a @ '' -'' @ t @ ''-> '' @ b) (sorted_list_of_set rels)
          @ [''metadata:'']
          @ concat (map (\<lambda>(x, kv). map (\<lambda>(key, v). ''  '' @ x @ ''.'' @ key @ '' = '' @ v)
                      (map_entries kv)) (map_entries (metadata k2)))))"

definition run_events :: "event list \<Rightarrow> (nat \<times> string list \<times> string list) option" where
  "run_events evs =
     (case replay evs of None \<Rightarrow> None | Some k \<Rightarrow>
      case print_kernel k of None \<Rightarrow> None | Some out \<Rightarrow> Some (0, out, []))"

definition run :: "(string \<Rightarrow> string + string option list) \<Rightarrow> string option list \<Rightarrow>
    string list \<Rightarrow> (nat \<times> string list \<times> string list) option" where
  "run open_file stdin_lines argv =
     (if \<exists>a \<in> set argv. a = ''-h'' \<or> a = ''--help'' then Some (0, usage_text, [])
      else case argv of
        path # _ \<Rightarrow>
          (case open_file path of
             Inr ls \<Rightarrow> run_events (read_events ls)
           | Inl e \<Rightarrow> Some (1, [], [''spherepop: '' @ path @ '': '' @ e]))
      | [] \<Rightarrow> run_events (read_events stdin_lines))"


section \<open>Representatives as an abstract relation\<close>

text \<open>\<open>root P x r\<close>: following parents from \<open>x\<close> ends at \<open>r\<close>. The relation is functional;
  that it is total is the invariant that makes every operation return.\<close>

inductive root :: "(objid \<rightharpoonup> objid) \<Rightarrow> objid \<Rightarrow> objid \<Rightarrow> bool" for P where
  stop: "P x = None \<or> P x = Some x \<Longrightarrow> root P x x"
| step: "P x = Some p \<Longrightarrow> p \<noteq> x \<Longrightarrow> root P p r \<Longrightarrow> root P x r"

definition uf_ok :: "(objid \<rightharpoonup> objid) \<Rightarrow> bool" where
  "uf_ok P \<longleftrightarrow> (\<forall>x. \<exists>r. root P x r)"

definition same_rep :: "(objid \<rightharpoonup> objid) \<Rightarrow> objid \<Rightarrow> objid \<Rightarrow> bool" where
  "same_rep P x y \<longleftrightarrow> (\<exists>r. root P x r \<and> root P y r)"

definition same_roots :: "(objid \<rightharpoonup> objid) \<Rightarrow> (objid \<rightharpoonup> objid) \<Rightarrow> bool" where
  "same_roots P Q \<longleftrightarrow> (\<forall>x r. root P x r \<longleftrightarrow> root Q x r)"

inductive_cases root_casesE: "root P x r"

lemma root_det: "root P x r \<Longrightarrow> root P x s \<Longrightarrow> r = s"
proof (induction arbitrary: s rule: root.induct)
  case (stop x)
  from stop.prems show ?case
    by (rule root_casesE) (use stop.hyps in auto)
next
  case (step x p r)
  from step.prems have "root P p s"
    by (rule root_casesE) (use step.hyps in auto)
  then show ?case by (rule step.IH)
qed

lemma root_end: "root P x r \<Longrightarrow> P r = None \<or> P r = Some r"
  by (induction rule: root.induct) auto

lemma root_is_root: "root P x r \<Longrightarrow> root P r r"
  by (rule root.stop) (rule root_end)

lemma root_self_iff: "root P x x \<longleftrightarrow> P x = None \<or> P x = Some x"
  by (blast intro: root.stop dest: root_end)

lemma same_roots_refl [simp]: "same_roots P P"
  by (simp add: same_roots_def)

lemma same_roots_trans: "same_roots P Q \<Longrightarrow> same_roots Q S \<Longrightarrow> same_roots P S"
  by (simp add: same_roots_def)

lemma same_roots_rootD: "same_roots P Q \<Longrightarrow> root P x r \<Longrightarrow> root Q x r"
  by (simp add: same_roots_def)

lemma same_roots_root: "same_roots P Q \<Longrightarrow> root Q x r \<longleftrightarrow> root P x r"
  by (simp add: same_roots_def)

lemma same_roots_same_rep: "same_roots P Q \<Longrightarrow> same_rep Q x y \<longleftrightarrow> same_rep P x y"
  by (simp add: same_rep_def same_roots_def)

lemma same_roots_ok: "same_roots P Q \<Longrightarrow> uf_ok P \<Longrightarrow> uf_ok Q"
  by (simp add: uf_ok_def same_roots_def)

lemma uf_okE:
  assumes "uf_ok P"
  obtains r where "root P x r"
  using assms by (auto simp: uf_ok_def)

text \<open>A total functional relation that contains another total one is that one.\<close>

lemma same_rootsI:
  assumes ok: "uf_ok P" and sub: "\<And>x r. root P x r \<Longrightarrow> root Q x r"
  shows "same_roots P Q"
  unfolding same_roots_def
proof (intro allI iffI)
  fix x r
  assume Q: "root Q x r"
  obtain s where s: "root P x s" using ok by (rule uf_okE)
  then have "r = s" using sub root_det Q by blast
  with s show "root P x r" by simp
qed (rule sub)

section \<open>Path compression\<close>

lemma root_shortcut:
  assumes x: "root P x r" "x \<noteq> r" and y: "root P y s"
  shows "root (P(x \<mapsto> r)) y s"
  using y
proof (induction rule: root.induct)
  case (stop y)
  have "y \<noteq> x" using stop x root_self_iff root_det by (metis root.stop)
  with stop show ?case by (intro root.stop) auto
next
  case (step y p s)
  show ?case
  proof (cases "y = x")
    case True
    have "s = r" using step.hyps x True by (metis root.step root_det)
    moreover have "root (P(x \<mapsto> r)) r r"
      using root_end [OF x(1)] x(2) by (intro root.stop) auto
    ultimately have "root (P(x \<mapsto> r)) x s"
      using x(2) by (metis fun_upd_same root.step)
    with True show ?thesis by (simp only:)
  next
    case False
    with step show ?thesis by (auto intro: root.step)
  qed
qed

lemma compress_simps [simp]:
  "compress P [] r = P"
  "compress P (x # xs) r = compress (P(x \<mapsto> r)) xs r"
  by (simp_all add: compress_def)

lemma compress_root:
  "root P y s \<Longrightarrow> \<forall>x \<in> set path. root P x r \<and> x \<noteq> r \<Longrightarrow> root (compress P path r) y s"
proof (induction path arbitrary: P)
  case Nil
  then show ?case by simp
next
  case (Cons x path)
  then have "\<forall>z \<in> set path. root (P(x \<mapsto> r)) z r \<and> z \<noteq> r"
    by (auto intro: root_shortcut)
  moreover have "root (P(x \<mapsto> r)) y s"
    using Cons.prems by (auto intro: root_shortcut)
  ultimately show ?case by (simp add: Cons.IH del: fun_upd_apply)
qed

lemma rep_loop_root:
  assumes "root P x r"
  shows "\<exists>xs. rep_loop P x path = Some (r, path @ xs) \<and> (\<forall>y \<in> set xs. root P y r \<and> y \<noteq> r)"
  using assms
proof (induction arbitrary: path rule: root.induct)
  case (stop x)
  then show ?case by (subst rep_loop.simps) (auto split: option.splits)
next
  case (step x p r)
  then obtain xs where xs: "rep_loop P p (path @ [x]) = Some (r, (path @ [x]) @ xs)"
    "\<forall>y \<in> set xs. root P y r \<and> y \<noteq> r"
    by blast
  have "x \<noteq> r" using root_end [OF step.hyps(3)] step.hyps(1,2) by auto
  moreover have "root P x r" using step.hyps by (rule root.step)
  moreover have "rep_loop P x path = Some (r, path @ (x # xs))"
    using step.hyps xs(1) by (subst rep_loop.simps) simp
  ultimately show ?case using xs(2) by auto
qed

lemma rep_root:
  assumes "uf_ok (parent k)" and r: "root (parent k) x r"
  shows "\<exists>P. rep k x = Some (r, k\<lparr>parent := P\<rparr>) \<and> same_roots (parent k) P"
proof -
  obtain xs where xs: "rep_loop (parent k) x [] = Some (r, xs)"
    "\<forall>y \<in> set xs. root (parent k) y r \<and> y \<noteq> r"
    using rep_loop_root [OF r, of "[]"] by auto
  then have "same_roots (parent k) (compress (parent k) xs r)"
    using assms(1) by (auto intro!: same_rootsI compress_root)
  with xs(1) show ?thesis by (auto simp: rep_def)
qed

text \<open>The rule the proofs about operations use: on a good union-find, \<open>rep\<close> returns the
  root and changes nothing but the parent pointers, keeping every root.\<close>

lemma rep_ok:
  assumes "uf_ok (parent k)"
  obtains r P where "rep k x = Some (r, k\<lparr>parent := P\<rparr>)" "root (parent k) x r"
    "same_roots (parent k) P" "uf_ok P"
proof -
  obtain r where r: "root (parent k) x r" using assms by (rule uf_okE)
  with assms obtain P where "rep k x = Some (r, k\<lparr>parent := P\<rparr>)" "same_roots (parent k) P"
    using rep_root by blast
  with r assms that same_roots_ok show thesis by blast
qed


section \<open>Links between classes\<close>

text \<open>Hanging one root under another moves the whole class and nothing else.\<close>

lemma root_link:
  assumes r1: "root P r1 r1" and r2: "root P r2 r2" and ne: "r1 \<noteq> r2" and y: "root P y s"
  shows "root (P(r2 \<mapsto> r1)) y (if s = r2 then r1 else s)"
  using y
proof (induction rule: root.induct)
  case (stop y)
  have "root (P(r2 \<mapsto> r1)) r1 r1"
    using r1 ne by (intro root.stop) (auto simp: root_self_iff)
  then have "root (P(r2 \<mapsto> r1)) r2 r1"
    using ne by (metis fun_upd_same root.step)
  moreover have "y \<noteq> r2 \<Longrightarrow> root (P(r2 \<mapsto> r1)) y y"
    using stop by (intro root.stop) auto
  ultimately show ?case by (simp del: fun_upd_apply)
next
  case (step y p s)
  have "y \<noteq> r2" using step.hyps r2 by (auto simp: root_self_iff)
  then show ?case
    by (intro root.step [OF _ step.hyps(2) step.IH]) (use step.hyps in auto)
qed

lemma uf_ok_link:
  assumes "uf_ok P" "root P r1 r1" "root P r2 r2" "r1 \<noteq> r2"
  shows "uf_ok (P(r2 \<mapsto> r1))"
  using assms root_link unfolding uf_ok_def by metis

lemma root_link_iff:
  assumes ok: "uf_ok P" and r: "root P r1 r1" "root P r2 r2" "r1 \<noteq> r2"
  shows "root (P(r2 \<mapsto> r1)) y u \<longleftrightarrow> (\<exists>s. root P y s \<and> u = (if s = r2 then r1 else s))"
proof
  assume u: "root (P(r2 \<mapsto> r1)) y u"
  obtain s where s: "root P y s" using ok by (rule uf_okE)
  then have "u = (if s = r2 then r1 else s)" using root_link [OF r s] u root_det by blast
  with s show "\<exists>s. root P y s \<and> u = (if s = r2 then r1 else s)" by blast
next
  assume "\<exists>s. root P y s \<and> u = (if s = r2 then r1 else s)"
  then show "root (P(r2 \<mapsto> r1)) y u" using root_link [OF r] by blast
qed

lemma same_rep_refl: "uf_ok P \<Longrightarrow> same_rep P x x"
  by (auto simp: same_rep_def uf_ok_def)

lemma same_rep_sym: "same_rep P x y \<Longrightarrow> same_rep P y x"
  by (auto simp: same_rep_def)

lemma same_rep_trans: "same_rep P x y \<Longrightarrow> same_rep P y z \<Longrightarrow> same_rep P x z"
  unfolding same_rep_def using root_det by blast

lemma same_rep_iff: "root P x r \<Longrightarrow> root P y s \<Longrightarrow> same_rep P x y \<longleftrightarrow> r = s"
  unfolding same_rep_def using root_det by blast

lemma same_rep_link:
  assumes ok: "uf_ok P" and a: "root P a r1" and b: "root P b r2" and ne: "r1 \<noteq> r2"
  shows "same_rep (P(r2 \<mapsto> r1)) x y \<longleftrightarrow>
     same_rep P x y \<or> (same_rep P x a \<and> same_rep P b y) \<or> (same_rep P x b \<and> same_rep P a y)"
proof -
  note rr = root_is_root [OF a] root_is_root [OF b]
  obtain s where s: "root P x s" using ok by (rule uf_okE)
  obtain t where t: "root P y t" using ok by (rule uf_okE)
  have "same_rep (P(r2 \<mapsto> r1)) x y \<longleftrightarrow>
      (if s = r2 then r1 else s) = (if t = r2 then r1 else t)"
    using root_link [OF rr ne s] root_link [OF rr ne t] by (rule same_rep_iff)
  moreover have "same_rep P x y \<longleftrightarrow> s = t" "same_rep P x a \<longleftrightarrow> s = r1"
    "same_rep P b y \<longleftrightarrow> r2 = t" "same_rep P x b \<longleftrightarrow> s = r2" "same_rep P a y \<longleftrightarrow> r1 = t"
    using s t a b by (simp_all add: same_rep_iff)
  ultimately show ?thesis using ne by auto
qed

lemma uf_ok_pop: "uf_ok P \<Longrightarrow> uf_ok (P(x \<mapsto> x))"
proof -
  have "root P y r \<Longrightarrow> \<exists>s. root (P(x \<mapsto> x)) y s" for y r
  proof (induction rule: root.induct)
    case (stop y)
    have "root (P(x \<mapsto> x)) y y" using stop by (intro root.stop) auto
    then show ?case ..
  next
    case (step y p r)
    then obtain s where s: "root (P(x \<mapsto> x)) p s" by blast
    show ?case
    proof (cases "y = x")
      case True
      have "root (P(x \<mapsto> x)) y y" using True by (intro root.stop) auto
      then show ?thesis ..
    next
      case False
      then have "root (P(x \<mapsto> x)) y s"
        by (intro root.step [OF _ step.hyps(2) s]) (use step.hyps in auto)
      then show ?thesis ..
    qed
  qed
  then show "uf_ok P \<Longrightarrow> uf_ok (P(x \<mapsto> x))" unfolding uf_ok_def by blast
qed


section \<open>The invariant of the kernel\<close>

definition kernel_ok :: "kernel \<Rightarrow> bool" where
  "kernel_ok k \<longleftrightarrow> uf_ok (parent k) \<and> finite (objects k) \<and> finite (relations k)"

text \<open>Relations are stored in representative-normalised form.\<close>

definition normalised :: "kernel \<Rightarrow> bool" where
  "normalised k \<longleftrightarrow> (\<forall>(a, b, t) \<in> relations k. root (parent k) a a \<and> root (parent k) b b)"

definition is_collapse :: "event \<Rightarrow> bool" where
  "is_collapse e = (case e of Collapse _ _ \<Rightarrow> True | _ \<Rightarrow> False)"

lemma rep2_ok:
  assumes "uf_ok (parent k)"
  obtains r1 r2 P1 P where "rep k x = Some (r1, k\<lparr>parent := P1\<rparr>)"
    "rep (k\<lparr>parent := P1\<rparr>) y = Some (r2, k\<lparr>parent := P\<rparr>)"
    "root (parent k) x r1" "root (parent k) y r2" "same_roots (parent k) P" "uf_ok P"
proof -
  obtain r1 P1 where 1: "rep k x = Some (r1, k\<lparr>parent := P1\<rparr>)" "root (parent k) x r1"
    "same_roots (parent k) P1" "uf_ok P1"
    using assms by (rule rep_ok)
  obtain r2 P where 2: "rep (k\<lparr>parent := P1\<rparr>) y = Some (r2, k\<lparr>parent := P1, parent := P\<rparr>)"
    "root P1 y r2" "same_roots P1 P" "uf_ok P"
    using rep_ok [of "k\<lparr>parent := P1\<rparr>" y] 1(4) by auto
  have "root (parent k) y r2" using 2(2) same_roots_root [OF 1(3)] by simp
  moreover have "same_roots (parent k) P" using 1(3) 2(3) by (rule same_roots_trans)
  ultimately show thesis using that 1 2 by simp
qed

lemma rewrite_rel_idem: "\<not> incident r2 rel \<Longrightarrow> rewrite_rel r1 r2 rel = rel"
  by (cases rel) (auto simp: incident_def rewrite_rel_def)

lemma rewrite_rel_fresh: "r1 \<noteq> r2 \<Longrightarrow> \<not> incident r2 (rewrite_rel r1 r2 rel)"
  by (cases rel) (auto simp: incident_def rewrite_rel_def)

lemma rewrite_loop_set:
  assumes "r1 \<noteq> r2"
  shows "\<forall>rel \<in> set olds. incident r2 rel \<Longrightarrow>
    fst (rewrite_loop r1 r2 olds (R, added)) = (R - set olds) \<union> rewrite_rel r1 r2 ` set olds"
proof (induction olds arbitrary: R added)
  case Nil
  then show ?case by simp
next
  case (Cons old olds)
  let ?new = "rewrite_rel r1 r2 old" and ?R = "R - {old}"
  have "?new \<notin> set olds" using Cons.prems rewrite_rel_fresh [OF assms, of old] by auto
  moreover have "fst (rewrite_loop r1 r2 (old # olds) (R, added)) =
      (insert ?new ?R - set olds) \<union> rewrite_rel r1 r2 ` set olds"
    using Cons by (auto simp: Let_def insert_absorb)
  ultimately show ?case by auto
qed

lemma rewrite_all:
  assumes "r1 \<noteq> r2" "finite (relations k)"
  shows "fst (rewrite_loop r1 r2 (to_rewrite k r2) (relations k, added)) =
    rewrite_rel r1 r2 ` relations k"
proof -
  have set: "set (to_rewrite k r2) = {rel \<in> relations k. incident r2 rel}"
    using assms(2) by (auto simp: to_rewrite_def)
  then have "fst (rewrite_loop r1 r2 (to_rewrite k r2) (relations k, added)) =
      {rel \<in> relations k. \<not> incident r2 rel} \<union>
      rewrite_rel r1 r2 ` {rel \<in> relations k. incident r2 rel}"
    using assms(1) by (subst rewrite_loop_set) auto
  also have "\<dots> = rewrite_rel r1 r2 ` relations k"
    by (force simp: rewrite_rel_idem image_def)
  finally show ?thesis .
qed

text \<open>What \<open>Merge\<close> does, in one equation per branch.\<close>

lemma merge_cases:
  assumes "kernel_ok k"
  obtains (same) r P where "root (parent k) x r" "root (parent k) y r"
      "same_roots (parent k) P" "uf_ok P"
      "apply_event k (Merge x y) = Some (empty_diff, k\<lparr>parent := P\<rparr>)"
  | (join) r1 r2 P d where "root (parent k) x r1" "root (parent k) y r2" "r1 \<noteq> r2"
      "same_roots (parent k) P" "uf_ok P"
      "apply_event k (Merge x y) = Some (d, k\<lparr>parent := P(r2 \<mapsto> r1),
         relations := rewrite_rel r1 r2 ` relations k\<rparr>)"
      "equivalences_changed d = [(r2, r1)]"
proof -
  have ok: "uf_ok (parent k)" "finite (relations k)" using assms by (simp_all add: kernel_ok_def)
  obtain r1 r2 P1 P where r: "rep k x = Some (r1, k\<lparr>parent := P1\<rparr>)"
    "rep (k\<lparr>parent := P1\<rparr>) y = Some (r2, k\<lparr>parent := P\<rparr>)"
    "root (parent k) x r1" "root (parent k) y r2" "same_roots (parent k) P" "uf_ok P"
    using ok(1) by (rule rep2_ok)
  show thesis
  proof (cases "r1 = r2")
    case True
    with r show thesis by (intro same) auto
  next
    case False
    have "fst (rewrite_loop r1 r2 (to_rewrite (k\<lparr>parent := P\<rparr>) r2) (relations k, [])) =
        rewrite_rel r1 r2 ` relations k"
      using rewrite_all [OF False, of "k\<lparr>parent := P\<rparr>"] ok(2) by simp
    then obtain added where
      "rewrite_loop r1 r2 (to_rewrite (k\<lparr>parent := P\<rparr>) r2) (relations k, []) =
        (rewrite_rel r1 r2 ` relations k, added)"
      by (metis prod.collapse)
    then have "apply_event k (Merge x y) =
        Some (empty_diff\<lparr>relations_added := added, equivalences_changed := [(r2, r1)]\<rparr>,
          k\<lparr>parent := P(r2 \<mapsto> r1), relations := rewrite_rel r1 r2 ` relations k\<rparr>)"
      using False r(1,2) by simp
    from join [OF r(3,4) False r(5,6) this] show thesis by simp
  qed
qed


lemma collapse_loop_ok:
  assumes "root (parent k) tgt tgt" "kernel_ok k"
  shows "\<exists>P ch'. collapse_loop tgt ms (k, ch) = Some (k\<lparr>parent := P\<rparr>, ch') \<and> uf_ok P"
  using assms
proof (induction ms arbitrary: k ch)
  case Nil
  then show ?case by (auto simp: kernel_ok_def intro!: exI [of _ "parent k"])
next
  case (Cons m ms)
  from Cons.prems have "uf_ok (parent k)" by (simp add: kernel_ok_def)
  then obtain r P where r: "rep k m = Some (r, k\<lparr>parent := P\<rparr>)" "root (parent k) m r"
    "same_roots (parent k) P" "uf_ok P"
    by (rule rep_ok)
  have rt: "root P tgt tgt" "root P r r"
    using r(2,3) Cons.prems(1) by (auto simp: same_roots_def dest: root_is_root)
  let ?P = "if r \<noteq> tgt then P(r \<mapsto> tgt) else P"
  have "uf_ok ?P" using r(4) rt uf_ok_link by auto
  moreover have "root ?P tgt tgt" using rt by (auto simp: root_self_iff)
  ultimately have "\<exists>Q ch'. collapse_loop tgt ms (k\<lparr>parent := ?P\<rparr>, c) =
      Some (k\<lparr>parent := Q\<rparr>, ch') \<and> uf_ok Q" for c
    using Cons.IH [of "k\<lparr>parent := ?P\<rparr>"] Cons.prems(2) by (auto simp: kernel_ok_def)
  then show ?case using r(1) by (cases "r = tgt") auto
qed

lemma apply_event_ok [rb_inv]:
  assumes "kernel_ok k"
  shows "\<exists>d k'. apply_event k e = Some (d, k') \<and> kernel_ok k'"
proof -
  have ok: "uf_ok (parent k)" using assms by (simp add: kernel_ok_def)
  show ?thesis
  proof (cases e)
    case (Pop x)
    with assms show ?thesis by (auto simp: kernel_ok_def uf_ok_pop)
  next
    case (Merge x y)
    have "uf_ok (P(r2 \<mapsto> r1))" if "uf_ok P" "same_roots (parent k) P"
      "root (parent k) x r1" "root (parent k) y r2" "r1 \<noteq> r2" for P r1 r2
      using that by (intro uf_ok_link) (auto simp: same_roots_def dest: root_is_root)
    then show ?thesis using assms
      by (rule_tac merge_cases [OF assms, of x y]) (auto simp: Merge kernel_ok_def)
  next
    case (Link x y t)
    with assms show ?thesis by (rule_tac rep2_ok [OF ok, of x y]) (auto simp: kernel_ok_def)
  next
    case (Unlink x y t)
    with assms show ?thesis by (rule_tac rep2_ok [OF ok, of x y]) (auto simp: kernel_ok_def)
  next
    case (Collapse ms x)
    obtain r P where r: "rep k x = Some (r, k\<lparr>parent := P\<rparr>)" "root (parent k) x r"
      "same_roots (parent k) P" "uf_ok P"
      using ok by (rule rep_ok)
    have "root P r r" using r(2,3) by (auto simp: same_roots_def dest: root_is_root)
    then obtain Q ch where "collapse_loop r ms (k\<lparr>parent := P\<rparr>, []) = Some (k\<lparr>parent := Q\<rparr>, ch)"
      "uf_ok Q"
      using collapse_loop_ok [of "k\<lparr>parent := P\<rparr>" r ms "[]"] assms r(4)
      by (auto simp: kernel_ok_def)
    with r(1) assms show ?thesis by (auto simp: Collapse kernel_ok_def)
  next
    case (SetMeta x key v)
    with assms show ?thesis by (auto simp: kernel_ok_def)
  qed
qed

lemma new_kernel_ok: "kernel_ok new_kernel"
  by (auto simp: kernel_ok_def new_kernel_def uf_ok_def intro: root.stop)

lemma apply_events_Cons':
  "apply_events k (e # es) =
     Option.bind (map_option snd (apply_event k e)) (\<lambda>k'. apply_events k' es)"
  by (cases "apply_event k e") auto

interpretation sp: replayable "\<lambda>k e. map_option snd (apply_event k e)" apply_events kernel_ok
  "\<lambda>_. True"
proof
  fix k e
  assume "kernel_ok k"
  then show "\<exists>k'. map_option snd (apply_event k e) = Some k' \<and> kernel_ok k'"
    using apply_event_ok [of k e] by auto
qed (simp_all only: apply_events.simps(1) apply_events_Cons')

section \<open>Normal form of the relations\<close>

lemma normalised_same_roots:
  "normalised k \<Longrightarrow> same_roots (parent k) P \<Longrightarrow> normalised (k\<lparr>parent := P\<rparr>)"
  by (auto simp: normalised_def same_roots_def)

lemma normalised_merge:
  assumes "normalised k" and same: "same_roots (parent k) P"
    and r: "root (parent k) r1 r1" "r1 \<noteq> r2"
  shows "normalised (k\<lparr>parent := P(r2 \<mapsto> r1), relations := rewrite_rel r1 r2 ` relations k\<rparr>)"
proof -
  have P: "root P x x \<Longrightarrow> x \<noteq> r2 \<Longrightarrow> root (P(r2 \<mapsto> r1)) x x" for x
    by (simp add: root_self_iff)
  have r1: "root (P(r2 \<mapsto> r1)) r1 r1" using r same by (intro P) (auto simp: same_roots_def)
  have "root (P(r2 \<mapsto> r1)) (if x = r2 then r1 else x) (if x = r2 then r1 else x)"
    if "root (parent k) x x" for x
    using that r1 P same by (auto simp: same_roots_def simp del: fun_upd_apply)
  then show ?thesis
    using assms(1) by (auto simp: normalised_def rewrite_rel_def simp del: fun_upd_apply)
qed

lemma normalised_step [rb_inv]:
  assumes ok: "kernel_ok k" and n: "normalised k" and e: "\<not> is_collapse e"
    and app: "apply_event k e = Some (d, k')"
  shows "normalised k'"
proof -
  have uf: "uf_ok (parent k)" using ok by (simp add: kernel_ok_def)
  show ?thesis
  proof (cases e)
    case (Pop x)
    with app n show ?thesis
      by (auto simp: normalised_def root_self_iff split: if_splits)
  next
    case (Merge x y)
    show ?thesis
    proof (rule merge_cases [OF ok, of x y])
      fix r P
      assume "same_roots (parent k) P" "apply_event k (Merge x y) = Some (empty_diff, k\<lparr>parent := P\<rparr>)"
      with app Merge n show ?thesis by (auto intro: normalised_same_roots)
    next
      fix r1 r2 P d'
      assume *: "root (parent k) x r1" "r1 \<noteq> r2" "same_roots (parent k) P"
        "apply_event k (Merge x y) = Some (d', k\<lparr>parent := P(r2 \<mapsto> r1),
           relations := rewrite_rel r1 r2 ` relations k\<rparr>)"
      then have "k' = k\<lparr>parent := P(r2 \<mapsto> r1), relations := rewrite_rel r1 r2 ` relations k\<rparr>"
        using app Merge by simp
      then show ?thesis
        using normalised_merge [OF n *(3) root_is_root [OF *(1)] *(2)] by (simp only:)
    qed
  next
    case (Link x y t)
    obtain r1 r2 P1 P where r: "rep k x = Some (r1, k\<lparr>parent := P1\<rparr>)"
      "rep (k\<lparr>parent := P1\<rparr>) y = Some (r2, k\<lparr>parent := P\<rparr>)"
      "root (parent k) x r1" "root (parent k) y r2" "same_roots (parent k) P" "uf_ok P"
      using uf by (rule rep2_ok)
    have "root P r1 r1" "root P r2 r2"
      using r(3,4,5) by (auto simp: same_roots_def dest: root_is_root)
    moreover have "normalised (k\<lparr>parent := P\<rparr>)" using n r(5) by (rule normalised_same_roots)
    ultimately show ?thesis using app Link r(1,2) by (auto simp: normalised_def split: if_splits)
  next
    case (Unlink x y t)
    obtain r1 r2 P1 P where r: "rep k x = Some (r1, k\<lparr>parent := P1\<rparr>)"
      "rep (k\<lparr>parent := P1\<rparr>) y = Some (r2, k\<lparr>parent := P\<rparr>)"
      "root (parent k) x r1" "root (parent k) y r2" "same_roots (parent k) P" "uf_ok P"
      using uf by (rule rep2_ok)
    have "normalised (k\<lparr>parent := P\<rparr>)" using n r(5) by (rule normalised_same_roots)
    then show ?thesis using app Unlink r(1,2) by (auto simp: normalised_def split: if_splits)
  next
    case (Collapse ms x)
    with e show ?thesis by (simp add: is_collapse_def)
  next
    case (SetMeta x key v)
    with app n show ?thesis by (auto simp: normalised_def)
  qed
qed

interpretation sp_norm: replayable "\<lambda>k e. map_option snd (apply_event k e)" apply_events
  "\<lambda>k. kernel_ok k \<and> normalised k" "\<lambda>e. \<not> is_collapse e"
proof
  fix k e
  assume *: "kernel_ok k \<and> normalised k" "\<not> is_collapse e"
  then obtain d k' where k': "apply_event k e = Some (d, k')" "kernel_ok k'"
    using apply_event_ok [of k e] by auto
  with * show "\<exists>k'. map_option snd (apply_event k e) = Some k' \<and> kernel_ok k' \<and> normalised k'"
    using normalised_step [of k e d k'] by auto
qed (simp_all only: apply_events.simps(1) apply_events_Cons')

section \<open>Merging computes the equivalence closure\<close>

definition rep_classes :: "kernel \<Rightarrow> (objid \<times> objid) set" where
  "rep_classes k = {(x, y). same_rep (parent k) x y}"

definition merge_log :: "(objid \<times> objid) list \<Rightarrow> event list" where
  "merge_log ms = map (\<lambda>(x, y). Merge x y) ms"

lemma rep_classes_same_roots: "same_roots (parent k) P \<Longrightarrow> rep_classes (k\<lparr>parent := P\<rparr>) = rep_classes k"
  by (simp add: rep_classes_def same_roots_same_rep)

lemma rep_classes_refl: "kernel_ok k \<Longrightarrow> (x, x) \<in> rep_classes k"
  by (simp add: rep_classes_def kernel_ok_def same_rep_refl)

lemma rep_classes_sym: "(x, y) \<in> rep_classes k \<Longrightarrow> (y, x) \<in> rep_classes k"
  by (simp add: rep_classes_def same_rep_sym)

lemma rep_classes_trans:
  "(x, y) \<in> rep_classes k \<Longrightarrow> (y, z) \<in> rep_classes k \<Longrightarrow> (x, z) \<in> rep_classes k"
  unfolding rep_classes_def using same_rep_trans by blast

lemma rep_classes_rtrancl: "kernel_ok k \<Longrightarrow> (rep_classes k)\<^sup>* = rep_classes k"
proof (intro equalityI subsetI)
  fix p
  assume ok: "kernel_ok k" and p: "p \<in> (rep_classes k)\<^sup>*"
  obtain x y where xy: "p = (x, y)" by (cases p)
  have "(x, y) \<in> (rep_classes k)\<^sup>* \<Longrightarrow> (x, y) \<in> rep_classes k"
  proof (induction rule: rtrancl_induct)
    case base
    show ?case using ok by (rule rep_classes_refl)
  next
    case (step y z)
    from step.IH step.hyps(2) show ?case by (rule rep_classes_trans)
  qed
  with p xy show "p \<in> rep_classes k" by simp
qed auto

lemma merge_rep_classes:
  assumes ok: "kernel_ok k" and app: "apply_event k (Merge a b) = Some (d, k')"
  shows "rep_classes k' = rep_classes k
     \<union> {(x, y). (x, a) \<in> rep_classes k \<and> (b, y) \<in> rep_classes k}
     \<union> {(x, y). (x, b) \<in> rep_classes k \<and> (a, y) \<in> rep_classes k}"
proof (rule merge_cases [OF ok, of a b])
  fix r P
  assume *: "root (parent k) a r" "root (parent k) b r" "same_roots (parent k) P"
    "apply_event k (Merge a b) = Some (empty_diff, k\<lparr>parent := P\<rparr>)"
  then have ab: "(a, b) \<in> rep_classes k" by (auto simp: same_rep_def rep_classes_def)
  have "k' = k\<lparr>parent := P\<rparr>" using *(4) app by (simp only: option.inject prod.inject)
  then have "rep_classes k' = rep_classes k" using *(3) by (simp add: rep_classes_same_roots)
  then show ?thesis using ab rep_classes_sym [OF ab] rep_classes_trans by blast
next
  fix r1 r2 P d'
  assume *: "root (parent k) a r1" "root (parent k) b r2" "r1 \<noteq> r2" "same_roots (parent k) P"
    "uf_ok P" "apply_event k (Merge a b) = Some (d', k\<lparr>parent := P(r2 \<mapsto> r1),
       relations := rewrite_rel r1 r2 ` relations k\<rparr>)"
  have k': "parent k' = P(r2 \<mapsto> r1)" using *(6) app by (auto simp del: apply_event.simps)
  have r: "root P a r1" "root P b r2" using * by (auto simp: same_roots_def)
  show ?thesis
    using same_rep_link [OF *(5) r *(3)] same_roots_same_rep [OF *(4)]
    by (auto simp: rep_classes_def k' simp del: fun_upd_apply)
qed

lemma merge_rep_classes_closure:
  assumes ok: "kernel_ok k" and app: "apply_event k (Merge a b) = Some (d, k')"
  shows "(rep_classes k' \<union> S)\<^sup>* = (rep_classes k \<union> {(a, b), (b, a)} \<union> S)\<^sup>*"
proof (rule rtrancl_subset)
  show "rep_classes k \<union> {(a, b), (b, a)} \<union> S \<subseteq> rep_classes k' \<union> S"
    using merge_rep_classes [OF assms] rep_classes_refl [OF ok] by auto
  have "(x, y) \<in> (rep_classes k \<union> {(a, b), (b, a)} \<union> S)\<^sup>*"
    if "(x, u) \<in> rep_classes k" "(v, y) \<in> rep_classes k" "(u, v) \<in> {(a, b), (b, a)}" for x y u v
  proof -
    let ?R = "rep_classes k \<union> {(a, b), (b, a)} \<union> S"
    have "(x, u) \<in> ?R" "(u, v) \<in> ?R" "(v, y) \<in> ?R" using that by auto
    then show ?thesis by (meson r_into_rtrancl rtrancl_trans)
  qed
  then show "rep_classes k' \<union> S \<subseteq> (rep_classes k \<union> {(a, b), (b, a)} \<union> S)\<^sup>*"
    using merge_rep_classes [OF assms] by blast
qed

lemma merge_log_closure:
  assumes "kernel_ok k" "apply_events k (merge_log ms) = Some k'"
  shows "rep_classes k' = (rep_classes k \<union> set ms \<union> (set ms)\<inverse>)\<^sup>*"
  using assms
proof (induction ms arbitrary: k)
  case Nil
  then show ?case by (simp add: merge_log_def rep_classes_rtrancl)
next
  case (Cons m ms)
  obtain a b where m: "m = (a, b)" by (cases m)
  obtain d k1 where k1: "apply_event k (Merge a b) = Some (d, k1)" "kernel_ok k1"
    using apply_event_ok Cons.prems(1) by blast
  then have "apply_events k1 (merge_log ms) = Some k'"
    using Cons.prems(2) m by (simp add: merge_log_def)
  then have "rep_classes k' = (rep_classes k1 \<union> (set ms \<union> (set ms)\<inverse>))\<^sup>*"
    using Cons.IH k1(2) by (simp add: Un_assoc)
  also have "\<dots> = (rep_classes k \<union> {(a, b), (b, a)} \<union> (set ms \<union> (set ms)\<inverse>))\<^sup>*"
    using Cons.prems(1) k1(1) by (rule merge_rep_classes_closure)
  also have "rep_classes k \<union> {(a, b), (b, a)} \<union> (set ms \<union> (set ms)\<inverse>) =
      rep_classes k \<union> set (m # ms) \<union> (set (m # ms))\<inverse>"
    by (auto simp: m)
  finally show ?case .
qed


section \<open>Canonical relations\<close>

lemma canon_rels_loop_normal:
  assumes "kernel_ok k" "\<forall>(a, b, t) \<in> set rels. root (parent k) a a \<and> root (parent k) b b"
  shows "\<exists>P. canon_rels_loop rels (k, R) = Some (k\<lparr>parent := P\<rparr>, R \<union> set rels)"
  using assms
proof (induction rels arbitrary: k R)
  case Nil
  show ?case by (auto intro!: exI [of _ "parent k"])
next
  case (Cons rel rels)
  obtain a b t where rel: "rel = (a, b, t)" by (cases rel)
  have "uf_ok (parent k)" using Cons.prems(1) by (simp add: kernel_ok_def)
  then obtain r1 r2 P1 P where r: "rep k a = Some (r1, k\<lparr>parent := P1\<rparr>)"
    "rep (k\<lparr>parent := P1\<rparr>) b = Some (r2, k\<lparr>parent := P\<rparr>)"
    "root (parent k) a r1" "root (parent k) b r2" "same_roots (parent k) P" "uf_ok P"
    by (rule rep2_ok)
  have "r1 = a" "r2 = b" using Cons.prems(2) r(3,4) rel root_det by auto
  moreover have "\<exists>Q. canon_rels_loop rels (k\<lparr>parent := P\<rparr>, insert (a, b, t) R) =
      Some (k\<lparr>parent := P, parent := Q\<rparr>, insert (a, b, t) R \<union> set rels)"
    using Cons.prems r(5,6)
    by (intro Cons.IH) (auto simp: kernel_ok_def same_roots_def)
  ultimately show ?case using r(1,2) rel by auto
qed

lemma canonical_relations_normal:
  assumes "kernel_ok k" "normalised k"
  shows "\<exists>P. canonical_relations k = Some (k\<lparr>parent := P\<rparr>, relations k)"
  using canon_rels_loop_normal [OF assms(1), of "sorted_list_of_set (relations k)" "{}"] assms
  by (auto simp: canonical_relations_def kernel_ok_def normalised_def)

lemma replay_ok: "replay evs = Some k \<Longrightarrow> kernel_ok k"
  using sp.run_log_inv [OF new_kernel_ok, of evs] by (auto simp: replay_def)

section \<open>Properties\<close>

text \<open>C1. Replaying any event log from the empty kernel returns: no sequence of events
  builds a parent cycle that would trap the \<open>rep\<close> loop, and the kernel it yields is well
  formed.\<close>

theorem replay_total: "\<exists>k. replay evs = Some k \<and> kernel_ok k"
  unfolding replay_def by (rule sp.run_log_inv [OF new_kernel_ok]) simp

text \<open>C2. Merge confluence: from any well-formed kernel, two logs of merges with the same
  pairs, in any order and multiplicity, both return and give the same partition of the
  objects, the least equivalence that contains the old one and every merged pair.\<close>

theorem merge_confluence:
  assumes "kernel_ok k" "set ms = set ns"
  shows "\<exists>k1 k2. apply_events k (merge_log ms) = Some k1 \<and> apply_events k (merge_log ns) = Some k2 \<and>
    rep_classes k1 = (rep_classes k \<union> set ms \<union> (set ms)\<inverse>)\<^sup>* \<and> rep_classes k2 = rep_classes k1"
proof -
  obtain k1 k2 where k: "apply_events k (merge_log ms) = Some k1"
    "apply_events k (merge_log ns) = Some k2"
    using sp.run_log_inv [OF assms(1), of "merge_log ms"] sp.run_log_inv [OF assms(1), of "merge_log ns"]
    by auto
  with merge_log_closure [OF assms(1)] assms(2) show ?thesis by simp
qed

theorem merge_confluence_witness:
  "\<exists>k1 k2. apply_events new_kernel (merge_log [(''a'', ''b''), (''b'', ''c'')]) = Some k1 \<and>
    apply_events new_kernel (merge_log [(''b'', ''c''), (''a'', ''b'')]) = Some k2 \<and>
    rep_classes k1 = (rep_classes new_kernel \<union> {(''a'', ''b''), (''b'', ''c'')}
      \<union> {(''a'', ''b''), (''b'', ''c'')}\<inverse>)\<^sup>* \<and> rep_classes k2 = rep_classes k1"
  using merge_confluence [OF new_kernel_ok, of "[(''a'', ''b''), (''b'', ''c'')]"
      "[(''b'', ''c''), (''a'', ''b'')]"] by (simp add: insert_commute)

text \<open>C3. Relations are kept in representative-normalised form by every log without a
  \<open>COLLAPSE\<close>: both ends of every stored relation are representatives, so canonicalising
  the relations of the replayed kernel returns exactly the stored ones.\<close>

theorem replay_normalised:
  assumes "\<forall>e \<in> set evs. \<not> is_collapse e"
  shows "\<exists>k P. replay evs = Some k \<and> normalised k \<and>
    canonical_relations k = Some (k\<lparr>parent := P\<rparr>, relations k)"
proof -
  have "kernel_ok new_kernel \<and> normalised new_kernel"
    using new_kernel_ok by (simp add: normalised_def) (simp add: new_kernel_def)
  from sp_norm.run_log_inv [OF this assms] show ?thesis
    using canonical_relations_normal by (auto simp: replay_def)
qed

theorem replay_normalised_witness:
  "\<exists>k P. replay [Pop ''a'', Pop ''b'', Link ''a'' ''b'' ''knows'', Merge ''b'' ''a''] = Some k \<and>
    normalised k \<and> canonical_relations k = Some (k\<lparr>parent := P\<rparr>, relations k)"
  by (rule replay_normalised) (simp add: is_collapse_def)

text \<open>\<open>MERGE\<close> is idempotent: repeating a merge reports an empty diff and leaves the
  objects, the relations, the metadata and every representative as they were.\<close>

theorem merge_idempotent:
  assumes "kernel_ok k"
  shows "\<exists>d k1 P. apply_event k (Merge a b) = Some (d, k1) \<and>
    apply_event k1 (Merge a b) = Some (empty_diff, k1\<lparr>parent := P\<rparr>) \<and> same_roots (parent k1) P"
proof -
  obtain d k1 where k1: "apply_event k (Merge a b) = Some (d, k1)" "kernel_ok k1"
    using apply_event_ok assms by blast
  have "(a, b) \<in> rep_classes k1"
    using merge_rep_classes [OF assms k1(1)] rep_classes_refl [OF assms] by auto
  then have same: "same_rep (parent k1) a b" by (simp add: rep_classes_def)
  have "\<exists>P. apply_event k1 (Merge a b) = Some (empty_diff, k1\<lparr>parent := P\<rparr>) \<and>
      same_roots (parent k1) P"
    by (rule merge_cases [OF k1(2), of a b]) (use same same_rep_iff in blast)+
  with k1 show ?thesis by blast
qed

theorem merge_idempotent_witness:
  "\<exists>d k1 P. apply_event new_kernel (Merge ''a'' ''b'') = Some (d, k1) \<and>
    apply_event k1 (Merge ''a'' ''b'') = Some (empty_diff, k1\<lparr>parent := P\<rparr>) \<and>
    same_roots (parent k1) P"
  by (rule merge_idempotent [OF new_kernel_ok])


text \<open>C5. \<open>COLLAPSE\<close> leaves relations under the absorbed name: when a stored relation
  starts at a representative \<open>a\<close> and \<open>a\<close> is then collapsed into another class, the stored
  relation still names \<open>a\<close> and a later \<open>UNLINK a b t\<close> does not remove it.\<close>

theorem collapse_keeps_stale_relation:
  assumes ok: "kernel_ok k" and a: "root (parent k) a a" and r: "root (parent k) x r" "r \<noteq> a"
    and rel: "(a, b, t) \<in> relations k"
  shows "\<exists>k'. apply_events k [Collapse [a] x, Unlink a b t] = Some k' \<and> (a, b, t) \<in> relations k'"
proof -
  have uf: "uf_ok (parent k)" using ok by (simp add: kernel_ok_def)
  obtain P where P: "rep k x = Some (r, k\<lparr>parent := P\<rparr>)" "same_roots (parent k) P"
    using rep_root [OF uf r(1)] by blast
  have uP: "uf_ok P" "root P a a" "root P r r"
    using uf a r(1) P(2) same_roots_ok root_is_root by (auto simp: same_roots_def)
  obtain Q where Q: "rep (k\<lparr>parent := P\<rparr>) a = Some (a, k\<lparr>parent := Q\<rparr>)" "same_roots P Q"
    using rep_root [of "k\<lparr>parent := P\<rparr>" a a] uP by auto
  have uQ: "uf_ok Q" "root Q a a" "root Q r r"
    using uP Q(2) same_roots_ok by (auto simp: same_roots_def)
  let ?k = "k\<lparr>parent := Q(a \<mapsto> r)\<rparr>"
  have ra: "root (Q(a \<mapsto> r)) a r" using root_link [OF uQ(3,2) r(2) uQ(2)] by simp
  have ok': "uf_ok (parent ?k)" using uf_ok_link [OF uQ(1) uQ(3,2) r(2)] by simp
  obtain r1 r2 P1 P2 where u: "rep ?k a = Some (r1, ?k\<lparr>parent := P1\<rparr>)"
    "rep (?k\<lparr>parent := P1\<rparr>) b = Some (r2, ?k\<lparr>parent := P2\<rparr>)" "root (parent ?k) a r1"
    using ok' by (rule rep2_ok)
  have "r1 = r" using u(3) ra root_det by (metis kernel.select_convs(2) kernel.surjective kernel.update_convs(2))
  then show ?thesis using P(1) Q(1) u(1,2) r(2) rel by auto
qed

definition stale_kernel :: kernel where
  "stale_kernel = \<lparr>objects = {''a'', ''b'', ''r''},
     parent = [''a'' \<mapsto> ''a'', ''b'' \<mapsto> ''b'', ''r'' \<mapsto> ''r''],
     relations = {(''a'', ''b'', ''knows'')}, metadata = Map.empty\<rparr>"

lemma stale_kernel_replay:
  "replay [Pop ''a'', Pop ''b'', Pop ''r'', Link ''a'' ''b'' ''knows''] = Some stale_kernel"
  by (auto simp: replay_def new_kernel_def stale_kernel_def rep_def rep_loop.simps compress_def
      fun_eq_iff)

theorem collapse_keeps_stale_relation_witness:
  "\<exists>k'. apply_events stale_kernel [Collapse [''a''] ''r'', Unlink ''a'' ''b'' ''knows''] = Some k' \<and>
    (''a'', ''b'', ''knows'') \<in> relations k'"
proof (rule collapse_keeps_stale_relation)
  show "kernel_ok stale_kernel"
    using stale_kernel_replay by (rule replay_ok)
  show "root (parent stale_kernel) ''a'' ''a''" "root (parent stale_kernel) ''r'' ''r''"
    "(''a'', ''b'', ''knows'') \<in> relations stale_kernel" "''r'' \<noteq> ''a''"
    by (simp_all add: stale_kernel_def root_self_iff)
qed

text \<open>C6. \<open>POP\<close> of an id that was merged before it was popped undoes the merge: the new
  object becomes its own representative and is no longer equivalent to its merge partner.\<close>

theorem pop_after_merge_splits:
  assumes ok: "kernel_ok k" and b: "b \<notin> objects k" "root (parent k) b b"
    and a: "root (parent k) a r" "r \<noteq> b"
  shows "\<exists>k1 k2. apply_events k [Merge a b] = Some k1 \<and> (a, b) \<in> rep_classes k1 \<and>
    apply_events k1 [Pop b] = Some k2 \<and> (a, b) \<notin> rep_classes k2"
proof (rule merge_cases [OF ok, of a b])
  fix s P
  assume "root (parent k) a s" "root (parent k) b s"
  then have "s = r" "s = b" using a(1) b(2) root_det by auto
  with a(2) show ?thesis by simp
next
  fix r1 r2 P d
  assume *: "root (parent k) a r1" "root (parent k) b r2" "r1 \<noteq> r2" "same_roots (parent k) P" "uf_ok P"
    "apply_event k (Merge a b) = Some (d, k\<lparr>parent := P(r2 \<mapsto> r1),
       relations := rewrite_rel r1 r2 ` relations k\<rparr>)"
  have r: "r1 = r" "r2 = b" using * a(1) b(2) root_det by blast+
  let ?k = "k\<lparr>parent := P(b \<mapsto> r), relations := rewrite_rel r b ` relations k\<rparr>"
  have 1: "apply_events k [Merge a b] = Some ?k" using *(6) r by (simp del: apply_event.simps)
  have P: "root P a r" "root P b b" "root P r r"
    using *(1,2,4) r root_is_root by (auto simp: same_roots_def)
  have upd: "(P(b \<mapsto> r))(b \<mapsto> b) = P(b \<mapsto> b)" by simp
  have "same_roots P (P(b \<mapsto> b))"
  proof (rule same_rootsI [OF *(5)])
    fix x s
    assume "root P x s"
    then show "root (P(b \<mapsto> b)) x s"
    proof (induction rule: root.induct)
      case (stop x)
      then show ?case by (simp add: root_self_iff)
    next
      case (step x p s)
      have "x \<noteq> b" using step.hyps(1,2) P(2) by (auto simp: root_self_iff)
      then show ?case by (intro root.step [OF _ step.hyps(2) step.IH]) (use step.hyps in auto)
    qed
  qed
  then have "root (P(b \<mapsto> b)) a r" "root (P(b \<mapsto> b)) b b"
    using P by (simp_all add: same_roots_def)
  then have "\<not> same_rep (P(b \<mapsto> b)) a b" using a(2) by (simp add: same_rep_iff)
  moreover have "(a, b) \<in> rep_classes ?k"
    using merge_rep_classes [OF ok *(6)] rep_classes_refl [OF ok] r by auto
  ultimately show ?thesis using 1 b(1) upd by (auto simp: rep_classes_def simp del: fun_upd_apply)
qed

theorem pop_after_merge_splits_witness:
  "\<exists>k1 k2. apply_events new_kernel [Merge ''a'' ''b''] = Some k1 \<and>
    (''a'', ''b'') \<in> rep_classes k1 \<and>
    apply_events k1 [Pop ''b''] = Some k2 \<and> (''a'', ''b'') \<notin> rep_classes k2"
  by (rule pop_after_merge_splits [OF new_kernel_ok, of _ _ "''a''"])
    (simp_all add: new_kernel_def root_self_iff)

text \<open>\<open>UNLINK\<close> is the inverse of \<open>LINK\<close>: linking and then unlinking the same pair of
  objects with the same type leaves the stored relations without that relation, named by
  the representatives, and otherwise unchanged.\<close>

theorem link_unlink:
  assumes ok: "kernel_ok k" and r: "root (parent k) a ra" "root (parent k) b rb"
  shows "\<exists>k'. apply_events k [Link a b t, Unlink a b t] = Some k' \<and>
    relations k' = relations k - {(ra, rb, t)} \<and> objects k' = objects k \<and>
    metadata k' = metadata k \<and> same_roots (parent k) (parent k')"
proof -
  have uf: "uf_ok (parent k)" using ok by (simp add: kernel_ok_def)
  obtain r1 r2 P1 P where 1: "rep k a = Some (r1, k\<lparr>parent := P1\<rparr>)"
    "rep (k\<lparr>parent := P1\<rparr>) b = Some (r2, k\<lparr>parent := P\<rparr>)"
    "root (parent k) a r1" "root (parent k) b r2" "same_roots (parent k) P" "uf_ok P"
    using uf by (rule rep2_ok)
  have eq: "r1 = ra" "r2 = rb" using 1(3,4) r root_det by blast+
  define k1 where "k1 = k\<lparr>parent := P, relations := insert (ra, rb, t) (relations k)\<rparr>"
  have link: "\<exists>d. apply_event k (Link a b t) = Some (d, k1)"
    using 1(1,2) eq by (auto simp: k1_def insert_absorb)
  have uf1: "uf_ok (parent k1)" using 1(6) by (simp add: k1_def)
  obtain s1 s2 Q1 Q where 2: "rep k1 a = Some (s1, k1\<lparr>parent := Q1\<rparr>)"
    "rep (k1\<lparr>parent := Q1\<rparr>) b = Some (s2, k1\<lparr>parent := Q\<rparr>)"
    "root (parent k1) a s1" "root (parent k1) b s2" "same_roots (parent k1) Q" "uf_ok Q"
    using uf1 by (rule rep2_ok)
  have "s1 = ra" "s2 = rb"
    using 2(3,4) 1(5) r root_det by (auto simp: k1_def same_roots_def)
  moreover have "same_roots (parent k) Q"
    using 1(5) 2(5) same_roots_trans by (auto simp: k1_def)
  ultimately show ?thesis using link 2(1,2) by (auto simp: k1_def)
qed

theorem link_unlink_witness:
  "\<exists>k'. apply_events new_kernel [Link ''a'' ''b'' ''t'', Unlink ''a'' ''b'' ''t''] = Some k' \<and>
    relations k' = relations new_kernel - {(''a'', ''b'', ''t'')} \<and>
    objects k' = objects new_kernel \<and>
    metadata k' = metadata new_kernel \<and> same_roots (parent new_kernel) (parent k')"
  by (rule link_unlink [OF new_kernel_ok]) (simp_all add: new_kernel_def root_self_iff)

end
