(* ===== verification/RB_HashCore.thy ===== *)
theory RB_HashCore
  imports RB_Prelude
begin

text \<open>
  What the hash functions of \<^verbatim>\<open>src/libbb/hash_md5_sha.rs\<close> share: rotations and byte order,
  blocks of a message, the reference meaning of an iterated hash (\<open>absorb\<close> over the full
  blocks of the padded message) and the interface \<open>block_buffer\<close> of a context that feeds
  data through a buffer of one block. A panic of the code is the value \<^const>\<open>None\<close>.
  The targets of the repository are little-endian, so reading a buffer through a pointer
  to \<open>u32\<close> or \<open>u64\<close> reads its bytes least significant first.
\<close>

section \<open>Rotations and byte order\<close>

definition rotl32 :: "u32 \<Rightarrow> nat \<Rightarrow> u32" where
  "rotl32 x n = push_bit n x OR drop_bit (32 - n) x"

definition rotr32 :: "u32 \<Rightarrow> nat \<Rightarrow> u32" where
  "rotr32 x n = drop_bit n x OR push_bit (32 - n) x"

definition rotr64 :: "u64 \<Rightarrow> nat \<Rightarrow> u64" where
  "rotr64 x n = drop_bit n x OR push_bit (64 - n) x"

definition rotl64 :: "u64 \<Rightarrow> nat \<Rightarrow> u64" where
  "rotl64 x n = push_bit n x OR drop_bit (64 - n) x"

definition le_bytes32 :: "u32 \<Rightarrow> u8 list" where
  "le_bytes32 w = map (\<lambda>i. ucast (drop_bit (8 * i) w)) [0..<4]"

definition le_bytes64 :: "u64 \<Rightarrow> u8 list" where
  "le_bytes64 w = map (\<lambda>i. ucast (drop_bit (8 * i) w)) [0..<8]"

text \<open>\<open>*(p as *const u32).offset(i)\<close> on a byte buffer.\<close>

definition read_u32 :: "u8 list \<Rightarrow> nat \<Rightarrow> u32" where
  "read_u32 buf i = ucast (buf ! (4 * i)) OR push_bit 8 (ucast (buf ! (4 * i + 1)))
     OR push_bit 16 (ucast (buf ! (4 * i + 2))) OR push_bit 24 (ucast (buf ! (4 * i + 3)))"

fun le_word64 :: "u8 list \<Rightarrow> u64" where
  "le_word64 [] = 0"
| "le_word64 (b # bs) = ucast b OR push_bit 8 (le_word64 bs)"

definition read_u64 :: "u8 list \<Rightarrow> nat \<Rightarrow> u64" where
  "read_u64 buf i = le_word64 (take 8 (drop (8 * i) buf))"

definition swap_bytes32 :: "u32 \<Rightarrow> u32" where
  "swap_bytes32 x = read_u32 (rev (le_bytes32 x)) 0"

definition swap_bytes64 :: "u64 \<Rightarrow> u64" where
  "swap_bytes64 x = le_word64 (rev (le_bytes64 x))"

lemma length_le_bytes [simp]: "length (le_bytes32 w) = 4" "length (le_bytes64 x) = 8"
  by (simp_all add: le_bytes32_def le_bytes64_def)

lemma rotl32_rotr32: "n \<le> 32 \<Longrightarrow> rotl32 x n = rotr32 x (32 - n)"
  by (simp add: rotl32_def rotr32_def or.commute)

lemma bit_le_word64:
  "length bs \<le> 8 \<Longrightarrow> bit (le_word64 bs) n \<longleftrightarrow> n < 8 * length bs \<and> bit (bs ! (n div 8)) (n mod 8)"
proof (induction bs arbitrary: n)
  case Nil
  then show ?case by simp
next
  case (Cons b bs)
  have "bit (le_word64 (b # bs)) n \<longleftrightarrow> bit b n \<or> (8 \<le> n \<and> n < 64 \<and> bit (le_word64 bs) (n - 8))"
    using Cons.prems by (auto simp: bit_simps dest: bit_imp_le_length)
  also have "\<dots> \<longleftrightarrow> n < 8 * length (b # bs) \<and> bit ((b # bs) ! (n div 8)) (n mod 8)"
  proof (cases "n < 8")
    case True
    then show ?thesis by auto
  next
    case False
    then obtain m where m: "n = m + 8" by (metis add.commute le_Suc_ex not_less)
    then have "\<not> bit b n" using bit_imp_le_length [of b n] by auto
    moreover have "(m + 8) div 8 = Suc (m div 8)" "(m + 8) mod 8 = m mod 8" by simp_all
    moreover have "m + 8 < 64 \<and> m < 8 * length bs \<longleftrightarrow> m + 8 < 8 * length (b # bs)"
      using Cons.prems by auto
    moreover have "bit (le_word64 bs) m \<longleftrightarrow> m < 8 * length bs \<and> bit (bs ! (m div 8)) (m mod 8)"
      using Cons by simp
    ultimately show ?thesis by (simp add: m) blast
  qed
  finally show ?case .
qed

lemma le_bytes64_word: "length bs = 8 \<Longrightarrow> le_bytes64 (le_word64 bs) = bs"
proof (rule nth_equalityI)
  fix i
  assume bs: "length bs = 8" and "i < length (le_bytes64 (le_word64 bs))"
  then have i: "i < 8" by simp
  show "le_bytes64 (le_word64 bs) ! i = bs ! i"
    using i bs by (intro bit_word_eqI) (simp add: le_bytes64_def bit_simps bit_le_word64)
qed simp

lemma ucast_or_parts:
  fixes b0 b1 b2 b3 :: u8
  defines "x \<equiv> (ucast b0 OR push_bit 8 (ucast b1) OR push_bit 16 (ucast b2) OR push_bit 24 (ucast b3)) :: u32"
  shows "ucast x = b0" "ucast (drop_bit 8 x) = b1" "ucast (drop_bit 16 x) = b2" "ucast (drop_bit 24 x) = b3"
  unfolding x_def
  by (rule bit_word_eqI, auto simp: bit_simps dest: bit_imp_le_length)+

lemma upt_0_4: "[0..<4] = [0, 1, 2, 3::nat]"
  by (simp add: upt_rec)

lemma le_bytes32_4:
  "le_bytes32 w = [ucast w, ucast (drop_bit 8 w), ucast (drop_bit 16 w), ucast (drop_bit 24 w)]"
  by (simp add: le_bytes32_def upt_0_4)

lemma le_bytes32_read:
  "le_bytes32 (read_u32 buf i) = [buf ! (4 * i), buf ! (4 * i + 1), buf ! (4 * i + 2), buf ! (4 * i + 3)]"
  by (simp only: le_bytes32_4 read_u32_def ucast_or_parts)

lemma read_u32_4: "read_u32 [b0, b1, b2, b3] 0 =
    ucast b0 OR push_bit 8 (ucast b1) OR push_bit 16 (ucast b2) OR push_bit 24 (ucast b3)"
  by (simp add: read_u32_def)

lemma le_bytes32_swap: "le_bytes32 (swap_bytes32 x) = rev (le_bytes32 x)"
  by (simp add: swap_bytes32_def le_bytes32_read le_bytes32_4 [of x])

lemma le_bytes64_swap: "le_bytes64 (swap_bytes64 x) = rev (le_bytes64 x)"
  by (simp add: swap_bytes64_def le_bytes64_word)

lemma le_word64_bytes [simp]: "le_word64 (le_bytes64 w) = w"
proof (rule bit_word_eqI)
  fix n
  assume "n < LENGTH(64)"
  then have "n div 8 < 8" "n < 64" by simp_all
  then show "bit (le_word64 (le_bytes64 w)) n \<longleftrightarrow> bit w n"
    by (simp add: bit_le_word64) (simp add: le_bytes64_def bit_simps)
qed

lemma swap_swap64 [simp]: "swap_bytes64 (swap_bytes64 w) = w"
  by (simp add: swap_bytes64_def le_bytes64_word)

section \<open>Blocks and the reference semantics of an iterated hash\<close>

function full_blocks :: "nat \<Rightarrow> 'a list \<Rightarrow> 'a list list" where
  "full_blocks N xs =
     (if N = 0 \<or> length xs < N then [] else take N xs # full_blocks N (drop N xs))"
  by pat_completeness auto
termination by (relation "measure (\<lambda>(N, xs). length xs)") auto

declare full_blocks.simps [simp del]

function tail_block :: "nat \<Rightarrow> 'a list \<Rightarrow> 'a list" where
  "tail_block N xs = (if N = 0 \<or> length xs < N then xs else tail_block N (drop N xs))"
  by pat_completeness auto
termination by (relation "measure (\<lambda>(N, xs). length xs)") auto

declare tail_block.simps [simp del]

fun absorb :: "('h \<Rightarrow> 'a list \<Rightarrow> 'h option) \<Rightarrow> 'h \<Rightarrow> 'a list list \<Rightarrow> 'h option" where
  "absorb f h [] = Some h"
| "absorb f h (b # bs) = Option.bind (f h b) (\<lambda>h'. absorb f h' bs)"

lemma full_blocks_short: "length xs < N \<Longrightarrow> full_blocks N xs = []"
  by (subst full_blocks.simps) simp

lemma tail_block_short: "length xs < N \<Longrightarrow> tail_block N xs = xs"
  by (subst tail_block.simps) simp

lemma full_blocks_block: "0 < N \<Longrightarrow> length b = N \<Longrightarrow> full_blocks N (b @ xs) = b # full_blocks N xs"
  by (subst full_blocks.simps) simp

lemma tail_block_block: "0 < N \<Longrightarrow> length b = N \<Longrightarrow> tail_block N (b @ xs) = tail_block N xs"
  by (subst tail_block.simps) simp

lemma length_tail_block: "0 < N \<Longrightarrow> length (tail_block N xs) = length xs mod N"
proof (induction N xs rule: tail_block.induct)
  case (1 N xs)
  show ?case
  proof (cases "length xs < N")
    case True
    then show ?thesis by (simp add: tail_block_short)
  next
    case False
    with 1 have "length (tail_block N (drop N xs)) = (length xs - N) mod N" by simp
    with False "1.prems" show ?thesis
      by (subst tail_block.simps) (simp add: le_mod_geq)
  qed
qed

lemma blocks_append_both:
  "0 < N \<Longrightarrow> full_blocks N (xs @ ys) = full_blocks N xs @ full_blocks N (tail_block N xs @ ys) \<and>
    tail_block N (xs @ ys) = tail_block N (tail_block N xs @ ys)"
proof (induction N xs rule: tail_block.induct)
  case (1 N xs)
  show ?case
  proof (cases "length xs < N")
    case True
    then show ?thesis by (simp add: tail_block_short full_blocks_short)
  next
    case False
    then have s: "xs = take N xs @ drop N xs" "length (take N xs) = N" by simp_all
    have "full_blocks N (xs @ ys) = take N xs # full_blocks N (drop N xs @ ys)"
      "tail_block N (xs @ ys) = tail_block N (drop N xs @ ys)"
      using full_blocks_block [OF "1.prems" s(2), of "drop N xs @ ys"]
        tail_block_block [OF "1.prems" s(2), of "drop N xs @ ys"] s(1)
      by (metis append_assoc)+
    moreover have "full_blocks N xs = take N xs # full_blocks N (drop N xs)"
      "tail_block N xs = tail_block N (drop N xs)"
      using False "1.prems"
      by (simp_all add: full_blocks.simps [of N xs] tail_block.simps [of N xs])
    ultimately show ?thesis using 1 False by simp
  qed
qed

lemmas full_blocks_append = blocks_append_both [THEN conjunct1]
lemmas tail_block_append = blocks_append_both [THEN conjunct2]

lemma absorb_append:
  "absorb f h (bs @ cs) = Option.bind (absorb f h bs) (\<lambda>h'. absorb f h' cs)"
  by (induction bs arbitrary: h) (auto split: Option.bind_splits)


lemma absorb_full_blocks_append:
  assumes "0 < N" "absorb f h0 (full_blocks N xs) = Some h"
  shows "absorb f h0 (full_blocks N (xs @ ys)) = absorb f h (full_blocks N (tail_block N xs @ ys))"
  using assms(2) by (subst full_blocks_append [OF assms(1)]) (simp add: absorb_append)

section \<open>A one-block buffer in front of a compression function\<close>

text \<open>
  The contract of the \<^verbatim>\<open>*_hash\<close> loops. A context of type \<^typ>\<open>'c\<close> holds a buffer of \<open>N\<close>
  bytes and a chaining value; \<open>feed c p data\<close> is the loop entered with \<open>p\<close> bytes
  buffered. Its one law is the body of the loop: copy what fits, and if the block is full
  compress it and go on with an empty buffer. \<open>finish c p\<close> is the padding loop of the
  \<^verbatim>\<open>*_end\<close> functions, entered after the byte 0x80 was stored, with \<open>L\<close> bytes of length
  field \<open>lenf c\<close> at the end of the last block.
\<close>

definition blit :: "nat \<Rightarrow> u8 list \<Rightarrow> u8 list \<Rightarrow> u8 list" where
  "blit p src dst = take p dst @ src @ drop (p + length src) dst"

lemma length_blit [simp]: "p + length src \<le> length dst \<Longrightarrow> length (blit p src dst) = length dst"
  by (simp add: blit_def)

lemma take_blit: "p + length src \<le> length dst \<Longrightarrow>
    take (p + length src) (blit p src dst) = take p dst @ src"
  by (simp add: blit_def)

locale block_buffer =
  fixes N :: nat
    and buf :: "'c \<Rightarrow> u8 list"
    and chain :: "'c \<Rightarrow> 'h"
    and set_buf :: "u8 list \<Rightarrow> 'c \<Rightarrow> 'c"
    and set_chain :: "'h \<Rightarrow> 'c \<Rightarrow> 'c"
    and compr :: "'h \<Rightarrow> u8 list \<Rightarrow> 'h option"
    and feed :: "'c \<Rightarrow> nat \<Rightarrow> u8 list \<Rightarrow> 'c option"
  assumes N_pos: "0 < N"
    and buf_set_buf: "buf (set_buf w c) = w"
    and buf_set_chain: "buf (set_chain h c) = buf c"
    and chain_set_buf: "chain (set_buf w c) = chain c"
    and chain_set_chain: "chain (set_chain h c) = h"
    and feed_eq: "feed c p data =
      (let m = min (N - p) (length data);
           c1 = set_buf (blit p (take m data) (buf c)) c
       in if p + m \<noteq> N then Some c1
          else Option.bind (compr (chain c1) (buf c1))
                 (\<lambda>h. feed (set_chain h c1) 0 (drop m data)))"
begin

text \<open>Feeding absorbs the full blocks and leaves the rest in the buffer.\<close>

lemma feed_absorb:
  assumes "length (buf c) = N" "p < N"
  shows "map_option chain (feed c p data) =
      absorb compr (chain c) (full_blocks N (take p (buf c) @ data)) \<and>
    (\<forall>c'. feed c p data = Some c' \<longrightarrow> length (buf c') = N \<and>
      take ((p + length data) mod N) (buf c') = tail_block N (take p (buf c) @ data))"
  using assms
proof (induction "length data" arbitrary: c p data rule: less_induct)
  case less
  define m where "m = min (N - p) (length data)"
  define c1 where "c1 = set_buf (blit p (take m data) (buf c)) c"
  have m: "m \<le> N - p" "m \<le> length data" by (simp_all add: m_def)
  have len: "length (buf c1) = N" using less.prems m by (simp add: c1_def buf_set_buf)
  have tk: "take (p + m) (buf c1) = take p (buf c) @ take m data"
    using take_blit [of p "take m data" "buf c"] less.prems m by (simp add: c1_def buf_set_buf)
  have ch: "chain c1 = chain c" by (simp add: c1_def chain_set_buf)
  show ?case
  proof (cases "p + m = N")
    case False
    then have "m = length data" "p + length data < N" using less.prems(2) by (auto simp: m_def)
    moreover from this False have "feed c p data = Some c1"
      by (subst feed_eq) (simp add: Let_def c1_def m_def)
    ultimately show ?thesis
      using len tk ch less.prems by (simp add: full_blocks_short tail_block_short)
  next
    case True
    have m0: "0 < m" using True less.prems(2) by simp
    have blk: "buf c1 = take p (buf c) @ take m data" using tk len True by simp
    have f: "feed c p data =
        Option.bind (compr (chain c) (buf c1)) (\<lambda>h. feed (set_chain h c1) 0 (drop m data))"
      using True ch by (subst feed_eq) (simp add: Let_def c1_def m_def)
    have msg: "take p (buf c) @ data = buf c1 @ drop m data" by (simp add: blk)
    have bl: "full_blocks N (take p (buf c) @ data) = buf c1 # full_blocks N (drop m data)"
      "tail_block N (take p (buf c) @ data) = tail_block N (drop m data)"
      using len N_pos by (simp_all only: msg full_blocks_block tail_block_block)
    have IH: "map_option chain (feed (set_chain h c1) 0 (drop m data)) =
        absorb compr h (full_blocks N (drop m data)) \<and>
      (\<forall>c'. feed (set_chain h c1) 0 (drop m data) = Some c' \<longrightarrow> length (buf c') = N \<and>
        take ((length data - m) mod N) (buf c') = tail_block N (drop m data))" for h
      using less.hyps [of "drop m data" "set_chain h c1" 0] m0 m(2) len N_pos
      by (simp add: buf_set_chain chain_set_chain)
    have md: "(p + length data) mod N = (length data - m) mod N"
    proof -
      have "p + length data = N + (length data - m)" using True m(2) by simp
      then show ?thesis by simp
    qed
    show ?thesis
      using IH by (cases "compr (chain c) (buf c1)") (auto simp: f bl md)
  qed
qed

end


section \<open>Streaming and padding\<close>

text \<open>The reference padding: 0x80, zeros, and a length field that ends a block.\<close>

definition pad_zeros :: "nat \<Rightarrow> nat \<Rightarrow> nat \<Rightarrow> nat" where
  "pad_zeros N L n = (N - (n + 1 + L) mod N) mod N"

definition md_pad :: "nat \<Rightarrow> u8 list \<Rightarrow> u8 list \<Rightarrow> u8 list" where
  "md_pad N lenfield msg =
     msg @ [0x80] @ replicate (pad_zeros N (length lenfield) (length msg)) 0 @ lenfield"

lemma pad_zeros_one: "n mod N + 1 + L \<le> N \<Longrightarrow> 0 < N \<Longrightarrow> pad_zeros N L n = N - (n mod N + 1 + L)"
proof -
  assume le: "n mod N + 1 + L \<le> N" and N: "0 < N"
  have "(n + 1 + L) mod N = (n mod N + 1 + L) mod N" by (metis add.assoc mod_add_left_eq)
  with le N show ?thesis by (cases "n mod N + 1 + L = N") (simp_all add: pad_zeros_def)
qed

lemma pad_zeros_two: "N < n mod N + 1 + L \<Longrightarrow> L < N \<Longrightarrow>
    pad_zeros N L n = (N - (n mod N + 1)) + (N - L)"
proof -
  assume gt: "N < n mod N + 1 + L" and L: "L < N"
  have p: "n mod N < N" using L by simp
  have "(n + 1 + L) mod N = (n mod N + 1 + L) mod N" by (metis add.assoc mod_add_left_eq)
  also have "\<dots> = n mod N + 1 + L - N" using gt L p by (simp add: mod_if)
  finally have "pad_zeros N L n = (N - (n mod N + 1 + L - N)) mod N"
    by (simp only: pad_zeros_def)
  also have "\<dots> = N - (n mod N + 1 + L - N)" using gt L by simp
  also have "\<dots> = (N - (n mod N + 1)) + (N - L)" using gt L p by arith
  finally show ?thesis .
qed

lemma length_md_pad_ge:
  assumes "length l < N"
  shows "N \<le> length (md_pad N l msg)"
proof -
  have le: "length msg mod N \<le> length msg" by simp
  have len: "length (md_pad N l msg) = length msg + 1 + pad_zeros N (length l) (length msg) + length l"
    by (simp add: md_pad_def)
  show ?thesis
  proof (cases "length msg mod N + 1 + length l \<le> N")
    case True
    then have "pad_zeros N (length l) (length msg) = N - (length msg mod N + 1 + length l)"
      using assms by (intro pad_zeros_one) simp_all
    with True le len show ?thesis by linarith
  next
    case False
    then have "pad_zeros N (length l) (length msg) = (N - (length msg mod N + 1)) + (N - length l)"
      using assms by (intro pad_zeros_two) simp_all
    with False assms len show ?thesis by linarith
  qed
qed

lemma full_blocks_md_pad: "length l < N \<Longrightarrow> \<exists>b bs. full_blocks N (md_pad N l msg) = b # bs"
  using length_md_pad_ge [of l N msg] by (subst full_blocks.simps) auto

locale block_hash = block_buffer N buf chain set_buf set_chain compr feed
  for N :: nat
    and buf :: "'c \<Rightarrow> u8 list"
    and chain :: "'c \<Rightarrow> 'h"
    and set_buf :: "u8 list \<Rightarrow> 'c \<Rightarrow> 'c"
    and set_chain :: "'h \<Rightarrow> 'c \<Rightarrow> 'c"
    and compr :: "'h \<Rightarrow> u8 list \<Rightarrow> 'h option"
    and feed :: "'c \<Rightarrow> nat \<Rightarrow> u8 list \<Rightarrow> 'c option" +
  fixes M :: nat and L :: nat
    and tot :: "'c \<Rightarrow> nat"
    and add_len :: "nat \<Rightarrow> 'c \<Rightarrow> 'c"
    and lenf :: "nat \<Rightarrow> u8 list"
    and upd :: "'c \<Rightarrow> u8 list \<Rightarrow> 'c option"
    and fin_loop :: "'c \<Rightarrow> nat \<Rightarrow> 'c option"
    and fin :: "'c \<Rightarrow> 'c option"
  assumes N_dvd_M: "N dvd M" and L_less: "L < N" and length_lenf: "length (lenf n) = L"
    and tot_set: "tot (set_buf w c) = tot c" "tot (set_chain h c) = tot c"
    and tot_add: "n < 2 ^ 64 \<Longrightarrow> tot (add_len n c) = (tot c + n) mod M"
    and add_len_frame: "buf (add_len n c) = buf c" "chain (add_len n c) = chain c"
    and upd_eq: "upd c data = feed (add_len (length data) c) (tot c mod N) data"
    and fin_loop_eq: "fin_loop c p =
      (let rem = N - p;
           w = blit p (replicate rem 0) (buf c);
           w' = (if L \<le> rem then blit (N - L) (lenf (tot c)) w else w);
           c1 = set_buf w' c
       in Option.bind (compr (chain c1) (buf c1))
            (\<lambda>h. if L \<le> rem then Some (set_chain h c1) else fin_loop (set_chain h c1) 0))"
    and fin_eq: "fin c =
      fin_loop (set_buf (blit (tot c mod N) [0x80] (buf c)) c) (tot c mod N + 1)"
begin

lemma feed_tot: "feed c p data = Some c' \<Longrightarrow> p < N \<Longrightarrow> tot c' = tot c"
proof (induction "length data" arbitrary: c p data rule: less_induct)
  case less
  show ?case
  proof (cases "p + min (N - p) (length data) = N")
    case False
    then have "feed c p data =
        Some (set_buf (blit p (take (min (N - p) (length data)) data) (buf c)) c)"
      by (subst feed_eq) (simp only: Let_def if_True simp_thms)
    with less.prems(1) show ?thesis by (auto simp: tot_set)
  next
    case True
    let ?m = "min (N - p) (length data)"
    let ?c1 = "set_buf (blit p (take ?m data) (buf c)) c"
    obtain h where "feed (set_chain h ?c1) 0 (drop ?m data) = Some c'"
      using less.prems(1) True by (subst (asm) feed_eq) (auto simp: Let_def bind_eq_Some_conv)
    moreover have "length (drop ?m data) < length data" using True less.prems(2) by auto
    ultimately show ?thesis using less.hyps N_pos tot_set by metis
  qed
qed

text \<open>The state of a context after the bytes \<open>msg\<close> were hashed from chaining value \<open>h0\<close>.\<close>

definition stream_inv :: "'c \<Rightarrow> 'h \<Rightarrow> u8 list \<Rightarrow> bool" where
  "stream_inv c h0 msg \<longleftrightarrow> length (buf c) = N \<and> tot c = length msg mod M \<and>
     absorb compr h0 (full_blocks N msg) = Some (chain c) \<and>
     take (length msg mod N) (buf c) = tail_block N msg"

lemma tot_mod: "stream_inv c h0 msg \<Longrightarrow> tot c mod N = length msg mod N"
  using N_dvd_M by (simp add: stream_inv_def mod_mod_cancel)

lemma upd_stream:
  assumes inv: "stream_inv c h0 msg" and len: "length data < 2 ^ 64"
  shows "case upd c data of
      None \<Rightarrow> absorb compr h0 (full_blocks N (msg @ data)) = None
    | Some c' \<Rightarrow> stream_inv c' h0 (msg @ data)"
proof -
  let ?c = "add_len (length data) c" and ?p = "length msg mod N"
  have u: "upd c data = feed ?c ?p data" using upd_eq tot_mod [OF inv] by simp
  have i: "length (buf c) = N" "take ?p (buf c) = tail_block N msg"
    "absorb compr h0 (full_blocks N msg) = Some (chain c)" "tot c = length msg mod M"
    using inv by (simp_all add: stream_inv_def)
  have p: "?p < N" using N_pos by simp
  have f: "map_option chain (feed ?c ?p data) =
      absorb compr (chain c) (full_blocks N (tail_block N msg @ data))"
    "feed ?c ?p data = Some c' \<Longrightarrow> length (buf c') = N \<and>
      take ((?p + length data) mod N) (buf c') = tail_block N (tail_block N msg @ data)" for c'
    using feed_absorb [of ?c ?p data] i p by (auto simp: add_len_frame)
  have a: "absorb compr h0 (full_blocks N (msg @ data)) = map_option chain (feed ?c ?p data)"
    using absorb_full_blocks_append [OF N_pos i(3), of data] f(1) by (simp only:)
  show ?thesis
  proof (cases "feed ?c ?p data")
    case None
    with u a show ?thesis by simp
  next
    case (Some c')
    have "tot c' = (length msg + length data) mod M"
      using feed_tot [OF Some p] tot_add [OF len, of c] i(4) by (simp add: mod_add_left_eq)
    moreover have "tail_block N (tail_block N msg @ data) = tail_block N (msg @ data)"
      using N_pos by (simp only: tail_block_append [of N msg data])
    moreover have "(?p + length data) mod N = length (msg @ data) mod N"
      by (simp add: mod_add_left_eq)
    ultimately show ?thesis using Some u a f(2) [OF Some] by (simp add: stream_inv_def)
  qed
qed

lemma fin_stream:
  assumes inv: "stream_inv c h0 msg"
  shows "map_option chain (fin c) =
    absorb compr h0 (full_blocks N (md_pad N (lenf (length msg mod M)) msg))"
proof -
  let ?p = "length msg mod N" and ?l = "lenf (length msg mod M)" and ?t = "tail_block N msg"
  have p: "?p < N" using N_pos by simp
  have i: "length (buf c) = N" "take ?p (buf c) = ?t"
    "absorb compr h0 (full_blocks N msg) = Some (chain c)" "tot c = length msg mod M"
    using inv by (simp_all add: stream_inv_def)
  have lt: "length ?t = ?p" using i p by (metis length_take min.absorb2 less_imp_le)
  define c0 where "c0 = set_buf (blit ?p [0x80] (buf c)) c"
  have c0: "length (buf c0) = N" "take (?p + 1) (buf c0) = ?t @ [0x80]" "chain c0 = chain c"
    "tot c0 = tot c"
    using i p take_blit [of ?p "[0x80]" "buf c"]
    by (simp_all add: c0_def buf_set_buf chain_set_buf tot_set)
  have fin: "fin c = fin_loop c0 (?p + 1)" using fin_eq tot_mod [OF inv] by (simp add: c0_def)
  let ?z = "pad_zeros N L (length msg)"
  have spec: "absorb compr h0 (full_blocks N (md_pad N ?l msg)) =
      absorb compr (chain c) (full_blocks N (?t @ [0x80] @ replicate ?z 0 @ ?l))"
    using absorb_full_blocks_append [OF N_pos i(3)] by (simp only: md_pad_def length_lenf)
  have one: "full_blocks N b = [b]" if "length b = N" for b :: "u8 list"
    using full_blocks_block [OF N_pos that, of "[]"] N_pos by (simp add: full_blocks_short)
  have pre: "take (?p + 1) (buf c0) @ ys = ?t @ [0x80] @ ys" for ys using c0(2) by simp
  show ?thesis
  proof (cases "?p + 1 + L \<le> N")
    case True
    have z: "?z = N - (?p + 1 + L)" using True N_pos by (rule pad_zeros_one)
    let ?b = "?t @ [0x80] @ replicate ?z 0 @ ?l"
    have w: "blit (N - L) ?l (blit (?p + 1) (replicate (N - (?p + 1)) 0) (buf c0)) = ?b"
      using True c0(1) pre lt z L_less
      by (simp add: blit_def length_lenf take_replicate min_def take_Cons' add.commute)
    have "fin c = Option.bind (compr (chain c) ?b) (\<lambda>h. Some (set_chain h (set_buf ?b c0)))"
    proof -
      have "L \<le> N - (?p + 1)" using True by simp
      moreover have "lenf (tot c0) = ?l" using c0(4) i(4) by (simp only:)
      ultimately show ?thesis
        unfolding fin by (subst fin_loop_eq)
          (simp only: Let_def if_True w chain_set_buf buf_set_buf c0(3))
    qed
    moreover have "full_blocks N ?b = [?b]" using True lt z by (intro one) (simp add: length_lenf)
    ultimately show ?thesis unfolding spec
      by (cases "compr (chain c) ?b") (simp_all add: chain_set_chain)
  next
    case False
    have z: "?z = (N - (?p + 1)) + (N - L)" using False L_less by (intro pad_zeros_two) simp_all
    let ?b1 = "?t @ [0x80] @ replicate (N - (?p + 1)) 0" and ?b2 = "replicate (N - L) 0 @ ?l"
    have "?p + 1 + (N - (?p + 1)) = N" using p by arith
    then have len: "length ?b1 = N" "length ?b2 = N" using lt L_less by (simp_all add: length_lenf)
    have w1: "blit (?p + 1) (replicate (N - (?p + 1)) 0) (buf c0) = ?b1"
      using p c0(1) pre by (simp add: blit_def)
    have w2: "blit (N - L) ?l (blit 0 (replicate N 0) w) = ?b2" if "length w = N" for w
      using that L_less by (simp add: blit_def length_lenf take_replicate min_def)
    have 2: "fin_loop c1 0 = Option.bind (compr (chain c1) ?b2)
        (\<lambda>h. Some (set_chain h (set_buf ?b2 c1)))" if "length (buf c1) = N" "tot c1 = tot c" for c1
    proof -
      have "L \<le> N - 0" using L_less by simp
      moreover have "lenf (tot c1) = ?l" using that(2) i(4) by (simp only:)
      moreover have "blit (N - L) ?l (blit 0 (replicate (N - 0) 0) (buf c1)) = ?b2"
        using w2 [OF that(1)] by simp
      ultimately show ?thesis
        by (subst fin_loop_eq) (simp only: Let_def if_True chain_set_buf buf_set_buf)
    qed
    have 1: "fin c = Option.bind (compr (chain c) ?b1)
        (\<lambda>h. fin_loop (set_chain h (set_buf ?b1 c0)) 0)"
    proof -
      have "\<not> L \<le> N - (?p + 1)" using False p by arith
      then show ?thesis
        unfolding fin by (subst fin_loop_eq)
          (simp only: Let_def if_False w1 chain_set_buf buf_set_buf c0(3))
    qed
    have "full_blocks N (?t @ [0x80] @ replicate ?z 0 @ ?l) = [?b1, ?b2]"
      using full_blocks_block [OF N_pos len(1), of ?b2] one [OF len(2)]
      by (simp add: z replicate_add)
    then show ?thesis unfolding spec 1
      using 2 len(1) c0(4)
      by (cases "compr (chain c) ?b1")
        (auto simp: buf_set_chain buf_set_buf tot_set chain_set_chain split: Option.bind_splits)
  qed
qed

text \<open>A sequence of calls followed by the end: any way of cutting the message into pieces
  gives the reference value of the whole message.\<close>

lemma upd_chunks:
  assumes "stream_inv c h0 msg" "\<forall>d \<in> set ds. length d < 2 ^ 64"
  shows "case absorb upd c ds of
      None \<Rightarrow> absorb compr h0 (full_blocks N (msg @ concat ds)) = None
    | Some c' \<Rightarrow> stream_inv c' h0 (msg @ concat ds)"
  using assms
proof (induction ds arbitrary: c msg)
  case Nil
  then show ?case by simp
next
  case (Cons d ds)
  have d: "case upd c d of
      None \<Rightarrow> absorb compr h0 (full_blocks N (msg @ d)) = None
    | Some c' \<Rightarrow> stream_inv c' h0 (msg @ d)"
    using Cons.prems by (intro upd_stream) auto
  show ?case
  proof (cases "upd c d")
    case None
    with d have "absorb compr h0 (full_blocks N (msg @ d)) = None" by simp
    then have "absorb compr h0 (full_blocks N ((msg @ d) @ concat ds)) = None"
      by (subst full_blocks_append [OF N_pos]) (simp add: absorb_append)
    with None show ?thesis by simp
  next
    case (Some c')
    with d have "stream_inv c' h0 (msg @ d)" by simp
    from Cons.IH [OF this] Cons.prems(2) Some show ?thesis by (simp split: option.splits)
  qed
qed

lemma stream_digest:
  assumes "stream_inv c h0 []" "\<forall>d \<in> set ds. length d < 2 ^ 64"
  shows "map_option chain (Option.bind (absorb upd c ds) fin) =
    absorb compr h0 (full_blocks N (md_pad N (lenf (length (concat ds) mod M)) (concat ds)))"
proof (cases "absorb upd c ds")
  case None
  then have "absorb compr h0 (full_blocks N (concat ds)) = None"
    using upd_chunks [OF assms] by simp
  then have "absorb compr h0 (full_blocks N (md_pad N l (concat ds))) = None" for l
    unfolding md_pad_def by (subst full_blocks_append [OF N_pos]) (simp add: absorb_append)
  with None show ?thesis by simp
next
  case (Some c')
  then have "stream_inv c' h0 (concat ds)" using upd_chunks [OF assms] by simp
  from fin_stream [OF this] Some show ?thesis by simp
qed

lemma stream_inv_init: "length (buf c) = N \<Longrightarrow> tot c = 0 \<Longrightarrow> stream_inv c (chain c) []"
  using N_pos by (simp add: stream_inv_def full_blocks_short tail_block_short)

end

end
