(* ===== verification/RB_Md5Sha.thy ===== *)
theory RB_Md5Sha
  imports RB_HashCore
begin

text \<open>
  MD5, SHA-1 and SHA-256 of \<^verbatim>\<open>src/libbb/hash_md5_sha.rs\<close> on their common context
  \<^verbatim>\<open>md5_ctx_t\<close> (\<^verbatim>\<open>src/librb/mod.rs\<close>): the three block functions, \<open>common64_hash\<close>,
  \<open>common64_end\<close> and the public \<open>begin\<close>, \<open>hash\<close> and \<open>end\<close> operations. The function pointer
  \<open>process_block\<close> is a value of a datatype with the three functions the code stores there.
  An array index out of bounds, or a call through an unset pointer, is a panic, the value
  \<^const>\<open>None\<close>. The release profile has no overflow checks, and the code only uses wrapping
  arithmetic on the words, so \<open>+\<close> on words is the source's addition.
\<close>

section \<open>The context\<close>

datatype block_fn = md5_block | sha1_block | sha256_block

record md5_ctx =
  wbuffer :: "u8 list"
  process_block :: "block_fn option"
  total64 :: u64
  hash :: "u32 list"

definition ctx_ok :: "md5_ctx \<Rightarrow> bool" where
  "ctx_ok ctx \<longleftrightarrow> length (wbuffer ctx) = 64 \<and> length (hash ctx) = 8"

section \<open>MD5\<close>

definition C_array :: "u32 list" where
  "C_array = [
     0xd76aa478, 0xe8c7b756, 0x242070db, 0xc1bdceee, 0xf57c0faf, 0x4787c62a, 0xa8304613, 0xfd469501,
     0x698098d8, 0x8b44f7af, 0xffff5bb1, 0x895cd7be, 0x6b901122, 0xfd987193, 0xa679438e, 0x49b40821,
     0xf61e2562, 0xc040b340, 0x265e5a51, 0xe9b6c7aa, 0xd62f105d, 0x2441453, 0xd8a1e681, 0xe7d3fbc8,
     0x21e1cde6, 0xc33707d6, 0xf4d50d87, 0x455a14ed, 0xa9e3e905, 0xfcefa3f8, 0x676f02d9, 0x8d2a4c8a,
     0xfffa3942, 0x8771f681, 0x6d9d6122, 0xfde5380c, 0xa4beea44, 0x4bdecfa9, 0xf6bb4b60, 0xbebfbc70,
     0x289b7ec6, 0xeaa127fa, 0xd4ef3085, 0x4881d05, 0xd9d4d039, 0xe6db99e5, 0x1fa27cf8, 0xc4ac5665,
     0xf4292244, 0x432aff97, 0xab9423a7, 0xfc93a039, 0x655b59c3, 0x8f0ccc92, 0xffeff47d, 0x85845dd1,
     0x6fa87e4f, 0xfe2ce6e0, 0xa3014314, 0x4e0811a1, 0xf7537e82, 0xbd3af235, 0x2ad7d2bb, 0xeb86d391]"

definition P_array :: "nat list" where
  "P_array = [
     1, 6, 11, 0, 5, 10, 15, 4,
     9, 14, 3, 8, 13, 2, 7, 12,
     5, 8, 11, 14, 1, 4, 7, 10,
     13, 0, 3, 6, 9, 12, 15, 2,
     0, 7, 14, 5, 12, 3, 10, 1,
     8, 15, 6, 13, 4, 11, 2, 9]"

type_synonym abcd = "u32 \<times> u32 \<times> u32 \<times> u32"

text \<open>The bodies of the four round loops; \<open>i\<close> is the iteration, \<open>w\<close> reads a word of the
  buffer. Each body updates A, D, C and B in this order.\<close>

definition md5_round1 :: "(nat \<Rightarrow> u32) \<Rightarrow> nat \<Rightarrow> abcd \<Rightarrow> abcd" where
  "md5_round1 w i st =
     (case st of (A, B, C, D) \<Rightarrow>
      let A = rotl32 (A + ((D XOR (B AND (C XOR D))) + w (4 * i) + C_array ! (4 * i))) 7 + B;
          D = rotl32 (D + ((C XOR (A AND (B XOR C))) + w (4 * i + 1) + C_array ! (4 * i + 1))) 12 + A;
          C = rotl32 (C + ((B XOR (D AND (A XOR B))) + w (4 * i + 2) + C_array ! (4 * i + 2))) 17 + D;
          B = rotl32 (B + ((A XOR (C AND (D XOR A))) + w (4 * i + 3) + C_array ! (4 * i + 3))) 22 + C
      in (A, B, C, D))"

definition md5_round2 :: "(nat \<Rightarrow> u32) \<Rightarrow> nat \<Rightarrow> abcd \<Rightarrow> abcd" where
  "md5_round2 w i st =
     (case st of (A, B, C, D) \<Rightarrow>
      let A = rotl32 (A + ((C XOR (D AND (B XOR C))) + w (P_array ! (4 * i)) + C_array ! (16 + 4 * i))) 5 + B;
          D = rotl32 (D + ((B XOR (C AND (A XOR B))) + w (P_array ! (4 * i + 1)) + C_array ! (16 + 4 * i + 1))) 9 + A;
          C = rotl32 (C + ((A XOR (B AND (D XOR A))) + w (P_array ! (4 * i + 2)) + C_array ! (16 + 4 * i + 2))) 14 + D;
          B = rotl32 (B + ((D XOR (A AND (C XOR D))) + w (P_array ! (4 * i + 3)) + C_array ! (16 + 4 * i + 3))) 20 + C
      in (A, B, C, D))"

definition md5_round3 :: "(nat \<Rightarrow> u32) \<Rightarrow> nat \<Rightarrow> abcd \<Rightarrow> abcd" where
  "md5_round3 w i st =
     (case st of (A, B, C, D) \<Rightarrow>
      let A = rotl32 (A + ((B XOR C XOR D) + w (P_array ! (16 + 4 * i)) + C_array ! (32 + 4 * i))) 4 + B;
          D = rotl32 (D + ((A XOR B XOR C) + w (P_array ! (16 + 4 * i + 1)) + C_array ! (32 + 4 * i + 1))) 11 + A;
          C = rotl32 (C + ((D XOR A XOR B) + w (P_array ! (16 + 4 * i + 2)) + C_array ! (32 + 4 * i + 2))) 16 + D;
          B = rotl32 (B + ((C XOR D XOR A) + w (P_array ! (16 + 4 * i + 3)) + C_array ! (32 + 4 * i + 3))) 23 + C
      in (A, B, C, D))"

definition md5_round4 :: "(nat \<Rightarrow> u32) \<Rightarrow> nat \<Rightarrow> abcd \<Rightarrow> abcd" where
  "md5_round4 w i st =
     (case st of (A, B, C, D) \<Rightarrow>
      let A = rotl32 (A + ((C XOR (B OR NOT D)) + w (P_array ! (32 + 4 * i)) + C_array ! (48 + 4 * i))) 6 + B;
          D = rotl32 (D + ((B XOR (A OR NOT C)) + w (P_array ! (32 + 4 * i + 1)) + C_array ! (48 + 4 * i + 1))) 10 + A;
          C = rotl32 (C + ((A XOR (D OR NOT B)) + w (P_array ! (32 + 4 * i + 2)) + C_array ! (48 + 4 * i + 2))) 15 + D;
          B = rotl32 (B + ((D XOR (C OR NOT A)) + w (P_array ! (32 + 4 * i + 3)) + C_array ! (48 + 4 * i + 3))) 21 + C
      in (A, B, C, D))"

definition md5_rounds :: "(nat \<Rightarrow> u32) \<Rightarrow> abcd \<Rightarrow> abcd" where
  "md5_rounds w st =
     fold (md5_round4 w) [0..<4] (fold (md5_round3 w) [0..<4]
       (fold (md5_round2 w) [0..<4] (fold (md5_round1 w) [0..<4] st)))"

definition md5_process_block64 :: "md5_ctx \<Rightarrow> md5_ctx" where
  "md5_process_block64 ctx =
     (let h = hash ctx
      in case md5_rounds (read_u32 (wbuffer ctx)) (h ! 0, h ! 1, h ! 2, h ! 3) of
        (A, B, C, D) \<Rightarrow>
          ctx\<lparr>hash := h[0 := h ! 0 + A, 1 := h ! 1 + B, 2 := h ! 2 + C, 3 := h ! 3 + D]\<rparr>)"

section \<open>SHA-1\<close>

definition rconsts :: "u32 list" where
  "rconsts = [0x5a827999, 0x6ed9eba1, 0x8f1bbcdc, 0xca62c1d6]"

record sha1_state =
  sW :: "u32 list"
  sa :: u32
  sb :: u32
  sc :: u32
  sd :: u32
  se :: u32
  scnt :: nat

text \<open>Reading and writing the array \<open>W\<close> with Rust's bounds check.\<close>

definition idx :: "'a list \<Rightarrow> nat \<Rightarrow> 'a option" where
  "idx xs i = (if i < length xs then Some (xs ! i) else None)"

definition upd_idx :: "'a list \<Rightarrow> nat \<Rightarrow> 'a \<Rightarrow> 'a list option" where
  "upd_idx xs i v = (if i < length xs then Some (xs[i := v]) else None)"

text \<open>The message schedule step of the branch taken when the word is not yet expanded:
  \<open>W[cnt + 16] = rotl32(...)\<close>, \<open>W[cnt] = W[cnt + 16]\<close>, then \<open>W[cnt]\<close>.\<close>

definition sha1_expand :: "u32 list \<Rightarrow> nat \<Rightarrow> (u32 list \<times> u32) option" where
  "sha1_expand W cnt =
     do_opt (idx W (cnt + 13)) (\<lambda>w13. do_opt (idx W (cnt + 8)) (\<lambda>w8.
     do_opt (idx W (cnt + 2)) (\<lambda>w2. do_opt (idx W cnt) (\<lambda>w0.
     do_opt (upd_idx W (cnt + 16) (rotl32 (w13 XOR w8 XOR w2 XOR w0) 1)) (\<lambda>W1.
     do_opt (idx W1 (cnt + 16)) (\<lambda>v. do_opt (upd_idx W1 cnt v) (\<lambda>W2.
     do_opt (idx W2 cnt) (\<lambda>x. Some (W2, x)))))))))"

definition sha1_step :: "nat \<Rightarrow> nat \<Rightarrow> sha1_state \<Rightarrow> sha1_state option" where
  "sha1_step i j s =
     (let b = sb s; c = sc s; d = sd s; work0 = c XOR d;
          fetch = (if i = 0 \<and> \<not> j \<le> 3
                   then do_opt (idx (sW s) (scnt s)) (\<lambda>x. Some (sW s, x))
                   else sha1_expand (sW s) (scnt s));
          work1 = (if i = 0 then (work0 AND b) XOR d
                   else if i = 2 then ((b OR c) AND d) OR (b AND c) else work0 XOR b)
      in do_opt fetch (\<lambda>(W, x).
         do_opt (idx rconsts i) (\<lambda>rc.
           let work = (work1 + x) + (se s + rotl32 (sa s) 5 + rc)
           in Some \<lparr>sW = W, sa = work, sb = sa s, sc = rotl32 b 30, sd = c, se = d,
                    scnt = scnt s + (1 AND 15)\<rparr>)))"

text \<open>The loops: \<open>j\<close> runs from 19 down to 0, \<open>i\<close> from 0 to 3.\<close>

fun sha1_inner :: "nat \<Rightarrow> nat \<Rightarrow> sha1_state \<Rightarrow> sha1_state option" where
  "sha1_inner i j s =
     do_opt (sha1_step i j s)
       (\<lambda>s'. case j of 0 \<Rightarrow> Some s' | Suc j' \<Rightarrow> sha1_inner i j' s')"

declare sha1_inner.simps [simp del]

fun sha1_outer :: "nat list \<Rightarrow> sha1_state \<Rightarrow> sha1_state option" where
  "sha1_outer [] s = Some s"
| "sha1_outer (i # is) s = do_opt (sha1_inner i 19 s) (sha1_outer is)"

definition sha1_process_block64 :: "md5_ctx \<Rightarrow> md5_ctx option" where
  "sha1_process_block64 ctx =
     (let h = hash ctx;
          W0 = map (\<lambda>i. swap_bytes32 (read_u32 (wbuffer ctx) i)) [0..<16]
      in do_opt (sha1_outer [0, 1, 2, 3]
             \<lparr>sW = W0 @ W0, sa = h ! 0, sb = h ! 1, sc = h ! 2, sd = h ! 3, se = h ! 4, scnt = 0\<rparr>)
           (\<lambda>s. Some (ctx\<lparr>hash := h[0 := h ! 0 + sa s, 1 := h ! 1 + sb s, 2 := h ! 2 + sc s,
                                   3 := h ! 3 + sd s, 4 := h ! 4 + se s]\<rparr>)))"

section \<open>SHA-256\<close>

definition sha_K :: "u64 list" where
  "sha_K =
     [0x428a2f98d728ae22, 0x7137449123ef65cd, 0xb5c0fbcfec4d3b2f, 0xe9b5dba58189dbbc] @
     [0x3956c25bf348b538, 0x59f111f1b605d019, 0x923f82a4af194f9b, 0xab1c5ed5da6d8118] @
     [0xd807aa98a3030242, 0x12835b0145706fbe, 0x243185be4ee4b28c, 0x550c7dc3d5ffb4e2] @
     [0x72be5d74f27b896f, 0x80deb1fe3b1696b1, 0x9bdc06a725c71235, 0xc19bf174cf692694] @
     [0xe49b69c19ef14ad2, 0xefbe4786384f25e3, 0xfc19dc68b8cd5b5, 0x240ca1cc77ac9c65] @
     [0x2de92c6f592b0275, 0x4a7484aa6ea6e483, 0x5cb0a9dcbd41fbd4, 0x76f988da831153b5] @
     [0x983e5152ee66dfab, 0xa831c66d2db43210, 0xb00327c898fb213f, 0xbf597fc7beef0ee4] @
     [0xc6e00bf33da88fc2, 0xd5a79147930aa725, 0x6ca6351e003826f, 0x142929670a0e6e70] @
     [0x27b70a8546d22ffc, 0x2e1b21385c26c926, 0x4d2c6dfc5ac42aed, 0x53380d139d95b3df] @
     [0x650a73548baf63de, 0x766a0abb3c77b2a8, 0x81c2c92e47edaee6, 0x92722c851482353b] @
     [0xa2bfe8a14cf10364, 0xa81a664bbc423001, 0xc24b8b70d0f89791, 0xc76c51a30654be30] @
     [0xd192e819d6ef5218, 0xd69906245565a910, 0xf40e35855771202a, 0x106aa07032bbd1b8] @
     [0x19a4c116b8d2d0c8, 0x1e376c085141ab53, 0x2748774cdf8eeb99, 0x34b0bcb5e19b48a8] @
     [0x391c0cb3c5c95a63, 0x4ed8aa4ae3418acb, 0x5b9cca4f7763e373, 0x682e6ff3d6b2b8a3] @
     [0x748f82ee5defb2fc, 0x78a5636f43172f60, 0x84c87814a1f0ab72, 0x8cc702081a6439ec] @
     [0x90befffa23631e28, 0xa4506cebde82bde9, 0xbef9a3f7b2c67915, 0xc67178f2e372532b] @
     [0xca273eceea26619c, 0xd186b8c721c0c207, 0xeada7dd6cde0eb1e, 0xf57d4f7fee6ed178] @
     [0x6f067aa72176fba, 0xa637dc5a2c898a6, 0x113f9804bef90dae, 0x1b710b35131c471b] @
     [0x28db77f523047d84, 0x32caab7b40c72493, 0x3c9ebe0a15c9bebc, 0x431d67c49c100d4c] @
     [0x4cc5d4becb3e42b6, 0x597f299cfc657e2a, 0x5fcb6fab3ad6faec, 0x6c44198c4a475817]"

definition sha256_W_step :: "u32 list \<Rightarrow> u32" where
  "sha256_W_step W =
     (let t = length W; w2 = W ! (t - 2); w15 = W ! (t - 15)
      in (rotr32 w2 17 XOR rotr32 w2 19 XOR drop_bit 10 w2) + W ! (t - 7)
         + (rotr32 w15 7 XOR rotr32 w15 18 XOR drop_bit 3 w15) + W ! (t - 16))"

text \<open>The array \<open>W\<close> is built up to 64 words: 16 words of the block, then the schedule.\<close>

definition sha256_W :: "u8 list \<Rightarrow> u32 list" where
  "sha256_W buf =
     fold (\<lambda>_ W. W @ [sha256_W_step W]) [16..<64]
       (map (\<lambda>t. swap_bytes32 (read_u32 buf t)) [0..<16])"

definition sha256_round :: "u32 list \<Rightarrow> nat \<Rightarrow> u32 list \<Rightarrow> u32 list" where
  "sha256_round W t v =
     (let a = v ! 0; b = v ! 1; c = v ! 2; d = v ! 3; e = v ! 4; f = v ! 5; g = v ! 6; h = v ! 7;
          K_t = ucast (drop_bit 32 (sha_K ! t)) :: u32;
          T1 = h + (rotr32 e 6 XOR rotr32 e 11 XOR rotr32 e 25)
                 + ((e AND f) XOR (NOT e AND g)) + K_t + W ! t;
          T2 = (rotr32 a 2 XOR rotr32 a 13 XOR rotr32 a 22)
                 + ((a AND b) XOR (a AND c) XOR (b AND c))
      in [T1 + T2, a, b, c, d + T1, e, f, g])"

definition sha256_process_block64 :: "md5_ctx \<Rightarrow> md5_ctx" where
  "sha256_process_block64 ctx =
     (let h = hash ctx; v = fold (sha256_round (sha256_W (wbuffer ctx))) [0..<64] (take 8 h)
      in ctx\<lparr>hash := map2 (+) h v\<rparr>)"

section \<open>The common operations\<close>

text \<open>The call through the function pointer.\<close>

definition call_block :: "md5_ctx \<Rightarrow> md5_ctx option" where
  "call_block ctx =
     (case process_block ctx of
        None \<Rightarrow> None
      | Some md5_block \<Rightarrow> Some (md5_process_block64 ctx)
      | Some sha1_block \<Rightarrow> sha1_process_block64 ctx
      | Some sha256_block \<Rightarrow> Some (sha256_process_block64 ctx))"

text \<open>The loop of \<open>common64_hash\<close>; the data that is left is the list, its length the
  variable \<open>len\<close>. After a full block \<open>bufpos\<close> is 0.\<close>

function common64_loop :: "md5_ctx \<Rightarrow> nat \<Rightarrow> u8 list \<Rightarrow> md5_ctx option" where
  "common64_loop ctx bufpos data =
     (let remaining = min (64 - bufpos) (length data);
          ctx1 = ctx\<lparr>wbuffer := blit bufpos (take remaining data) (wbuffer ctx)\<rparr>
      in if bufpos + remaining \<noteq> 64 then Some ctx1
         else do_opt (call_block ctx1) (\<lambda>ctx2. common64_loop ctx2 0 (drop remaining data)))"
  by pat_completeness auto
termination by (relation "measure (\<lambda>(ctx, bufpos, data). length data + bufpos)") (auto simp: min_def split: if_splits)

declare common64_loop.simps [simp del]

definition common64_hash :: "md5_ctx \<Rightarrow> u8 list \<Rightarrow> md5_ctx option" where
  "common64_hash ctx buffer =
     (let bufpos = unat (total64 ctx AND 63)
      in common64_loop (ctx\<lparr>total64 := total64 ctx + of_nat (length buffer)\<rparr>) bufpos buffer)"

definition length_field64 :: "bool \<Rightarrow> u64 \<Rightarrow> u8 list" where
  "length_field64 swap_needed n =
     (let t = push_bit 3 n in le_bytes64 (if swap_needed then swap_bytes64 t else t))"

function common64_end_loop :: "bool \<Rightarrow> md5_ctx \<Rightarrow> nat \<Rightarrow> md5_ctx option" where
  "common64_end_loop swap_needed ctx bufpos =
     (let remaining = 64 - bufpos;
          w = blit bufpos (replicate remaining 0) (wbuffer ctx);
          w' = (if 8 \<le> remaining then blit (64 - 8) (length_field64 swap_needed (total64 ctx)) w else w)
      in do_opt (call_block (ctx\<lparr>wbuffer := w'\<rparr>))
           (\<lambda>ctx2. if 8 \<le> remaining then Some ctx2 else common64_end_loop swap_needed ctx2 0))"
  by pat_completeness auto
termination by (relation "measure (\<lambda>(s, ctx, bufpos). bufpos)") auto

declare common64_end_loop.simps [simp del]

definition common64_end :: "bool \<Rightarrow> md5_ctx \<Rightarrow> md5_ctx option" where
  "common64_end swap_needed ctx =
     (let bufpos = unat (total64 ctx AND 63)
      in common64_end_loop swap_needed
           (ctx\<lparr>wbuffer := blit bufpos [0x80] (wbuffer ctx)\<rparr>) (bufpos + 1))"

definition md5_begin :: "md5_ctx \<Rightarrow> md5_ctx" where
  "md5_begin ctx = ctx\<lparr>
     hash := (hash ctx)[0 := 0x67452301, 1 := 0xefcdab89, 2 := 0x98badcfe, 3 := 0x10325476],
     total64 := 0, process_block := Some md5_block\<rparr>"

definition md5_hash :: "md5_ctx \<Rightarrow> u8 list \<Rightarrow> md5_ctx option" where
  "md5_hash ctx buffer = common64_hash ctx buffer"

definition md5_end :: "md5_ctx \<Rightarrow> (md5_ctx \<times> u8 list) option" where
  "md5_end ctx =
     do_opt (common64_end False ctx)
       (\<lambda>ctx'. Some (ctx', concat (map le_bytes32 (take 4 (hash ctx')))))"

definition sha1_begin :: "md5_ctx \<Rightarrow> md5_ctx" where
  "sha1_begin ctx = ctx\<lparr>
     hash := (hash ctx)[0 := 0x67452301, 1 := 0xefcdab89, 2 := 0x98badcfe, 3 := 0x10325476,
                        4 := 0xc3d2e1f0],
     total64 := 0, process_block := Some sha1_block\<rparr>"

definition init256 :: "u32 list" where
  "init256 = [
     0, 0, 0x6a09e667, 0xbb67ae85, 0x3c6ef372, 0xa54ff53a, 0x510e527f, 0x9b05688c,
     0x1f83d9ab, 0x5be0cd19]"

text \<open>The \<open>memcpy\<close> of ten words over \<open>total64\<close> and \<open>hash\<close>, which lie next to each other.\<close>

definition sha256_begin :: "md5_ctx \<Rightarrow> md5_ctx" where
  "sha256_begin ctx = ctx\<lparr>
     total64 := ucast (init256 ! 0) OR push_bit 32 (ucast (init256 ! 1)),
     hash := drop 2 init256, process_block := Some sha256_block\<rparr>"

definition sha1_end :: "md5_ctx \<Rightarrow> (md5_ctx \<times> u8 list) option" where
  "sha1_end ctx =
     do_opt (common64_end True ctx)
       (\<lambda>ctx'. let hash_size = (if process_block ctx' = Some sha1_block then 5 else 8);
                    h = map swap_bytes32 (take hash_size (hash ctx')) @ drop hash_size (hash ctx')
                in Some (ctx'\<lparr>hash := h\<rparr>, take (4 * hash_size) (concat (map le_bytes32 h))))"


section \<open>The context as a block hash\<close>

type_synonym chain64 = "block_fn option \<times> u32 list"

definition chain64 :: "md5_ctx \<Rightarrow> chain64" where
  "chain64 ctx = (process_block ctx, hash ctx)"

definition set_chain64 :: "chain64 \<Rightarrow> md5_ctx \<Rightarrow> md5_ctx" where
  "set_chain64 h ctx = ctx\<lparr>process_block := fst h, hash := snd h\<rparr>"

definition compress64 :: "chain64 \<Rightarrow> u8 list \<Rightarrow> chain64 option" where
  "compress64 h w =
     map_option chain64
       (call_block \<lparr>wbuffer = w, process_block = fst h, total64 = 0, hash = snd h\<rparr>)"

lemma md5_block_frame:
  "md5_process_block64 ctx = ctx\<lparr>hash := hash (md5_process_block64
     \<lparr>wbuffer = wbuffer ctx, process_block = p, total64 = t, hash = hash ctx\<rparr>)\<rparr>"
  by (simp add: md5_process_block64_def Let_def split: prod.splits)

lemma sha256_block_frame:
  "sha256_process_block64 ctx = ctx\<lparr>hash := hash (sha256_process_block64
     \<lparr>wbuffer = wbuffer ctx, process_block = p, total64 = t, hash = hash ctx\<rparr>)\<rparr>"
  by (simp add: sha256_process_block64_def Let_def)

lemma sha1_block_frame:
  "sha1_process_block64 ctx = map_option (\<lambda>c. ctx\<lparr>hash := hash c\<rparr>) (sha1_process_block64
     \<lparr>wbuffer = wbuffer ctx, process_block = p, total64 = t, hash = hash ctx\<rparr>)"
  by (auto simp: sha1_process_block64_def Let_def split: Option.bind_splits)

lemma process_block_frame:
  "process_block (md5_process_block64 ctx) = process_block ctx"
  "process_block (sha256_process_block64 ctx) = process_block ctx"
  by (subst md5_block_frame sha256_block_frame, simp)+

lemma call_block_compress:
  "call_block ctx =
     map_option (\<lambda>h. set_chain64 h ctx) (compress64 (chain64 ctx) (wbuffer ctx))"
proof (cases "process_block ctx")
  case None
  then show ?thesis by (simp add: call_block_def compress64_def chain64_def)
next
  case (Some b)
  let ?c = "\<lparr>wbuffer = wbuffer ctx, process_block = Some b, total64 = 0, hash = hash ctx\<rparr>"
  show ?thesis
  proof (cases b)
    case md5_block
    then show ?thesis
      using md5_block_frame [of ctx "Some b" 0] Some process_block_frame(1) [of ?c]
      by (simp add: call_block_def compress64_def chain64_def set_chain64_def)
  next
    case sha1_block
    have "sha1_process_block64 ?c = Some c' \<Longrightarrow> process_block c' = Some b" for c'
      by (auto simp: sha1_process_block64_def Let_def bind_eq_Some_conv)
    then show ?thesis
      using sha1_block_frame [of ctx "Some b" 0] Some sha1_block
      by (cases "sha1_process_block64 ?c")
        (simp_all add: call_block_def compress64_def chain64_def set_chain64_def)
  next
    case sha256_block
    then show ?thesis
      using sha256_block_frame [of ctx "Some b" 0] Some process_block_frame(2) [of ?c]
      by (simp add: call_block_def compress64_def chain64_def set_chain64_def)
  qed
qed

lemma unat_and_63: "unat (t AND 63 :: u64) = unat t mod 64"
proof -
  have "t AND 63 = take_bit 6 t" by (simp add: take_bit_eq_mask mask_eq_exp_minus_1)
  then show ?thesis by (simp add: take_bit_eq_mod unat_mod_distrib)
qed

definition length_bytes64 :: "bool \<Rightarrow> nat \<Rightarrow> u8 list" where
  "length_bytes64 swap_needed n = length_field64 swap_needed (of_nat n)"

interpretation c64: block_hash 64 wbuffer chain64 "\<lambda>w ctx. ctx\<lparr>wbuffer := w\<rparr>" set_chain64
  compress64 common64_loop "2 ^ 64" 8 "\<lambda>ctx. unat (total64 ctx)"
  "\<lambda>n ctx. ctx\<lparr>total64 := total64 ctx + of_nat n\<rparr>" "length_bytes64 swap_needed"
  common64_hash "common64_end_loop swap_needed" "common64_end swap_needed" for swap_needed
proof
  show "(0::nat) < 64" "(64::nat) dvd 2 ^ 64" "(8::nat) < 64" by simp_all
  show "common64_loop c p data =
      (let m = min (64 - p) (length data); c1 = c\<lparr>wbuffer := blit p (take m data) (wbuffer c)\<rparr>
       in if p + m \<noteq> 64 then Some c1
          else Option.bind (compress64 (chain64 c1) (wbuffer c1))
                 (\<lambda>h. common64_loop (set_chain64 h c1) 0 (drop m data)))" for c p data
    by (subst common64_loop.simps)
      (auto simp: Let_def call_block_compress split: Option.bind_splits)
  show "common64_end_loop swap_needed c p =
      (let rem = 64 - p; w = blit p (replicate rem 0) (wbuffer c);
           w' = (if 8 \<le> rem then blit (64 - 8) (length_bytes64 swap_needed (unat (total64 c))) w else w);
           c1 = c\<lparr>wbuffer := w'\<rparr>
       in Option.bind (compress64 (chain64 c1) (wbuffer c1))
            (\<lambda>h. if 8 \<le> rem then Some (set_chain64 h c1)
                 else common64_end_loop swap_needed (set_chain64 h c1) 0))" for c p
    by (subst common64_end_loop.simps)
      (auto simp: Let_def call_block_compress length_bytes64_def split: Option.bind_splits)
  show "unat (total64 (c\<lparr>total64 := total64 c + of_nat n\<rparr>)) = (unat (total64 c) + n) mod 2 ^ 64"
    if "n < 2 ^ 64" for n c
    by (simp add: unat_word_ariths unat_of_nat mod_add_right_eq)
  show "length (length_bytes64 swap_needed n) = 8" for n
    by (simp add: length_bytes64_def length_field64_def Let_def)
qed (simp_all add: chain64_def set_chain64_def common64_hash_def common64_end_def unat_and_63 Let_def)


section \<open>Reference definitions\<close>

text \<open>RFC 1321, section 3.4: 64 steps that rotate the roles of the four words.\<close>

definition md5_f :: "nat \<Rightarrow> u32 \<Rightarrow> u32 \<Rightarrow> u32 \<Rightarrow> u32" where
  "md5_f i x y z =
     (if i < 16 then (x AND y) OR (NOT x AND z)
      else if i < 32 then (x AND z) OR (y AND NOT z)
      else if i < 48 then x XOR y XOR z
      else y XOR (x OR NOT z))"

definition md5_k :: "nat \<Rightarrow> nat" where
  "md5_k i =
     (if i < 16 then i else if i < 32 then (5 * i + 1) mod 16
      else if i < 48 then (3 * i + 5) mod 16 else (7 * i) mod 16)"

definition md5_s :: "nat \<Rightarrow> nat" where
  "md5_s i = [[7, 12, 17, 22], [5, 9, 14, 20], [4, 11, 16, 23], [6, 10, 15, 21]] ! (i div 16) ! (i mod 4)"

definition md5_ref_step :: "(nat \<Rightarrow> u32) \<Rightarrow> nat \<Rightarrow> abcd \<Rightarrow> abcd" where
  "md5_ref_step w i st =
     (case st of (a, b, c, d) \<Rightarrow>
        (d, b + rotl32 (a + md5_f i b c d + w (md5_k i) + C_array ! i) (md5_s i), b, c))"

definition md5_ref_block :: "u32 list \<Rightarrow> u8 list \<Rightarrow> u32 list" where
  "md5_ref_block h blk =
     (case fold (md5_ref_step (read_u32 blk)) [0..<64] (h ! 0, h ! 1, h ! 2, h ! 3) of
        (a, b, c, d) \<Rightarrow> [h ! 0 + a, h ! 1 + b, h ! 2 + c, h ! 3 + d])"

definition md5_iv :: "u32 list" where
  "md5_iv = [0x67452301, 0xefcdab89, 0x98badcfe, 0x10325476]"

definition md5_reference :: "u8 list \<Rightarrow> u8 list" where
  "md5_reference msg =
     concat (map le_bytes32 (foldl md5_ref_block md5_iv
       (full_blocks 64 (md_pad 64 (le_bytes64 (of_nat (8 * length msg))) msg))))"

text \<open>FIPS 180-4, sections 4.1.2, 4.2.2, 5.3.3 and 6.2.\<close>

text \<open>The round constants: the first bits of the fractional parts of the cube roots of the
  first eighty prime numbers, sixty-four of them for SHA-256.\<close>

definition first_primes :: "nat list" where
  "first_primes = [
     2, 3, 5, 7, 11, 13, 17, 19, 23, 29, 31, 37, 41, 43, 47, 53, 59, 61, 67, 71,
     73, 79, 83, 89, 97, 101, 103, 107, 109, 113, 127, 131, 137, 139, 149, 151, 157, 163, 167, 173,
     179, 181, 191, 193, 197, 199, 211, 223, 227, 229, 233, 239, 241, 251, 257, 263, 269, 271, 277, 281,
     283, 293, 307, 311, 313, 317, 331, 337, 347, 349, 353, 359, 367, 373, 379, 383, 389, 397, 401, 409]"

definition cube_root_frac :: "nat \<Rightarrow> nat \<Rightarrow> nat" where
  "cube_root_frac b p = Max {c. c ^ 3 \<le> p * 2 ^ (3 * b)} mod 2 ^ b"

definition K256 :: "u32 list" where
  "K256 = map (\<lambda>p. of_nat (cube_root_frac 32 p)) (take 64 first_primes)"

definition be_u32 :: "u8 list \<Rightarrow> nat \<Rightarrow> u32" where
  "be_u32 buf t = push_bit 24 (ucast (buf ! (4 * t))) OR push_bit 16 (ucast (buf ! (4 * t + 1)))
     OR push_bit 8 (ucast (buf ! (4 * t + 2))) OR ucast (buf ! (4 * t + 3))"

fun sha256_ref_W :: "u8 list \<Rightarrow> nat \<Rightarrow> u32" where
  "sha256_ref_W blk t =
     (if t < 16 then be_u32 blk t
      else (let x = sha256_ref_W blk (t - 2); y = sha256_ref_W blk (t - 15)
            in (rotr32 x 17 XOR rotr32 x 19 XOR drop_bit 10 x) + sha256_ref_W blk (t - 7)
               + (rotr32 y 7 XOR rotr32 y 18 XOR drop_bit 3 y) + sha256_ref_W blk (t - 16)))"

declare sha256_ref_W.simps [simp del]

type_synonym abcdefgh = "u32 \<times> u32 \<times> u32 \<times> u32 \<times> u32 \<times> u32 \<times> u32 \<times> u32"

definition sha256_ref_step :: "u8 list \<Rightarrow> nat \<Rightarrow> abcdefgh \<Rightarrow> abcdefgh" where
  "sha256_ref_step blk t st =
     (case st of (a, b, c, d, e, f, g, h) \<Rightarrow>
      let Sigma1 = rotr32 e 6 XOR rotr32 e 11 XOR rotr32 e 25;
          Ch = (e AND f) XOR (NOT e AND g);
          T1 = h + Sigma1 + Ch + K256 ! t + sha256_ref_W blk t;
          Sigma0 = rotr32 a 2 XOR rotr32 a 13 XOR rotr32 a 22;
          Maj = (a AND b) XOR (a AND c) XOR (b AND c);
          T2 = Sigma0 + Maj
      in (T1 + T2, a, b, c, d + T1, e, f, g))"

definition sha256_ref_block :: "u32 list \<Rightarrow> u8 list \<Rightarrow> u32 list" where
  "sha256_ref_block H blk =
     (case fold (sha256_ref_step blk) [0..<64]
         (H ! 0, H ! 1, H ! 2, H ! 3, H ! 4, H ! 5, H ! 6, H ! 7) of
        (a, b, c, d, e, f, g, h) \<Rightarrow>
          [H ! 0 + a, H ! 1 + b, H ! 2 + c, H ! 3 + d, H ! 4 + e, H ! 5 + f, H ! 6 + g, H ! 7 + h])"

definition sha256_iv :: "u32 list" where
  "sha256_iv = [0x6a09e667, 0xbb67ae85, 0x3c6ef372, 0xa54ff53a,
     0x510e527f, 0x9b05688c, 0x1f83d9ab, 0x5be0cd19]"

definition sha256_reference :: "u8 list \<Rightarrow> u8 list" where
  "sha256_reference msg =
     concat (map (\<lambda>x. rev (le_bytes32 x)) (foldl sha256_ref_block sha256_iv
       (full_blocks 64 (md_pad 64 (rev (le_bytes64 (of_nat (8 * length msg)))) msg))))"

section \<open>MD5 is RFC 1321\<close>

lemma md5_F_select: "(z::u32) XOR (x AND (y XOR z)) = (x AND y) OR (NOT x AND z)"
  by (rule bit_word_eqI) (auto simp: bit_simps)

lemma md5_G_select: "(y::u32) XOR (z AND (x XOR y)) = (x AND z) OR (y AND NOT z)"
  by (rule bit_word_eqI) (auto simp: bit_simps)

lemma upt4: "[n..<n + 4] = [n, n + 1, n + 2, n + 3]"
  by (simp add: upt_rec)

lemma less4_cases: "(i::nat) < 4 \<Longrightarrow> i = 0 \<or> i = 1 \<or> i = 2 \<or> i = 3"
  by auto

lemma md5_f_code:
  "i < 16 \<Longrightarrow> md5_f i x y z = z XOR (x AND (y XOR z))"
  "16 \<le> i \<Longrightarrow> i < 32 \<Longrightarrow> md5_f i x y z = y XOR (z AND (x XOR y))"
  "32 \<le> i \<Longrightarrow> i < 48 \<Longrightarrow> md5_f i x y z = x XOR y XOR z"
  "48 \<le> i \<Longrightarrow> md5_f i x y z = y XOR (x OR NOT z)"
  by (auto simp: md5_f_def md5_F_select and.commute)

lemma md5_ref_step_code:
  "md5_ref_step w i (a, b, c, d) =
     (d, rotl32 (a + (md5_f i b c d + w (md5_k i) + C_array ! i)) (md5_s i) + b, b, c)"
  by (simp add: md5_ref_step_def add.commute add.left_commute add.assoc)

lemmas md5_step_defs = md5_ref_step_code md5_f_code md5_k_def md5_s_def Let_def P_array_def

lemma md5_round1_ref: "i < 4 \<Longrightarrow> md5_round1 w i st = fold (md5_ref_step w) [4 * i..<4 * i + 4] st"
  by (cases st) (auto dest!: less4_cases simp: upt4 md5_round1_def md5_step_defs)

lemma md5_round2_ref:
  "i < 4 \<Longrightarrow> md5_round2 w i st = fold (md5_ref_step w) [16 + 4 * i..<16 + 4 * i + 4] st"
  by (cases st) (auto dest!: less4_cases simp: upt4 md5_round2_def md5_step_defs)

lemma md5_round3_ref:
  "i < 4 \<Longrightarrow> md5_round3 w i st = fold (md5_ref_step w) [32 + 4 * i..<32 + 4 * i + 4] st"
  by (cases st) (auto dest!: less4_cases simp: upt4 md5_round3_def md5_step_defs)

lemma md5_round4_ref:
  "i < 4 \<Longrightarrow> md5_round4 w i st = fold (md5_ref_step w) [48 + 4 * i..<48 + 4 * i + 4] st"
  by (cases st) (auto dest!: less4_cases simp: upt4 md5_round4_def md5_step_defs)

lemma fold_round:
  assumes "\<And>i s. i < n \<Longrightarrow> g i s = fold f [a + 4 * i..<a + 4 * i + 4] s"
  shows "fold g [0..<n] s = fold f [a..<a + 4 * n] s"
  using assms
proof (induction n arbitrary: s)
  case (Suc n)
  have "[a..<a + 4 * Suc n] = [a..<a + 4 * n] @ [a + 4 * n..<a + 4 * n + 4]"
    using upt_add_eq_append [of a "a + 4 * n" 4] by (simp add: algebra_simps)
  with Suc show ?case by simp
qed simp

lemma md5_rounds_ref: "md5_rounds w st = fold (md5_ref_step w) [0..<64] st"
proof -
  have "fold (md5_round1 w) [0..<4] st = fold (md5_ref_step w) [0..<16] st" for st
    using fold_round [of 4 "md5_round1 w" "md5_ref_step w" 0] by (simp add: md5_round1_ref)
  moreover have "fold (md5_round2 w) [0..<4] st = fold (md5_ref_step w) [16..<32] st" for st
    using fold_round [of 4 "md5_round2 w" "md5_ref_step w" 16] by (simp add: md5_round2_ref)
  moreover have "fold (md5_round3 w) [0..<4] st = fold (md5_ref_step w) [32..<48] st" for st
    using fold_round [of 4 "md5_round3 w" "md5_ref_step w" 32] by (simp add: md5_round3_ref)
  moreover have "fold (md5_round4 w) [0..<4] st = fold (md5_ref_step w) [48..<64] st" for st
    using fold_round [of 4 "md5_round4 w" "md5_ref_step w" 48] by (simp add: md5_round4_ref)
  moreover have "[0..<64::nat] = [0..<16] @ [16..<32] @ [32..<48] @ [48..<64]"
    using upt_add_eq_append [of 0 16 48] upt_add_eq_append [of 16 32 32]
      upt_add_eq_append [of 32 48 16] by simp
  ultimately show ?thesis by (simp only: md5_rounds_def fold_append comp_apply)
qed


lemma md5_compress_ref:
  assumes "length h = 8"
  shows "compress64 (Some md5_block, h) blk = Some (Some md5_block, md5_ref_block (take 4 h) blk @ drop 4 h)"
proof -
  obtain h0 h1 h2 h3 t where h: "h = [h0, h1, h2, h3] @ t"
    using assms by (auto simp: numeral_eq_Suc length_Suc_conv)
  show ?thesis
    by (simp add: compress64_def call_block_def md5_process_block64_def md5_ref_block_def
        md5_rounds_ref chain64_def h split: prod.splits)
qed

lemma length_md5_ref_block [simp]: "length (md5_ref_block h blk) = 4"
  by (simp add: md5_ref_block_def split: prod.splits)

lemma md5_absorb_ref:
  "length h = 4 \<Longrightarrow> length r = 4 \<Longrightarrow> absorb compress64 (Some md5_block, h @ r) bs =
     Some (Some md5_block, foldl md5_ref_block h bs @ r)"
  by (induction bs arbitrary: h) (simp_all add: md5_compress_ref)

lemma length_foldl_md5: "length h = 4 \<Longrightarrow> length (foldl md5_ref_block h bs) = 4"
  by (induction bs arbitrary: h) simp_all

lemma of_nat_mod_64: "(of_nat (n mod 2 ^ 64) :: u64) = of_nat n"
  by (rule word_unat_eq_iff [THEN iffD2]) (simp add: unat_of_nat)

lemma length_bytes_ref:
  "length_bytes64 False (n mod 2 ^ 64) = le_bytes64 (of_nat (8 * n))"
  "length_bytes64 True (n mod 2 ^ 64) = le_bytes64 (swap_bytes64 (of_nat (8 * n)))"
  unfolding length_bytes64_def length_field64_def Let_def of_nat_mod_64
  by (simp_all add: push_bit_eq_mult mult.commute)

lemma c64_digest:
  assumes "length (wbuffer ctx) = 64" "total64 ctx = 0" "\<forall>d \<in> set ds. length d < 2 ^ 64"
  shows "map_option chain64 (Option.bind (absorb common64_hash ctx ds) (common64_end sw)) =
    absorb compress64 (chain64 ctx)
      (full_blocks 64 (md_pad 64 (length_bytes64 sw (length (concat ds) mod 2 ^ 64)) (concat ds)))"
  using c64.stream_digest [OF c64.stream_inv_init, of ctx ds sw] assms by simp

section \<open>SHA-256 is FIPS 180-4\<close>

lemma swap_read_be: "swap_bytes32 (read_u32 buf t) = be_u32 buf t"
  by (simp only: swap_bytes32_def le_bytes32_read rev.simps append.simps read_u32_4 be_u32_def
      or.commute or.left_commute or.assoc)

lemma sha256_W_ref: "sha256_W buf = map (sha256_ref_W buf) [0..<64]"
proof -
  have 0: "map (\<lambda>t. swap_bytes32 (read_u32 buf t)) [0..<16] = map (sha256_ref_W buf) [0..<16]"
    by (simp add: swap_read_be sha256_ref_W.simps)
  have "fold (\<lambda>_ W. W @ [sha256_W_step W]) [16..<16 + n] (map (sha256_ref_W buf) [0..<16]) =
      map (sha256_ref_W buf) [0..<16 + n]" for n
  proof (induction n)
    case (Suc n)
    have "sha256_W_step (map (sha256_ref_W buf) [0..<16 + n]) = sha256_ref_W buf (16 + n)"
      by (subst sha256_ref_W.simps) (simp add: sha256_W_step_def Let_def)
    moreover have "[16..<16 + Suc n] = [16..<16 + n] @ [16 + n]" "[0..<16 + Suc n] = [0..<16 + n] @ [16 + n]"
      by (simp_all only: add_Suc_right upt_Suc_append le_add1 le0)
    ultimately show ?case using Suc by (simp only: fold_append comp_apply fold.simps map_append list.map id_apply)
  qed simp
  note this [of 48]
  moreover have "(16::nat) + 48 = 64" by simp
  ultimately show ?thesis by (simp only: sha256_W_def 0)
qed

lemma cube_root_Max:
  assumes "c ^ 3 \<le> n" "n < Suc c ^ 3"
  shows "Max {x. x ^ 3 \<le> n} = (c::nat)"
proof (rule Max_eqI)
  have le: "x \<le> c" if "x ^ 3 \<le> n" for x
  proof (rule ccontr)
    assume "\<not> x \<le> c"
    then have "Suc c ^ 3 \<le> x ^ 3" by (intro power_mono) simp_all
    with that assms(2) show False by simp
  qed
  then have "{x. x ^ 3 \<le> n} \<subseteq> {..c}" by blast
  then show "finite {x. x ^ 3 \<le> n}" by (rule finite_subset) simp
  show "y \<le> c" if "y \<in> {x. x ^ 3 \<le> n}" for y using that le by simp
  show "c \<in> {x. x ^ 3 \<le> n}" using assms(1) by simp
qed

text \<open>The integer part of the cube root of a prime below 512.\<close>

definition cube_root_int :: "nat \<Rightarrow> nat" where
  "cube_root_int p = (if p < 8 then 1 else if p < 27 then 2 else if p < 64 then 3
     else if p < 125 then 4 else if p < 216 then 5 else if p < 343 then 6 else 7)"

definition cube_root_of :: "nat \<Rightarrow> nat \<Rightarrow> bool" where
  "cube_root_of n c \<longleftrightarrow> c * c * c \<le> n \<and> n < (c + 1) * (c + 1) * (c + 1)"

definition cube_root_check :: "nat \<Rightarrow> nat \<Rightarrow> bool" where
  "cube_root_check p k \<longleftrightarrow> k < 2 ^ 64 \<and> cube_root_of (p * 2 ^ 192) (cube_root_int p * 2 ^ 64 + k)"

lemma sha_K_check: "list_all2 cube_root_check first_primes (map unat sha_K)"
  by (simp add: first_primes_def sha_K_def cube_root_check_def cube_root_of_def cube_root_int_def)

lemma cube_root_checkD:
  assumes "cube_root_check p k"
  shows "k < 2 ^ 64" "(cube_root_int p * 2 ^ 64 + k) ^ 3 \<le> p * 2 ^ 192"
    "p * 2 ^ 192 < Suc (cube_root_int p * 2 ^ 64 + k) ^ 3"
  using assms by (simp_all only: cube_root_check_def cube_root_of_def power3_eq_cube Suc_eq_plus1)

lemma cube_root_check_64: "cube_root_check p k \<Longrightarrow> cube_root_frac 64 p = k"
proof -
  assume k: "cube_root_check p k"
  have "3 * 64 = (192::nat)" by simp
  then have "cube_root_frac 64 p = (cube_root_int p * 2 ^ 64 + k) mod 2 ^ 64"
    unfolding cube_root_frac_def using cube_root_Max [OF cube_root_checkD(2,3) [OF k]] by (simp only:)
  also have "\<dots> = k" using cube_root_checkD(1) [OF k] by (simp only: mod_mult_self3 mod_less)
  finally show ?thesis .
qed

lemma cube_root_scale:
  fixes B :: nat
  assumes "c ^ 3 \<le> n * B ^ 3" "n * B ^ 3 < Suc c ^ 3" "0 < B"
  shows "(c div B) ^ 3 \<le> n" "n < Suc (c div B) ^ 3"
proof -
  have "(c div B * B) ^ 3 \<le> c ^ 3" by (intro power_mono) simp_all
  then have "(c div B) ^ 3 * B ^ 3 \<le> n * B ^ 3" using assms(1)
    unfolding power_mult_distrib by (rule order_trans)
  then show "(c div B) ^ 3 \<le> n" using assms(3) by simp
  have "Suc c ^ 3 \<le> (Suc (c div B) * B) ^ 3"
    using dividend_less_times_div [OF assms(3), of c] by (intro power_mono) (simp_all add: mult.commute)
  with assms(2) have "n * B ^ 3 < Suc (c div B) ^ 3 * B ^ 3"
    unfolding power_mult_distrib by (rule less_le_trans)
  then show "n < Suc (c div B) ^ 3" by simp
qed

lemma cube_root_check_32:
  assumes "cube_root_check p k"
  shows "cube_root_frac 32 p = k div 2 ^ 32"
proof -
  let ?c = "cube_root_int p * 2 ^ 64 + k"
  have B: "p * 2 ^ 192 = p * 2 ^ (3 * 32) * (2 ^ 32) ^ 3" by (simp flip: power_add power_mult)
  have "Max {x. x ^ 3 \<le> p * 2 ^ (3 * 32)} = ?c div 2 ^ 32"
    by (rule cube_root_Max; rule cube_root_scale)
      (use cube_root_checkD(2,3) [OF assms] in \<open>simp_all only: B\<close>, simp_all)
  moreover have "?c = k + cube_root_int p * 2 ^ 32 * 2 ^ 32" by simp
  then have "?c div 2 ^ 32 = cube_root_int p * 2 ^ 32 + k div 2 ^ 32"
    by (simp only: div_mult_self1 power_not_zero zero_neq_numeral simp_thms)
  moreover have "k div 2 ^ 32 < 2 ^ 32" using cube_root_checkD(1) [OF assms] by simp
  ultimately show ?thesis by (simp only: cube_root_frac_def mod_mult_self3 mod_less)
qed

lemma length_first_primes: "length first_primes = 80" "length sha_K = 80"
  by (simp_all add: first_primes_def sha_K_def)

lemma sha_K_nth: "t < 80 \<Longrightarrow> cube_root_check (first_primes ! t) (unat (sha_K ! t))"
  using list_all2_nthD [OF sha_K_check, of t] by (simp add: length_first_primes)

lemma K256_nth: "t < 64 \<Longrightarrow> ucast (drop_bit 32 (sha_K ! t)) = K256 ! t"
proof -
  assume t: "t < 64"
  have "K256 ! t = of_nat (unat (sha_K ! t) div 2 ^ 32)"
    using t cube_root_check_32 [OF sha_K_nth, of t] by (simp add: K256_def length_first_primes)
  also have "unat (sha_K ! t) div 2 ^ 32 = unat (drop_bit 32 (sha_K ! t))"
    unfolding unat_drop_bit_eq by (simp only: drop_bit_eq_div)
  finally show ?thesis by simp
qed

definition list8 :: "abcdefgh \<Rightarrow> u32 list" where
  "list8 st = (case st of (a, b, c, d, e, f, g, h) \<Rightarrow> [a, b, c, d, e, f, g, h])"

lemma sha256_round_ref:
  assumes "t < 64"
  shows "sha256_round (sha256_W buf) t (list8 st) = list8 (sha256_ref_step buf t st)"
proof -
  have "sha256_W buf ! t = sha256_ref_W buf t" using assms by (simp add: sha256_W_ref)
  moreover obtain a b c d e f p where "st = (a, b, c, d, e, f, p)" by (cases st)
  moreover obtain g h where "p = (g, h)" by (cases p)
  ultimately show ?thesis
    using K256_nth [OF assms]
    by (simp add: sha256_round_def sha256_ref_step_def list8_def Let_def)
qed

lemma sha256_fold_ref:
  "n \<le> 64 \<Longrightarrow> fold (sha256_round (sha256_W buf)) [0..<n] (list8 st) =
     list8 (fold (sha256_ref_step buf) [0..<n] st)"
  by (induction n) (simp_all add: sha256_round_ref)

lemma sha256_compress_ref:
  assumes "length h = 8"
  shows "compress64 (Some sha256_block, h) blk = Some (Some sha256_block, sha256_ref_block h blk)"
proof -
  obtain a b c d e f g i where h: "h = [a, b, c, d, e, f, g, i]"
    using assms by (auto simp: numeral_eq_Suc length_Suc_conv)
  have "fold (sha256_round (sha256_W blk)) [0..<64] h =
      list8 (fold (sha256_ref_step blk) [0..<64] (a, b, c, d, e, f, g, i))"
    using sha256_fold_ref [of 64 blk "(a, b, c, d, e, f, g, i)"] by (simp add: list8_def h)
  then show ?thesis
    by (simp add: compress64_def call_block_def sha256_process_block64_def sha256_ref_block_def
        chain64_def Let_def list8_def h split: prod.splits)
qed

lemma length_sha256_ref_block [simp]: "length (sha256_ref_block h blk) = 8"
  by (simp add: sha256_ref_block_def split: prod.splits)

lemma sha256_absorb_ref:
  "length h = 8 \<Longrightarrow> absorb compress64 (Some sha256_block, h) bs =
     Some (Some sha256_block, foldl sha256_ref_block h bs)"
  by (induction bs arbitrary: h) (simp_all add: sha256_compress_ref)

lemma length_foldl_sha256: "length h = 8 \<Longrightarrow> length (foldl sha256_ref_block h bs) = 8"
  by (induction bs arbitrary: h) simp_all


section \<open>SHA-1 panics on every block\<close>

lemma idx_in [simp]: "i < length xs \<Longrightarrow> idx xs i = Some (xs ! i)"
  by (simp add: idx_def)

lemma idx_out: "length xs \<le> i \<Longrightarrow> idx xs i = None"
  by (simp add: idx_def)

lemma sha1_expand_panic: "length W = 32 \<Longrightarrow> sha1_expand W 16 = None"
  by (simp add: sha1_expand_def upd_idx_def)

lemma sha1_step_early:
  "3 < j \<Longrightarrow> scnt s < length (sW s) \<Longrightarrow>
     \<exists>s'. sha1_step 0 j s = Some s' \<and> sW s' = sW s \<and> scnt s' = Suc (scnt s)"
  by (simp add: sha1_step_def Let_def rconsts_def)

lemma sha1_inner_panic:
  "scnt s + j = 19 \<Longrightarrow> 3 \<le> j \<Longrightarrow> length (sW s) = 32 \<Longrightarrow> sha1_inner 0 j s = None"
proof (induction j arbitrary: s)
  case 0
  then show ?case by simp
next
  case (Suc j)
  show ?case
  proof (cases "Suc j = 3")
    case True
    then have "sha1_step 0 (Suc j) s = None"
      using Suc.prems by (simp add: sha1_step_def Let_def sha1_expand_panic)
    then show ?thesis by (subst sha1_inner.simps) simp
  next
    case False
    then obtain s' where "sha1_step 0 (Suc j) s = Some s'" "sW s' = sW s" "scnt s' = Suc (scnt s)"
      using sha1_step_early [of "Suc j" s] Suc.prems by auto
    with Suc False show ?thesis by (subst sha1_inner.simps) simp
  qed
qed

lemma sha1_block_panic: "sha1_process_block64 ctx = None"
  by (simp add: sha1_process_block64_def Let_def sha1_inner_panic)

lemma sha1_compress_panic: "compress64 (Some sha1_block, h) blk = None"
  by (simp add: compress64_def call_block_def sha1_block_panic)

section \<open>Properties\<close>


definition blank_ctx :: md5_ctx where
  "blank_ctx = \<lparr>wbuffer = replicate 64 0, process_block = None, total64 = 0, hash = replicate 8 0\<rparr>"


lemma sha256_digest:
  assumes "ctx_ok ctx" "\<forall>d \<in> set ds. length d < 2 ^ 64"
  shows "\<exists>ctx'. Option.bind (absorb md5_hash (sha256_begin ctx) ds) sha1_end =
    Some (ctx', sha256_reference (concat ds))"
proof -
  let ?bs = "full_blocks 64 (md_pad 64 (rev (le_bytes64 (of_nat (8 * length (concat ds))))) (concat ds))"
  let ?c = "sha256_begin ctx" and ?h = "foldl sha256_ref_block sha256_iv"
  have ch: "chain64 ?c = (Some sha256_block, sha256_iv)"
    by (simp add: sha256_begin_def chain64_def sha256_iv_def init256_def)
  have "map_option chain64 (Option.bind (absorb common64_hash ?c ds) (common64_end True)) =
      Some (Some sha256_block, ?h ?bs)"
  proof -
    have "length (wbuffer ?c) = 64" "total64 ?c = 0"
      using assms(1) by (simp_all add: sha256_begin_def init256_def ctx_ok_def)
    note c64_digest [OF this assms(2), of True, unfolded length_bytes_ref le_bytes64_swap]
    also have "absorb compress64 (chain64 ?c) ?bs = Some (Some sha256_block, ?h ?bs)"
      unfolding ch by (rule sha256_absorb_ref) (simp add: sha256_iv_def)
    finally show ?thesis .
  qed
  then obtain c1 c2 where c: "absorb common64_hash ?c ds = Some c1" "common64_end True c1 = Some c2"
    "hash c2 = ?h ?bs" "process_block c2 = Some sha256_block"
    by (auto simp: bind_eq_Some_conv chain64_def)
  have len: "length (?h ?bs) = 8" by (rule length_foldl_sha256) (simp add: sha256_iv_def)
  then have "concat (map le_bytes32 (map swap_bytes32 (?h ?bs))) = sha256_reference (concat ds)"
    by (simp add: sha256_reference_def le_bytes32_swap comp_def)
  moreover have "length (concat (map le_bytes32 (map swap_bytes32 (?h ?bs)))) = 32"
    using len by (simp add: length_concat comp_def sum_list_triv)
  moreover have "md5_hash = common64_hash" by (simp add: md5_hash_def fun_eq_iff)
  ultimately show ?thesis using c len by (simp add: sha1_end_def Let_def)
qed

text \<open>C9. SHA-256 is FIPS 180-4 for every message and every way of feeding it.\<close>

theorem sha256_correct:
  assumes "ctx_ok ctx" "\<forall>d \<in> set ds. length d < 2 ^ 64"
  shows "\<exists>ctx'. Option.bind (absorb md5_hash (sha256_begin ctx) ds) sha1_end =
    Some (ctx', sha256_reference (concat ds))"
  using assms by (rule sha256_digest)

theorem sha256_correct_witness:
  "\<exists>ctx'. Option.bind (absorb md5_hash (sha256_begin blank_ctx) [[0x61], [0x62, 0x63]]) sha1_end =
    Some (ctx', sha256_reference [0x61, 0x62, 0x63])"
  using sha256_correct [of blank_ctx "[[0x61], [0x62, 0x63]]"] by (simp add: ctx_ok_def blank_ctx_def)

text \<open>C10. SHA-1 never produces a digest: its block function indexes past the end of its
  work array on every block, so finishing any SHA-1 computation panics.\<close>

theorem sha1_always_panics:
  assumes "ctx_ok ctx" "\<forall>d \<in> set ds. length d < 2 ^ 64"
  shows "Option.bind (absorb md5_hash (sha1_begin ctx) ds) sha1_end = None"
proof -
  let ?c = "sha1_begin ctx" and ?l = "length_bytes64 True (length (concat ds) mod 2 ^ 64)"
  have c: "length (wbuffer ?c) = 64" "total64 ?c = 0" "chain64 ?c = (Some sha1_block, hash ?c)"
    using assms(1) by (simp_all add: sha1_begin_def ctx_ok_def chain64_def)
  have "length ?l < 64" by (simp add: c64.length_lenf)
  then obtain b bs where "full_blocks 64 (md_pad 64 ?l (concat ds)) = b # bs"
    using full_blocks_md_pad by blast
  then have "map_option chain64 (Option.bind (absorb common64_hash ?c ds) (common64_end True)) = None"
    using c64_digest [OF c(1,2) assms(2), of True] by (simp add: c(3) sha1_compress_panic)
  moreover have "md5_hash = common64_hash" by (simp add: md5_hash_def fun_eq_iff)
  ultimately show ?thesis
    by (cases "absorb common64_hash ?c ds") (auto simp: sha1_end_def)
qed

theorem sha1_always_panics_witness:
  "Option.bind (absorb md5_hash (sha1_begin blank_ctx) [[0x61], [0x62, 0x63]]) sha1_end = None"
  by (rule sha1_always_panics) (simp_all add: ctx_ok_def blank_ctx_def)

end
