(* ===== verification/RB_Sha512.thy ===== *)
theory RB_Sha512
  imports RB_Md5Sha
begin

text \<open>
  SHA-512 of \<^verbatim>\<open>src/libbb/hash_md5_sha.rs\<close> on \<^verbatim>\<open>sha512_ctx_t\<close> (\<^verbatim>\<open>src/librb/mod.rs\<close>): the
  block function, \<open>sha512_begin\<close>, \<open>sha512_hash\<close> and \<open>sha512_end\<close>. The byte counter is the
  pair \<open>total64[0]\<close>, \<open>total64[1]\<close> of 64-bit words. The context is an instance of the
  interface \<open>block_hash\<close> with blocks of 128 bytes, a length field of 16 bytes and a counter
  modulo \<open>2 ^ 128\<close>, which gives the equality with FIPS 180-4 for every message.
\<close>

section \<open>The context and the block function\<close>

record sha512_ctx =
  total512 :: "u64 \<times> u64"
  hash512 :: "u64 list"
  wbuffer512 :: "u8 list"

definition sha512_W_step :: "u64 list \<Rightarrow> u64" where
  "sha512_W_step W =
     (let t = length W; w2 = W ! (t - 2); w15 = W ! (t - 15)
      in (rotr64 w2 19 XOR rotr64 w2 61 XOR drop_bit 6 w2) + W ! (t - 7)
         + (rotr64 w15 1 XOR rotr64 w15 8 XOR drop_bit 7 w15) + W ! (t - 16))"

definition sha512_W :: "u8 list \<Rightarrow> u64 list" where
  "sha512_W buf =
     fold (\<lambda>_ W. W @ [sha512_W_step W]) [16..<80]
       (map (\<lambda>t. swap_bytes64 (read_u64 buf t)) [0..<16])"

definition sha512_round :: "u64 list \<Rightarrow> nat \<Rightarrow> u64 list \<Rightarrow> u64 list" where
  "sha512_round W t v =
     (let a = v ! 0; b = v ! 1; c = v ! 2; d = v ! 3; e = v ! 4; f = v ! 5; g = v ! 6; h = v ! 7;
          T1 = h + (rotr64 e 14 XOR rotr64 e 18 XOR rotr64 e 41)
                 + ((e AND f) XOR (NOT e AND g)) + sha_K ! t + W ! t;
          T2 = (rotr64 a 28 XOR rotr64 a 34 XOR rotr64 a 39)
                 + ((a AND b) XOR (a AND c) XOR (b AND c))
      in [T1 + T2, a, b, c, d + T1, e, f, g])"

definition sha512_process_block128 :: "sha512_ctx \<Rightarrow> sha512_ctx" where
  "sha512_process_block128 ctx =
     (let h = hash512 ctx;
          v = fold (sha512_round (sha512_W (wbuffer512 ctx))) [0..<80] (take 8 h)
      in ctx\<lparr>hash512 := map2 (+) h v\<rparr>)"

section \<open>The operations\<close>

definition init512_lo :: "u32 list" where
  "init512_lo = [
     0, 0, 0xf3bcc908, 0x84caa73b, 0xfe94f82b, 0x5f1d36f1, 0xade682d1, 0x2b3e6c1f,
     0xfb41bd6b, 0x137e2179]"

text \<open>The loop writes ten words from \<open>total64\<close> on; the eight words of \<open>hash\<close> follow it.\<close>

definition sha512_begin :: "sha512_ctx \<Rightarrow> sha512_ctx" where
  "sha512_begin ctx =
     (let tp = map (\<lambda>i. push_bit 32 (ucast (init256 ! i)) + ucast (init512_lo ! i)) [0..<2 + 8]
      in ctx\<lparr>total512 := (tp ! 0, tp ! 1), hash512 := drop 2 tp\<rparr>)"

function sha512_loop :: "sha512_ctx \<Rightarrow> nat \<Rightarrow> u8 list \<Rightarrow> sha512_ctx" where
  "sha512_loop ctx bufpos data =
     (let remaining = min (128 - bufpos) (length data);
          ctx1 = ctx\<lparr>wbuffer512 := blit bufpos (take remaining data) (wbuffer512 ctx)\<rparr>
      in if bufpos + remaining \<noteq> 128 then ctx1
         else sha512_loop (sha512_process_block128 ctx1) 0 (drop remaining data))"
  by pat_completeness auto
termination by (relation "measure (\<lambda>(ctx, bufpos, data). length data + bufpos)") (auto simp: min_def split: if_splits)

declare sha512_loop.simps [simp del]

definition add_total512 :: "u64 \<Rightarrow> u64 \<times> u64 \<Rightarrow> u64 \<times> u64" where
  "add_total512 len t =
     (let lo = fst t + len in (lo, if lo < len then snd t + 1 else snd t))"

definition sha512_hash :: "sha512_ctx \<Rightarrow> u8 list \<Rightarrow> sha512_ctx" where
  "sha512_hash ctx buffer =
     (let bufpos = unat (fst (total512 ctx) AND 127)
      in sha512_loop
           (ctx\<lparr>total512 := add_total512 (of_nat (length buffer)) (total512 ctx)\<rparr>) bufpos buffer)"

text \<open>The bytes the two adjacent 8-byte stores at 112 and 120 leave in the buffer.\<close>

definition length_field128 :: "u64 \<times> u64 \<Rightarrow> u8 list" where
  "length_field128 t =
     le_bytes64 (swap_bytes64 (push_bit 3 (snd t) OR drop_bit 61 (fst t))) @
     le_bytes64 (swap_bytes64 (push_bit 3 (fst t)))"

function sha512_end_loop :: "sha512_ctx \<Rightarrow> nat \<Rightarrow> sha512_ctx" where
  "sha512_end_loop ctx bufpos =
     (let remaining = 128 - bufpos;
          w = blit bufpos (replicate remaining 0) (wbuffer512 ctx);
          w' = (if 16 \<le> remaining then blit (128 - 16) (length_field128 (total512 ctx)) w else w);
          ctx2 = sha512_process_block128 (ctx\<lparr>wbuffer512 := w'\<rparr>)
      in if 16 \<le> remaining then ctx2 else sha512_end_loop ctx2 0)"
  by pat_completeness auto
termination by (relation "measure (\<lambda>(ctx, bufpos). bufpos)") auto

declare sha512_end_loop.simps [simp del]

definition sha512_end :: "sha512_ctx \<Rightarrow> sha512_ctx \<times> u8 list" where
  "sha512_end ctx =
     (let bufpos = unat (fst (total512 ctx) AND 127);
          ctx1 = sha512_end_loop
            (ctx\<lparr>wbuffer512 := blit bufpos [0x80] (wbuffer512 ctx)\<rparr>) (bufpos + 1);
          ctx2 = ctx1\<lparr>hash512 := map swap_bytes64 (hash512 ctx1)\<rparr>
      in (ctx2, concat (map le_bytes64 (hash512 ctx2))))"

section \<open>The context as a block hash\<close>

definition compress512 :: "u64 list \<Rightarrow> u8 list \<Rightarrow> u64 list option" where
  "compress512 h w = Some (hash512 (sha512_process_block128
     \<lparr>total512 = (0, 0), hash512 = h, wbuffer512 = w\<rparr>))"

definition total_nat :: "u64 \<times> u64 \<Rightarrow> nat" where
  "total_nat t = unat (fst t) + 2 ^ 64 * unat (snd t)"

definition length_bytes128 :: "nat \<Rightarrow> u8 list" where
  "length_bytes128 n = length_field128 (of_nat n, of_nat (n div 2 ^ 64))"

definition sha512_fin :: "sha512_ctx \<Rightarrow> sha512_ctx option" where
  "sha512_fin ctx =
     (let bufpos = unat (fst (total512 ctx) AND 127)
      in Some (sha512_end_loop
            (ctx\<lparr>wbuffer512 := blit bufpos [0x80] (wbuffer512 ctx)\<rparr>) (bufpos + 1)))"

lemma sha512_block_compress:
  "Some (sha512_process_block128 ctx) =
     map_option (\<lambda>h. ctx\<lparr>hash512 := h\<rparr>) (compress512 (hash512 ctx) (wbuffer512 ctx))"
  by (simp add: compress512_def sha512_process_block128_def Let_def)

lemma unat_of_nat64: "unat (of_nat m :: u64) = m mod 2 ^ 64"
  by (simp add: unat_of_nat)

lemma total_add:
  assumes "n < 2 ^ 64"
  shows "total_nat (add_total512 (of_nat n) t) = (total_nat t + n) mod 2 ^ 128"
proof -
  obtain lo hi where t: "t = (lo, hi)" by (cases t)
  have n: "unat (of_nat n :: u64) = n" using assms by (simp add: unat_of_nat)
  have lo: "unat lo < 2 ^ 64" "unat hi < 2 ^ 64" using unsigned_less [of lo] unsigned_less [of hi] by simp_all
  have 2: "(2::nat) ^ 128 = 2 ^ 64 * 2 ^ 64" by simp
  show ?thesis
  proof (cases "unat lo + n < 2 ^ 64")
    case True
    then have s: "unat (lo + of_nat n) = unat lo + n" by (simp add: unat_word_ariths n)
    then have "\<not> lo + of_nat n < of_nat n" by (simp add: word_less_nat_alt n)
    moreover have "unat lo + 2 ^ 64 * unat hi + n < 2 ^ 128"
      using True lo unfolding 2 by auto
    ultimately show ?thesis by (simp add: t total_nat_def add_total512_def Let_def s)
  next
    case False
    then have s: "unat (lo + of_nat n) = unat lo + n - 2 ^ 64"
      using assms lo by (simp add: unat_word_ariths n mod_if)
    then have "lo + of_nat n < of_nat n" using lo False by (simp add: word_less_nat_alt n)
    moreover have hi1: "unat (hi + 1) = (unat hi + 1) mod 2 ^ 64" by (simp add: unat_word_ariths)
    ultimately have "total_nat (add_total512 (of_nat n) t) =
        unat lo + n - 2 ^ 64 + 2 ^ 64 * ((unat hi + 1) mod 2 ^ 64)"
      using hi1 by (simp add: t total_nat_def add_total512_def Let_def s)
    also have "\<dots> = (unat lo + n - 2 ^ 64 + 2 ^ 64 * (unat hi + 1)) mod 2 ^ 128"
    proof (cases "unat hi + 1 < 2 ^ 64")
      case True
      moreover from this have "unat lo + n - 2 ^ 64 + 2 ^ 64 * (unat hi + 1) < 2 ^ 128"
        using lo assms unfolding 2 by auto
      ultimately show ?thesis by simp
    next
      case hi: False
      then have "unat hi + 1 = 2 ^ 64" using lo by simp
      then show ?thesis using lo assms by simp
    qed
    also have "unat lo + n - 2 ^ 64 + 2 ^ 64 * (unat hi + 1) = total_nat t + n"
      using False by (simp add: t total_nat_def)
    finally show ?thesis .
  qed
qed

lemma unat_and_127: "unat (x AND 127 :: u64) = unat x mod 128"
proof -
  have "x AND 127 = take_bit 7 x" by (simp add: take_bit_eq_mask mask_eq_exp_minus_1)
  then show ?thesis by (simp add: take_bit_eq_mod unat_mod_distrib)
qed

lemma total_nat_mod: "total_nat t mod 128 = unat (fst t AND 127)"
proof -
  have "(2::nat) ^ 64 * unat (snd t) = 128 * (2 ^ 57 * unat (snd t))" by simp
  then show ?thesis unfolding total_nat_def unat_and_127 by (simp only: mod_mult_self2)
qed

lemma length_bytes_total: "length_bytes128 (total_nat t) = length_field128 t"
proof -
  have "unat (fst t) < 2 ^ 64" using unsigned_less [of "fst t"] by simp
  then have "total_nat t div 2 ^ 64 = unat (snd t)" by (simp add: total_nat_def)
  moreover have "(of_nat (total_nat t) :: u64) = fst t"
    using \<open>unat (fst t) < 2 ^ 64\<close>
    by (simp only: word_unat_eq_iff unat_of_nat64 total_nat_def mod_mult_self2 mod_less)
  ultimately show ?thesis by (simp add: length_bytes128_def)
qed

interpretation c512: block_hash 128 wbuffer512 hash512 "\<lambda>w ctx. ctx\<lparr>wbuffer512 := w\<rparr>"
  "\<lambda>h ctx. ctx\<lparr>hash512 := h\<rparr>" compress512 "\<lambda>ctx p data. Some (sha512_loop ctx p data)"
  "2 ^ 128" 16 "\<lambda>ctx. total_nat (total512 ctx)"
  "\<lambda>n ctx. ctx\<lparr>total512 := add_total512 (of_nat n) (total512 ctx)\<rparr>" length_bytes128
  "\<lambda>ctx data. Some (sha512_hash ctx data)" "\<lambda>ctx p. Some (sha512_end_loop ctx p)" sha512_fin
proof
  show "(0::nat) < 128" "(128::nat) dvd 2 ^ 128" "(16::nat) < 128" by simp_all
  show "Some (sha512_loop c p data) =
      (let m = min (128 - p) (length data); c1 = c\<lparr>wbuffer512 := blit p (take m data) (wbuffer512 c)\<rparr>
       in if p + m \<noteq> 128 then Some c1
          else Option.bind (compress512 (hash512 c1) (wbuffer512 c1))
                 (\<lambda>h. Some (sha512_loop (c1\<lparr>hash512 := h\<rparr>) 0 (drop m data))))" for c p data
    by (subst sha512_loop.simps)
      (simp add: Let_def compress512_def sha512_process_block128_def)
  show "Some (sha512_end_loop c p) =
      (let rem = 128 - p; w = blit p (replicate rem 0) (wbuffer512 c);
           w' = (if 16 \<le> rem then blit (128 - 16) (length_bytes128 (total_nat (total512 c))) w else w);
           c1 = c\<lparr>wbuffer512 := w'\<rparr>
       in Option.bind (compress512 (hash512 c1) (wbuffer512 c1))
            (\<lambda>h. if 16 \<le> rem then Some (c1\<lparr>hash512 := h\<rparr>)
                 else Some (sha512_end_loop (c1\<lparr>hash512 := h\<rparr>) 0)))" for c p
    by (subst sha512_end_loop.simps)
      (simp add: Let_def compress512_def sha512_process_block128_def length_bytes_total)
  show "length (length_bytes128 n) = 16" for n
    by (simp add: length_bytes128_def length_field128_def)
qed (simp_all add: total_add total_nat_mod sha512_hash_def sha512_fin_def Let_def)

section \<open>The reference: FIPS 180-4, sections 4.1.3, 4.2.3, 5.1.2, 5.3.5 and 6.4\<close>

definition K512 :: "u64 list" where
  "K512 = map (\<lambda>p. of_nat (cube_root_frac 64 p)) first_primes"

fun be_u64 :: "u8 list \<Rightarrow> u64" where
  "be_u64 [] = 0"
| "be_u64 (b # bs) = push_bit (8 * length bs) (ucast b) OR be_u64 bs"

fun sha512_ref_W :: "u8 list \<Rightarrow> nat \<Rightarrow> u64" where
  "sha512_ref_W blk t =
     (if t < 16 then be_u64 (take 8 (drop (8 * t) blk))
      else (let x = sha512_ref_W blk (t - 2); y = sha512_ref_W blk (t - 15)
            in (rotr64 x 19 XOR rotr64 x 61 XOR drop_bit 6 x) + sha512_ref_W blk (t - 7)
               + (rotr64 y 1 XOR rotr64 y 8 XOR drop_bit 7 y) + sha512_ref_W blk (t - 16)))"

declare sha512_ref_W.simps [simp del]

type_synonym oct64 = "u64 \<times> u64 \<times> u64 \<times> u64 \<times> u64 \<times> u64 \<times> u64 \<times> u64"

definition sha512_ref_step :: "u8 list \<Rightarrow> nat \<Rightarrow> oct64 \<Rightarrow> oct64" where
  "sha512_ref_step blk t st =
     (case st of (a, b, c, d, e, f, g, h) \<Rightarrow>
      let Sigma1 = rotr64 e 14 XOR rotr64 e 18 XOR rotr64 e 41;
          Ch = (e AND f) XOR (NOT e AND g);
          T1 = h + Sigma1 + Ch + K512 ! t + sha512_ref_W blk t;
          Sigma0 = rotr64 a 28 XOR rotr64 a 34 XOR rotr64 a 39;
          Maj = (a AND b) XOR (a AND c) XOR (b AND c);
          T2 = Sigma0 + Maj
      in (T1 + T2, a, b, c, d + T1, e, f, g))"

definition sha512_ref_block :: "u64 list \<Rightarrow> u8 list \<Rightarrow> u64 list" where
  "sha512_ref_block H blk =
     (case fold (sha512_ref_step blk) [0..<80]
         (H ! 0, H ! 1, H ! 2, H ! 3, H ! 4, H ! 5, H ! 6, H ! 7) of
        (a, b, c, d, e, f, g, h) \<Rightarrow>
          [H ! 0 + a, H ! 1 + b, H ! 2 + c, H ! 3 + d, H ! 4 + e, H ! 5 + f, H ! 6 + g, H ! 7 + h])"

definition sha512_iv :: "u64 list" where
  "sha512_iv = [0x6a09e667f3bcc908, 0xbb67ae8584caa73b, 0x3c6ef372fe94f82b, 0xa54ff53a5f1d36f1,
     0x510e527fade682d1, 0x9b05688c2b3e6c1f, 0x1f83d9abfb41bd6b, 0x5be0cd19137e2179]"

text \<open>The \<open>k\<close> low bytes of a number, most significant first.\<close>

definition be_bytes :: "nat \<Rightarrow> nat \<Rightarrow> u8 list" where
  "be_bytes k n = map (\<lambda>i. of_nat (n div 2 ^ (8 * (k - 1 - i)))) [0..<k]"

definition sha512_reference :: "u8 list \<Rightarrow> u8 list" where
  "sha512_reference msg =
     concat (map (\<lambda>x. rev (le_bytes64 x)) (foldl sha512_ref_block sha512_iv
       (full_blocks 128 (md_pad 128 (be_bytes 16 (8 * length msg)) msg))))"

section \<open>The model meets the reference\<close>

lemma le_word64_append: "le_word64 (xs @ [b]) = push_bit (8 * length xs) (ucast b) OR le_word64 xs"
  by (induction xs) (simp_all add: push_bit_or or.assoc or.left_commute or.commute)

lemma le_word64_rev: "le_word64 (rev bs) = be_u64 bs"
  by (induction bs) (simp_all add: le_word64_append)

lemma swap_read_be64: "8 * t + 8 \<le> length buf \<Longrightarrow> swap_bytes64 (read_u64 buf t) = be_u64 (take 8 (drop (8 * t) buf))"
  by (simp add: swap_bytes64_def read_u64_def le_bytes64_word le_word64_rev)

lemma sha512_W_ref:
  assumes "length buf = 128"
  shows "sha512_W buf = map (sha512_ref_W buf) [0..<80]"
proof -
  have 0: "map (\<lambda>t. swap_bytes64 (read_u64 buf t)) [0..<16] = map (sha512_ref_W buf) [0..<16]"
    using assms by (intro map_cong refl) (simp add: swap_read_be64 sha512_ref_W.simps)
  have "fold (\<lambda>_ W. W @ [sha512_W_step W]) [16..<16 + n] (map (sha512_ref_W buf) [0..<16]) =
      map (sha512_ref_W buf) [0..<16 + n]" for n
  proof (induction n)
    case (Suc n)
    have "sha512_W_step (map (sha512_ref_W buf) [0..<16 + n]) = sha512_ref_W buf (16 + n)"
      by (subst sha512_ref_W.simps) (simp add: sha512_W_step_def Let_def)
    moreover have "[16..<16 + Suc n] = [16..<16 + n] @ [16 + n]" "[0..<16 + Suc n] = [0..<16 + n] @ [16 + n]"
      by (simp_all only: add_Suc_right upt_Suc_append le_add1 le0)
    ultimately show ?case using Suc by (simp only: fold_append comp_apply fold.simps map_append list.map id_apply)
  qed simp
  note this [of 64]
  moreover have "(16::nat) + 64 = 80" by simp
  ultimately show ?thesis by (simp only: sha512_W_def 0)
qed

lemma K512_eq: "sha_K = K512"
proof (rule nth_equalityI)
  show "length sha_K = length K512" by (simp add: K512_def length_first_primes)
  fix t
  assume "t < length sha_K"
  then have "t < 80" by (simp add: length_first_primes)
  then show "sha_K ! t = K512 ! t"
    using cube_root_check_64 [OF sha_K_nth, of t] by (simp add: K512_def length_first_primes)
qed

definition list512 :: "oct64 \<Rightarrow> u64 list" where
  "list512 st = (case st of (a, b, c, d, e, f, g, h) \<Rightarrow> [a, b, c, d, e, f, g, h])"

lemma sha512_round_ref:
  assumes "length buf = 128" "t < 80"
  shows "sha512_round (sha512_W buf) t (list512 st) = list512 (sha512_ref_step buf t st)"
proof -
  have "sha512_W buf ! t = sha512_ref_W buf t" using assms by (simp add: sha512_W_ref)
  moreover obtain a b c d e f p where "st = (a, b, c, d, e, f, p)" by (cases st)
  moreover obtain g h where "p = (g, h)" by (cases p)
  ultimately show ?thesis
    by (simp add: sha512_round_def sha512_ref_step_def list512_def Let_def K512_eq)
qed

lemma sha512_fold_ref:
  "length buf = 128 \<Longrightarrow> n \<le> 80 \<Longrightarrow> fold (sha512_round (sha512_W buf)) [0..<n] (list512 st) =
     list512 (fold (sha512_ref_step buf) [0..<n] st)"
  by (induction n) (simp_all add: sha512_round_ref)

lemma sha512_compress_ref:
  assumes "length h = 8" "length blk = 128"
  shows "compress512 h blk = Some (sha512_ref_block h blk)"
proof -
  obtain a b c d e f g i where h: "h = [a, b, c, d, e, f, g, i]"
    using assms(1) by (auto simp: numeral_eq_Suc length_Suc_conv)
  have "fold (sha512_round (sha512_W blk)) [0..<80] h =
      list512 (fold (sha512_ref_step blk) [0..<80] (a, b, c, d, e, f, g, i))"
    using sha512_fold_ref [OF assms(2), of 80 "(a, b, c, d, e, f, g, i)"] by (simp add: list512_def h)
  then show ?thesis
    by (simp add: compress512_def sha512_process_block128_def sha512_ref_block_def
        Let_def list512_def h split: prod.splits)
qed

lemma length_sha512_ref_block [simp]: "length (sha512_ref_block h blk) = 8"
  by (simp add: sha512_ref_block_def split: prod.splits)

lemma length_full_blocks: "b \<in> set (full_blocks N xs) \<Longrightarrow> length b = N"
proof (induction N xs rule: full_blocks.induct)
  case (1 N xs)
  then show ?case by (subst (asm) (2) full_blocks.simps) (auto split: if_splits)
qed

lemma sha512_absorb_ref:
  "length h = 8 \<Longrightarrow> \<forall>b \<in> set bs. length b = 128 \<Longrightarrow>
     absorb compress512 h bs = Some (foldl sha512_ref_block h bs)"
  by (induction bs arbitrary: h) (simp_all add: sha512_compress_ref)

lemma length_foldl_sha512: "length h = 8 \<Longrightarrow> length (foldl sha512_ref_block h bs) = 8"
  by (induction bs arbitrary: h) simp_all

text \<open>The length field is the bit length as a 128-bit big-endian number.\<close>

lemma bit_div_exp: "bit (n div 2 ^ k) j = bit (n::nat) (k + j)"
  by (simp add: bit_drop_bit_eq flip: drop_bit_eq_div)

lemma le_bytes64_of_nat:
  "rev (le_bytes64 (of_nat n)) = map (\<lambda>i. of_nat (n div 2 ^ (8 * (7 - i)))) [0..<8]"
proof (rule nth_equalityI)
  fix i
  assume "i < length (rev (le_bytes64 (of_nat n)))"
  then have i: "i < 8" by simp
  have "(ucast (drop_bit (8 * (7 - i)) (of_nat n :: u64)) :: u8) = of_nat (n div 2 ^ (8 * (7 - i)))"
  proof (rule bit_word_eqI)
    fix j
    assume "j < LENGTH(8)"
    then have "j < 8" "8 * (7 - i) + j < 64" using i by simp_all
    then show "bit (ucast (drop_bit (8 * (7 - i)) (of_nat n :: u64)) :: u8) j =
        bit (of_nat (n div 2 ^ (8 * (7 - i))) :: u8) j"
      by (simp add: bit_simps bit_of_nat_iff_bit bit_div_exp)
  qed
  then show "rev (le_bytes64 (of_nat n)) ! i = map (\<lambda>i. of_nat (n div 2 ^ (8 * (7 - i)))) [0..<8] ! i"
    using i nth_upt [of 0 "7 - i" 8] by (simp add: le_bytes64_def rev_nth)
qed simp

lemma be_bytes_16: "be_bytes 16 n = rev (le_bytes64 (of_nat (n div 2 ^ 64))) @ rev (le_bytes64 (of_nat n))"
proof -
  have "[0..<16] = [0..<8] @ map ((+) 8) [0..<8]" by (simp add: upt_rec)
  moreover have "n div 2 ^ 64 div 2 ^ (8 * (7 - i)) = n div 2 ^ (8 * (15 - i))" if "i < 8" for i
  proof -
    have "64 + 8 * (7 - i) = 8 * (15 - i)" using that by simp
    then show ?thesis by (metis div_mult2_eq power_add)
  qed
  moreover have "15 - (8 + i) = 7 - i" for i :: nat by simp
  ultimately show ?thesis by (simp add: be_bytes_def le_bytes64_of_nat)
qed

lemma length_bytes128_ref: "length_bytes128 n = be_bytes 16 (8 * n)"
proof -
  have "push_bit 3 (of_nat n :: u64) = of_nat (8 * n)" by (simp add: push_bit_eq_mult mult.commute)
  moreover have "push_bit 3 (of_nat (n div 2 ^ 64)) OR drop_bit 61 (of_nat n) = (of_nat (8 * n div 2 ^ 64) :: u64)"
  proof (rule bit_word_eqI)
    fix j
    assume j: "j < LENGTH(64)"
    have 8: "8 * n = push_bit 3 n" by (simp add: push_bit_eq_mult)
    have "bit (8 * n div 2 ^ 64) j \<longleftrightarrow> bit n (61 + j)"
      unfolding bit_div_exp 8 by (simp add: bit_simps)
    moreover have "bit (n div 2 ^ 64) (j - 3) \<longleftrightarrow> bit n (61 + j)" if "3 \<le> j"
      using that unfolding bit_div_exp by simp
    ultimately show "bit (push_bit 3 (of_nat (n div 2 ^ 64)) OR drop_bit 61 (of_nat n) :: u64) j =
        bit (of_nat (8 * n div 2 ^ 64) :: u64) j"
      using j by (auto simp: bit_simps bit_of_nat_iff_bit)
  qed
  ultimately show ?thesis
    by (simp only: length_bytes128_def length_field128_def fst_conv snd_conv le_bytes64_swap be_bytes_16)
qed

lemma be_bytes_16_mod: "be_bytes 16 (8 * (n mod 2 ^ 128)) = be_bytes 16 (8 * n)"
proof -
  have "length_bytes128 (n mod 2 ^ 128) = length_bytes128 n"
  proof -
    have "n mod 2 ^ 128 mod 2 ^ 64 = n mod 2 ^ 64" by (rule mod_mod_cancel) (simp add: le_imp_power_dvd)
    then have "(of_nat (n mod 2 ^ 128) :: u64) = of_nat n" by (simp only: word_unat_eq_iff unat_of_nat64)
    moreover have "n mod 2 ^ 128 div 2 ^ 64 = n div 2 ^ 64 mod 2 ^ 64"
      using div_exp_mod_exp_eq [of n 64 64] by simp
    then have "(of_nat (n mod 2 ^ 128 div 2 ^ 64) :: u64) = of_nat (n div 2 ^ 64)"
      by (simp only: word_unat_eq_iff unat_of_nat64 mod_mod_trivial)
    ultimately show ?thesis by (simp only: length_bytes128_def)
  qed
  then show ?thesis by (simp only: length_bytes128_ref)
qed

section \<open>Property\<close>

text \<open>C11. SHA-512 is FIPS 180-4 for every message and every way of feeding it, with the
  byte counter carried over its two words: begin, any sequence of \<open>sha512_hash\<close> calls and
  \<open>sha512_end\<close> return the standard's digest of the concatenated message.\<close>

theorem sha512_correct:
  assumes "length (wbuffer512 ctx) = 128" "\<forall>d \<in> set ds. length d < 2 ^ 64"
  shows "snd (sha512_end (foldl sha512_hash (sha512_begin ctx) ds)) = sha512_reference (concat ds)"
proof -
  let ?c = "sha512_begin ctx" and ?bs = "full_blocks 128 (md_pad 128 (be_bytes 16 (8 * length (concat ds))) (concat ds))"
  let ?H = "foldl sha512_ref_block sha512_iv ?bs"
  have b: "hash512 ?c = sha512_iv" "total512 ?c = (0, 0)" "wbuffer512 ?c = wbuffer512 ctx"
    by (simp_all add: sha512_begin_def Let_def init256_def init512_lo_def sha512_iv_def upt_rec push_bit_eq_mult)
  have foldl: "absorb (\<lambda>c d. Some (sha512_hash c d)) c ds = Some (foldl sha512_hash c ds)" for c
    by (induction ds arbitrary: c) simp_all
  have "c512.stream_inv ?c sha512_iv []"
    using c512.stream_inv_init [of ?c] b assms(1) by (simp add: total_nat_def)
  note c512.stream_digest [OF this assms(2), unfolded length_bytes128_ref be_bytes_16_mod foldl]
  also have "absorb compress512 sha512_iv ?bs = Some ?H"
    by (rule sha512_absorb_ref) (auto simp: sha512_iv_def dest: length_full_blocks)
  finally have "hash512 (the (sha512_fin (foldl sha512_hash ?c ds))) = ?H"
    by (auto simp: sha512_fin_def Let_def)
  then show ?thesis
    by (simp add: sha512_end_def sha512_fin_def Let_def sha512_reference_def le_bytes64_swap comp_def)
qed

definition blank_ctx512 :: sha512_ctx where
  "blank_ctx512 = \<lparr>total512 = (0, 0), hash512 = replicate 8 0, wbuffer512 = replicate 128 0\<rparr>"

theorem sha512_correct_witness:
  "snd (sha512_end (foldl sha512_hash (sha512_begin blank_ctx512) [[0x61], [0x62, 0x63]])) =
     sha512_reference [0x61, 0x62, 0x63]"
  using sha512_correct [of blank_ctx512 "[[0x61], [0x62, 0x63]]"] by (simp add: blank_ctx512_def)

end
