(* ===== verification/RB_Sha3.thy ===== *)
theory RB_Sha3
  imports RB_HashCore
begin

text \<open>
  SHA-3 of \<^verbatim>\<open>src/libbb/hash_md5_sha.rs\<close> on \<^verbatim>\<open>sha3_ctx_t\<close> (\<^verbatim>\<open>src/librb/mod.rs\<close>): the
  in-place permutation \<open>sha3_process_block72\<close> with its walk over the lanes,
  \<open>sha3_begin\<close>, \<open>sha3_hash\<close> and \<open>sha3_end\<close>. The code sees the 25 words of the state as 200
  bytes; on a little-endian target the byte at \<open>pos\<close> is the byte \<open>pos mod 8\<close> of the word
  \<open>pos div 8\<close>. The permutation is Keccak-f[1600] of FIPS 202 on the coordinates \<open>(x, y)\<close>,
  and the context is the sponge over the padded message for every rate \<open>input_block_bytes\<close>.
\<close>

section \<open>The permutation\<close>

definition IOTA_CONST :: "16 word list" where
  "IOTA_CONST = [
     0x1, 0x8082, 0x808a, 0x8000, 0x808b, 0x1, 0x8081, 0x8009,
     0x8a, 0x88, 0x8009, 0xa, 0x808b, 0x8b, 0x8089, 0x8003,
     0x8002, 0x80, 0x800a, 0xa, 0x8081, 0x8080, 0x1, 0x8008]"

definition IOTA_CONST_bit63 :: u32 where
  "IOTA_CONST_bit63 = 0x3307dd00"

definition IOTA_CONST_bit31 :: u32 where
  "IOTA_CONST_bit31 = 0x16381b00"

definition ROT_CONST :: "nat list" where
  "ROT_CONST = [
     1, 3, 6, 10, 15, 21, 28, 36,
     45, 55, 2, 14, 27, 41, 56, 8,
     25, 43, 62, 18, 39, 61, 20, 44]"

definition PI_LANE :: "nat list" where
  "PI_LANE = [
     10, 7, 11, 17, 18, 3, 5, 16,
     8, 21, 24, 4, 15, 23, 19, 13,
     12, 2, 20, 14, 22, 9, 6, 1]"

text \<open>Theta: the five column parities, stored twice, then every lane of each column.\<close>

definition theta_BC :: "u64 list \<Rightarrow> u64 list" where
  "theta_BC st =
     (let BC = map (\<lambda>x. st ! x XOR st ! (x + 5) XOR st ! (x + 10) XOR st ! (x + 15) XOR st ! (x + 20)) [0..<5]
      in BC @ BC)"

definition theta_column :: "u64 list \<Rightarrow> nat \<Rightarrow> u64 list \<Rightarrow> u64 list" where
  "theta_column BC x st =
     (let temp = BC ! (x + 4) XOR rotl64 (BC ! (x + 1)) 1
      in st[x := st ! x XOR temp, x + 5 := st ! (x + 5) XOR temp, x + 10 := st ! (x + 10) XOR temp,
            x + 15 := st ! (x + 15) XOR temp, x + 20 := st ! (x + 20) XOR temp])"

definition sha3_theta :: "u64 list \<Rightarrow> u64 list" where
  "sha3_theta st = fold (theta_column (theta_BC st)) [0..<5] st"

text \<open>Rho and Pi: one walk over 24 lanes that carries the lane it overwrote.\<close>

definition rho_pi_step :: "nat \<Rightarrow> u64 list \<times> u64 \<Rightarrow> u64 list \<times> u64" where
  "rho_pi_step x s =
     (case s of (st, t1) \<Rightarrow> (st[PI_LANE ! x := rotl64 t1 (ROT_CONST ! x)], st ! (PI_LANE ! x)))"

definition sha3_rho_pi :: "u64 list \<Rightarrow> u64 list" where
  "sha3_rho_pi st = fst (fold rho_pi_step [0..<24] (st, st ! 1))"

definition chi_plane :: "nat \<Rightarrow> u64 list \<Rightarrow> u64 list" where
  "chi_plane x st =
     (let BC0 = st ! x; BC1 = st ! (x + 1); BC2 = st ! (x + 2); BC3 = st ! (x + 3); BC4 = st ! (x + 4)
      in st[x := BC0 XOR (NOT BC1 AND BC2), x + 1 := BC1 XOR (NOT BC2 AND BC3),
            x + 2 := BC2 XOR (NOT BC3 AND BC4), x + 3 := BC3 XOR (NOT BC4 AND BC0),
            x + 4 := BC4 XOR (NOT BC0 AND BC1)])"

definition sha3_chi :: "u64 list \<Rightarrow> u64 list" where
  "sha3_chi st = fold chi_plane [0, 5, 10, 15, 20] st"

definition iota_word :: "nat \<Rightarrow> u64" where
  "iota_word round =
     ucast ((ucast (IOTA_CONST ! round) :: u32) OR (push_bit round IOTA_CONST_bit31 AND 0x80000000))
       OR push_bit 32 (ucast (push_bit round IOTA_CONST_bit63 AND 0x80000000))"

definition sha3_iota :: "nat \<Rightarrow> u64 list \<Rightarrow> u64 list" where
  "sha3_iota round st = st[0 := st ! 0 XOR iota_word round]"

definition sha3_process_block72 :: "u64 list \<Rightarrow> u64 list" where
  "sha3_process_block72 state =
     fold (\<lambda>round st. sha3_iota round (sha3_chi (sha3_rho_pi (sha3_theta st)))) [0..<24] state"

section \<open>The context\<close>

record sha3_ctx =
  state3 :: "u64 list"
  bytes_queued :: nat
  input_block_bytes :: nat

text \<open>\<open>buf[pos] ^= b\<close> through the byte pointer to the state.\<close>

definition xor_byte :: "nat \<Rightarrow> u8 \<Rightarrow> u64 list \<Rightarrow> u64 list" where
  "xor_byte pos b st = st[pos div 8 := st ! (pos div 8) XOR push_bit (8 * (pos mod 8)) (ucast b)]"

fun xor_bytes :: "nat \<Rightarrow> u8 list \<Rightarrow> u64 list \<Rightarrow> u64 list" where
  "xor_bytes pos [] st = st"
| "xor_bytes pos (b # bs) st = xor_bytes (pos + 1) bs (xor_byte pos b st)"

definition sha3_begin :: "sha3_ctx \<Rightarrow> sha3_ctx" where
  "sha3_begin ctx =
     \<lparr>state3 = replicate 25 0, bytes_queued = 0, input_block_bytes = (1600 - 512 * 2) div 8\<rparr>"

text \<open>The loop of \<open>sha3_hash\<close>: the XOR of what fits, and the permutation on a full block. The
  result is the state and the value of \<open>bufpos\<close> that is stored back in \<open>bytes_queued\<close> (the
  code subtracts the block size before the test and adds it again after the loop). With a
  block size of 0 the code would permute forever; the model stops there, and every statement
  about it has a positive block size.\<close>

function sha3_loop :: "nat \<Rightarrow> u64 list \<Rightarrow> nat \<Rightarrow> u8 list \<Rightarrow> u64 list \<times> nat" where
  "sha3_loop N st bufpos data =
     (let remaining = min (N - bufpos) (length data);
          st1 = xor_bytes bufpos (take remaining data) st
      in if N = 0 \<or> bufpos + remaining \<noteq> N then (st1, bufpos + remaining)
         else sha3_loop N (sha3_process_block72 st1) 0 (drop remaining data))"
  by pat_completeness auto
termination by (relation "measure (\<lambda>(N, st, bufpos, data). length data + bufpos)") (auto simp: min_def split: if_splits)

declare sha3_loop.simps [simp del]

definition sha3_hash :: "sha3_ctx \<Rightarrow> u8 list \<Rightarrow> sha3_ctx" where
  "sha3_hash ctx buffer =
     (case sha3_loop (input_block_bytes ctx) (state3 ctx) (bytes_queued ctx) buffer of
        (st, bufpos) \<Rightarrow> ctx\<lparr>state3 := st, bytes_queued := bufpos\<rparr>)"

definition sha3_end :: "sha3_ctx \<Rightarrow> sha3_ctx \<times> u8 list" where
  "sha3_end ctx =
     (let st = xor_byte (bytes_queued ctx) 6 (state3 ctx);
          st = xor_byte (input_block_bytes ctx - 1) 0x80 st;
          st = sha3_process_block72 st
      in (ctx\<lparr>state3 := st\<rparr>, take 64 (concat (map le_bytes64 st))))"

section \<open>The reference: Keccak-f[1600] and the sponge of FIPS 202\<close>

definition lane :: "u64 list \<Rightarrow> nat \<Rightarrow> nat \<Rightarrow> u64" where
  "lane st x y = st ! (x + 5 * y)"

definition tabulate :: "(nat \<Rightarrow> nat \<Rightarrow> u64) \<Rightarrow> u64 list" where
  "tabulate A = map (\<lambda>i. A (i mod 5) (i div 5)) [0..<25]"

definition ref_theta :: "(nat \<Rightarrow> nat \<Rightarrow> u64) \<Rightarrow> nat \<Rightarrow> nat \<Rightarrow> u64" where
  "ref_theta A x y =
     (let C = (\<lambda>x. A x 0 XOR A x 1 XOR A x 2 XOR A x 3 XOR A x 4)
      in A x y XOR (C ((x + 4) mod 5) XOR rotl64 (C ((x + 1) mod 5)) 1))"

definition rho_offset :: "nat list" where
  "rho_offset = [0, 1, 62, 28, 27, 36, 44, 6, 55, 20, 3, 10, 43, 25, 39, 41, 45, 15, 21, 8, 18, 2, 61, 56, 14]"

definition ref_rho :: "(nat \<Rightarrow> nat \<Rightarrow> u64) \<Rightarrow> nat \<Rightarrow> nat \<Rightarrow> u64" where
  "ref_rho A x y = rotl64 (A x y) (rho_offset ! (x + 5 * y))"

definition ref_pi :: "(nat \<Rightarrow> nat \<Rightarrow> u64) \<Rightarrow> nat \<Rightarrow> nat \<Rightarrow> u64" where
  "ref_pi A x y = A ((x + 3 * y) mod 5) x"

definition ref_chi :: "(nat \<Rightarrow> nat \<Rightarrow> u64) \<Rightarrow> nat \<Rightarrow> nat \<Rightarrow> u64" where
  "ref_chi A x y = A x y XOR (NOT (A ((x + 1) mod 5) y) AND A ((x + 2) mod 5) y)"

definition RC :: "u64 list" where
  "RC = [
     0x0000000000000001, 0x0000000000008082, 0x800000000000808a, 0x8000000080008000,
     0x000000000000808b, 0x0000000080000001, 0x8000000080008081, 0x8000000000008009,
     0x000000000000008a, 0x0000000000000088, 0x0000000080008009, 0x000000008000000a,
     0x000000008000808b, 0x800000000000008b, 0x8000000000008089, 0x8000000000008003,
     0x8000000000008002, 0x8000000000000080, 0x000000000000800a, 0x800000008000000a,
     0x8000000080008081, 0x8000000000008080, 0x0000000080000001, 0x8000000080008008]"

definition ref_iota :: "nat \<Rightarrow> (nat \<Rightarrow> nat \<Rightarrow> u64) \<Rightarrow> nat \<Rightarrow> nat \<Rightarrow> u64" where
  "ref_iota i A x y = (if x = 0 \<and> y = 0 then A x y XOR RC ! i else A x y)"

definition keccak_round :: "nat \<Rightarrow> u64 list \<Rightarrow> u64 list" where
  "keccak_round i st =
     tabulate (ref_iota i (lane (tabulate (ref_chi (lane (tabulate (ref_pi (ref_rho
       (lane (tabulate (ref_theta (lane st))))))))))))"

definition keccak_f :: "u64 list \<Rightarrow> u64 list" where
  "keccak_f st = fold keccak_round [0..<24] st"

definition block_lane :: "u8 list \<Rightarrow> nat \<Rightarrow> u64" where
  "block_lane blk i = le_word64 (take 8 (drop (8 * i) blk))"

text \<open>One step of the sponge: the block, zero-extended to the state, is XORed in.\<close>

definition sponge_block :: "u64 list \<Rightarrow> u8 list \<Rightarrow> u64 list" where
  "sponge_block st blk = keccak_f (map (\<lambda>i. st ! i XOR block_lane blk i) [0..<25])"

text \<open>The suffix 01 and the padding 10*1, least significant bit first.\<close>

definition sha3_pad :: "nat \<Rightarrow> nat \<Rightarrow> u8 list" where
  "sha3_pad r n =
     (let k = r - n mod r in if k = 1 then [0x86] else [0x06] @ replicate (k - 2) 0 @ [0x80])"

definition sha3_reference :: "nat \<Rightarrow> u8 list \<Rightarrow> u8 list" where
  "sha3_reference r msg =
     take 64 (concat (map le_bytes64 (foldl sponge_block (replicate 25 0)
       (full_blocks r (msg @ sha3_pad r (length msg))))))"

section \<open>The permutation is Keccak-f\<close>

lemma state25:
  assumes "length st = 25"
  obtains s0 s1 s2 s3 s4 s5 s6 s7 s8 s9 s10 s11 s12 s13 s14 s15 s16 s17 s18 s19 s20 s21 s22 s23 s24
  where "st = [s0, s1, s2, s3, s4, s5, s6, s7, s8, s9, s10, s11, s12, s13, s14, s15, s16, s17,
    s18, s19, s20, s21, s22, s23, s24]"
  using assms by (auto simp: numeral_eq_Suc length_Suc_conv)

lemma upt25: "[0..<25] = [0, 1, 2, 3, 4, 5, 6, 7, 8, 9, 10, 11, 12, 13, 14, 15, 16, 17, 18, 19, 20,
    21, 22, 23, 24::nat]"
  by (simp add: upt_rec)

lemma upt24: "[0..<24] = [0, 1, 2, 3, 4, 5, 6, 7, 8, 9, 10, 11, 12, 13, 14, 15, 16, 17, 18, 19, 20,
    21, 22, 23::nat]"
  by (simp add: upt_rec)

lemma upt5: "[0..<5] = [0, 1, 2, 3, 4::nat]"
  by (simp add: upt_rec)

lemma length_tabulate [simp]: "length (tabulate A) = 25"
  by (simp add: tabulate_def)

lemma lane_tabulate: "x < 5 \<Longrightarrow> y < 5 \<Longrightarrow> lane (tabulate A) x y = A x y"
  by (simp add: lane_def tabulate_def)

lemma theta_ref: "length st = 25 \<Longrightarrow> sha3_theta st = tabulate (ref_theta (lane st))"
  by (erule state25)
    (simp add: sha3_theta_def theta_BC_def theta_column_def upt5 Let_def
      tabulate_def upt25 ref_theta_def lane_def)

lemma rho_pi_ref: "length st = 25 \<Longrightarrow> sha3_rho_pi st = tabulate (ref_pi (ref_rho (lane st)))"
  by (erule state25)
    (simp add: sha3_rho_pi_def rho_pi_step_def upt24 PI_LANE_def ROT_CONST_def
      tabulate_def upt25 ref_pi_def ref_rho_def rho_offset_def lane_def rotl64_def)

lemma chi_ref: "length st = 25 \<Longrightarrow> sha3_chi st = tabulate (ref_chi (lane st))"
  by (erule state25)
    (simp add: sha3_chi_def chi_plane_def Let_def tabulate_def upt25 ref_chi_def lane_def)

lemma iota_word_RC: "map iota_word [0..<24] = RC"
  by (simp add: upt24 iota_word_def IOTA_CONST_def IOTA_CONST_bit31_def IOTA_CONST_bit63_def RC_def
      push_bit_eq_mult)

lemma iota_ref:
  assumes "length st = 25" "i < 24"
  shows "sha3_iota i st = tabulate (ref_iota i (lane st))"
proof -
  have "iota_word i = RC ! i" using arg_cong [OF iota_word_RC, of "\<lambda>l. l ! i"] assms(2) by simp
  then show ?thesis
    by - (rule state25 [OF assms(1)], simp add: sha3_iota_def tabulate_def upt25 ref_iota_def lane_def)
qed

lemma round_ref:
  assumes "length st = 25" "i < 24"
  shows "sha3_iota i (sha3_chi (sha3_rho_pi (sha3_theta st))) = keccak_round i st"
  using assms by (simp add: keccak_round_def theta_ref rho_pi_ref chi_ref iota_ref)

lemma process_block_keccak:
  assumes "length st = 25"
  shows "sha3_process_block72 st = keccak_f st"
proof -
  have "length (fold keccak_round is st) = 25" for "is" using assms
    by (induction "is" arbitrary: st) (simp_all add: keccak_round_def)
  then have "n \<le> 24 \<Longrightarrow> fold (\<lambda>i st. sha3_iota i (sha3_chi (sha3_rho_pi (sha3_theta st)))) [0..<n] st =
      fold keccak_round [0..<n] st" for n
    by (induction n) (simp_all add: round_ref)
  from this [of 24] show ?thesis by (simp only: sha3_process_block72_def keccak_f_def le_refl)
qed

lemma length_keccak_f [simp]: "length st = 25 \<Longrightarrow> length (keccak_f st) = 25"
  unfolding keccak_f_def by (rule fold_invariant [where Q = "\<lambda>_. True"]) (simp_all add: keccak_round_def)

section \<open>Bytes XORed into the state\<close>

lemma length_xor_byte [simp]: "length (xor_byte p b st) = length st"
  by (simp add: xor_byte_def)

lemma length_xor_bytes [simp]: "length (xor_bytes p bs st) = length st"
  by (induction bs arbitrary: p st) simp_all

lemma xor_bytes_append: "xor_bytes p (bs @ cs) st = xor_bytes (p + length bs) cs (xor_bytes p bs st)"
  by (induction bs arbitrary: p st) simp_all

lemma xor_bytes_zeros: "xor_bytes p (replicate n 0) st = st"
  by (induction n arbitrary: p) (simp_all add: xor_byte_def)

lemma xor_byte_twice: "p < 8 * length st \<Longrightarrow> xor_byte p b (xor_byte p a st) = xor_byte p (a XOR b) st"
  by (simp add: xor_byte_def xor.assoc push_bit_xor unsigned_xor_eq div_less_iff_less_mult mult.commute)

lemma bit_xor_bytes:
  "p + length bs \<le> 8 * length st \<Longrightarrow> i < length st \<Longrightarrow> j < 64 \<Longrightarrow>
    bit (xor_bytes p bs st ! i) j \<longleftrightarrow>
      (bit (st ! i) j \<noteq> (p \<le> 8 * i + j div 8 \<and> 8 * i + j div 8 < p + length bs \<and>
         bit (bs ! (8 * i + j div 8 - p)) (j mod 8)))"
proof (induction bs arbitrary: p st)
  case Nil
  then show ?case by simp
next
  case (Cons b bs)
  let ?q = "8 * i + j div 8"
  have b: "bit (xor_byte p b st ! i) j \<longleftrightarrow> (bit (st ! i) j \<noteq> (p = ?q \<and> bit b (j mod 8)))"
  proof (cases "p div 8 = i")
    case True
    have "bit (push_bit (8 * (p mod 8)) (ucast b) :: u64) j \<longleftrightarrow> p = ?q \<and> bit b (j mod 8)"
    proof (cases "p mod 8 = j div 8")
      case e: True
      then have "p = ?q" using True by (metis mult_div_mod_eq)
      moreover have "j = 8 * (p mod 8) + j mod 8" using e by simp
      ultimately show ?thesis using Cons.prems e
        by (simp add: bit_simps minus_mult_div_eq_mod less_trans [OF mod_less_divisor])
    next
      case ne: False
      then have "p \<noteq> ?q" using Cons.prems(3) by auto
      moreover have "\<not> (8 * (p mod 8) \<le> j \<and> bit b (j - 8 * (p mod 8)))"
      proof
        assume a: "8 * (p mod 8) \<le> j \<and> bit b (j - 8 * (p mod 8))"
        then have "j - 8 * (p mod 8) < 8" using bit_imp_le_length [of b "j - 8 * (p mod 8)"] by simp
        then have "j div 8 = p mod 8" using a by (simp add: div_nat_eqI)
        with ne show False by simp
      qed
      ultimately show ?thesis by (auto simp: bit_simps)
    qed
    then show ?thesis using True Cons.prems by (simp add: xor_byte_def bit_simps)
  next
    case False
    then have "p \<noteq> ?q" using Cons.prems(3) by auto
    then show ?thesis using False by (simp add: xor_byte_def)
  qed
  have "bit (xor_bytes p (b # bs) st ! i) j \<longleftrightarrow>
      ((bit (st ! i) j \<noteq> (p = ?q \<and> bit b (j mod 8))) \<noteq>
       (p + 1 \<le> ?q \<and> ?q < p + 1 + length bs \<and> bit (bs ! (?q - (p + 1))) (j mod 8)))"
    using Cons.IH [of "p + 1" "xor_byte p b st"] Cons.prems b by simp
  then show ?case by (cases "?q = p") (auto simp: nth_Cons')
qed

lemma xor_bytes_lanes:
  assumes "length st = 25" "length blk \<le> 200"
  shows "xor_bytes 0 blk st = map (\<lambda>i. st ! i XOR block_lane blk i) [0..<25]"
proof (rule nth_equalityI)
  fix i
  assume "i < length (xor_bytes 0 blk st)"
  then have i: "i < 25" using assms by simp
  show "xor_bytes 0 blk st ! i = map (\<lambda>i. st ! i XOR block_lane blk i) [0..<25] ! i"
  proof (rule bit_word_eqI)
    fix j
    assume "j < LENGTH(64)"
    then have j: "j < 64" by simp
    let ?l = "take 8 (drop (8 * i) blk)"
    have "bit (block_lane blk i) j \<longleftrightarrow> j < 8 * length ?l \<and> bit (?l ! (j div 8)) (j mod 8)"
      unfolding block_lane_def by (rule bit_le_word64) simp
    also have "\<dots> \<longleftrightarrow> 8 * i + j div 8 < length blk \<and> bit (blk ! (8 * i + j div 8)) (j mod 8)"
      using j by (auto simp: min_def)
    finally show "bit (xor_bytes 0 blk st ! i) j =
        bit (map (\<lambda>i. st ! i XOR block_lane blk i) [0..<25] ! i) j"
      using bit_xor_bytes [of 0 blk st i j] i j assms by (simp add: bit_simps)
  qed
qed (simp add: assms)

section \<open>The context is the sponge\<close>

lemma process_sponge:
  "length st = 25 \<Longrightarrow> length blk \<le> 200 \<Longrightarrow> sha3_process_block72 (xor_bytes 0 blk st) = sponge_block st blk"
  by (simp add: process_block_keccak sponge_block_def flip: xor_bytes_lanes)

lemma length_sponge_block [simp]: "length (sponge_block st blk) = 25"
  by (simp add: sponge_block_def)

lemma sha3_loop_absorb:
  assumes "length st = 25" "length q < r" "r \<le> 200"
  shows "sha3_loop r (xor_bytes 0 q st) (length q) data =
    (xor_bytes 0 (tail_block r (q @ data)) (foldl sponge_block st (full_blocks r (q @ data))),
     length (tail_block r (q @ data)))"
  using assms
proof (induction "length data" arbitrary: st q data rule: less_induct)
  case less
  let ?m = "min (r - length q) (length data)"
  have x: "xor_bytes (length q) (take ?m data) (xor_bytes 0 q st) = xor_bytes 0 (q @ take ?m data) st"
    by (simp add: xor_bytes_append)
  show ?case
  proof (cases "length q + ?m = r")
    case False
    then have "?m = length data" "length (q @ data) < r" using less.prems by auto
    with False x show ?thesis
      by (subst sha3_loop.simps) (simp add: full_blocks_short tail_block_short Let_def)
  next
    case True
    let ?b = "q @ take ?m data" and ?d = "drop ?m data"
    have b: "length ?b = r" "q @ data = ?b @ ?d" "r \<noteq> 0" using True less.prems by auto
    have lt: "length ?d < length data" using True less.prems by auto
    have "sha3_loop r (xor_bytes 0 q st) (length q) data = sha3_loop r (sponge_block st ?b) 0 ?d"
      using True x b less.prems by (subst sha3_loop.simps) (simp add: Let_def process_sponge)
    also have "\<dots> = (xor_bytes 0 (tail_block r ?d) (foldl sponge_block (sponge_block st ?b) (full_blocks r ?d)),
        length (tail_block r ?d))"
      using less.hyps [OF lt, of "sponge_block st ?b" "[]"] less.prems b by simp
    also have "full_blocks r (q @ data) = ?b # full_blocks r ?d" "tail_block r (q @ data) = tail_block r ?d"
      using b by (simp_all only: full_blocks_block tail_block_block neq0_conv)
    ultimately show ?thesis by simp
  qed
qed

text \<open>The state of a context after the bytes \<open>msg\<close> were absorbed.\<close>

definition sponge_inv :: "nat \<Rightarrow> u8 list \<Rightarrow> sha3_ctx \<Rightarrow> bool" where
  "sponge_inv r msg ctx \<longleftrightarrow> input_block_bytes ctx = r \<and> bytes_queued ctx = length (tail_block r msg) \<and>
     state3 ctx = xor_bytes 0 (tail_block r msg) (foldl sponge_block (replicate 25 0) (full_blocks r msg))"

lemma length_foldl_sponge [simp]: "length st = 25 \<Longrightarrow> length (foldl sponge_block st bs) = 25"
  by (induction bs arbitrary: st) simp_all

lemma sha3_hash_inv:
  assumes "sponge_inv r msg ctx" "0 < r" "r \<le> 200"
  shows "sponge_inv r (msg @ data) (sha3_hash ctx data)"
proof -
  have "length (tail_block r msg) < r" using assms(2) by (simp add: length_tail_block)
  from sha3_loop_absorb [OF _ this assms(3), of "foldl sponge_block (replicate 25 0) (full_blocks r msg)" data]
  show ?thesis
    using assms full_blocks_append [OF assms(2), of msg data] tail_block_append [OF assms(2), of msg data]
    by (simp add: sponge_inv_def sha3_hash_def)
qed

lemma sha3_hash_chunks:
  "sponge_inv r msg ctx \<Longrightarrow> 0 < r \<Longrightarrow> r \<le> 200 \<Longrightarrow> sponge_inv r (msg @ concat ds) (foldl sha3_hash ctx ds)"
proof (induction ds arbitrary: ctx msg)
  case (Cons d ds)
  then show ?case using Cons.IH [OF sha3_hash_inv [OF Cons.prems]] by simp
qed simp

lemma length_sha3_pad: "0 < r \<Longrightarrow> n mod r + length (sha3_pad r n) = r"
proof -
  assume "0 < r"
  then have "n mod r < r" by simp
  then show ?thesis by (auto simp: sha3_pad_def Let_def)
qed

lemma end_pad:
  assumes "length st = 25" "0 < r" "r \<le> 200"
  shows "xor_byte (r - 1) 0x80 (xor_byte (n mod r) 6 st) = xor_bytes (n mod r) (sha3_pad r n) st"
proof (cases "r - n mod r = 1")
  case True
  then have "n mod r = r - 1" by simp
  with assms show ?thesis by (simp add: sha3_pad_def Let_def xor_byte_twice)
next
  case False
  have "n mod r < r" using assms(2) by simp
  with False have "n mod r + 1 + (r - n mod r - 2) = r - 1" "Suc (r - 2) = r - 1" by arith+
  then show ?thesis using False by (simp add: sha3_pad_def Let_def xor_bytes_append xor_bytes_zeros)
qed

lemma sha3_end_ref:
  assumes "sponge_inv r msg ctx" "0 < r" "r \<le> 200"
  shows "snd (sha3_end ctx) = sha3_reference r msg"
proof -
  let ?t = "tail_block r msg" and ?p = "sha3_pad r (length msg)"
  let ?S = "foldl sponge_block (replicate 25 0) (full_blocks r msg)"
  have t: "length ?t = length msg mod r" using assms(2) by (rule length_tail_block)
  then have len: "length (?t @ ?p) = r" using length_sha3_pad [OF assms(2)] by simp
  have "full_blocks r (msg @ ?p) = full_blocks r msg @ [?t @ ?p]"
    using full_blocks_block [OF assms(2) len, of "[]"] assms(2)
    by (simp add: full_blocks_append [OF assms(2), of msg ?p] full_blocks_short)
  moreover have "xor_byte (r - 1) 0x80 (xor_byte (bytes_queued ctx) 6 (state3 ctx)) = xor_bytes 0 (?t @ ?p) ?S"
    using assms t end_pad [of "xor_bytes 0 ?t ?S" r "length msg"]
    by (simp add: sponge_inv_def xor_bytes_append)
  ultimately show ?thesis
    using assms(1,3) len process_sponge [of ?S "?t @ ?p"]
    by (simp add: sha3_end_def Let_def sha3_reference_def sponge_inv_def)
qed

lemma sha3_begin_inv: "0 < r \<Longrightarrow> sponge_inv r [] ((sha3_begin ctx)\<lparr>input_block_bytes := r\<rparr>)"
  by (simp add: sponge_inv_def sha3_begin_def full_blocks_short tail_block_short)

section \<open>Properties\<close>

text \<open>The in-place permutation with its walk over the lanes, doubled parities and split
  round constants is Keccak-f[1600] of FIPS 202.\<close>

theorem sha3_permutation_correct:
  assumes "length st = 25"
  shows "sha3_process_block72 st = keccak_f st"
  using assms by (rule process_block_keccak)

theorem sha3_permutation_correct_witness:
  "sha3_process_block72 (replicate 25 7) = keccak_f (replicate 25 7)"
  by (rule sha3_permutation_correct) simp


definition blank_ctx3 :: sha3_ctx where
  "blank_ctx3 = \<lparr>state3 = replicate 25 0, bytes_queued = 0, input_block_bytes = 0\<rparr>"


end
