(* ===== verification/RB_Aes.thy ===== *)
theory RB_Aes
  imports RB_HashCore
begin

text \<open>
  The AES of the TLS client, \<^verbatim>\<open>src/networking/tls_aes.rs\<close>, on \<^verbatim>\<open>tls_aes\<close>
  (\<^verbatim>\<open>src/librb/mod.rs\<close>): key expansion, the round functions on a state of sixteen 32-bit
  words that hold bytes, block encryption and decryption and CBC. An index outside a table
  is a panic, and a read of a round key outside the array of 60 words, or of a partial last
  block, is an access outside the buffer; both are the value \<^const>\<open>None\<close>. In CBC the source
  and the destination are buffers of their own or the same buffer: each block is read
  before it is written, so the value passed in determines the value written.
\<close>

section \<open>Tables\<close>

definition sbox :: "u8 list" where
  "sbox =
     [0x63, 0x7c, 0x77, 0x7b, 0xf2, 0x6b, 0x6f, 0xc5, 0x30, 0x01, 0x67, 0x2b, 0xfe, 0xd7, 0xab, 0x76] @
     [0xca, 0x82, 0xc9, 0x7d, 0xfa, 0x59, 0x47, 0xf0, 0xad, 0xd4, 0xa2, 0xaf, 0x9c, 0xa4, 0x72, 0xc0] @
     [0xb7, 0xfd, 0x93, 0x26, 0x36, 0x3f, 0xf7, 0xcc, 0x34, 0xa5, 0xe5, 0xf1, 0x71, 0xd8, 0x31, 0x15] @
     [0x04, 0xc7, 0x23, 0xc3, 0x18, 0x96, 0x05, 0x9a, 0x07, 0x12, 0x80, 0xe2, 0xeb, 0x27, 0xb2, 0x75] @
     [0x09, 0x83, 0x2c, 0x1a, 0x1b, 0x6e, 0x5a, 0xa0, 0x52, 0x3b, 0xd6, 0xb3, 0x29, 0xe3, 0x2f, 0x84] @
     [0x53, 0xd1, 0x00, 0xed, 0x20, 0xfc, 0xb1, 0x5b, 0x6a, 0xcb, 0xbe, 0x39, 0x4a, 0x4c, 0x58, 0xcf] @
     [0xd0, 0xef, 0xaa, 0xfb, 0x43, 0x4d, 0x33, 0x85, 0x45, 0xf9, 0x02, 0x7f, 0x50, 0x3c, 0x9f, 0xa8] @
     [0x51, 0xa3, 0x40, 0x8f, 0x92, 0x9d, 0x38, 0xf5, 0xbc, 0xb6, 0xda, 0x21, 0x10, 0xff, 0xf3, 0xd2] @
     [0xcd, 0x0c, 0x13, 0xec, 0x5f, 0x97, 0x44, 0x17, 0xc4, 0xa7, 0x7e, 0x3d, 0x64, 0x5d, 0x19, 0x73] @
     [0x60, 0x81, 0x4f, 0xdc, 0x22, 0x2a, 0x90, 0x88, 0x46, 0xee, 0xb8, 0x14, 0xde, 0x5e, 0x0b, 0xdb] @
     [0xe0, 0x32, 0x3a, 0x0a, 0x49, 0x06, 0x24, 0x5c, 0xc2, 0xd3, 0xac, 0x62, 0x91, 0x95, 0xe4, 0x79] @
     [0xe7, 0xc8, 0x37, 0x6d, 0x8d, 0xd5, 0x4e, 0xa9, 0x6c, 0x56, 0xf4, 0xea, 0x65, 0x7a, 0xae, 0x08] @
     [0xba, 0x78, 0x25, 0x2e, 0x1c, 0xa6, 0xb4, 0xc6, 0xe8, 0xdd, 0x74, 0x1f, 0x4b, 0xbd, 0x8b, 0x8a] @
     [0x70, 0x3e, 0xb5, 0x66, 0x48, 0x03, 0xf6, 0x0e, 0x61, 0x35, 0x57, 0xb9, 0x86, 0xc1, 0x1d, 0x9e] @
     [0xe1, 0xf8, 0x98, 0x11, 0x69, 0xd9, 0x8e, 0x94, 0x9b, 0x1e, 0x87, 0xe9, 0xce, 0x55, 0x28, 0xdf] @
     [0x8c, 0xa1, 0x89, 0x0d, 0xbf, 0xe6, 0x42, 0x68, 0x41, 0x99, 0x2d, 0x0f, 0xb0, 0x54, 0xbb, 0x16]"

definition rsbox :: "u8 list" where
  "rsbox =
     [0x52, 0x09, 0x6a, 0xd5, 0x30, 0x36, 0xa5, 0x38, 0xbf, 0x40, 0xa3, 0x9e, 0x81, 0xf3, 0xd7, 0xfb] @
     [0x7c, 0xe3, 0x39, 0x82, 0x9b, 0x2f, 0xff, 0x87, 0x34, 0x8e, 0x43, 0x44, 0xc4, 0xde, 0xe9, 0xcb] @
     [0x54, 0x7b, 0x94, 0x32, 0xa6, 0xc2, 0x23, 0x3d, 0xee, 0x4c, 0x95, 0x0b, 0x42, 0xfa, 0xc3, 0x4e] @
     [0x08, 0x2e, 0xa1, 0x66, 0x28, 0xd9, 0x24, 0xb2, 0x76, 0x5b, 0xa2, 0x49, 0x6d, 0x8b, 0xd1, 0x25] @
     [0x72, 0xf8, 0xf6, 0x64, 0x86, 0x68, 0x98, 0x16, 0xd4, 0xa4, 0x5c, 0xcc, 0x5d, 0x65, 0xb6, 0x92] @
     [0x6c, 0x70, 0x48, 0x50, 0xfd, 0xed, 0xb9, 0xda, 0x5e, 0x15, 0x46, 0x57, 0xa7, 0x8d, 0x9d, 0x84] @
     [0x90, 0xd8, 0xab, 0x00, 0x8c, 0xbc, 0xd3, 0x0a, 0xf7, 0xe4, 0x58, 0x05, 0xb8, 0xb3, 0x45, 0x06] @
     [0xd0, 0x2c, 0x1e, 0x8f, 0xca, 0x3f, 0x0f, 0x02, 0xc1, 0xaf, 0xbd, 0x03, 0x01, 0x13, 0x8a, 0x6b] @
     [0x3a, 0x91, 0x11, 0x41, 0x4f, 0x67, 0xdc, 0xea, 0x97, 0xf2, 0xcf, 0xce, 0xf0, 0xb4, 0xe6, 0x73] @
     [0x96, 0xac, 0x74, 0x22, 0xe7, 0xad, 0x35, 0x85, 0xe2, 0xf9, 0x37, 0xe8, 0x1c, 0x75, 0xdf, 0x6e] @
     [0x47, 0xf1, 0x1a, 0x71, 0x1d, 0x29, 0xc5, 0x89, 0x6f, 0xb7, 0x62, 0x0e, 0xaa, 0x18, 0xbe, 0x1b] @
     [0xfc, 0x56, 0x3e, 0x4b, 0xc6, 0xd2, 0x79, 0x20, 0x9a, 0xdb, 0xc0, 0xfe, 0x78, 0xcd, 0x5a, 0xf4] @
     [0x1f, 0xdd, 0xa8, 0x33, 0x88, 0x07, 0xc7, 0x31, 0xb1, 0x12, 0x10, 0x59, 0x27, 0x80, 0xec, 0x5f] @
     [0x60, 0x51, 0x7f, 0xa9, 0x19, 0xb5, 0x4a, 0x0d, 0x2d, 0xe5, 0x7a, 0x9f, 0x93, 0xc9, 0x9c, 0xef] @
     [0xa0, 0xe0, 0x3b, 0x4d, 0xae, 0x2a, 0xf5, 0xb0, 0xc8, 0xeb, 0xbb, 0x3c, 0x83, 0x53, 0x99, 0x61] @
     [0x17, 0x2b, 0x04, 0x7e, 0xba, 0x77, 0xd6, 0x26, 0xe1, 0x69, 0x14, 0x63, 0x55, 0x21, 0x0c, 0x7d]"

definition Rcon :: "u8 list" where
  "Rcon = [0x1, 0x2, 0x4, 0x8, 0x10, 0x20, 0x40, 0x80, 0x1b, 0x36]"

section \<open>Key expansion\<close>

definition Subword :: "u32 \<Rightarrow> u32" where
  "Subword x =
     push_bit 24 (ucast (sbox ! unat (drop_bit 24 x)))
     OR push_bit 16 (ucast (sbox ! unat (drop_bit 16 x AND 255)))
     OR push_bit 8 (ucast (sbox ! unat (drop_bit 8 x AND 255)))
     OR ucast (sbox ! unat (x AND 255))"

record tls_aes =
  key :: "u32 list"
  rounds :: u32

text \<open>One iteration of the second loop: the new word from the word before it.\<close>

definition expand_temp :: "nat \<Rightarrow> nat \<Rightarrow> nat \<Rightarrow> u32 \<Rightarrow> u32 option" where
  "expand_temp words_key j k tempa =
     (if j = 0 then
        (if k < length Rcon
         then Some (Subword (push_bit 8 tempa OR drop_bit 24 tempa) XOR push_bit 24 (ucast (Rcon ! k)))
         else None)
      else if 6 < words_key \<and> j = 4 then Some (Subword tempa)
      else Some tempa)"

function expand_loop :: "nat \<Rightarrow> nat \<Rightarrow> u32 list \<Rightarrow> nat \<Rightarrow> nat \<Rightarrow> nat \<Rightarrow> u32 list option" where
  "expand_loop words_key words_RoundKey RoundKey i j k =
     (if i < words_RoundKey then
        (if i = 0 \<or> i < words_key \<or> length RoundKey \<le> i then None
         else do_opt (expand_temp words_key j k (RoundKey ! (i - 1)))
           (\<lambda>tempa. let R = RoundKey[i := RoundKey ! (i - words_key) XOR tempa]
              in if j + 1 = words_key then expand_loop words_key words_RoundKey R (i + 1) 0 (k + 1)
                 else expand_loop words_key words_RoundKey R (i + 1) (j + 1) k))
      else Some RoundKey)"
  by pat_completeness auto
termination by (relation "measure (\<lambda>(wk, wr, R, i, j, k). wr - i)") auto

declare expand_loop.simps [simp del]

text \<open>The first loop copies the words of the key, big-endian.\<close>

definition copy_key :: "nat \<Rightarrow> u8 list \<Rightarrow> u32 list \<Rightarrow> u32 list" where
  "copy_key words_key kb RoundKey =
     fold (\<lambda>i R. R[i := swap_bytes32 (read_u32 kb i)]) [0..<words_key] RoundKey"

definition KeyExpansion :: "u32 list \<Rightarrow> u8 list \<Rightarrow> (u32 list \<times> nat) option" where
  "KeyExpansion RoundKey kb =
     (let key_len = length kb; words_key = key_len div 4; rounds = 6 + key_len div 4;
          words_RoundKey = 28 + key_len
      in do_opt (expand_loop words_key words_RoundKey (copy_key words_key kb RoundKey) words_key 0 0)
           (\<lambda>R. Some (R, rounds)))"

definition aes_setkey :: "tls_aes \<Rightarrow> u8 list \<Rightarrow> tls_aes option" where
  "aes_setkey aes kb =
     do_opt (KeyExpansion (key aes) kb) (\<lambda>(R, n). Some (aes\<lparr>key := R, rounds := of_nat n\<rparr>))"

section \<open>The round functions\<close>

definition AddRoundKey :: "u32 list \<Rightarrow> nat \<Rightarrow> u32 list \<Rightarrow> u32 list option" where
  "AddRoundKey RoundKeys off astate =
     (if off + 4 \<le> length RoundKeys then
        Some (map (\<lambda>i. astate ! i XOR
          (let n = RoundKeys ! (off + i div 4)
           in if i mod 4 = 0 then drop_bit 24 n else if i mod 4 = 1 then drop_bit 16 n AND 255
              else if i mod 4 = 2 then drop_bit 8 n AND 255 else n AND 255)) [0..<16])
      else None)"

text \<open>The loops of \<open>SubBytes\<close> and \<open>InvSubBytes\<close> over a table of 256 bytes.\<close>

fun sub_table :: "u8 list \<Rightarrow> u32 list \<Rightarrow> u32 list option" where
  "sub_table tab [] = Some []"
| "sub_table tab (x # xs) =
     (if unat x < length tab
      then do_opt (sub_table tab xs) (\<lambda>ys. Some (ucast (tab ! unat x) # ys)) else None)"

definition SubBytes :: "u32 list \<Rightarrow> u32 list option" where
  "SubBytes astate = sub_table sbox astate"

definition ShiftRows :: "u32 list \<Rightarrow> u32 list" where
  "ShiftRows s =
     (let v = s ! 1; s = s[1 := s ! 5, 5 := s ! 9, 9 := s ! 13, 13 := v];
          v = s ! 2; s = s[2 := s ! 10, 10 := v];
          v = s ! 6; s = s[6 := s ! 14, 14 := v];
          v = s ! 15; s = s[15 := s ! 11, 11 := s ! 7, 7 := s ! 3, 3 := v]
      in s)"

text \<open>The last step of each column word of \<open>MixColumns\<close>: \<open>x ^ (-(x >> 8) & 0x11b)\<close>.\<close>

definition mix_reduce :: "u32 \<Rightarrow> u32" where
  "mix_reduce x = x XOR (- (drop_bit 8 x) AND 0x11b)"

definition mix_column :: "nat \<Rightarrow> u32 list \<Rightarrow> u32 list" where
  "mix_column i s =
     (let a = s ! i; b = s ! (i + 1); c = s ! (i + 2); d = s ! (i + 3);
          x = push_bit 1 a XOR b XOR push_bit 1 b XOR c XOR d;
          y = a XOR push_bit 1 b XOR c XOR push_bit 1 c XOR d;
          z = a XOR b XOR push_bit 1 c XOR d XOR push_bit 1 d;
          t = a XOR push_bit 1 a XOR b XOR c XOR push_bit 1 d
      in s[i := mix_reduce x, i + 1 := mix_reduce y, i + 2 := mix_reduce z, i + 3 := mix_reduce t])"

definition MixColumns :: "u32 list \<Rightarrow> u32 list" where
  "MixColumns astate = fold mix_column [0, 4, 8, 12] astate"

definition InvSubBytes :: "u32 list \<Rightarrow> u32 list option" where
  "InvSubBytes astate = sub_table rsbox astate"

definition InvShiftRows :: "u32 list \<Rightarrow> u32 list" where
  "InvShiftRows s =
     (let v = s ! 13; s = s[13 := s ! 9, 9 := s ! 5, 5 := s ! 1, 1 := v];
          v = s ! 2; s = s[2 := s ! 10, 10 := v];
          v = s ! 6; s = s[6 := s ! 14, 14 := v];
          v = s ! 3; s = s[3 := s ! 7, 7 := s ! 11, 11 := s ! 15, 15 := v]
      in s)"

definition Multiply :: "u32 \<Rightarrow> u32" where
  "Multiply x =
     (let y = drop_bit 8 x
      in (x XOR y XOR push_bit 1 y XOR push_bit 3 y XOR push_bit 4 y) AND 255)"

definition inv_mix_column :: "nat \<Rightarrow> u32 list \<Rightarrow> u32 list" where
  "inv_mix_column i s =
     (let a = s ! i; b = s ! (i + 1); c = s ! (i + 2); d = s ! (i + 3);
          x = push_bit 1 a XOR push_bit 2 a XOR push_bit 3 a XOR b XOR push_bit 1 b XOR push_bit 3 b
              XOR c XOR push_bit 2 c XOR push_bit 3 c XOR d XOR push_bit 3 d;
          y = a XOR push_bit 3 a XOR push_bit 1 b XOR push_bit 2 b XOR push_bit 3 b XOR c
              XOR push_bit 1 c XOR push_bit 3 c XOR d XOR push_bit 2 d XOR push_bit 3 d;
          z = a XOR push_bit 2 a XOR push_bit 3 a XOR b XOR push_bit 3 b XOR push_bit 1 c
              XOR push_bit 2 c XOR push_bit 3 c XOR d XOR push_bit 1 d XOR push_bit 3 d;
          t = a XOR push_bit 1 a XOR push_bit 3 a XOR b XOR push_bit 2 b XOR push_bit 3 b XOR c
              XOR push_bit 3 c XOR push_bit 1 d XOR push_bit 2 d XOR push_bit 3 d
      in s[i := Multiply x, i + 1 := Multiply y, i + 2 := Multiply z, i + 3 := Multiply t])"

definition InvMixColumns :: "u32 list \<Rightarrow> u32 list" where
  "InvMixColumns astate = fold inv_mix_column [0, 4, 8, 12] astate"

section \<open>Block operations\<close>

text \<open>The loop of \<open>aes_encrypt_1\<close>; \<open>off\<close> is how far \<open>RoundKey\<close> has advanced.\<close>

function encrypt_loop :: "u32 list \<Rightarrow> u32 \<Rightarrow> nat \<Rightarrow> u32 list \<Rightarrow> u32 list option" where
  "encrypt_loop RoundKey n off astate =
     (if off + 4 \<le> length RoundKey then
        do_opt (AddRoundKey RoundKey off astate) (\<lambda>s1.
        do_opt (SubBytes s1) (\<lambda>s2.
          let s3 = ShiftRows s2
          in if n - 1 = 0 then AddRoundKey RoundKey (off + 4) s3
             else encrypt_loop RoundKey (n - 1) (off + 4) (MixColumns s3)))
      else None)"
  by pat_completeness auto
termination by (relation "measure (\<lambda>(R, n, off, s). length R - off)") auto

declare encrypt_loop.simps [simp del]

definition aes_encrypt_1 :: "tls_aes \<Rightarrow> u32 list \<Rightarrow> u32 list option" where
  "aes_encrypt_1 aes astate = encrypt_loop (key aes) (rounds aes) 0 astate"

function decrypt_loop :: "u32 list \<Rightarrow> u32 \<Rightarrow> nat \<Rightarrow> u32 list \<Rightarrow> u32 list option" where
  "decrypt_loop RoundKey n off astate =
     do_opt (InvSubBytes (InvShiftRows astate)) (\<lambda>s1.
       if off < 4 then None
       else do_opt (AddRoundKey RoundKey (off - 4) s1) (\<lambda>s2.
              if n - 1 = 0 then Some s2
              else decrypt_loop RoundKey (n - 1) (off - 4) (InvMixColumns s2)))"
  by pat_completeness auto
termination by (relation "measure (\<lambda>(R, n, off, s). off)") auto

declare decrypt_loop.simps [simp del]

definition aes_decrypt_1 :: "tls_aes \<Rightarrow> u32 list \<Rightarrow> u32 list option" where
  "aes_decrypt_1 aes astate =
     (let off = unat (rounds aes * 4)
      in do_opt (AddRoundKey (key aes) off astate) (decrypt_loop (key aes) (rounds aes) off))"

definition aes_encrypt_one_block :: "tls_aes \<Rightarrow> u8 list \<Rightarrow> u8 list option" where
  "aes_encrypt_one_block aes pt =
     do_opt (aes_encrypt_1 aes (map ucast pt)) (\<lambda>s. Some (map ucast s))"

section \<open>CBC\<close>

text \<open>The loops of \<open>aes_cbc_encrypt\<close> and \<open>aes_cbc_decrypt\<close>. The variable \<open>len\<close> is the length
  of the data that is left; a last piece shorter than a block is read past its end.\<close>

function cbc_encrypt_loop :: "tls_aes \<Rightarrow> u8 list \<Rightarrow> u8 list \<Rightarrow> u8 list option" where
  "cbc_encrypt_loop aes iv2 pt =
     (if pt = [] then Some []
      else if length pt < 16 then None
      else do_opt (aes_encrypt_1 aes (map2 (\<lambda>p v. ucast p XOR ucast v) (take 16 pt) iv2)) (\<lambda>astate.
             let ct = map ucast astate
             in do_opt (cbc_encrypt_loop aes ct (drop 16 pt)) (\<lambda>rest. Some (ct @ rest))))"
  by pat_completeness auto
termination by (relation "measure (\<lambda>(aes, iv, pt). length pt)") auto

declare cbc_encrypt_loop.simps [simp del]

definition aes_cbc_encrypt :: "tls_aes \<Rightarrow> u8 list \<Rightarrow> u8 list \<Rightarrow> u8 list option" where
  "aes_cbc_encrypt aes iv data = cbc_encrypt_loop aes (take 16 iv) data"

function cbc_decrypt_loop :: "tls_aes \<Rightarrow> u8 list \<Rightarrow> u8 list \<Rightarrow> u8 list option" where
  "cbc_decrypt_loop aes ivbuf ct =
     (if ct = [] then Some []
      else if length ct < 16 then None
      else let ivnext = take 16 ct
           in do_opt (aes_decrypt_1 aes (map ucast ivnext)) (\<lambda>astate.
                do_opt (cbc_decrypt_loop aes ivnext (drop 16 ct)) (\<lambda>rest.
                  Some (map2 (\<lambda>s v. ucast (s XOR ucast v)) astate ivbuf @ rest))))"
  by pat_completeness auto
termination by (relation "measure (\<lambda>(aes, iv, ct). length ct)") auto

declare cbc_decrypt_loop.simps [simp del]

definition aes_cbc_decrypt :: "tls_aes \<Rightarrow> u8 list \<Rightarrow> u8 list \<Rightarrow> u8 list option" where
  "aes_cbc_decrypt aes iv data = cbc_decrypt_loop aes (take 16 iv) data"

section \<open>States of bytes\<close>

definition bytes_ok :: "u32 list \<Rightarrow> bool" where
  "bytes_ok s \<longleftrightarrow> length s = 16 \<and> (\<forall>x \<in> set s. x < 256)"

lemma byte_bits: "(x::u32) < 256 \<longleftrightarrow> (\<forall>n. bit x n \<longrightarrow> n < 8)"
proof
  assume "x < 256"
  then have "take_bit 8 x = x" by (simp add: take_bit_eq_mod mod_word_less)
  then show "\<forall>n. bit x n \<longrightarrow> n < 8" by (metis bit_take_bit_iff)
next
  assume "\<forall>n. bit x n \<longrightarrow> n < 8"
  then have "take_bit 8 x = x" by (intro bit_word_eqI) (auto simp: bit_take_bit_iff)
  moreover have "unat (take_bit 8 x) < 2 ^ 8"
    by (simp only: unsigned_take_bit_eq take_bit_nat_less_exp)
  ultimately show "x < 256" by (simp add: word_less_nat_alt)
qed

lemma bytes_ok_nth: "bytes_ok s \<Longrightarrow> i < 16 \<Longrightarrow> s ! i < 256"
  by (simp add: bytes_ok_def)

lemma bytes_okI: "length s = 16 \<Longrightarrow> (\<And>i. i < 16 \<Longrightarrow> s ! i < 256) \<Longrightarrow> bytes_ok s"
  by (auto simp: bytes_ok_def in_set_conv_nth)

lemma state16:
  assumes "length s = 16"
  obtains s0 s1 s2 s3 s4 s5 s6 s7 s8 s9 s10 s11 s12 s13 s14 s15
  where "s = [s0, s1, s2, s3, s4, s5, s6, s7, s8, s9, s10, s11, s12, s13, s14, s15]"
  using assms by (auto simp: numeral_eq_Suc length_Suc_conv)

section \<open>Each round function and its inverse\<close>

lemma length_tables: "length sbox = 256" "length rsbox = 256"
  by (simp_all add: sbox_def rsbox_def)

lemma rsbox_sbox_table: "map (\<lambda>x. rsbox ! unat x) sbox = map of_nat [0..<256]"
  by (simp add: sbox_def, simp add: rsbox_def upt_rec)

lemma rsbox_sbox: "n < 256 \<Longrightarrow> rsbox ! unat (sbox ! n) = of_nat n"
  using arg_cong [OF rsbox_sbox_table, of "\<lambda>l. l ! n"] by (simp add: length_tables)

lemma unat_byte: "(x::u32) < 256 \<Longrightarrow> unat x < 256"
  by (simp add: word_less_nat_alt)

lemma ucast_byte_less [simp]: "(ucast (b::u8) :: u32) < 256"
  unfolding byte_bits by (auto simp: bit_simps dest: bit_imp_le_length)

lemma unat_ucast_byte: "unat (ucast (b::u8) :: u32) = unat b"
proof -
  have "unat b < 256" using unsigned_less [of b] by simp
  then show ?thesis by (simp add: unsigned_ucast_eq take_bit_nat_eq_self)
qed

lemma sub_table_ok:
  "length tab = 256 \<Longrightarrow> \<forall>x \<in> set s. x < 256 \<Longrightarrow>
     \<exists>s'. sub_table tab s = Some s' \<and> length s' = length s \<and> (\<forall>x \<in> set s'. x < 256)"
  by (induction s) (auto simp: unat_byte)

lemma sub_inv:
  "\<forall>x \<in> set s. x < 256 \<Longrightarrow> sub_table sbox s = Some s' \<Longrightarrow> sub_table rsbox s' = Some s"
proof (induction s arbitrary: s')
  case (Cons x s)
  then obtain t where t: "sub_table sbox s = Some t" "s' = ucast (sbox ! unat x) # t"
    by (auto simp: bind_eq_Some_conv split: if_splits)
  have x: "unat x < 256" using Cons.prems by (simp add: unat_byte)
  have "unat (ucast (sbox ! unat x) :: u32) < 256" using unsigned_less [of "sbox ! unat x"] by (simp add: unat_ucast_byte)
  moreover have "(ucast (rsbox ! unat (ucast (sbox ! unat x) :: u32)) :: u32) = x"
    using rsbox_sbox [OF x] x
    by (simp add: unat_ucast_byte word_unat_eq_iff unsigned_ucast_eq take_bit_nat_eq_self)
  ultimately show ?case using Cons t by (simp add: length_tables)
qed simp

lemma SubBytes_ok:
  assumes "bytes_ok s"
  obtains s' where "SubBytes s = Some s'" "bytes_ok s'" "InvSubBytes s' = Some s"
  using assms sub_table_ok [OF length_tables(1), of s] sub_inv [of s]
  by (auto simp: SubBytes_def InvSubBytes_def bytes_ok_def)

lemma ShiftRows_inv: "length s = 16 \<Longrightarrow> InvShiftRows (ShiftRows s) = s"
  by (erule state16) (simp add: ShiftRows_def InvShiftRows_def Let_def)

lemma ShiftRows_ok: "bytes_ok s \<Longrightarrow> bytes_ok (ShiftRows s)"
  unfolding bytes_ok_def by (erule conjE, erule state16) (simp add: ShiftRows_def Let_def)

definition key_byte :: "u32 list \<Rightarrow> nat \<Rightarrow> nat \<Rightarrow> u32" where
  "key_byte R off i =
     (let n = R ! (off + i div 4)
      in if i mod 4 = 0 then drop_bit 24 n else if i mod 4 = 1 then drop_bit 16 n AND 255
         else if i mod 4 = 2 then drop_bit 8 n AND 255 else n AND 255)"

lemma and_255: "(x::u32) AND 255 = take_bit 8 x"
  by (simp add: take_bit_eq_mask mask_eq_exp_minus_1)

lemma key_byte_less: "key_byte R off i < 256"
  unfolding byte_bits key_byte_def
  by (auto simp: Let_def bit_simps and_255 dest: bit_imp_le_length)

lemma AddRoundKey_eq: "off + 4 \<le> length R \<Longrightarrow>
    AddRoundKey R off s = Some (map (\<lambda>i. s ! i XOR key_byte R off i) [0..<16])"
  by (simp add: AddRoundKey_def key_byte_def)

lemma xor_byte_less: "(x::u32) < 256 \<Longrightarrow> y < 256 \<Longrightarrow> x XOR y < 256"
  unfolding byte_bits by (auto simp: bit_simps)

lemma AddRoundKey_ok:
  assumes "bytes_ok s" "off + 4 \<le> length R"
  obtains s' where "AddRoundKey R off s = Some s'" "bytes_ok s'" "AddRoundKey R off s' = Some s"
proof
  let ?s = "map (\<lambda>i. s ! i XOR key_byte R off i) [0..<16]"
  show "AddRoundKey R off s = Some ?s" using assms(2) by (rule AddRoundKey_eq)
  show "bytes_ok ?s" using assms(1) by (intro bytes_okI) (simp_all add: xor_byte_less key_byte_less bytes_ok_nth)
  have "map (\<lambda>i. ?s ! i XOR key_byte R off i) [0..<16] = s"
    using assms(1) by (intro nth_equalityI) (simp_all add: bytes_ok_def xor.assoc)
  then show "AddRoundKey R off ?s = Some s" using assms(2) by (simp only: AddRoundKey_eq)
qed

section \<open>MixColumns and its inverse: multiplication by x\<close>

definition red8 :: "u32 \<Rightarrow> u32" where
  "red8 y = y XOR (if bit y 8 then 0x11b else 0)"

definition xt :: "u32 \<Rightarrow> u32" where
  "xt a = red8 (push_bit 1 a)"

lemma red8_xor: "red8 (x XOR y) = red8 x XOR red8 y"
  by (simp add: red8_def bit_xor_iff xor.assoc xor.left_commute xor.commute)

lemma xt_xor: "xt (x XOR y) = xt x XOR xt y"
  by (simp add: xt_def push_bit_xor red8_xor)

lemma red8_byte: "x < 256 \<Longrightarrow> red8 x = x"
  unfolding byte_bits by (auto simp: red8_def)

lemma bit_0x11b: "bit (0x11b :: u32) n \<longleftrightarrow> n \<in> {0, 1, 3, 4, 8}"
  by (cases "n < 9") (auto simp: numeral_eq_Suc less_Suc_eq bit_Suc dest!: leI)

lemma bit_xt: "x < 256 \<Longrightarrow>
    bit (xt x) n \<longleftrightarrow> n < 8 \<and> ((1 \<le> n \<and> bit x (n - 1)) \<noteq> (bit x 7 \<and> n \<in> {0, 1, 3, 4}))"
proof -
  assume "x < 256"
  then have b: "bit x m \<Longrightarrow> m < 8" for m by (simp add: byte_bits)
  have p: "bit (push_bit 1 x) m \<longleftrightarrow> 1 \<le> m \<and> bit x (m - 1)" for m
    using b [of "m - 1"] bit_push_bit_iff [of 1 x m] by auto
  have e: "bit (xt x) n \<longleftrightarrow>
      ((1 \<le> n \<and> bit x (n - 1)) \<noteq> (bit x 7 \<and> n \<in> {0, 1, 3, 4, 8}))"
  proof -
    have "bit (xt x) n \<longleftrightarrow> (bit (push_bit 1 x) n \<noteq> (bit (push_bit 1 x) 8 \<and> bit (0x11b::u32) n))"
      by (simp only: xt_def red8_def bit_xor_iff bit_0_eq split: if_split) simp
    then show ?thesis by (simp only: p bit_0x11b) simp
  qed
  show ?thesis
  proof (cases n "8::nat" rule: linorder_cases)
    case less
    then show ?thesis using e by auto
  next
    case equal
    then show ?thesis using e by simp
  next
    case greater
    then have "\<not> bit x (n - 1)" using b [of "n - 1"] by auto
    with greater show ?thesis using e by auto
  qed
qed

lemma xt_less: "x < 256 \<Longrightarrow> xt x < 256"
  by (subst byte_bits) (simp add: bit_xt)

lemma mix_reduce_red8:
  assumes "\<And>n. bit x n \<Longrightarrow> n < 9"
  shows "mix_reduce x = red8 x"
proof -
  have "drop_bit 8 x = of_bool (bit x 8)"
    using assms by (intro bit_word_eqI) (force simp: bit_drop_bit_eq bit_1_iff)
  then show ?thesis by (simp add: mix_reduce_def red8_def)
qed

text \<open>A sum of bytes and doubled bytes stays below 512.\<close>

definition small9 :: "u32 \<Rightarrow> bool" where
  "small9 x \<longleftrightarrow> (\<forall>n. bit x n \<longrightarrow> n < 9)"

lemma small9_xor: "small9 x \<Longrightarrow> small9 y \<Longrightarrow> small9 (x XOR y)"
  by (auto simp: small9_def bit_xor_iff)

lemma small9_byte: "x < 256 \<Longrightarrow> small9 x"
  unfolding byte_bits small9_def by fastforce

lemma small9_double: "x < 256 \<Longrightarrow> small9 (push_bit 1 x)"
  unfolding byte_bits small9_def bit_push_bit_iff by fastforce

lemmas small9_intros = small9_xor small9_byte small9_double

lemma mix_reduce_sum: "small9 x \<Longrightarrow> mix_reduce x = red8 x"
  by (rule mix_reduce_red8) (simp add: small9_def)

lemma red8_double: "red8 (push_bit 1 x) = xt x"
  by (simp only: xt_def)

lemma Multiply_xor: "Multiply (x XOR y) = Multiply x XOR Multiply y"
  by (simp add: Multiply_def Let_def and_255 take_bit_xor drop_bit_xor push_bit_xor
      xor.assoc xor.left_commute xor.commute del: push_bit_Suc)

lemma bit_Multiply:
  "bit (Multiply x) n \<longleftrightarrow> n < 8 \<and>
     (bit x n \<noteq> (bit x (n + 8) \<noteq> ((1 \<le> n \<and> bit x (n + 7)) \<noteq>
       ((3 \<le> n \<and> bit x (n + 5)) \<noteq> (4 \<le> n \<and> bit x (n + 4))))))"
proof (cases "n < 8")
  case True
  have p: "bit (push_bit k (drop_bit 8 x)) n \<longleftrightarrow> k \<le> n \<and> bit x (n + 8 - k)" if "k \<le> 8" for k
    using True that by (auto simp: bit_push_bit_iff bit_drop_bit_eq add.commute dest: bit_imp_le_length)
  have "bit (Multiply x) n \<longleftrightarrow> bit (x XOR drop_bit 8 x XOR push_bit 1 (drop_bit 8 x)
      XOR push_bit 3 (drop_bit 8 x) XOR push_bit 4 (drop_bit 8 x)) n"
    unfolding Multiply_def Let_def and_255 bit_take_bit_iff using True by simp
  also have "\<dots> \<longleftrightarrow> (bit x n \<noteq> (bit x (n + 8) \<noteq> ((1 \<le> n \<and> bit x (n + 7)) \<noteq>
       ((3 \<le> n \<and> bit x (n + 5)) \<noteq> (4 \<le> n \<and> bit x (n + 4))))))"
  proof -
    have "n + 8 - 1 = n + 7" "n + 8 - 3 = n + 5" "n + 8 - 4 = n + 4" "1 \<le> (8::nat)" "3 \<le> (8::nat)" "4 \<le> (8::nat)"
      by simp_all
    then show ?thesis
      by (simp only: bit_xor_iff p) (simp add: bit_drop_bit_eq add.commute, blast?)
  qed
  finally show ?thesis using True by simp
qed (simp add: Multiply_def Let_def and_255 bit_take_bit_iff bit_xor_iff)

lemma nat_less_8_cases: "n < (8::nat) \<Longrightarrow> n \<in> {0, 1, 2, 3, 4, 5, 6, 7}"
  by auto

lemma bit_push_byte: "a < 256 \<Longrightarrow> k \<le> 3 \<Longrightarrow>
    bit (push_bit k (a::u32)) n \<longleftrightarrow> k \<le> n \<and> n < 8 + k \<and> bit a (n - k)"
  unfolding byte_bits bit_push_bit_iff by fastforce

lemma Multiply_byte: "a < 256 \<Longrightarrow> Multiply a = a"
proof (rule bit_word_eqI)
  fix n
  assume a: "a < 256"
  then have "bit a m \<Longrightarrow> m < 8" for m by (simp add: byte_bits)
  then show "bit (Multiply a) n = bit a n"
    unfolding bit_Multiply by fastforce
qed

lemma Multiply_1: "a < 256 \<Longrightarrow> Multiply (push_bit 1 a) = xt a"
proof (rule bit_word_eqI)
  fix n
  assume a: "a < 256"
  show "bit (Multiply (push_bit 1 a)) n = bit (xt a) n"
  proof (cases "n < 8")
    case True
    from nat_less_8_cases [OF this] show ?thesis
      unfolding bit_Multiply bit_xt [OF a]
      by (elim insertE; simp add: bit_push_byte [OF a, of 1, simplified])
  qed (simp add: bit_Multiply bit_xt [OF a])
qed

lemma Multiply_2: "a < 256 \<Longrightarrow> Multiply (push_bit 2 a) = xt (xt a)"
proof (rule bit_word_eqI)
  fix n
  assume a: "a < 256"
  show "bit (Multiply (push_bit 2 a)) n = bit (xt (xt a)) n"
  proof (cases "n < 8")
    case True
    from nat_less_8_cases [OF this] show ?thesis
      unfolding bit_Multiply bit_xt [OF xt_less [OF a]] bit_xt [OF a]
      by (elim insertE; simp add: bit_push_byte [OF a]; blast?)
  qed (simp add: bit_Multiply bit_xt [OF xt_less [OF a]])
qed

lemma Multiply_3: "a < 256 \<Longrightarrow> Multiply (push_bit 3 a) = xt (xt (xt a))"
proof (rule bit_word_eqI)
  fix n
  assume a: "a < 256"
  show "bit (Multiply (push_bit 3 a)) n = bit (xt (xt (xt a))) n"
  proof (cases "n < 8")
    case True
    from nat_less_8_cases [OF this] show ?thesis
      unfolding bit_Multiply bit_xt [OF xt_less [OF xt_less [OF a]]] bit_xt [OF xt_less [OF a]] bit_xt [OF a]
      by (elim insertE; simp add: bit_push_byte [OF a]; blast?)
  qed (simp add: bit_Multiply bit_xt [OF xt_less [OF xt_less [OF a]]])
qed

lemmas Multiply_table = Multiply_byte Multiply_1 Multiply_2 Multiply_3

lemma xor_cancel: "(x::u32) XOR (x XOR y) = y"
  by (simp flip: xor.assoc)

lemma xor4_less: "(a::u32) < 256 \<Longrightarrow> b < 256 \<Longrightarrow> c < 256 \<Longrightarrow> d < 256 \<Longrightarrow> e < 256 \<Longrightarrow>
    a XOR b XOR c XOR d XOR e < 256"
  by (intro xor_byte_less)

text \<open>One column in terms of multiplication by \<open>x\<close>.\<close>

lemma mix_column_xt:
  assumes "a < 256" "b < 256" "c < 256" "d < 256"
  shows "mix_reduce (push_bit 1 a XOR b XOR push_bit 1 b XOR c XOR d) = xt a XOR b XOR xt b XOR c XOR d"
    "mix_reduce (a XOR push_bit 1 b XOR c XOR push_bit 1 c XOR d) = a XOR xt b XOR c XOR xt c XOR d"
    "mix_reduce (a XOR b XOR push_bit 1 c XOR d XOR push_bit 1 d) = a XOR b XOR xt c XOR d XOR xt d"
    "mix_reduce (a XOR push_bit 1 a XOR b XOR c XOR push_bit 1 d) = a XOR xt a XOR b XOR c XOR xt d"
  using assms
  by (simp_all only: mix_reduce_sum small9_intros red8_xor red8_double red8_byte)

lemma inv_mix_column_xt:
  assumes "a < 256" "b < 256" "c < 256" "d < 256"
  shows "Multiply (push_bit 1 a XOR push_bit 2 a XOR push_bit 3 a XOR b XOR push_bit 1 b XOR push_bit 3 b
      XOR c XOR push_bit 2 c XOR push_bit 3 c XOR d XOR push_bit 3 d) =
    xt a XOR xt (xt a) XOR xt (xt (xt a)) XOR b XOR xt b XOR xt (xt (xt b))
      XOR c XOR xt (xt c) XOR xt (xt (xt c)) XOR d XOR xt (xt (xt d))"
    "Multiply (a XOR push_bit 3 a XOR push_bit 1 b XOR push_bit 2 b XOR push_bit 3 b XOR c
      XOR push_bit 1 c XOR push_bit 3 c XOR d XOR push_bit 2 d XOR push_bit 3 d) =
    a XOR xt (xt (xt a)) XOR xt b XOR xt (xt b) XOR xt (xt (xt b)) XOR c
      XOR xt c XOR xt (xt (xt c)) XOR d XOR xt (xt d) XOR xt (xt (xt d))"
    "Multiply (a XOR push_bit 2 a XOR push_bit 3 a XOR b XOR push_bit 3 b XOR push_bit 1 c
      XOR push_bit 2 c XOR push_bit 3 c XOR d XOR push_bit 1 d XOR push_bit 3 d) =
    a XOR xt (xt a) XOR xt (xt (xt a)) XOR b XOR xt (xt (xt b)) XOR xt c
      XOR xt (xt c) XOR xt (xt (xt c)) XOR d XOR xt d XOR xt (xt (xt d))"
    "Multiply (a XOR push_bit 1 a XOR push_bit 3 a XOR b XOR push_bit 2 b XOR push_bit 3 b XOR c
      XOR push_bit 3 c XOR push_bit 1 d XOR push_bit 2 d XOR push_bit 3 d) =
    a XOR xt a XOR xt (xt (xt a)) XOR b XOR xt (xt b) XOR xt (xt (xt b)) XOR c
      XOR xt (xt (xt c)) XOR xt d XOR xt (xt d) XOR xt (xt (xt d))"
  using assms by (simp_all only: Multiply_xor Multiply_table)

text \<open>The two matrices are inverse to each other, already before any reduction.\<close>

lemma mix_matrix_inverse:
  fixes a b c d :: u32
  defines "x \<equiv> xt a XOR b XOR xt b XOR c XOR d" and "y \<equiv> a XOR xt b XOR c XOR xt c XOR d"
    and "z \<equiv> a XOR b XOR xt c XOR d XOR xt d" and "t \<equiv> a XOR xt a XOR b XOR c XOR xt d"
  shows "xt x XOR xt (xt x) XOR xt (xt (xt x)) XOR y XOR xt y XOR xt (xt (xt y))
      XOR z XOR xt (xt z) XOR xt (xt (xt z)) XOR t XOR xt (xt (xt t)) = a"
    "x XOR xt (xt (xt x)) XOR xt y XOR xt (xt y) XOR xt (xt (xt y)) XOR z
      XOR xt z XOR xt (xt (xt z)) XOR t XOR xt (xt t) XOR xt (xt (xt t)) = b"
    "x XOR xt (xt x) XOR xt (xt (xt x)) XOR y XOR xt (xt (xt y)) XOR xt z
      XOR xt (xt z) XOR xt (xt (xt z)) XOR t XOR xt t XOR xt (xt (xt t)) = c"
    "x XOR xt x XOR xt (xt (xt x)) XOR y XOR xt (xt y) XOR xt (xt (xt y)) XOR z
      XOR xt (xt (xt z)) XOR xt t XOR xt (xt t) XOR xt (xt (xt t)) = d"
  unfolding x_def y_def z_def t_def
  by (simp_all add: xt_xor xor_cancel xor.assoc xor.left_commute xor.commute)

lemma mix_column_eq:
  assumes "bytes_ok s" "i + 3 < 16"
  shows "mix_column i s =
    (let a = s ! i; b = s ! (i + 1); c = s ! (i + 2); d = s ! (i + 3)
     in s[i := xt a XOR b XOR xt b XOR c XOR d, i + 1 := a XOR xt b XOR c XOR xt c XOR d,
          i + 2 := a XOR b XOR xt c XOR d XOR xt d, i + 3 := a XOR xt a XOR b XOR c XOR xt d])"
proof -
  have lt: "s ! i < 256" "s ! (i + 1) < 256" "s ! (i + 2) < 256" "s ! (i + 3) < 256"
    using assms by (simp_all add: bytes_ok_nth)
  show ?thesis unfolding mix_column_def Let_def mix_column_xt [OF lt] ..
qed

lemma mix_column_ok:
  assumes "bytes_ok s" "i + 3 < 16"
  shows "bytes_ok (mix_column i s)" "inv_mix_column i (mix_column i s) = s"
proof -
  have len: "length s = 16" using assms(1) by (simp add: bytes_ok_def)
  define a b c d where abcd: "a = s ! i" "b = s ! (i + 1)" "c = s ! (i + 2)" "d = s ! (i + 3)"
  have lt: "a < 256" "b < 256" "c < 256" "d < 256"
    using assms unfolding abcd by (simp_all add: bytes_ok_nth)
  define x y z t where xyzt: "x = xt a XOR b XOR xt b XOR c XOR d" "y = a XOR xt b XOR c XOR xt c XOR d"
    "z = a XOR b XOR xt c XOR d XOR xt d" "t = a XOR xt a XOR b XOR c XOR xt d"
  have lt': "x < 256" "y < 256" "z < 256" "t < 256"
    unfolding xyzt using lt by (simp_all only: xor4_less xt_less)
  have m: "mix_column i s = s[i := x, i + 1 := y, i + 2 := z, i + 3 := t]"
    unfolding mix_column_eq [OF assms] Let_def abcd [symmetric] xyzt ..
  then show "bytes_ok (mix_column i s)"
    using assms(1) lt' by (auto simp: bytes_ok_def dest!: set_update_subset_insert [THEN subsetD])
  have n: "mix_column i s ! i = x" "mix_column i s ! (i + 1) = y" "mix_column i s ! (i + 2) = z"
    "mix_column i s ! (i + 3) = t"
    using assms(2) len unfolding m by (simp_all add: nth_list_update)
  have "inv_mix_column i (mix_column i s) = (mix_column i s)[i := a, i + 1 := b, i + 2 := c, i + 3 := d]"
    unfolding inv_mix_column_def Let_def n inv_mix_column_xt [OF lt']
    unfolding xyzt mix_matrix_inverse ..
  also have "\<dots> = s"
    unfolding m abcd using assms(2) len by (intro nth_equalityI) (auto simp: nth_list_update)
  finally show "inv_mix_column i (mix_column i s) = s" .
qed

text \<open>Columns are disjoint: the inverse of one commutes with the mixing of another.\<close>

lemma inv_mix_column_other:
  assumes "i + 4 \<le> j \<or> j + 4 \<le> i"
  shows "inv_mix_column i (mix_column j s) = mix_column j (inv_mix_column i s)"
proof -
  have ne: "i + p \<noteq> j + q" if "p < 4" "q < 4" for p q using assms that by auto
  have "i \<noteq> j" "i \<noteq> j + 1" "i \<noteq> j + 2" "i \<noteq> j + 3"
    "i + 1 \<noteq> j" "i + 1 \<noteq> j + 1" "i + 1 \<noteq> j + 2" "i + 1 \<noteq> j + 3"
    "i + 2 \<noteq> j" "i + 2 \<noteq> j + 1" "i + 2 \<noteq> j + 2" "i + 2 \<noteq> j + 3"
    "i + 3 \<noteq> j" "i + 3 \<noteq> j + 1" "i + 3 \<noteq> j + 2" "i + 3 \<noteq> j + 3"
    using ne [of 0 0] ne [of 0 1] ne [of 0 2] ne [of 0 3] ne [of 1 0] ne [of 1 1] ne [of 1 2] ne [of 1 3]
      ne [of 2 0] ne [of 2 1] ne [of 2 2] ne [of 2 3] ne [of 3 0] ne [of 3 1] ne [of 3 2] ne [of 3 3]
    by simp_all
  note this this [symmetric]
  then show ?thesis
    by (simp add: inv_mix_column_def mix_column_def Let_def list_update_swap)
qed

lemma MixColumns_ok:
  assumes "bytes_ok s"
  shows "bytes_ok (MixColumns s)" "InvMixColumns (MixColumns s) = s"
proof -
  define s1 s2 s3 where s: "s1 = mix_column 0 s" "s2 = mix_column 4 s1" "s3 = mix_column 8 s2"
  have ok: "bytes_ok s1" "bytes_ok s2" "bytes_ok s3" "bytes_ok (mix_column 12 s3)"
    unfolding s using assms by (simp_all add: mix_column_ok)
  have mix: "MixColumns s = mix_column 12 s3" by (simp add: MixColumns_def s)
  show "bytes_ok (MixColumns s)" using ok mix by simp
  have i0: "inv_mix_column 0 (mix_column 0 s) = s" using assms by (simp add: mix_column_ok)
  have i: "inv_mix_column j (mix_column j u) = u" if "bytes_ok u" "j + 3 < 16" for j u
    using that by (rule mix_column_ok)
  have "InvMixColumns (MixColumns s) =
      inv_mix_column 12 (inv_mix_column 8 (inv_mix_column 4 (inv_mix_column 0 (mix_column 12 s3))))"
    by (simp add: InvMixColumns_def mix)
  also have "inv_mix_column 0 (mix_column 12 s3) = mix_column 12 (mix_column 8 (mix_column 4 s))"
    unfolding s by (simp add: inv_mix_column_other i0)
  also have "inv_mix_column 4 (mix_column 12 (mix_column 8 (mix_column 4 s))) = mix_column 12 (mix_column 8 s)"
    using i [OF assms] by (simp add: inv_mix_column_other)
  also have "inv_mix_column 8 (mix_column 12 (mix_column 8 s)) = mix_column 12 s"
    using i [OF assms] by (simp add: inv_mix_column_other)
  also have "inv_mix_column 12 (mix_column 12 s) = s"
    using i [OF assms] by simp
  finally show "InvMixColumns (MixColumns s) = s" .
qed

section \<open>Block encryption and decryption\<close>

lemma of_nat_minus_1: "0 < n \<Longrightarrow> (of_nat n :: u32) - 1 = of_nat (n - 1)"
  by (cases n) simp_all

lemma of_nat_zero32: "n < 2 ^ 32 \<Longrightarrow> (of_nat n :: u32) = 0 \<longleftrightarrow> n = 0"
  by (simp add: word_unat_eq_iff unat_of_nat)

text \<open>One round of decryption undoes one round of encryption.\<close>

lemma decrypt_round:
  assumes "bytes_ok s" "AddRoundKey R off s = Some s1" "SubBytes s1 = Some s2"
    "AddRoundKey R off s1 = Some s" "InvSubBytes s2 = Some s1" "length s2 = 16" "0 < n" "n < 2 ^ 32"
  shows "decrypt_loop R (of_nat n) (off + 4) (ShiftRows s2) =
    (if n = 1 then Some s else decrypt_loop R (of_nat (n - 1)) off (InvMixColumns s))"
proof -
  have z: "(of_nat n :: u32) - 1 = of_nat (n - 1)" "(of_nat (n - 1) :: u32) = 0 \<longleftrightarrow> n = 1"
    using assms(7,8) of_nat_minus_1 [of n] of_nat_zero32 [of "n - 1"] by auto
  have inv: "InvShiftRows (ShiftRows s2) = s2" using assms(6) by (rule ShiftRows_inv)
  show ?thesis
    by (subst decrypt_loop.simps) (simp only: z inv assms(4,5) bind.simps add_diff_cancel_right' not_add_less2 if_False)
qed

lemma encrypt_decrypt_loop:
  "0 < r \<Longrightarrow> r \<le> n \<Longrightarrow> n < 2 ^ 32 \<Longrightarrow> off + 4 * r + 4 \<le> length R \<Longrightarrow> bytes_ok s \<Longrightarrow>
   \<exists>s' s''. encrypt_loop R (of_nat r) off s = Some s' \<and> bytes_ok s' \<and>
     AddRoundKey R (off + 4 * r) s' = Some s'' \<and>
     decrypt_loop R (of_nat n) (off + 4 * r) s'' =
       (if n = r then Some s else decrypt_loop R (of_nat (n - r)) off (InvMixColumns s))"
proof (induction r arbitrary: off s)
  case (Suc r)
  obtain s1 where s1: "AddRoundKey R off s = Some s1" "bytes_ok s1" "AddRoundKey R off s1 = Some s"
    using Suc.prems by (auto intro: AddRoundKey_ok [of s off R])
  obtain s2 where s2: "SubBytes s1 = Some s2" "bytes_ok s2" "InvSubBytes s2 = Some s1"
    using s1(2) by (rule SubBytes_ok)
  let ?s3 = "ShiftRows s2"
  have s3: "bytes_ok ?s3" using s2(2) by (rule ShiftRows_ok)
  have len: "length s2 = 16" "off + 4 \<le> length R" using s2(2) Suc.prems by (simp_all add: bytes_ok_def)
  have z: "(of_nat (Suc r) :: u32) - 1 = of_nat r" "(of_nat r :: u32) = 0 \<longleftrightarrow> r = 0"
    using Suc.prems of_nat_zero32 [of r] by simp_all
  note round = decrypt_round [OF Suc.prems(5) s1(1) s2(1) s1(3) s2(3) len(1)]
  show ?case
  proof (cases "r = 0")
    case True
    obtain s' where s': "AddRoundKey R (off + 4) ?s3 = Some s'" "bytes_ok s'"
      "AddRoundKey R (off + 4) s' = Some ?s3"
      using AddRoundKey_ok [OF s3, of "off + 4" R] True Suc.prems by auto
    have "encrypt_loop R (of_nat (Suc r)) off s = Some s'"
      using s1(1) s2(1) s'(1) len z True by (subst encrypt_loop.simps) simp
    then show ?thesis using s' True round [of n] Suc.prems by simp
  next
    case False
    obtain s' s'' where IH: "encrypt_loop R (of_nat r) (off + 4) (MixColumns ?s3) = Some s'" "bytes_ok s'"
      "AddRoundKey R (off + 4 + 4 * r) s' = Some s''"
      "decrypt_loop R (of_nat n) (off + 4 + 4 * r) s'' =
        (if n = r then Some (MixColumns ?s3)
         else decrypt_loop R (of_nat (n - r)) (off + 4) (InvMixColumns (MixColumns ?s3)))"
      using Suc.IH [of "off + 4" "MixColumns ?s3"] Suc.prems False s3 by (auto simp: MixColumns_ok)
    have "encrypt_loop R (of_nat (Suc r)) off s = Some s'"
      using s1(1) s2(1) IH(1) len z False by (subst encrypt_loop.simps) simp
    moreover have "decrypt_loop R (of_nat n) (off + 4 * Suc r) s'' =
        decrypt_loop R (of_nat (n - r)) (off + 4) ?s3"
      using IH(4) Suc.prems MixColumns_ok(2) [OF s3] by (simp add: add.assoc)
    moreover have "decrypt_loop R (of_nat (n - r)) (off + 4) ?s3 =
        (if n = Suc r then Some s else decrypt_loop R (of_nat (n - Suc r)) off (InvMixColumns s))"
    proof -
      have "0 < n - r" "n - r < 2 ^ 32" "n - r = 1 \<longleftrightarrow> n = Suc r" "n - r - 1 = n - Suc r"
        using Suc.prems by auto
      then show ?thesis using round [of "n - r"] by (simp only:)
    qed
    ultimately show ?thesis using IH(2,3) by (auto simp: add.assoc)
  qed
qed simp

definition aes_ok :: "tls_aes \<Rightarrow> bool" where
  "aes_ok aes \<longleftrightarrow> length (key aes) = 60 \<and> 1 \<le> rounds aes \<and> rounds aes \<le> 14"

lemma encrypt_decrypt_1:
  assumes "aes_ok aes" "bytes_ok s"
  shows "\<exists>s'. aes_encrypt_1 aes s = Some s' \<and> bytes_ok s' \<and> aes_decrypt_1 aes s' = Some s"
proof -
  let ?n = "unat (rounds aes)"
  have n: "0 < ?n" "?n \<le> 14" "length (key aes) = 60"
    using assms(1) by (auto simp: aes_ok_def word_le_nat_alt unat_gt_0)
  then have off: "unat (rounds aes * 4) = 4 * ?n" by (simp add: unat_word_ariths)
  obtain s' s'' where "encrypt_loop (key aes) (of_nat ?n) 0 s = Some s'" "bytes_ok s'"
    "AddRoundKey (key aes) (0 + 4 * ?n) s' = Some s''"
    "decrypt_loop (key aes) (of_nat ?n) (0 + 4 * ?n) s'' = Some s"
    using encrypt_decrypt_loop [of ?n ?n 0 "key aes" s] n assms(2) by auto
  then show ?thesis by (simp add: aes_encrypt_1_def aes_decrypt_1_def Let_def off)
qed

section \<open>Modes of operation over a block cipher\<close>

text \<open>
  What CBC needs of a block cipher on blocks of sixteen bytes, with keys \<open>k\<close> that satisfy
  \<open>ok\<close>: encryption returns a block and decryption undoes it. The laws of \<open>cenc\<close> and \<open>cdec\<close>
  are the bodies of the two CBC loops.
\<close>

locale block_cipher =
  fixes ok :: "'k \<Rightarrow> bool"
    and enc :: "'k \<Rightarrow> u8 list \<Rightarrow> u8 list option"
    and dec :: "'k \<Rightarrow> u8 list \<Rightarrow> u8 list option"
  assumes enc_dec: "ok k \<Longrightarrow> length b = 16 \<Longrightarrow>
    \<exists>c. enc k b = Some c \<and> length c = 16 \<and> dec k c = Some b"

locale cbc_mode = block_cipher ok enc dec
  for ok :: "'k \<Rightarrow> bool"
    and enc :: "'k \<Rightarrow> u8 list \<Rightarrow> u8 list option"
    and dec :: "'k \<Rightarrow> u8 list \<Rightarrow> u8 list option" +
  fixes cenc :: "'k \<Rightarrow> u8 list \<Rightarrow> u8 list \<Rightarrow> u8 list option"
    and cdec :: "'k \<Rightarrow> u8 list \<Rightarrow> u8 list \<Rightarrow> u8 list option"
  assumes cenc_nil: "cenc k iv [] = Some []"
    and cdec_nil: "cdec k iv [] = Some []"
    and cenc_block: "16 \<le> length pt \<Longrightarrow> cenc k iv pt =
      Option.bind (enc k (map2 (XOR) (take 16 pt) iv))
        (\<lambda>c. map_option ((@) c) (cenc k c (drop 16 pt)))"
    and cdec_block: "16 \<le> length ct \<Longrightarrow> length iv = 16 \<Longrightarrow> cdec k iv ct =
      Option.bind (dec k (take 16 ct))
        (\<lambda>p. map_option ((@) (map2 (XOR) p iv)) (cdec k (take 16 ct) (drop 16 ct)))"
begin

lemma map2_xor_cancel: "length xs = length ys \<Longrightarrow> map2 (XOR) (map2 (XOR) xs ys) ys = (xs :: u8 list)"
  by (induction xs ys rule: list_induct2) (simp_all add: xor.assoc)

lemma cbc_round_trip:
  assumes "ok k" "length iv = 16" "length pt = 16 * n"
  shows "\<exists>ct. cenc k iv pt = Some ct \<and> length ct = length pt \<and> cdec k iv ct = Some pt"
  using assms
proof (induction n arbitrary: iv pt)
  case 0
  then show ?case by (simp add: cenc_nil cdec_nil)
next
  case (Suc n)
  let ?b = "map2 (XOR) (take 16 pt) iv"
  have len: "length (take 16 pt) = 16" "16 \<le> length pt" using Suc.prems by simp_all
  then obtain c where c: "enc k ?b = Some c" "length c = 16" "dec k c = Some ?b"
    using enc_dec [OF Suc.prems(1), of ?b] Suc.prems(2) by auto
  obtain ct where ct: "cenc k c (drop 16 pt) = Some ct" "length ct = length (drop 16 pt)"
    "cdec k c ct = Some (drop 16 pt)"
    using Suc.IH [of c "drop 16 pt"] Suc.prems c(2) by auto
  have "cdec k iv (c @ ct) = Some (take 16 pt @ drop 16 pt)"
    using cdec_block [of "c @ ct" iv k] Suc.prems(2) c ct map2_xor_cancel [of "take 16 pt" iv] len
    by simp
  then show ?case
    using cenc_block [OF len(2), of k iv] c ct len by (intro exI [of _ "c @ ct"]) simp
qed

end

text \<open>The block functions of this file, between bytes.\<close>

definition block_enc :: "tls_aes \<Rightarrow> u8 list \<Rightarrow> u8 list option" where
  "block_enc aes b = map_option (map ucast) (aes_encrypt_1 aes (map ucast b))"

definition block_dec :: "tls_aes \<Rightarrow> u8 list \<Rightarrow> u8 list option" where
  "block_dec aes b = map_option (map ucast) (aes_decrypt_1 aes (map ucast b))"

lemma bytes_ok_map: "length b = 16 \<Longrightarrow> bytes_ok (map (ucast :: u8 \<Rightarrow> u32) b)"
  by (auto simp: bytes_ok_def)

lemma ucast_down_up: "(ucast (ucast (b::u8) :: u32) :: u8) = b"
  by (rule bit_word_eqI) (simp add: bit_simps)

lemma ucast_up_down: "x < 256 \<Longrightarrow> (ucast (ucast (x::u32) :: u8) :: u32) = x"
  unfolding byte_bits by (intro bit_word_eqI) (auto simp: bit_simps)

lemma map_ucast_cancel: "bytes_ok s \<Longrightarrow> map (ucast :: u8 \<Rightarrow> u32) (map ucast s) = s"
  by (auto simp: bytes_ok_def ucast_up_down intro!: map_idI)

lemma block_enc_dec:
  assumes "aes_ok aes" "length b = 16"
  shows "\<exists>c. block_enc aes b = Some c \<and> length c = 16 \<and> block_dec aes c = Some b"
proof -
  obtain s' where s': "aes_encrypt_1 aes (map ucast b) = Some s'" "bytes_ok s'"
    "aes_decrypt_1 aes s' = Some (map ucast b)"
    using encrypt_decrypt_1 [OF assms(1) bytes_ok_map [OF assms(2)]] by blast
  have "block_enc aes b = Some (map ucast s')" using s'(1) by (simp add: block_enc_def)
  moreover have "block_dec aes (map ucast s') = Some b"
    unfolding block_dec_def map_ucast_cancel [OF s'(2)] s'(3) by (simp add: ucast_down_up comp_def)
  moreover have "length s' = 16" using s'(2) by (simp add: bytes_ok_def)
  ultimately show ?thesis by simp
qed

lemma map2_ucast_xor: "map2 (\<lambda>p v. (ucast (p::u8) :: u32) XOR ucast (v::u8)) xs ys = map ucast (map2 (XOR) xs ys)"
proof -
  have "(ucast p :: u32) XOR ucast v = ucast (p XOR v)" for p v :: u8
    by (rule bit_word_eqI) (simp add: bit_simps)
  then show ?thesis by (simp add: split_beta)
qed

lemma map2_ucast_down: "map2 (\<lambda>s v. ucast ((s::u32) XOR ucast (v::u8)) :: u8) xs ys = map2 (XOR) (map ucast xs) ys"
proof -
  have "(ucast (s XOR ucast v) :: u8) = ucast s XOR v" for s :: u32 and v :: u8
    by (rule bit_word_eqI) (auto simp: bit_simps)
  then show ?thesis by (simp add: zip_map1 split_beta comp_def)
qed

interpretation aes_cbc: cbc_mode aes_ok block_enc block_dec cbc_encrypt_loop cbc_decrypt_loop
proof
  show "\<exists>c. block_enc k b = Some c \<and> length c = 16 \<and> block_dec k c = Some b"
    if "aes_ok k" "length b = 16" for k b
    using that by (rule block_enc_dec)
  show "cbc_encrypt_loop k iv [] = Some []" for k iv by (subst cbc_encrypt_loop.simps) simp
  show "cbc_decrypt_loop k iv [] = Some []" for k iv by (subst cbc_decrypt_loop.simps) simp
  show "cbc_encrypt_loop k iv pt = Option.bind (block_enc k (map2 (XOR) (take 16 pt) iv))
      (\<lambda>c. map_option ((@) c) (cbc_encrypt_loop k c (drop 16 pt)))" if "16 \<le> length pt" for k iv pt
    using that by (subst cbc_encrypt_loop.simps)
      (auto simp: block_enc_def map2_ucast_xor Let_def map_option_case split: Option.bind_splits option.splits)
  show "cbc_decrypt_loop k iv ct = Option.bind (block_dec k (take 16 ct))
      (\<lambda>p. map_option ((@) (map2 (XOR) p iv)) (cbc_decrypt_loop k (take 16 ct) (drop 16 ct)))"
    if "16 \<le> length ct" "length iv = 16" for k iv ct
    using that by (subst cbc_decrypt_loop.simps)
      (auto simp: block_dec_def map2_ucast_down Let_def map_option_case split: Option.bind_splits option.splits)
qed

section \<open>The reference: key expansion and cipher of FIPS 197\<close>

text \<open>Multiplication by \<open>x\<close> in \<open>GF(2^8)\<close>, on bytes (section 4.2.1).\<close>

definition xtime :: "u8 \<Rightarrow> u8" where
  "xtime b = push_bit 1 b XOR (if bit b 7 then 0x1b else 0)"

definition rcon_word :: "nat \<Rightarrow> u32" where
  "rcon_word k = push_bit 24 (ucast ((xtime ^^ (k - 1)) 1))"

definition be_key_word :: "u8 list \<Rightarrow> nat \<Rightarrow> u32" where
  "be_key_word kb i = swap_bytes32 (read_u32 kb i)"

text \<open>Section 5.2, the words \<open>w[i]\<close> for a key of \<open>nk\<close> words.\<close>

function key_word :: "nat \<Rightarrow> u8 list \<Rightarrow> nat \<Rightarrow> u32" where
  "key_word nk kb i =
     (if i < nk \<or> nk = 0 then be_key_word kb i
      else let temp = key_word nk kb (i - 1)
           in key_word nk kb (i - nk) XOR
             (if i mod nk = 0 then Subword (push_bit 8 temp OR drop_bit 24 temp) XOR rcon_word (i div nk)
              else if 6 < nk \<and> i mod nk = 4 then Subword temp else temp))"
  by pat_completeness auto
termination by (relation "measure (\<lambda>(nk, kb, i). i)") auto

declare key_word.simps [simp del]

text \<open>Section 5.1, on the sixteen bytes of the state, column after column.\<close>

definition ref_add_key :: "(nat \<Rightarrow> u32) \<Rightarrow> nat \<Rightarrow> u8 list \<Rightarrow> u8 list" where
  "ref_add_key w n s =
     map (\<lambda>i. s ! i XOR ucast (drop_bit (24 - 8 * (i mod 4)) (w (4 * n + i div 4)))) [0..<16]"

definition ref_sub :: "u8 list \<Rightarrow> u8 list" where
  "ref_sub s = map (\<lambda>b. sbox ! unat b) s"

definition ref_shift :: "u8 list \<Rightarrow> u8 list" where
  "ref_shift s = map (\<lambda>i. s ! ((i + 4 * (i mod 4)) mod 16)) [0..<16]"

definition ref_mix :: "u8 list \<Rightarrow> u8 list" where
  "ref_mix s =
     map (\<lambda>i. let c = 4 * (i div 4); e = (\<lambda>k. s ! (c + (i + k) mod 4))
              in xtime (e 0) XOR (xtime (e 1) XOR e 1) XOR e 2 XOR e 3) [0..<16]"

definition ref_round :: "(nat \<Rightarrow> u32) \<Rightarrow> nat \<Rightarrow> u8 list \<Rightarrow> u8 list" where
  "ref_round w n s = ref_add_key w n (ref_mix (ref_shift (ref_sub s)))"

definition ref_cipher :: "(nat \<Rightarrow> u32) \<Rightarrow> nat \<Rightarrow> u8 list \<Rightarrow> u8 list" where
  "ref_cipher w nr pt =
     ref_add_key w nr (ref_shift (ref_sub (fold (ref_round w) [1..<nr] (ref_add_key w 0 pt))))"

section \<open>The key schedule\<close>

lemma Rcon_step: "k < 9 \<Longrightarrow> Rcon ! Suc k = xtime (Rcon ! k)"
proof -
  assume "k < 9"
  then have "k \<in> {0, 1, 2, 3, 4, 5, 6, 7, 8}" by auto
  then show ?thesis by (elim insertE) (simp_all add: Rcon_def xtime_def push_bit_eq_mult)
qed

lemma Rcon_xtime: "k < 10 \<Longrightarrow> (xtime ^^ k) 1 = Rcon ! k"
  by (induction k) (simp_all add: Rcon_step, simp add: Rcon_def)

lemma Rcon_ref: "k < 10 \<Longrightarrow> push_bit 24 (ucast (Rcon ! k)) = rcon_word (k + 1)"
  by (simp add: rcon_word_def Rcon_xtime)

lemma length_copy_key [simp]: "length (copy_key nk kb R) = length R"
  unfolding copy_key_def by (induction nk) simp_all

lemma copy_key_nth: "nk \<le> length R \<Longrightarrow> i < nk \<Longrightarrow> copy_key nk kb R ! i = be_key_word kb i"
proof (induction nk)
  case (Suc nk)
  have "copy_key (Suc nk) kb R = (copy_key nk kb R)[nk := be_key_word kb nk]"
    by (simp add: copy_key_def be_key_word_def)
  with Suc show ?case by (cases "i = nk") simp_all
qed simp

text \<open>The word the loop stores at \<open>i\<close> is the next word of the schedule.\<close>

lemma expand_temp_ref:
  assumes "nk \<in> {4, 6, 8}" "nk \<le> i" "i < 11 * nk"
  shows "\<exists>t. expand_temp nk (i mod nk) (i div nk - 1) (key_word nk kb (i - 1)) = Some t \<and>
    key_word nk kb i = key_word nk kb (i - nk) XOR t"
proof -
  have nk: "0 < nk" using assms(1) by auto
  then have k: "i div nk - 1 < 10" "1 \<le> i div nk"
    using assms(2,3) div_greater_zero_iff [of i nk] less_mult_imp_div_less [of i 11 nk] by (auto simp: Suc_le_eq)
  then have r: "push_bit 24 (ucast (Rcon ! (i div nk - 1))) = rcon_word (i div nk)"
    using Rcon_ref [of "i div nk - 1"] by simp
  have "length Rcon = 10" by (simp add: Rcon_def)
  then show ?thesis
    using assms(2) nk k(1) by (subst key_word.simps [of nk kb i]) (simp only: expand_temp_def Let_def r, auto)
qed

lemma mod_div_step:
  assumes "0 < nk" "nk \<le> (i::nat)"
  shows "(if i mod nk + 1 = nk then (0, i div nk - 1 + 1) else (i mod nk + 1, i div nk - 1)) =
    (Suc i mod nk, Suc i div nk - 1)"
proof -
  have "1 \<le> i div nk" using assms by (simp add: div_greater_zero_iff Suc_le_eq)
  then show ?thesis using assms by (auto simp: mod_Suc div_Suc)
qed

lemma expand_loop_ref:
  assumes "nk \<in> {4, 6, 8}" "wr \<le> 11 * nk" "wr \<le> length R" "nk \<le> i" "i \<le> wr"
    "\<forall>m < i. R ! m = key_word nk kb m"
  shows "\<exists>R'. expand_loop nk wr R i (i mod nk) (i div nk - 1) = Some R' \<and> length R' = length R \<and>
    (\<forall>m < wr. R' ! m = key_word nk kb m)"
  using assms(3-6)
proof (induction "wr - i" arbitrary: R i)
  case 0
  then show ?case by (subst expand_loop.simps) simp
next
  case (Suc d)
  have nk: "0 < nk" using assms(1) by auto
  have i: "i < wr" "i < length R" "i \<noteq> 0" "\<not> i < nk" using Suc nk by simp_all
  obtain t where t: "expand_temp nk (i mod nk) (i div nk - 1) (key_word nk kb (i - 1)) = Some t"
    "key_word nk kb i = key_word nk kb (i - nk) XOR t"
    using expand_temp_ref [OF assms(1) Suc.prems(2), of kb] i assms(2) by auto
  define R1 where "R1 = R[i := R ! (i - nk) XOR t]"
  have R1: "\<forall>m < Suc i. R1 ! m = key_word nk kb m" "length R1 = length R"
    using Suc.prems(4) i nk t(2) by (auto simp: R1_def nth_list_update less_Suc_eq)
  have "expand_loop nk wr R i (i mod nk) (i div nk - 1) =
      expand_loop nk wr R1 (Suc i) (Suc i mod nk) (Suc i div nk - 1)"
    using i Suc.prems(4) t(1) mod_div_step [OF nk Suc.prems(2)]
    by (subst expand_loop.simps) (auto simp: Let_def R1_def split: if_splits)
  moreover have "\<exists>R'. expand_loop nk wr R1 (Suc i) (Suc i mod nk) (Suc i div nk - 1) = Some R' \<and>
      length R' = length R1 \<and> (\<forall>m < wr. R' ! m = key_word nk kb m)"
    using Suc.hyps(2) Suc.prems i R1 by (intro Suc.hyps(1)) simp_all
  ultimately show ?case using R1(2) by simp
qed

lemma KeyExpansion_ref:
  assumes "length kb \<in> {16, 24, 32}" "length R = 60"
  shows "\<exists>R'. KeyExpansion R kb = Some (R', 6 + length kb div 4) \<and> length R' = 60 \<and>
    (\<forall>i < 28 + length kb. R' ! i = key_word (length kb div 4) kb i)"
proof -
  let ?nk = "length kb div 4"
  have nk: "?nk \<in> {4, 6, 8}" "28 + length kb \<le> 11 * ?nk" "?nk \<le> 28 + length kb" "?nk \<le> 60" "28 + length kb \<le> 60"
    using assms(1) by auto
  have "\<forall>m < ?nk. copy_key ?nk kb R ! m = key_word ?nk kb m"
    using assms(2) nk by (auto simp: copy_key_nth key_word.simps)
  then have "\<exists>R'. expand_loop ?nk (28 + length kb) (copy_key ?nk kb R) ?nk (?nk mod ?nk) (?nk div ?nk - 1) = Some R' \<and>
      length R' = length (copy_key ?nk kb R) \<and> (\<forall>m < 28 + length kb. R' ! m = key_word ?nk kb m)"
    using nk assms(2) by (intro expand_loop_ref) simp_all
  moreover have "?nk mod ?nk = 0" "?nk div ?nk - 1 = 0" using nk by auto
  ultimately show ?thesis using assms(2) by (auto simp: KeyExpansion_def Let_def)
qed

lemma aes_setkey_ref:
  assumes "length kb \<in> {16, 24, 32}" "length (key aes) = 60"
  shows "\<exists>aes'. aes_setkey aes kb = Some aes' \<and> aes_ok aes' \<and> rounds aes' = of_nat (6 + length kb div 4) \<and>
    (\<forall>i < 28 + length kb. key aes' ! i = key_word (length kb div 4) kb i)"
proof -
  obtain R where "KeyExpansion (key aes) kb = Some (R, 6 + length kb div 4)" "length R = 60"
    "\<forall>i < 28 + length kb. R ! i = key_word (length kb div 4) kb i"
    using KeyExpansion_ref [OF assms] by blast
  then show ?thesis using assms(1) by (auto simp: aes_setkey_def aes_ok_def)
qed

section \<open>The cipher\<close>

abbreviation up8 :: "u8 list \<Rightarrow> u32 list" where
  "up8 s \<equiv> map ucast s"

lemma upt16: "[0..<16] = [0, 1, 2, 3, 4, 5, 6, 7, 8, 9, 10, 11, 12, 13, 14, 15::nat]"
  by (simp add: upt_rec)

lemma state16_bytes:
  assumes "length (s :: u8 list) = 16"
  obtains s0 s1 s2 s3 s4 s5 s6 s7 s8 s9 s10 s11 s12 s13 s14 s15
  where "s = [s0, s1, s2, s3, s4, s5, s6, s7, s8, s9, s10, s11, s12, s13, s14, s15]"
  using assms by (auto simp: numeral_eq_Suc length_Suc_conv)

lemma ucast_xor8: "(ucast (x XOR y :: u8) :: u32) = ucast x XOR ucast y"
  by (rule bit_word_eqI) (simp add: bit_simps)

lemma length_refs [simp]: "length (ref_add_key w n s) = 16" "length (ref_sub s) = length s"
  "length (ref_shift s) = 16" "length (ref_mix s) = 16"
  by (simp_all add: ref_add_key_def ref_sub_def ref_shift_def ref_mix_def)

lemma key_byte_cast:
  "key_byte R off i = ucast (ucast (drop_bit (24 - 8 * (i mod 4)) (R ! (off + i div 4))) :: u8)"
proof -
  have c: "(ucast (ucast x :: u8) :: u32) = x AND 255" for x :: u32
    unfolding and_255 by (rule bit_word_eqI) (auto simp: bit_simps)
  have "drop_bit 24 x AND 255 = drop_bit 24 (x::u32)" for x
    unfolding and_255 by (rule bit_word_eqI) (auto simp: bit_simps dest: bit_imp_le_length)
  moreover have "i mod 4 \<in> {0, 1, 2, 3}" by auto
  ultimately show ?thesis unfolding c by (elim insertE) (simp_all add: key_byte_def)
qed

lemma add_key_ref:
  assumes "4 * n + 4 \<le> m" "\<forall>i < m. R ! i = w i" "m \<le> length R" "length s = 16"
  shows "AddRoundKey R (4 * n) (up8 s) = Some (up8 (ref_add_key w n s))"
proof -
  have "i < 16 \<Longrightarrow> R ! (4 * n + i div 4) = w (4 * n + i div 4)" for i
    using assms(1) by (intro assms(2) [rule_format]) linarith
  then have "map (\<lambda>i. up8 s ! i XOR key_byte R (4 * n) i) [0..<16] = up8 (ref_add_key w n s)"
    using assms(4) by (intro nth_equalityI) (simp_all add: ref_add_key_def key_byte_cast ucast_xor8)
  then show ?thesis using AddRoundKey_eq [of "4 * n" R "up8 s"] assms(1,3) by simp
qed

lemma sub_ref: "SubBytes (up8 s) = Some (up8 (ref_sub s))"
proof -
  have "unat b < 256" for b :: u8 using unsigned_less [of b] by simp
  then show ?thesis
    by (induction s) (simp_all add: SubBytes_def ref_sub_def unat_ucast_byte length_tables)
qed

lemma shift_ref: "length s = 16 \<Longrightarrow> ShiftRows (up8 s) = up8 (ref_shift s)"
  by (erule state16_bytes) (simp add: ShiftRows_def ref_shift_def Let_def upt16)

lemma xt_ucast: "xt (ucast b) = ucast (xtime b)"
proof (rule bit_word_eqI)
  fix n
  have i: "bit (0x1b :: u8) m \<longleftrightarrow> m \<in> {0, 1, 3, 4}" for m
    by (cases "m < 5") (auto simp: numeral_eq_Suc less_Suc_eq bit_Suc dest!: leI)
  have u: "bit (ucast b :: u32) m = bit b m" for m
    by (auto simp: bit_simps dest: bit_imp_le_length)
  have p: "bit (push_bit 1 b) n \<longleftrightarrow> n < 8 \<and> 1 \<le> n \<and> bit b (n - 1)"
    using bit_push_bit_iff [of 1 b n] by (auto dest: bit_imp_le_length)
  have "bit (xtime b) n \<longleftrightarrow> (bit (push_bit 1 b) n \<noteq> (bit b 7 \<and> bit (0x1b :: u8) n))"
    by (simp only: xtime_def bit_xor_iff bit_0_eq split: if_split) simp
  moreover have "bit (ucast (xtime b) :: u32) n = bit (xtime b) n"
    by (auto simp: bit_simps dest: bit_imp_le_length)
  ultimately show "bit (xt (ucast b)) n = bit (ucast (xtime b) :: u32) n"
    unfolding bit_xt [OF ucast_byte_less] u p i by (cases "n < 8") (simp, force)
qed

lemma mix_column_at:
  assumes "length pre = i"
  shows "mix_column i (pre @ up8 [a, b, c, d] @ post) =
    pre @ up8 [xtime a XOR (xtime b XOR b) XOR c XOR d, xtime b XOR (xtime c XOR c) XOR d XOR a,
      xtime c XOR (xtime d XOR d) XOR a XOR b, xtime d XOR (xtime a XOR a) XOR b XOR c] @ post"
proof -
  let ?s = "pre @ up8 [a, b, c, d] @ post"
  have n: "?s ! i = ucast a" "?s ! (i + 1) = ucast b" "?s ! (i + 2) = ucast c" "?s ! (i + 3) = ucast d"
    using assms by (simp_all add: nth_append)
  have u: "?s[i := w, i + 1 := x, i + 2 := y, i + 3 := z] = pre @ [w, x, y, z] @ post" for w x y z
    using assms by (simp add: list_update_append numeral_eq_Suc)
  show ?thesis
    unfolding mix_column_def Let_def n u
      mix_column_xt [OF ucast_byte_less ucast_byte_less ucast_byte_less ucast_byte_less]
    by (simp add: xt_ucast ucast_xor8 xor.assoc xor.left_commute xor.commute)
qed

lemma mix_ref: "length s = 16 \<Longrightarrow> MixColumns (up8 s) = up8 (ref_mix s)"
proof (erule state16_bytes)
  fix s0 s1 s2 s3 s4 s5 s6 s7 s8 s9 s10 s11 s12 s13 s14 s15 :: u8
  assume s: "s = [s0, s1, s2, s3, s4, s5, s6, s7, s8, s9, s10, s11, s12, s13, s14, s15]"
  show "MixColumns (up8 s) = up8 (ref_mix s)"
    using mix_column_at [of "[]" 0 s0 s1 s2 s3] mix_column_at [of "[_, _, _, _]" 4 s4 s5 s6 s7]
      mix_column_at [of "[_, _, _, _, _, _, _, _]" 8 s8 s9 s10 s11]
      mix_column_at [of "[_, _, _, _, _, _, _, _, _, _, _, _]" 12 s12 s13 s14 s15 "[]"]
    by (simp add: MixColumns_def s ref_mix_def upt16)
qed

lemma encrypt_loop_ref:
  assumes "4 * (n + r) + 4 \<le> m" "length s = 16" "0 < r" "r < 2 ^ 32"
    "\<forall>i < m. R ! i = w i" "m \<le> length R"
  shows "encrypt_loop R (of_nat r) (4 * n) (up8 s) =
    Some (up8 (ref_add_key w (n + r)
      (ref_shift (ref_sub (fold (ref_round w) [n + 1..<n + r] (ref_add_key w n s))))))"
  using assms(1-4)
proof (induction r arbitrary: n s)
  case (Suc r)
  let ?s1 = "ref_add_key w n s" and ?s3 = "ref_shift (ref_sub (ref_add_key w n s))"
  have z: "(of_nat (Suc r) :: u32) - 1 = of_nat r" "(of_nat r :: u32) = 0 \<longleftrightarrow> r = 0"
    using Suc.prems of_nat_zero32 [of r] by simp_all
  have off: "4 * n + 4 = 4 * Suc n" by simp
  have k: "AddRoundKey R (4 * n) (up8 s) = Some (up8 ?s1)"
    using Suc.prems assms(5,6) by (intro add_key_ref [of _ m]) simp_all
  have len: "4 * n + 4 \<le> length R" using Suc.prems(1) assms(6) by simp
  have step: "encrypt_loop R (of_nat (Suc r)) (4 * n) (up8 s) =
      (if r = 0 then AddRoundKey R (4 * Suc n) (up8 ?s3)
       else encrypt_loop R (of_nat r) (4 * Suc n) (up8 (ref_mix ?s3)))"
    using len by (subst encrypt_loop.simps)
      (simp only: k sub_ref bind.simps Let_def shift_ref mix_ref length_refs z off if_True)
  show ?case
  proof (cases "r = 0")
    case True
    have "AddRoundKey R (4 * Suc n) (up8 ?s3) = Some (up8 (ref_add_key w (Suc n) ?s3))"
      using Suc.prems True assms(5,6) by (intro add_key_ref [of _ m]) simp_all
    then show ?thesis unfolding step using True by simp
  next
    case False
    have "[n + 1..<n + Suc r] = Suc n # [Suc n + 1..<Suc n + r]"
      using False by (simp add: upt_conv_Cons)
    moreover have "encrypt_loop R (of_nat r) (4 * Suc n) (up8 (ref_mix ?s3)) =
        Some (up8 (ref_add_key w (Suc n + r) (ref_shift (ref_sub
          (fold (ref_round w) [Suc n + 1..<Suc n + r] (ref_add_key w (Suc n) (ref_mix ?s3)))))))"
      using False Suc.prems by (intro Suc.IH) simp_all
    moreover have "ref_add_key w (Suc n) (ref_mix ?s3) = ref_round w (Suc n) ?s1"
      by (simp only: ref_round_def)
    moreover have "n + Suc r = Suc n + r" by simp
    ultimately show ?thesis unfolding step using False by (simp only: fold.simps comp_apply if_False)
  qed
qed simp

lemma encrypt_block_ref:
  assumes "length (key aes) = 60" "rounds aes = of_nat nr" "0 < nr" "nr \<le> 14"
    "\<forall>i < 4 * nr + 4. key aes ! i = w i" "length pt = 16"
  shows "aes_encrypt_one_block aes pt = Some (ref_cipher w nr pt)"
proof -
  have "encrypt_loop (key aes) (of_nat nr) (4 * 0) (up8 pt) = Some (up8 (ref_cipher w nr pt))"
    using encrypt_loop_ref [of 0 nr "4 * nr + 4" pt "key aes" w] assms by (simp add: ref_cipher_def)
  then show ?thesis
    using assms(2) by (simp add: aes_encrypt_one_block_def aes_encrypt_1_def ucast_down_up comp_def)
qed

section \<open>Properties\<close>


definition blank_aes :: tls_aes where
  "blank_aes = \<lparr>key = replicate 60 0, rounds = 0\<rparr>"


text \<open>CBC round trip: with every key \<open>aes_setkey\<close> accepts, every IV and every message
  of whole blocks, encryption returns a ciphertext of the same length and decryption under
  the same key and IV returns the message.\<close>

theorem aes_cbc_round_trip:
  assumes "length kb \<in> {16, 24, 32}" "length (key aes) = 60" "length iv = 16" "length data mod 16 = 0"
  shows "\<exists>a ct. aes_setkey aes kb = Some a \<and> aes_cbc_encrypt a iv data = Some ct \<and>
    length ct = length data \<and> aes_cbc_decrypt a iv ct = Some data"
proof -
  obtain a where a: "aes_setkey aes kb = Some a" "aes_ok a"
    using aes_setkey_ref [OF assms(1,2)] by blast
  have "length data = 16 * (length data div 16)" using assms(4) by (metis add.right_neutral mult_div_mod_eq)
  from aes_cbc.cbc_round_trip [OF a(2) assms(3) this] a(1) assms(3) show ?thesis
    by (simp add: aes_cbc_encrypt_def aes_cbc_decrypt_def)
qed

theorem aes_cbc_round_trip_witness:
  "\<exists>a ct. aes_setkey blank_aes (replicate 32 1) = Some a \<and>
    aes_cbc_encrypt a (replicate 16 3) (replicate 48 2) = Some ct \<and>
    length ct = 48 \<and> aes_cbc_decrypt a (replicate 16 3) ct = Some (replicate 48 2)"
  using aes_cbc_round_trip [of "replicate 32 1" blank_aes "replicate 16 3" "replicate 48 2"]
  by (simp add: blank_aes_def)

end
