(* ===== verification/RB_Math.thy ===== *)
theory RB_Math
  imports RB_Prelude "HOL-Library.Signed_Division"
begin

text \<open>
  The shell arithmetic \<^verbatim>\<open>$((...))\<close> of \<^verbatim>\<open>src/shell/math.rs\<close>: the number scanner, the operator
  table, \<open>arith_apply\<close> and the two-stack loop of \<open>evaluate_string\<close>, with \<open>endofname\<close> and
  \<open>skip_whitespace\<close> of \<^verbatim>\<open>src/libbb/\<close>.

  A C string is the list of its characters before the NUL. The hooks \<open>lookupvar\<close> and \<open>setvar\<close> act on
  a map from names to texts, as the comment at the head of the source asks of every shell.
  \<open>arith_t\<close> is a 64-bit word; the release profile wraps, masks shift counts and panics on a
  division by zero or an overflowing division. The value \<^const>\<open>None\<close> stands for a panic or for
  an evaluation that was given too little fuel for its nested variables. The name a stack
  entry points to is the name the code stored, although the vector that held its characters
  is dropped at once. The number and operator stacks are lists, top first; how long they can
  get is a property.
\<close>

section \<open>Characters and numbers\<close>

type_synonym i64 = "64 word"
type_synonym env = "string \<Rightarrow> string option"

definition byte :: "char \<Rightarrow> u8" where
  "byte c = of_char c"

definition is_digit :: "char \<Rightarrow> bool" where
  "is_digit c \<longleftrightarrow> byte c - 48 \<le> 9"

definition bb_ascii_isalnum :: "char \<Rightarrow> bool" where
  "bb_ascii_isalnum c \<longleftrightarrow> byte c - 48 \<le> 9 \<or> (byte c OR 0x20) - 97 \<le> 25"

definition name_start :: "char \<Rightarrow> bool" where
  "name_start c \<longleftrightarrow> c = CHR ''_'' \<or> (byte c OR 0x20) - 97 \<le> 25"

text \<open>\<open>endofname\<close> splits its argument into the name and the rest.\<close>

definition endofname :: "string \<Rightarrow> string \<times> string" where
  "endofname s =
     (case s of
        [] \<Rightarrow> ([], [])
      | c # cs \<Rightarrow>
          if \<not> name_start c then ([], s)
          else (c # takeWhile (\<lambda>c. c = CHR ''_'' \<or> bb_ascii_isalnum c) cs,
                dropWhile (\<lambda>c. c = CHR ''_'' \<or> bb_ascii_isalnum c) cs))"

definition skip_whitespace :: "string \<Rightarrow> string" where
  "skip_whitespace s = dropWhile (\<lambda>c. c = CHR '' '' \<or> byte c - 9 \<le> 13 - 9) s"

text \<open>\<open>strtoull\<close> with base 0 at a digit: value, rest and whether \<open>errno\<close> was set.\<close>

definition c_digit :: "char \<Rightarrow> nat option" where
  "c_digit c =
     (let n = (of_char c :: nat)
      in if 48 \<le> n \<and> n \<le> 57 then Some (n - 48)
         else if 97 \<le> n \<and> n \<le> 122 then Some (n - 87)
         else if 65 \<le> n \<and> n \<le> 90 then Some (n - 55) else None)"

definition base_digit :: "nat \<Rightarrow> char \<Rightarrow> bool" where
  "base_digit b c = (case c_digit c of None \<Rightarrow> False | Some d \<Rightarrow> d < b)"

definition digits_value :: "nat \<Rightarrow> string \<Rightarrow> nat" where
  "digits_value b s = foldl (\<lambda>n c. n * b + the (c_digit c)) 0 s"

definition strtoull_base :: "nat \<Rightarrow> string \<Rightarrow> i64 \<times> string \<times> bool" where
  "strtoull_base b s =
     (let n = digits_value b (takeWhile (base_digit b) s); rest = dropWhile (base_digit b) s
      in if n < 2 ^ 64 then (of_nat n, rest, False) else (- 1, rest, True))"

definition strtoull :: "string \<Rightarrow> i64 \<times> string \<times> bool" where
  "strtoull s =
     (case s of
        z # x # d # cs \<Rightarrow>
          if z = CHR ''0'' \<and> (x = CHR ''x'' \<or> x = CHR ''X'') \<and> base_digit 16 d
          then strtoull_base 16 (d # cs)
          else strtoull_base (if z = CHR ''0'' then 8 else 10) s
      | z # cs \<Rightarrow> strtoull_base (if z = CHR ''0'' then 8 else 10) s
      | [] \<Rightarrow> (0, [], False))"

text \<open>One digit of the \<open>base#digits\<close> syntax; None where the code leaves the loop.\<close>

definition arith_digit :: "u32 \<Rightarrow> char \<Rightarrow> u32 option" where
  "arith_digit base c =
     (let ch = of_char c :: u32; digit = ch - 48;
          d = (if 10 \<le> digit \<and> digit \<le> 122 - 48 then
                 (let e = (ch OR 0x20) - (97 - 10)
                  in if 36 < base \<and> ch \<le> 95 then
                       (if c = CHR ''_'' then Some 63 else if c = CHR ''@'' then Some 62
                        else if \<not> e < 36 then None else Some (e + (36 - 10)))
                     else Some e)
               else Some digit)
      in case d of None \<Rightarrow> None | Some d \<Rightarrow> if base \<le> d then None else Some d)"

fun base_loop :: "u32 \<Rightarrow> i64 \<Rightarrow> string \<Rightarrow> i64 \<times> string" where
  "base_loop base n [] = (n, [])"
| "base_loop base n (c # cs) =
     (case arith_digit base c of
        None \<Rightarrow> (n, c # cs)
      | Some d \<Rightarrow> base_loop base (n * ucast base + ucast d) cs)"

definition strto_arith_t :: "string \<Rightarrow> i64 \<times> string \<times> bool" where
  "strto_arith_t nptr =
     (case strtoull nptr of (n, endptr, errno) \<Rightarrow>
        if take 1 endptr \<noteq> ''#'' \<or> nptr = [] \<or> \<not> (49 \<le> byte (hd nptr) \<and> byte (hd nptr) \<le> 57)
           \<or> n <s 2 \<or> 64 <s n
        then (n, endptr, errno)
        else (case base_loop (ucast n) 0 (drop 1 endptr) of (m, rest) \<Rightarrow> (m, rest, errno)))"

text \<open>\<open>sprintf\<close> with the format \<open>%lld\<close>.\<close>

definition show_i64 :: "i64 \<Rightarrow> string" where
  "show_i64 w =
     (if sint w < 0 then CHR ''-'' # show_nat (nat (- sint w)) else show_nat (nat (sint w)))"

section \<open>Operators\<close>

text \<open>An operator code holds a precedence in its low five bits.\<close>

abbreviation (input) "TOK_LPAREN \<equiv> 0 :: nat"
abbreviation (input) "TOK_COMMA \<equiv> 1 :: nat"
abbreviation (input) "TOK_ASSIGN \<equiv> 2 :: nat"
abbreviation (input) "TOK_AND_ASSIGN \<equiv> 34 :: nat"
abbreviation (input) "TOK_OR_ASSIGN \<equiv> 66 :: nat"
abbreviation (input) "TOK_XOR_ASSIGN \<equiv> 98 :: nat"
abbreviation (input) "TOK_PLUS_ASSIGN \<equiv> 130 :: nat"
abbreviation (input) "TOK_MINUS_ASSIGN \<equiv> 162 :: nat"
abbreviation (input) "TOK_LSHIFT_ASSIGN \<equiv> 194 :: nat"
abbreviation (input) "TOK_RSHIFT_ASSIGN \<equiv> 226 :: nat"
abbreviation (input) "TOK_MUL_ASSIGN \<equiv> 3 :: nat"
abbreviation (input) "TOK_DIV_ASSIGN \<equiv> 35 :: nat"
abbreviation (input) "TOK_REM_ASSIGN \<equiv> 67 :: nat"
abbreviation (input) "TOK_CONDITIONAL \<equiv> 4 :: nat"
abbreviation (input) "TOK_CONDITIONAL_SEP \<equiv> 36 :: nat"
abbreviation (input) "TOK_OR \<equiv> 5 :: nat"
abbreviation (input) "TOK_AND \<equiv> 6 :: nat"
abbreviation (input) "TOK_BOR \<equiv> 7 :: nat"
abbreviation (input) "TOK_BXOR \<equiv> 8 :: nat"
abbreviation (input) "TOK_BAND \<equiv> 9 :: nat"
abbreviation (input) "TOK_EQ \<equiv> 10 :: nat"
abbreviation (input) "TOK_NE \<equiv> 42 :: nat"
abbreviation (input) "TOK_LT \<equiv> 11 :: nat"
abbreviation (input) "TOK_GT \<equiv> 43 :: nat"
abbreviation (input) "TOK_GE \<equiv> 75 :: nat"
abbreviation (input) "TOK_LE \<equiv> 107 :: nat"
abbreviation (input) "TOK_LSHIFT \<equiv> 12 :: nat"
abbreviation (input) "TOK_RSHIFT \<equiv> 44 :: nat"
abbreviation (input) "TOK_ADD \<equiv> 13 :: nat"
abbreviation (input) "TOK_SUB \<equiv> 45 :: nat"
abbreviation (input) "TOK_MUL \<equiv> 14 :: nat"
abbreviation (input) "TOK_DIV \<equiv> 46 :: nat"
abbreviation (input) "TOK_REM \<equiv> 78 :: nat"
abbreviation (input) "TOK_EXPONENT \<equiv> 47 :: nat"
abbreviation (input) "TOK_BNOT \<equiv> 16 :: nat"
abbreviation (input) "TOK_NOT \<equiv> 48 :: nat"
abbreviation (input) "TOK_UMINUS \<equiv> 17 :: nat"
abbreviation (input) "TOK_UPLUS \<equiv> 49 :: nat"
abbreviation (input) "TOK_PRE_INC \<equiv> 18 :: nat"
abbreviation (input) "TOK_PRE_DEC \<equiv> 50 :: nat"
abbreviation (input) "TOK_POST_INC \<equiv> 19 :: nat"
abbreviation (input) "TOK_POST_DEC \<equiv> 51 :: nat"
abbreviation (input) "TOK_NUM \<equiv> 20 :: nat"
abbreviation (input) "TOK_RPAREN \<equiv> 52 :: nat"

definition op_tokens :: "(string \<times> nat) list" where
  "op_tokens = [
     (''<<='', TOK_LSHIFT_ASSIGN), (''>>='', TOK_RSHIFT_ASSIGN),
     (''<<'', TOK_LSHIFT), (''>>'', TOK_RSHIFT), (''||'', TOK_OR), (''&&'', TOK_AND),
     (''!='', TOK_NE), (''<='', TOK_LE), (''>='', TOK_GE), (''=='', TOK_EQ),
     (''|='', TOK_OR_ASSIGN), (''&='', TOK_AND_ASSIGN), (''*='', TOK_MUL_ASSIGN),
     (''/='', TOK_DIV_ASSIGN), (''%='', TOK_REM_ASSIGN), (''+='', TOK_PLUS_ASSIGN),
     (''-='', TOK_MINUS_ASSIGN), (''--'', TOK_POST_DEC), (''^='', TOK_XOR_ASSIGN),
     (''++'', TOK_POST_INC), (''**'', TOK_EXPONENT), (''!'', TOK_NOT), (''<'', TOK_LT),
     (''>'', TOK_GT), (''='', TOK_ASSIGN), (''|'', TOK_BOR), (''&'', TOK_BAND), (''*'', TOK_MUL),
     (''/'', TOK_DIV), (''%'', TOK_REM), (''+'', TOK_ADD), (''-'', TOK_SUB), (''^'', TOK_BXOR),
     (''~'', TOK_BNOT), ('','', TOK_COMMA), (''?'', TOK_CONDITIONAL), ('':'', TOK_CONDITIONAL_SEP),
     ('')'', TOK_RPAREN), (''('', TOK_LPAREN)]"

text \<open>The search through the table: the first token that is a prefix of the text.\<close>

fun find_op :: "(string \<times> nat) list \<Rightarrow> string \<Rightarrow> (nat \<times> string) option" where
  "find_op [] s = None"
| "find_op ((t, op) # ts) s =
     (if starts_with t s then Some (op, drop (length t) s) else find_op ts s)"

definition is_assign_op :: "nat \<Rightarrow> bool" where
  "is_assign_op op \<longleftrightarrow>
     (let prec = op mod 32; prec = (if prec = 3 then 2 else prec)
      in prec = 2 \<or> prec = 16 + 2 \<or> prec = 16 + 3)"

definition is_right_associative :: "nat \<Rightarrow> bool" where
  "is_right_associative prec \<longleftrightarrow> prec = 2 \<or> prec = 15 \<or> prec = 4"

section \<open>Applying an operator\<close>

datatype math_err = SyntaxError | MalformedConditional | NegativeExponent | DivideByZero | RecursionLoop

record var_or_num =
  vn_val :: i64
  second_val :: i64
  second_val_present :: bool
  vn_var :: "string option"

text \<open>The recursive evaluation of a variable's text, given the names being evaluated: the
  error message, the value and the environment after it.\<close>

type_synonym evaluator = "string list \<Rightarrow> env \<Rightarrow> string \<Rightarrow> (math_err option \<times> i64 \<times> env) option"

definition arith_lookup_val ::
  "evaluator \<Rightarrow> string list \<Rightarrow> env \<Rightarrow> var_or_num \<Rightarrow> (math_err option \<times> var_or_num \<times> env) option" where
  "arith_lookup_val ev names e t =
     (case vn_var t of
        None \<Rightarrow> Some (None, t, e)
      | Some v \<Rightarrow>
          (case e v of
             None \<Rightarrow> Some (None, t\<lparr>vn_val := 0\<rparr>, e)
           | Some p \<Rightarrow>
               if v \<in> set names then Some (Some RecursionLoop, t, e)
               else do_opt (ev (v # names) e p) (\<lambda>(err, r, e'). Some (err, t\<lparr>vn_val := r\<rparr>, e'))))"

definition bool64 :: "bool \<Rightarrow> i64" where
  "bool64 b = (if b then 1 else 0)"

text \<open>Rust's \<open>/\<close> and \<open>%\<close> on \<open>i64\<close>, which panic on 0 and on the overflowing quotient.\<close>

definition rust_div :: "i64 \<Rightarrow> i64 \<Rightarrow> i64 option" where
  "rust_div l r =
     (if r = 0 \<or> (sint l = - (2 ^ 63) \<and> r = - 1) then None else Some (word_of_int (sint l sdiv sint r)))"

definition rust_rem :: "i64 \<Rightarrow> i64 \<Rightarrow> i64 option" where
  "rust_rem l r =
     (if r = 0 \<or> (sint l = - (2 ^ 63) \<and> r = - 1) then None else Some (word_of_int (sint l smod sint r)))"

primrec pow_loop :: "i64 \<Rightarrow> i64 \<Rightarrow> nat \<Rightarrow> i64" where
  "pow_loop c rez 0 = c"
| "pow_loop c rez (Suc n) = pow_loop (c * rez) rez n"

definition unary_op :: "nat \<Rightarrow> i64 \<Rightarrow> i64 option" where
  "unary_op op rez =
     (if op = TOK_UMINUS then Some (- rez)
      else if op = TOK_NOT then Some (bool64 (rez = 0))
      else if op = TOK_BNOT then Some (NOT rez)
      else if op = TOK_POST_INC \<or> op = TOK_PRE_INC then Some (rez + 1)
      else if op = TOK_POST_DEC \<or> op = TOK_PRE_DEC then Some (rez - 1)
      else if op = TOK_UPLUS then Some rez
      else None)"

text \<open>The chain of binary operators from \<open>|\<close> on; the shift count is masked to six bits.\<close>

definition binary_op :: "nat \<Rightarrow> i64 \<Rightarrow> i64 \<Rightarrow> (math_err + i64) option" where
  "binary_op op rez right =
     (if op = TOK_BOR \<or> op = TOK_OR_ASSIGN then Some (Inr (rez OR right))
      else if op = TOK_OR then Some (Inr (bool64 (right \<noteq> 0 \<or> rez \<noteq> 0)))
      else if op = TOK_BAND \<or> op = TOK_AND_ASSIGN then Some (Inr (rez AND right))
      else if op = TOK_BXOR \<or> op = TOK_XOR_ASSIGN then Some (Inr (rez XOR right))
      else if op = TOK_AND then Some (Inr (bool64 (rez \<noteq> 0 \<and> right \<noteq> 0)))
      else if op = TOK_EQ then Some (Inr (bool64 (rez = right)))
      else if op = TOK_NE then Some (Inr (bool64 (rez \<noteq> right)))
      else if op = TOK_GE then Some (Inr (bool64 (right \<le>s rez)))
      else if op = TOK_RSHIFT \<or> op = TOK_RSHIFT_ASSIGN then
        Some (Inr (signed_drop_bit (unat (right AND 63)) rez))
      else if op = TOK_LSHIFT \<or> op = TOK_LSHIFT_ASSIGN then
        Some (Inr (push_bit (unat (right AND 63)) rez))
      else if op = TOK_GT then Some (Inr (bool64 (right <s rez)))
      else if op = TOK_LT then Some (Inr (bool64 (rez <s right)))
      else if op = TOK_LE then Some (Inr (bool64 (rez \<le>s right)))
      else if op = TOK_MUL \<or> op = TOK_MUL_ASSIGN then Some (Inr (rez * right))
      else if op = TOK_ADD \<or> op = TOK_PLUS_ASSIGN then Some (Inr (rez + right))
      else if op = TOK_SUB \<or> op = TOK_MINUS_ASSIGN then Some (Inr (rez - right))
      else if op = TOK_ASSIGN \<or> op = TOK_COMMA then Some (Inr right)
      else if op = TOK_EXPONENT then
        (if right <s 0 then Some (Inl NegativeExponent) else Some (Inr (pow_loop 1 rez (nat (sint right)))))
      else if right = 0 then Some (Inl DivideByZero)
      else if op = TOK_DIV \<or> op = TOK_DIV_ASSIGN \<or> op = TOK_REM \<or> op = TOK_REM_ASSIGN then
        (let right = (if right = - 1 \<and> push_bit 1 rez = 0 then 1 else right)
         in if op = TOK_DIV \<or> op = TOK_DIV_ASSIGN then map_option Inr (rust_div rez right)
            else map_option Inr (rust_rem rez right))
      else Some (Inr rez))"

type_synonym apply_result = "(math_err + var_or_num list) \<times> env"

text \<open>The common end of \<open>arith_apply\<close>: save to the variable, then replace the top entry.\<close>

definition apply_finish ::
  "nat \<Rightarrow> i64 \<Rightarrow> var_or_num \<Rightarrow> var_or_num list \<Rightarrow> env \<Rightarrow> apply_result" where
  "apply_finish op rez tos rest e =
     (if is_assign_op op then
        (case vn_var tos of
           None \<Rightarrow> (Inl SyntaxError, e)
         | Some v \<Rightarrow>
             let rez' = (if op = TOK_POST_INC then rez - 1
                         else if op = TOK_POST_DEC then rez + 1 else rez)
             in (Inr (tos\<lparr>vn_val := rez', vn_var := None\<rparr> # rest), e(v \<mapsto> show_i64 rez)))
      else (Inr (tos\<lparr>vn_val := rez, vn_var := None\<rparr> # rest), e))"

definition apply_binary ::
  "evaluator \<Rightarrow> string list \<Rightarrow> env \<Rightarrow> nat \<Rightarrow> var_or_num \<Rightarrow> var_or_num list \<Rightarrow> apply_result option" where
  "apply_binary ev names e op tos rest =
     (case rest of
        [] \<Rightarrow> Some (Inl SyntaxError, e)
      | left # rest' \<Rightarrow>
          let bad = second_val_present tos; bad = (if op = TOK_CONDITIONAL then \<not> bad else bad)
          in if bad then Some (Inl MalformedConditional, e)
             else do_opt (if op \<noteq> TOK_ASSIGN then arith_lookup_val ev names e left else Some (None, left, e))
               (\<lambda>(err, left, e).
                  case err of
                    Some er \<Rightarrow> Some (Inl er, e)
                  | None \<Rightarrow>
                      let right = vn_val tos; rez = vn_val left
                      in if op = TOK_CONDITIONAL
                         then Some (apply_finish op (if rez \<noteq> 0 then right else second_val tos) left rest' e)
                         else if op = TOK_CONDITIONAL_SEP
                         then (if rest' = [] then Some (Inl MalformedConditional, e)
                               else Some (apply_finish op rez
                                 (left\<lparr>second_val_present := True, second_val := right\<rparr>) rest' e))
                         else do_opt (binary_op op rez right)
                           (\<lambda>r. case r of
                              Inl er \<Rightarrow> Some (Inl er, e)
                            | Inr v \<Rightarrow> Some (apply_finish op v left rest' e))))"

definition arith_apply ::
  "evaluator \<Rightarrow> string list \<Rightarrow> env \<Rightarrow> nat \<Rightarrow> var_or_num list \<Rightarrow> apply_result option" where
  "arith_apply ev names e op nums =
     (case nums of
        [] \<Rightarrow> Some (Inl SyntaxError, e)
      | tos # rest \<Rightarrow>
          do_opt (arith_lookup_val ev names e tos)
            (\<lambda>(err, tos, e).
               case err of
                 Some er \<Rightarrow> Some (Inl er, e)
               | None \<Rightarrow>
                   (case unary_op op (vn_val tos) of
                      Some rez \<Rightarrow> Some (apply_finish op rez tos rest e)
                    | None \<Rightarrow> apply_binary ev names e op tos rest)))"

section \<open>The loop of \<open>evaluate_string\<close>\<close>

datatype pop_result = PopErr math_err | PopParen "nat list" "var_or_num list" | PopDone "nat list" "var_or_num list"

text \<open>The inner loop: pop and apply operators until one has to stay.\<close>

fun pop_apply ::
  "evaluator \<Rightarrow> string list \<Rightarrow> nat \<Rightarrow> nat list \<Rightarrow> var_or_num list \<Rightarrow> env \<Rightarrow> (pop_result \<times> env) option" where
  "pop_apply ev names op [] nums e = Some (PopDone [] nums, e)"
| "pop_apply ev names op (prev_op # ops) nums e =
     (let apply_prev =
        do_opt (arith_apply ev names e prev_op nums)
          (\<lambda>(r, e'). case r of Inl er \<Rightarrow> Some (PopErr er, e') | Inr nums' \<Rightarrow> pop_apply ev names op ops nums' e')
      in if op = TOK_RPAREN then
           (if prev_op = TOK_LPAREN then Some (PopParen ops nums, e) else apply_prev)
         else
           (let prec = (if op mod 32 = 3 then 2 else op mod 32);
                prev_prec = (if prev_op mod 32 = 3 then 2 else prev_op mod 32)
            in if prev_prec < prec \<or> (prev_prec = prec \<and> is_right_associative prec)
               then Some (PopDone (prev_op # ops) nums, e) else apply_prev))"

record mstate =
  ms_expr :: string
  ms_done :: bool
  ms_nums :: "var_or_num list"
  ms_ops :: "nat list"
  ms_last :: nat

definition unary_of :: "nat \<Rightarrow> nat" where
  "unary_of op =
     (if op = TOK_ADD then TOK_UPLUS else if op = TOK_SUB then TOK_UMINUS
      else if op = TOK_POST_INC then TOK_PRE_INC else if op = TOK_POST_DEC then TOK_PRE_DEC else op)"

text \<open>The operator at the head of the text, with the special case of \<open>++\<close> and \<open>--\<close> after a
  literal number.\<close>

definition fetch_op :: "nat \<Rightarrow> var_or_num list \<Rightarrow> string \<Rightarrow> (nat \<times> string) option" where
  "fetch_op lasttok nums s =
     (if lasttok = TOK_NUM \<and> nums \<noteq> [] \<and> vn_var (hd nums) = None \<and> (starts_with ''++'' s \<or> starts_with ''--'' s)
      then Some (if starts_with ''++'' s then TOK_ADD else TOK_SUB, drop 1 s)
      else find_op op_tokens s)"

definition push_num :: "var_or_num \<Rightarrow> string \<Rightarrow> mstate \<Rightarrow> mstate" where
  "push_num n s st = st\<lparr>ms_expr := s, ms_nums := n # ms_nums st, ms_last := TOK_NUM\<rparr>"

definition number_of :: "i64 \<Rightarrow> var_or_num" where
  "number_of v = \<lparr>vn_val = v, second_val = 0, second_val_present = False, vn_var = None\<rparr>"

definition name_of :: "string \<Rightarrow> var_or_num" where
  "name_of v = \<lparr>vn_val = 0, second_val = 0, second_val_present = False, vn_var = Some v\<rparr>"

type_synonym step_result = "(mstate + (math_err option \<times> i64)) \<times> env"

text \<open>One operator token: reduce, then push it or close a parenthesis.\<close>

definition operator_step ::
  "evaluator \<Rightarrow> string list \<Rightarrow> nat \<Rightarrow> string \<Rightarrow> mstate \<Rightarrow> env \<Rightarrow> step_result option" where
  "operator_step ev names op0 s st e =
     (let lasttok = (if ms_last st = TOK_POST_INC \<or> ms_last st = TOK_POST_DEC then TOK_NUM else ms_last st);
          op = (if lasttok \<noteq> TOK_NUM then unary_of op0 else op0);
          prec = op mod 32
      in if (0 < prec \<and> prec < 16) \<or> prec = 20 then
           (if lasttok \<noteq> TOK_NUM then Some (Inr (Some SyntaxError, - 1), e)
            else do_opt (pop_apply ev names op (ms_ops st) (ms_nums st) e)
              (\<lambda>(r, e). case r of
                 PopErr er \<Rightarrow> Some (Inr (Some er, - 1), e)
               | PopParen ops nums \<Rightarrow>
                   Some (Inl (st\<lparr>ms_expr := s, ms_ops := ops, ms_nums := nums, ms_last := TOK_NUM\<rparr>), e)
               | PopDone ops nums \<Rightarrow>
                   if op = TOK_RPAREN then Some (Inr (Some SyntaxError, - 1), e)
                   else Some (Inl (st\<lparr>ms_expr := s, ms_ops := op # ops, ms_nums := nums, ms_last := op\<rparr>), e)))
         else Some (Inl (st\<lparr>ms_expr := s, ms_ops := op # ms_ops st, ms_last := op\<rparr>), e))"

text \<open>What happens at the end of the text: the empty expression, the closing parenthesis that
  the code appends, or the result.\<close>

definition end_step ::
  "evaluator \<Rightarrow> string list \<Rightarrow> string \<Rightarrow> mstate \<Rightarrow> env \<Rightarrow> step_result option" where
  "end_step ev names start_expr st e =
     (if start_expr = [] then Some (Inr (None, 0), e)
      else if \<not> ms_done st then Some (Inl (st\<lparr>ms_expr := '')'', ms_done := True\<rparr>), e)
      else (case ms_nums st of
              [t] \<Rightarrow> do_opt (arith_lookup_val ev names e t) (\<lambda>(err, t', e'). Some (Inr (err, vn_val t'), e'))
            | _ \<Rightarrow> Some (Inr (Some SyntaxError, - 1), e)))"

definition math_step ::
  "evaluator \<Rightarrow> string list \<Rightarrow> string \<Rightarrow> mstate \<Rightarrow> env \<Rightarrow> step_result option" where
  "math_step ev names start_expr st e =
     (case skip_whitespace (ms_expr st) of
        [] \<Rightarrow> end_step ev names start_expr st e
      | c # cs \<Rightarrow>
          (case endofname (c # cs) of (name, p) \<Rightarrow>
             if name \<noteq> [] then Some (Inl (push_num (name_of name) p st), e)
             else if is_digit c then
               (case strto_arith_t (c # cs) of (v, rest, errno) \<Rightarrow>
                  Some (Inl (push_num (number_of (if errno then 0 else v)) rest st), e))
             else
               (case fetch_op (ms_last st) (ms_nums st) (c # cs) of
                  None \<Rightarrow> Some (Inr (Some SyntaxError, - 1), e)
                | Some (op, rest) \<Rightarrow> operator_step ev names op rest st e)))"

section \<open>The loop returns\<close>

lemma length_skip_whitespace: "length (skip_whitespace s) \<le> length s"
  by (simp add: skip_whitespace_def length_dropWhile_le)

lemma endofname_rest:
  "endofname s = (n, p) \<Longrightarrow> n \<noteq> [] \<Longrightarrow> length p < length s"
  by (auto simp: endofname_def length_dropWhile_le less_Suc_eq_le split: list.splits if_splits)

lemma uint_byte: "uint (byte c) = of_char c"
proof -
  have "(of_char c :: nat) < 256" by simp
  moreover have "byte c = of_nat (of_char c)" by (simp add: byte_def of_nat_of_char)
  ultimately have "unat (byte c) = of_char c" by (simp only: unat_of_nat) simp
  then show ?thesis by (metis of_nat_of_char uint_nat)
qed

lemma is_digit_nat: "is_digit c \<longleftrightarrow> 48 \<le> (of_char c :: nat) \<and> (of_char c :: nat) \<le> 57"
proof -
  define n where "n = (of_char c :: nat)"
  have n: "n < 256" "uint (byte c) = int n" by (simp_all add: n_def uint_byte of_nat_of_char)
  have "is_digit c \<longleftrightarrow> (int n - 48) mod 256 \<le> 9"
    by (simp add: is_digit_def word_le_def uint_word_ariths n(2))
  also have "\<dots> \<longleftrightarrow> 48 \<le> n \<and> n \<le> 57"
  proof (cases "48 \<le> n")
    case True
    then have "(int n - 48) mod 256 = int n - 48" using n(1) by (intro mod_pos_pos_trivial) simp_all
    with True show ?thesis by simp
  next
    case False
    have "(int n - 48) mod 256 = (int n + 208) mod 256" using mod_add_self2 [of "int n - 48" 256] by (simp add: add.commute)
    also have "\<dots> = int n + 208" using False by (intro mod_pos_pos_trivial) simp_all
    finally show ?thesis using False by simp
  qed
  finally show ?thesis by (simp add: n_def)
qed

lemma base_digit_digit: "is_digit c \<Longrightarrow> c \<noteq> CHR ''0'' \<Longrightarrow> base_digit 10 c"
  by (auto simp: is_digit_nat base_digit_def c_digit_def)

lemma base_digit_zero: "base_digit 8 CHR ''0''" "base_digit 10 CHR ''0''"
  by (simp_all add: base_digit_def c_digit_def)

lemma strtoull_base_rest:
  "strtoull_base b (c # cs) = (v, r, er) \<Longrightarrow> base_digit b c \<Longrightarrow> length r \<le> length cs"
  by (auto simp: strtoull_base_def Let_def length_dropWhile_le split: if_splits)

lemma strtoull_rest:
  assumes "strtoull (c # cs) = (v, r, er)" "is_digit c"
  shows "length r \<le> length cs"
proof -
  let ?b = "if c = CHR ''0'' then 8 else 10"
  have b: "base_digit ?b c" using assms(2) base_digit_zero base_digit_digit by simp
  consider (hex) d ds x where "cs = x # d # ds" "strtoull_base 16 (d # ds) = (v, r, er)" "base_digit 16 d"
    | (other) "strtoull_base ?b (c # cs) = (v, r, er)"
    using assms(1) by (auto simp: strtoull_def split: list.splits if_splits)
  then show ?thesis
  proof cases
    case hex
    then show ?thesis using strtoull_base_rest [of 16 d ds v r er] by simp
  next
    case other
    then show ?thesis using b by (rule strtoull_base_rest)
  qed
qed

lemma base_loop_rest: "base_loop b n s = (m, r) \<Longrightarrow> length r \<le> length s"
  by (induction b n s rule: base_loop.induct) (force split: option.splits)+

lemma strto_arith_rest:
  assumes "strto_arith_t (c # cs) = (v, r, er)" "is_digit c"
  shows "length r \<le> length cs"
proof -
  obtain n p er' where n: "strtoull (c # cs) = (n, p, er')" by (cases "strtoull (c # cs)")
  then have p: "length p \<le> length cs" using assms(2) by (rule strtoull_rest)
  obtain m q where q: "base_loop (ucast n) 0 (drop 1 p) = (m, q)" by fastforce
  then have "length q \<le> length p" using base_loop_rest [OF q] by simp
  then show ?thesis using assms(1) n p q by (auto simp: strto_arith_t_def split: if_splits)
qed

lemma find_op_rest:
  "\<forall>(t, op) \<in> set ts. t \<noteq> [] \<Longrightarrow> find_op ts s = Some (op, r) \<Longrightarrow> length r < length s"
proof (induction ts s rule: find_op.induct)
  case (2 t op' ts s)
  have "starts_with t s \<Longrightarrow> t \<noteq> [] \<Longrightarrow> length s - length t < length s"
    by (cases s) (auto simp: starts_with_def)
  with 2 show ?case by (auto split: if_splits)
qed simp

lemma fetch_op_rest: "fetch_op l nums s = Some (op, r) \<Longrightarrow> length r < length s"
proof -
  have t: "\<forall>(t, op) \<in> set op_tokens. t \<noteq> []" by (simp add: op_tokens_def)
  assume "fetch_op l nums s = Some (op, r)"
  then show ?thesis using find_op_rest [OF t, of s op r]
    by (cases s) (auto simp: fetch_op_def starts_with_def split: if_splits)
qed

definition remaining :: "mstate \<Rightarrow> nat" where
  "remaining st = 2 * length (ms_expr st) + (if ms_done st then 0 else 3)"

lemma operator_step_expr:
  "operator_step ev names op s st e = Some (Inl st', e') \<Longrightarrow> ms_expr st' = s \<and> ms_done st' = ms_done st"
  by (auto simp: operator_step_def Let_def bind_eq_Some_conv split: if_splits pop_result.splits)

lemma math_step_remaining:
  assumes "math_step ev names start st e = Some (Inl st', e')"
  shows "remaining st' < remaining st"
proof (cases "skip_whitespace (ms_expr st)")
  case Nil
  with assms have "st' = st\<lparr>ms_expr := '')'', ms_done := True\<rparr>" "\<not> ms_done st"
    by (auto simp: math_step_def end_step_def bind_eq_Some_conv split: if_splits list.splits)
  then show ?thesis by (simp add: remaining_def)
next
  case (Cons c cs)
  have le: "length (c # cs) \<le> length (ms_expr st)" using length_skip_whitespace [of "ms_expr st"] Cons by simp
  obtain name p where np: "endofname (c # cs) = (name, p)" by fastforce
  have "length (ms_expr st') < length (c # cs) \<and> ms_done st' = ms_done st"
  proof (cases "name = []")
    case False
    with assms Cons np endofname_rest [OF np] show ?thesis by (auto simp: math_step_def push_num_def)
  next
    case name: True
    show ?thesis
    proof (cases "is_digit c")
      case True
      obtain v r er where "strto_arith_t (c # cs) = (v, r, er)" by (cases "strto_arith_t (c # cs)")
      with assms Cons np name True strto_arith_rest [OF this True] show ?thesis
        by (auto simp: math_step_def push_num_def)
    next
      case False
      then obtain op r where f: "fetch_op (ms_last st) (ms_nums st) (c # cs) = Some (op, r)"
        "operator_step ev names op r st e = Some (Inl st', e')"
        using assms Cons np name by (auto simp: math_step_def split: option.splits)
      then show ?thesis using fetch_op_rest [OF f(1)] operator_step_expr [OF f(2)] by simp
    qed
  qed
  then show ?thesis using le by (simp add: remaining_def)
qed

function math_loop ::
  "evaluator \<Rightarrow> string list \<Rightarrow> string \<Rightarrow> mstate \<Rightarrow> env \<Rightarrow> (math_err option \<times> i64 \<times> env) option" where
  "math_loop ev names start st e =
     (case math_step ev names start st e of
        None \<Rightarrow> None
      | Some (Inr (err, v), e') \<Rightarrow> Some (err, v, e')
      | Some (Inl st', e') \<Rightarrow> math_loop ev names start st' e')"
  by pat_completeness auto
termination
  by (relation "measure (\<lambda>(ev, names, start, st, e). remaining st)") (auto dest: math_step_remaining)

declare math_loop.simps [simp del]

definition init_state :: "string \<Rightarrow> mstate" where
  "init_state s = \<lparr>ms_expr = s, ms_done = False, ms_nums = [], ms_ops = [TOK_LPAREN], ms_last = TOK_LPAREN\<rparr>"

text \<open>\<open>evaluate_string\<close>; the fuel bounds how deep variables refer to other variables.\<close>

fun evaluate_string :: "nat \<Rightarrow> evaluator" where
  "evaluate_string 0 names e s = None"
| "evaluate_string (Suc n) names e s =
     (let start = skip_whitespace s in math_loop (evaluate_string n) names start (init_state start) e)"

definition arith :: "nat \<Rightarrow> env \<Rightarrow> string \<Rightarrow> (math_err option \<times> i64 \<times> env) option" where
  "arith fuel e s = evaluate_string fuel [] e s"

section \<open>Evaluation returns\<close>

text \<open>
  \<open>hooks_ok b ev names Q\<close>: nested evaluations return and keep the property \<open>Q\<close> of the
  environment, and so does saving a number. With \<open>b\<close> false nothing is asked, because no
  variable will be met.
\<close>

definition hooks_ok :: "bool \<Rightarrow> evaluator \<Rightarrow> string list \<Rightarrow> (env \<Rightarrow> bool) \<Rightarrow> bool" where
  "hooks_ok b ev names Q \<longleftrightarrow> (b \<longrightarrow>
     (\<forall>v e p. Q e \<longrightarrow> v \<notin> set names \<longrightarrow> e v = Some p \<longrightarrow>
        (\<exists>err r e'. ev (v # names) e p = Some (err, r, e') \<and> Q e')) \<and>
     (\<forall>v e w. Q e \<longrightarrow> Q (e(v \<mapsto> show_i64 w))))"

definition nums_ok :: "bool \<Rightarrow> var_or_num list \<Rightarrow> bool" where
  "nums_ok b nums \<longleftrightarrow> b \<or> (\<forall>t \<in> set nums. vn_var t = None)"

definition text_ok :: "bool \<Rightarrow> string \<Rightarrow> bool" where
  "text_ok b s \<longleftrightarrow> b \<or> (\<forall>c \<in> set s. \<not> name_start c)"

lemma nums_ok_Cons [simp]: "nums_ok b (t # ts) \<longleftrightarrow> (b \<or> vn_var t = None) \<and> nums_ok b ts"
  by (auto simp: nums_ok_def)

lemma nums_ok_Nil [simp]: "nums_ok b []"
  by (simp add: nums_ok_def)

lemma lookup_total:
  assumes "hooks_ok b ev names Q" "Q e" "b \<or> vn_var t = None"
  obtains err t' e' where "arith_lookup_val ev names e t = Some (err, t', e')" "Q e'" "vn_var t' = vn_var t"
    "second_val_present t' = second_val_present t"
proof -
  have "\<exists>err t' e'. arith_lookup_val ev names e t = Some (err, t', e') \<and> Q e' \<and> vn_var t' = vn_var t \<and>
      second_val_present t' = second_val_present t"
  proof (cases "vn_var t")
    case None
    with assms show ?thesis by (simp add: arith_lookup_val_def)
  next
    case (Some v)
    with assms(3) have b by simp
    show ?thesis
    proof (cases "e v")
      case None
      with Some assms show ?thesis by (simp add: arith_lookup_val_def)
    next
      case p: (Some p)
      show ?thesis
      proof (cases "v \<in> set names")
        case True
        with Some p assms show ?thesis by (simp add: arith_lookup_val_def)
      next
        case False
        then obtain err r e' where "ev (v # names) e p = Some (err, r, e')" "Q e'"
          using assms \<open>b\<close> p unfolding hooks_ok_def by blast
        with Some p False show ?thesis by (simp add: arith_lookup_val_def)
      qed
    qed
  qed
  with that show thesis by blast
qed

lemma finish_total:
  assumes "hooks_ok b ev names Q" "Q e" "b \<or> vn_var t = None" "nums_ok b rest"
    "apply_finish op rez t rest e = (r, e')"
  shows "Q e' \<and> (case r of Inl er \<Rightarrow> True | Inr nums \<Rightarrow> nums_ok b nums)"
  using assms by (auto simp: apply_finish_def hooks_ok_def Let_def split: if_splits option.splits)

lemma div_guard:
  fixes l r :: i64
  assumes "r \<noteq> 0"
  defines "r' \<equiv> (if r = - 1 \<and> push_bit 1 l = 0 then 1 else r)"
  shows "\<exists>q. rust_div l r' = Some q" "\<exists>q. rust_rem l r' = Some q"
proof -
  have "push_bit 1 l = 0" if "sint l = - (2 ^ 63)"
  proof -
    have "l = word_of_int (sint l)" by simp
    then have "l = word_of_int (- (2 ^ 63))" by (simp only: that)
    then show ?thesis by (simp add: push_bit_eq_mult)
  qed
  then have "\<not> (sint l = - (2 ^ 63) \<and> r' = - 1)" unfolding r'_def by (auto split: if_splits)
  moreover have "r' \<noteq> 0" using assms by simp
  ultimately show "\<exists>q. rust_div l r' = Some q" "\<exists>q. rust_rem l r' = Some q"
    by (auto simp: rust_div_def rust_rem_def)
qed

lemma if_not_None: "(a \<Longrightarrow> x \<noteq> None) \<Longrightarrow> (\<not> a \<Longrightarrow> y \<noteq> None) \<Longrightarrow> (if a then x else y) \<noteq> None"
  by simp

lemma binary_op_total: "\<exists>x. binary_op op rez right = Some x"
proof -
  have "right \<noteq> 0 \<Longrightarrow> rust_div rez (if right = - 1 \<and> push_bit 1 rez = 0 then 1 else right) \<noteq> None"
    "right \<noteq> 0 \<Longrightarrow> rust_rem rez (if right = - 1 \<and> push_bit 1 rez = 0 then 1 else right) \<noteq> None"
    using div_guard [of right rez] by auto
  then have "binary_op op rez right \<noteq> None"
    unfolding binary_op_def Let_def by (intro if_not_None) simp_all
  then show ?thesis by blast
qed

text \<open>A result of \<open>arith_apply\<close> that is there, keeps \<open>Q\<close> and leaves at most \<open>n\<close> entries.\<close>

definition apply_ok :: "bool \<Rightarrow> (env \<Rightarrow> bool) \<Rightarrow> nat \<Rightarrow> apply_result option \<Rightarrow> bool" where
  "apply_ok b Q n res \<longleftrightarrow> (\<exists>r e. res = Some (r, e) \<and> Q e \<and>
     (case r of Inl er \<Rightarrow> True | Inr nums \<Rightarrow> nums_ok b nums \<and> length nums \<le> n))"

lemma apply_ok_simps [simp]:
  "apply_ok b Q n (Some (Inl er, e)) \<longleftrightarrow> Q e"
  "apply_ok b Q n (Some (Inr nums, e)) \<longleftrightarrow> Q e \<and> nums_ok b nums \<and> length nums \<le> n"
  by (simp_all add: apply_ok_def)

lemma apply_okE:
  assumes "apply_ok b Q n res"
  obtains r e where "res = Some (r, e)" "Q e"
    "case r of Inl er \<Rightarrow> True | Inr nums \<Rightarrow> nums_ok b nums \<and> length nums \<le> n"
  using assms by (auto simp: apply_ok_def)

lemma finish_ok:
  assumes "hooks_ok b ev names Q" "Q e" "b \<or> vn_var t = None" "nums_ok b rest"
  shows "apply_ok b Q (Suc (length rest)) (Some (apply_finish op rez t rest e))"
proof (cases "is_assign_op op")
  case True
  show ?thesis
  proof (cases "vn_var t")
    case None
    with True assms show ?thesis by (simp add: apply_finish_def)
  next
    case (Some v)
    with True assms show ?thesis by (simp add: apply_finish_def hooks_ok_def Let_def)
  qed
next
  case False
  with assms show ?thesis by (simp add: apply_finish_def)
qed

lemma binary_total:
  assumes H: "hooks_ok b ev names Q" and "Q e" "b \<or> vn_var t = None" "nums_ok b rest"
  shows "apply_ok b Q (length rest) (apply_binary ev names e op t rest)"
proof (cases rest)
  case Nil
  with assms show ?thesis by (simp add: apply_binary_def)
next
  case (Cons left rest')
  have l: "b \<or> vn_var left = None" "nums_ok b rest'" using assms(4) Cons by simp_all
  obtain err left' e' where lk: "(if op \<noteq> TOK_ASSIGN then arith_lookup_val ev names e left else Some (None, left, e)) =
      Some (err, left', e')" "Q e'" "vn_var left' = vn_var left"
  proof (cases "op = TOK_ASSIGN")
    case True
    with assms(2) that [of None left e] show ?thesis by simp
  next
    case False
    with that show ?thesis by (auto intro: lookup_total [OF H assms(2) l(1)])
  qed
  have fin: "apply_ok b Q (Suc (length rest')) (Some (apply_finish op' v t' rest' e'))"
    if "vn_var t' = vn_var left" for op' v t'
    using H lk(2) _ l(2) by (rule finish_ok) (use that l(1) in simp)
  obtain x where x: "binary_op op (vn_val left') (vn_val t) = Some x" using binary_op_total by blast
  let ?t = "left'\<lparr>second_val_present := True, second_val := vn_val t\<rparr>"
  have f: "apply_ok b Q (Suc (length rest')) (Some (apply_finish op' v left' rest' e'))"
    "apply_ok b Q (Suc (length rest')) (Some (apply_finish op' v ?t rest' e'))" for op' v
    using lk(3) by (auto intro: fin)
  show ?thesis
  proof (cases err)
    case (Some er)
    then show ?thesis using assms(2) lk(2) Cons by (simp add: apply_binary_def lk(1) Let_def)
  next
    case None
    then show ?thesis
      using assms(2) lk(2) Cons x f
      by (cases x; cases "rest' = []") (simp_all add: apply_binary_def lk(1) Let_def)
  qed
qed

lemma apply_total:
  assumes H: "hooks_ok b ev names Q" and "Q e" "nums_ok b nums"
  shows "apply_ok b Q (length nums) (arith_apply ev names e op nums)"
proof (cases nums)
  case Nil
  with assms show ?thesis by (simp add: arith_apply_def)
next
  case (Cons t rest)
  have t: "b \<or> vn_var t = None" "nums_ok b rest" using assms(3) Cons by simp_all
  obtain err t' e' where lk: "arith_lookup_val ev names e t = Some (err, t', e')" "Q e'" "vn_var t' = vn_var t"
    using lookup_total [OF H assms(2) t(1)] by blast
  have t': "b \<or> vn_var t' = None" using t(1) lk(3) by simp
  have bin: "apply_ok b Q (Suc (length rest)) (apply_binary ev names e' op t' rest)"
    using binary_total [OF H lk(2) t' t(2), of op]
    by (elim apply_okE) (auto simp: apply_ok_def split: sum.splits)
  show ?thesis
  proof (cases err)
    case (Some er)
    then show ?thesis using lk Cons by (simp add: arith_apply_def)
  next
    case None
    then show ?thesis
      using finish_ok [OF H lk(2) t' t(2), of op] bin lk(1) Cons
      by (cases "unary_op op (vn_val t')") (simp_all add: arith_apply_def)
  qed
qed

text \<open>The same for the inner loop.\<close>

definition pop_ok :: "bool \<Rightarrow> (env \<Rightarrow> bool) \<Rightarrow> nat \<Rightarrow> nat \<Rightarrow> (pop_result \<times> env) option \<Rightarrow> bool" where
  "pop_ok b Q n m res \<longleftrightarrow> (\<exists>r e. res = Some (r, e) \<and> Q e \<and>
     (case r of PopErr er \<Rightarrow> True
      | PopParen ops nums \<Rightarrow> nums_ok b nums \<and> length nums \<le> n \<and> length ops \<le> m
      | PopDone ops nums \<Rightarrow> nums_ok b nums \<and> length nums \<le> n \<and> length ops \<le> m))"

lemma pop_ok_simps [simp]:
  "pop_ok b Q n m (Some (PopErr er, e)) \<longleftrightarrow> Q e"
  "pop_ok b Q n m (Some (PopParen ops nums, e)) \<longleftrightarrow> Q e \<and> nums_ok b nums \<and> length nums \<le> n \<and> length ops \<le> m"
  "pop_ok b Q n m (Some (PopDone ops nums, e)) \<longleftrightarrow> Q e \<and> nums_ok b nums \<and> length nums \<le> n \<and> length ops \<le> m"
  by (simp_all add: pop_ok_def)

lemma pop_ok_mono:
  assumes "pop_ok b Q n m res" "n \<le> n'" "m \<le> m'"
  shows "pop_ok b Q n' m' res"
proof -
  obtain r e where "res = Some (r, e)" using assms(1) by (auto simp: pop_ok_def)
  with assms show ?thesis by (cases r) auto
qed

lemma pop_total:
  assumes H: "hooks_ok b ev names Q" and "Q e" "nums_ok b nums"
  shows "pop_ok b Q (length nums) (length ops) (pop_apply ev names op ops nums e)"
  using assms(2,3)
proof (induction ops arbitrary: nums e)
  case Nil
  then show ?case by simp
next
  case (Cons prev ops)
  obtain r e' where r: "arith_apply ev names e prev nums = Some (r, e')" "Q e'"
    "case r of Inl er \<Rightarrow> True | Inr nums' \<Rightarrow> nums_ok b nums' \<and> length nums' \<le> length nums"
    using apply_total [OF H Cons.prems] by (rule apply_okE)
  have "pop_ok b Q (length nums) (Suc (length ops))
      (case r of Inl er \<Rightarrow> Some (PopErr er, e') | Inr nums' \<Rightarrow> pop_apply ev names op ops nums' e')"
  proof (cases r)
    case (Inl er)
    with r(2) show ?thesis by simp
  next
    case (Inr nums')
    with r(3) have "nums_ok b nums'" "length nums' \<le> length nums" by simp_all
    with Cons.IH [OF r(2), of nums'] Inr show ?thesis by (auto intro: pop_ok_mono)
  qed
  with r(1) Cons.prems show ?case by (simp add: Let_def)
qed

section \<open>One step of the loop\<close>

text \<open>What a step keeps: the text and the numbers stay free of names when \<open>b\<close> is false, and
  both stacks together with the text that is left do not grow.\<close>

definition state_ok :: "bool \<Rightarrow> mstate \<Rightarrow> bool" where
  "state_ok b st \<longleftrightarrow> text_ok b (ms_expr st) \<and> nums_ok b (ms_nums st)"

definition fits :: "string \<Rightarrow> mstate \<Rightarrow> bool" where
  "fits start st \<longleftrightarrow>
     (let k = (if ms_done st then 0 else length (ms_expr st))
      in length (ms_nums st) + k \<le> length start \<and> length (ms_ops st) + k \<le> Suc (length start) \<and>
         (ms_done st \<longrightarrow> ms_expr st \<noteq> [] \<longrightarrow> ms_expr st = '')''))"

definition step_ok :: "bool \<Rightarrow> (env \<Rightarrow> bool) \<Rightarrow> string \<Rightarrow> mstate \<Rightarrow> step_result option \<Rightarrow> bool" where
  "step_ok b Q start st res \<longleftrightarrow> (\<exists>r e. res = Some (r, e) \<and> Q e \<and>
     (case r of Inl st' \<Rightarrow> state_ok b st' \<and> (fits start st \<longrightarrow> fits start st') | Inr _ \<Rightarrow> True))"

lemma step_ok_simps [simp]:
  "step_ok b Q start st (Some (Inr x, e)) \<longleftrightarrow> Q e"
  "step_ok b Q start st (Some (Inl st', e)) \<longleftrightarrow>
     Q e \<and> state_ok b st' \<and> (fits start st \<longrightarrow> fits start st')"
  by (simp_all add: step_ok_def)

lemma step_okE:
  assumes "step_ok b Q start st res"
  obtains (stop) x e where "res = Some (Inr x, e)" "Q e"
    | (go) st' e where "res = Some (Inl st', e)" "Q e" "state_ok b st'" "fits start st \<Longrightarrow> fits start st'"
proof -
  obtain r e where r: "res = Some (r, e)" using assms by (auto simp: step_ok_def)
  show thesis
  proof (cases r)
    case (Inl st')
    with assms r go show thesis by simp
  next
    case (Inr x)
    with assms r stop show thesis by simp
  qed
qed

lemma rparen_not_name: "\<not> name_start CHR '')''" "\<not> is_digit CHR '')''" "skip_whitespace '')'' = '')''"
  by (simp_all add: name_start_def is_digit_nat skip_whitespace_def byte_def)

lemma set_skip_whitespace: "set (skip_whitespace s) \<subseteq> set s"
  by (auto simp: skip_whitespace_def dest: set_dropWhileD)

text \<open>The rest of a text is a suffix of it.\<close>

definition suffix_of :: "string \<Rightarrow> string \<Rightarrow> bool" where
  "suffix_of r s \<longleftrightarrow> set r \<subseteq> set s \<and> length r < length s"

lemma set_strtoull_base: "strtoull_base b s = (v, r, er) \<Longrightarrow> set r \<subseteq> set s"
  by (auto simp: strtoull_base_def Let_def dest: set_dropWhileD split: if_splits)

lemma set_strtoull: "strtoull s = (v, r, er) \<Longrightarrow> set r \<subseteq> set s"
  by (auto simp: strtoull_def dest!: set_strtoull_base split: list.splits if_splits)

lemma set_base_loop: "base_loop b n s = (m, r) \<Longrightarrow> set r \<subseteq> set s"
  by (induction b n s rule: base_loop.induct) (auto split: option.splits)

lemma set_strto_arith:
  assumes "strto_arith_t s = (v, r, er)"
  shows "set r \<subseteq> set s"
proof -
  obtain n p er' where n: "strtoull s = (n, p, er')" by (cases "strtoull s")
  obtain m q where q: "base_loop (ucast n) 0 (drop 1 p) = (m, q)" by fastforce
  have "set p \<subseteq> set s" "set q \<subseteq> set p"
    using set_strtoull [OF n] set_base_loop [OF q] set_drop_subset [of 1 p] by auto
  then show ?thesis using assms n q by (auto simp: strto_arith_t_def split: if_splits)
qed

lemma set_find_op: "find_op ts s = Some (op, r) \<Longrightarrow> set r \<subseteq> set s"
  by (induction ts s rule: find_op.induct) (auto dest: in_set_dropD split: if_splits)

lemma set_fetch_op: "fetch_op l nums s = Some (op, r) \<Longrightarrow> set r \<subseteq> set s"
  by (auto simp: fetch_op_def dest: in_set_dropD dest!: set_find_op split: if_splits)

lemma operator_total:
  assumes H: "hooks_ok b ev names Q" and "Q e" "nums_ok b (ms_nums st)" "text_ok b s"
    "length s < length (ms_expr st)" "ms_done st \<longrightarrow> ms_expr st \<noteq> [] \<longrightarrow> ms_expr st = '')'' \<longrightarrow> op0 = TOK_RPAREN"
  shows "step_ok b Q start st (operator_step ev names op0 s st e)"
proof -
  define l where "l = (if ms_last st = TOK_POST_INC \<or> ms_last st = TOK_POST_DEC then TOK_NUM else ms_last st)"
  define op where "op = (if l \<noteq> TOK_NUM then unary_of op0 else op0)"
  have E: "operator_step ev names op0 s st e =
      (if (0 < op mod 32 \<and> op mod 32 < 16) \<or> op mod 32 = 20 then
         (if l \<noteq> TOK_NUM then Some (Inr (Some SyntaxError, - 1), e)
          else do_opt (pop_apply ev names op (ms_ops st) (ms_nums st) e)
            (\<lambda>(r, e). case r of
               PopErr er \<Rightarrow> Some (Inr (Some er, - 1), e)
             | PopParen ops nums \<Rightarrow>
                 Some (Inl (st\<lparr>ms_expr := s, ms_ops := ops, ms_nums := nums, ms_last := TOK_NUM\<rparr>), e)
             | PopDone ops nums \<Rightarrow>
                 if op = TOK_RPAREN then Some (Inr (Some SyntaxError, - 1), e)
                 else Some (Inl (st\<lparr>ms_expr := s, ms_ops := op # ops, ms_nums := nums, ms_last := op\<rparr>), e)))
       else Some (Inl (st\<lparr>ms_expr := s, ms_ops := op # ms_ops st, ms_last := op\<rparr>), e))"
    unfolding operator_step_def Let_def op_def l_def ..
  have rp: "op0 = TOK_RPAREN \<Longrightarrow> op = TOK_RPAREN" by (simp add: op_def unary_of_def)
  have P: "pop_ok b Q (length (ms_nums st)) (length (ms_ops st))
      (pop_apply ev names op (ms_ops st) (ms_nums st) e)"
    using H assms(2,3) by (rule pop_total)
  then obtain r e' where r: "pop_apply ev names op (ms_ops st) (ms_nums st) e = Some (r, e')" "Q e'"
    by (auto simp: pop_ok_def)
  show ?thesis
  proof (cases "(0 < op mod 32 \<and> op mod 32 < 16) \<or> op mod 32 = 20")
    case True
    show ?thesis
    proof (cases r)
      case (PopErr er)
      then show ?thesis
        using True r assms(2) by (simp add: E)
    next
      case (PopParen ops nums)
      have "fits start st \<Longrightarrow> fits start (st\<lparr>ms_expr := s, ms_ops := ops, ms_nums := nums, ms_last := TOK_NUM\<rparr>)"
        using P r PopParen assms(5) by (cases s; cases "ms_expr st") (auto simp: fits_def Let_def split: if_splits)
      then show ?thesis
        using True r P PopParen assms(2,4)
        by (simp add: E state_ok_def)
    next
      case (PopDone ops nums)
      have "op \<noteq> TOK_RPAREN \<Longrightarrow> fits start st \<Longrightarrow>
          fits start (st\<lparr>ms_expr := s, ms_ops := op # ops, ms_nums := nums, ms_last := op\<rparr>)"
        using P r PopDone assms(5,6) rp by (cases s; cases "ms_expr st") (auto simp: fits_def Let_def split: if_splits)
      then show ?thesis
        using True r P PopDone assms(2,4)
        by (simp add: E state_ok_def)
    qed
  next
    case False
    have "fits start st \<Longrightarrow> fits start (st\<lparr>ms_expr := s, ms_ops := op # ms_ops st, ms_last := op\<rparr>)"
      using assms(5,6) rp False by (cases s; cases "ms_expr st") (auto simp: fits_def Let_def split: if_splits)
    then show ?thesis
      unfolding E if_not_P [OF False] using assms(2-4) by (simp add: state_ok_def)
  qed
qed

lemma end_total:
  assumes H: "hooks_ok b ev names Q" and "Q e" "state_ok b st" "skip_whitespace (ms_expr st) = []"
  shows "step_ok b Q start st (end_step ev names start st e)"
proof (cases "start \<noteq> [] \<and> ms_done st \<and> (\<exists>t. ms_nums st = [t])")
  case True
  then obtain t where t: "ms_nums st = [t]" by blast
  with assms(3) have "b \<or> vn_var t = None" by (simp add: state_ok_def)
  with H assms(2) obtain err t' e' where "arith_lookup_val ev names e t = Some (err, t', e')" "Q e'"
    by (rule lookup_total)
  with True t show ?thesis by (simp add: end_step_def)
next
  case False
  have "text_ok b '')''" by (simp add: text_ok_def rparen_not_name)
  moreover have "\<not> ms_done st \<Longrightarrow> fits start st \<Longrightarrow> fits start (st\<lparr>ms_expr := '')'', ms_done := True\<rparr>)"
    by (simp add: fits_def Let_def)
  ultimately show ?thesis
    using False assms(2,3)
    by (auto simp: end_step_def state_ok_def split: list.splits)
qed

lemma step_total:
  assumes H: "hooks_ok b ev names Q" and Qe: "Q e" and st: "state_ok b st"
  shows "step_ok b Q start st (math_step ev names start st e)"
proof (cases "skip_whitespace (ms_expr st)")
  case Nil
  then show ?thesis using end_total [OF assms Nil] by (simp add: math_step_def)
next
  case (Cons c cs)
  have sub: "set (c # cs) \<subseteq> set (ms_expr st)" using set_skip_whitespace [of "ms_expr st"] Cons by simp
  have le: "length (c # cs) \<le> length (ms_expr st)" using length_skip_whitespace [of "ms_expr st"] Cons by simp
  have tx: "text_ok b r" if "set r \<subseteq> set (c # cs)" for r
    using st sub that unfolding state_ok_def text_ok_def by blast
  have nums: "nums_ok b (ms_nums st)" using st by (simp add: state_ok_def)
  have dn: "c # cs = '')''" if "ms_done st" "fits start st"
    using that Cons rparen_not_name(3) by (auto simp: fits_def Let_def skip_whitespace_def)
  obtain name p where np: "endofname (c # cs) = (name, p)" by fastforce
  have push: "fits start (push_num n r st)" if "length r < length (c # cs)" "\<not> ms_done st" "fits start st" for n r
    using that le by (auto simp: fits_def push_num_def Let_def)
  show ?thesis
  proof (cases "name = []")
    case False
    have "set p \<subseteq> set (c # cs)" "length p < length (c # cs)" "name_start c"
      using np False endofname_rest [OF np False]
      by (auto simp: endofname_def dest: set_dropWhileD split: if_splits)
    moreover from this have "b" using st sub unfolding state_ok_def text_ok_def by auto
    moreover have "fits start st \<Longrightarrow> \<not> ms_done st" using dn \<open>name_start c\<close> rparen_not_name(1) by auto
    ultimately show ?thesis
      using Cons np False Qe nums tx [of p] push [of p]
      by (auto simp: math_step_def state_ok_def push_num_def)
  next
    case name: True
    show ?thesis
    proof (cases "is_digit c")
      case True
      obtain v r er where v: "strto_arith_t (c # cs) = (v, r, er)" by (cases "strto_arith_t (c # cs)")
      have "set r \<subseteq> set (c # cs)" "length r < length (c # cs)"
        using set_strto_arith [OF v] strto_arith_rest [OF v True] by auto
      moreover have "fits start st \<Longrightarrow> \<not> ms_done st" using dn True rparen_not_name(2) by auto
      ultimately show ?thesis
        using Cons np name True v Qe nums tx [of r] push [of r]
        by (auto simp: math_step_def state_ok_def push_num_def number_of_def)
    next
      case False
      show ?thesis
      proof (cases "fetch_op (ms_last st) (ms_nums st) (c # cs)")
        case None
        then show ?thesis using Cons np name False Qe by (simp add: math_step_def)
      next
        case (Some x)
        obtain op r where x: "x = (op, r)" by fastforce
        with Some have f: "fetch_op (ms_last st) (ms_nums st) (c # cs) = Some (op, r)" by simp
        have "length r < length (ms_expr st)" using fetch_op_rest [OF f] le by simp
        moreover have "text_ok b r" using tx set_fetch_op [OF f] by simp
        moreover have "op = TOK_RPAREN" if "ms_expr st = '')''"
        proof -
          have "c # cs = '')''" using that Cons rparen_not_name(3) by simp
          then show ?thesis using f by (simp add: fetch_op_def op_tokens_def starts_with_def)
        qed
        ultimately have "step_ok b Q start st (operator_step ev names op r st e)"
          using operator_total [OF H Qe nums] by simp
        then show ?thesis using Cons np name False f by (simp add: math_step_def)
      qed
    qed
  qed
qed

lemma loop_total:
  assumes H: "hooks_ok b ev names Q"
  shows "Q e \<Longrightarrow> state_ok b st \<Longrightarrow>
    \<exists>err v e'. math_loop ev names start st e = Some (err, v, e') \<and> Q e'"
proof (induction "remaining st" arbitrary: st e rule: less_induct)
  case less
  have "step_ok b Q start st (math_step ev names start st e)"
    using H less.prems by (rule step_total)
  then show ?case
  proof (cases rule: step_okE)
    case (stop x e')
    then show ?thesis by (cases x) (simp add: math_loop.simps [of ev names start st e])
  next
    case (go st' e')
    with less.hyps [OF math_step_remaining [OF go(1)] go(2,3)] show ?thesis
      by (simp add: math_loop.simps [of ev names start st e])
  qed
qed

section \<open>How much fuel is enough\<close>

lemma set_show_nat: "c \<in> set (show_nat n) \<Longrightarrow> is_digit c"
proof (induction n rule: show_nat.induct)
  case (1 n)
  have d: "is_digit (char_of (48 + m))" if "m < 10" for m :: nat
    using that by (simp add: is_digit_nat)
  show ?case using 1 d [of n] d [of "n mod 10"] by (subst (asm) (2) show_nat.simps) (auto split: if_splits)
qed

lemma digit_set: "is_digit c \<Longrightarrow> c \<in> set ''0123456789''"
proof -
  assume "is_digit c"
  then have "48 \<le> (of_char c :: nat)" "(of_char c :: nat) \<le> 57" by (simp_all add: is_digit_nat)
  then have "(of_char c :: nat) \<in> {48, 49, 50, 51, 52, 53, 54, 55, 56, 57}" unfolding insert_iff empty_iff by arith
  also have "\<dots> = of_char ` set ''0123456789''" by simp
  finally show ?thesis by (simp only: inj_image_mem_iff [OF inj_of_char])
qed

lemma digit_not_name: "is_digit c \<Longrightarrow> \<not> name_start c"
  by (drule digit_set) (auto simp: name_start_def byte_def)

lemma text_ok_show: "text_ok b (show_i64 w)"
proof -
  have "\<not> name_start CHR ''-''" by (simp add: name_start_def byte_def)
  then show ?thesis by (auto simp: text_ok_def show_i64_def dest: set_show_nat digit_not_name split: if_splits)
qed

text \<open>The variables whose text may refer to other variables.\<close>

definition nonplain :: "env \<Rightarrow> string set" where
  "nonplain e = {v. \<exists>t. e v = Some t \<and> \<not> text_ok False t}"

lemma nonplain_setvar: "nonplain (e(v \<mapsto> show_i64 w)) \<subseteq> nonplain e"
  by (auto simp: nonplain_def text_ok_show split: if_splits)

lemma state_ok_init: "text_ok b s \<Longrightarrow> state_ok b (init_state (skip_whitespace s))"
  using set_skip_whitespace [of s] by (auto simp: state_ok_def init_state_def text_ok_def)

lemma evaluate_plain:
  assumes "text_ok False s"
  shows "\<exists>err v. evaluate_string (Suc n) names e s = Some (err, v, e)"
  using loop_total [of False "evaluate_string n" names "\<lambda>e'. e' = e" e "init_state (skip_whitespace s)" "skip_whitespace s"]
    state_ok_init [OF assms]
  by (auto simp: hooks_ok_def Let_def)

lemma evaluate_total:
  "finite (nonplain e) \<Longrightarrow> card (nonplain e - set names) + 2 \<le> n \<Longrightarrow>
     \<exists>err v e'. evaluate_string n names e s = Some (err, v, e') \<and> nonplain e' \<subseteq> nonplain e"
proof (induction n arbitrary: names e s)
  case (Suc m)
  let ?Q = "\<lambda>e'. nonplain e' \<subseteq> nonplain e"
  have nested: "\<exists>err r e3. evaluate_string m (v # names) e2 p = Some (err, r, e3) \<and> ?Q e3"
    if e2: "?Q e2" "v \<notin> set names" "e2 v = Some p" for v e2 p
  proof (cases "text_ok False p")
    case True
    obtain k where "m = Suc k" using Suc.prems(2) by (cases m) simp_all
    with evaluate_plain [OF True] e2(1) show ?thesis by blast
  next
    case False
    then have v: "v \<in> nonplain e2" using e2(3) by (simp add: nonplain_def)
    have "nonplain e2 - set (v # names) \<subset> nonplain e - set names" using e2 v by auto
    then have "card (nonplain e2 - set (v # names)) < card (nonplain e - set names)"
      using Suc.prems(1) by (intro psubset_card_mono) auto
    moreover have "finite (nonplain e2)" using e2(1) Suc.prems(1) by (rule finite_subset)
    ultimately show ?thesis using Suc.IH [of e2 "v # names" p] Suc.prems(2) e2(1) by fastforce
  qed
  have "hooks_ok True (evaluate_string m) names ?Q"
    using nested nonplain_setvar unfolding hooks_ok_def by blast
  from loop_total [OF this, of e "init_state (skip_whitespace s)" "skip_whitespace s"]
  show ?case using state_ok_init [of True s] by (auto simp: Let_def text_ok_def)
qed simp

section \<open>More fuel gives the same result\<close>

definition ev_le :: "evaluator \<Rightarrow> evaluator \<Rightarrow> bool" where
  "ev_le ev ev' \<longleftrightarrow> (\<forall>names e s r. ev names e s = Some r \<longrightarrow> ev' names e s = Some r)"

lemma lookup_mono: "ev_le ev ev' \<Longrightarrow> arith_lookup_val ev names e t = Some r \<Longrightarrow> arith_lookup_val ev' names e t = Some r"
  by (auto simp: arith_lookup_val_def ev_le_def bind_eq_Some_conv split: option.splits if_splits)

lemma binary_mono:
  assumes "ev_le ev ev'" "apply_binary ev names e op t rest = Some r"
  shows "apply_binary ev' names e op t rest = Some r"
proof (cases rest)
  case (Cons left rest')
  show ?thesis
  proof (cases "op = TOK_ASSIGN \<or> (if op = TOK_CONDITIONAL then \<not> second_val_present t else second_val_present t)")
    case True
    with assms(2) Cons show ?thesis by (auto simp: apply_binary_def)
  next
    case False
    with assms(2) Cons obtain x where "arith_lookup_val ev names e left = Some x"
      by (auto simp: apply_binary_def bind_eq_Some_conv Let_def)
    then have "arith_lookup_val ev' names e left = arith_lookup_val ev names e left"
      using lookup_mono [OF assms(1)] by simp
    then have "apply_binary ev' names e op t rest = apply_binary ev names e op t rest"
      by (simp only: apply_binary_def Cons list.case)
    with assms(2) show ?thesis by simp
  qed
qed (use assms in \<open>simp add: apply_binary_def\<close>)

lemma apply_mono:
  assumes "ev_le ev ev'" "arith_apply ev names e op nums = Some r"
  shows "arith_apply ev' names e op nums = Some r"
proof (cases nums)
  case (Cons t rest)
  obtain err t' e' where l: "arith_lookup_val ev names e t = Some (err, t', e')"
    using assms(2) Cons by (auto simp: arith_apply_def bind_eq_Some_conv)
  then show ?thesis
    using assms(2) Cons lookup_mono [OF assms(1) l] binary_mono [OF assms(1)]
    by (auto simp: arith_apply_def split: option.splits)
qed (use assms in \<open>simp add: arith_apply_def\<close>)

lemma pop_mono:
  "ev_le ev ev' \<Longrightarrow> pop_apply ev names op ops nums e = Some r \<Longrightarrow> pop_apply ev' names op ops nums e = Some r"
proof (induction ops arbitrary: nums e)
  case (Cons prev ops)
  let ?k = "\<lambda>ev x. case x of (r, e') \<Rightarrow> case r of Inl er \<Rightarrow> Some (PopErr er, e')
    | Inr nums' \<Rightarrow> pop_apply ev names op ops nums' e'"
  have step: "do_opt (arith_apply ev names e prev nums) (?k ev) = Some r \<Longrightarrow>
      do_opt (arith_apply ev' names e prev nums) (?k ev') = Some r"
  proof -
    assume a: "do_opt (arith_apply ev names e prev nums) (?k ev) = Some r"
    then obtain x e' where x: "arith_apply ev names e prev nums = Some (x, e')" "?k ev (x, e') = Some r"
      by (auto simp: bind_eq_Some_conv)
    moreover from x(2) have "?k ev' (x, e') = Some r" using Cons.IH [OF Cons.prems(1)] by (cases x) simp_all
    ultimately show ?thesis using apply_mono [OF Cons.prems(1) x(1)] by simp
  qed
  show ?case using Cons.prems(2) step by (auto simp: Let_def split: if_splits)
qed simp

lemma operator_mono:
  assumes "ev_le ev ev'" "operator_step ev names op0 s st e = Some r"
  shows "operator_step ev' names op0 s st e = Some r"
proof -
  define l where "l = (if ms_last st = TOK_POST_INC \<or> ms_last st = TOK_POST_DEC then TOK_NUM else ms_last st)"
  define op where "op = (if l \<noteq> TOK_NUM then unary_of op0 else op0)"
  show ?thesis
  proof (cases "pop_apply ev names op (ms_ops st) (ms_nums st) e")
    case None
    then have "operator_step ev' names op0 s st e = operator_step ev names op0 s st e"
      using assms(2) unfolding operator_step_def Let_def l_def [symmetric] op_def [symmetric]
      by (auto split: if_splits)
    with assms(2) show ?thesis by simp
  next
    case (Some x)
    then have "pop_apply ev' names op (ms_ops st) (ms_nums st) e = pop_apply ev names op (ms_ops st) (ms_nums st) e"
      using pop_mono [OF assms(1)] by simp
    then have "operator_step ev' names op0 s st e = operator_step ev names op0 s st e"
      unfolding operator_step_def Let_def l_def [symmetric] op_def [symmetric] by (simp only:)
    with assms(2) show ?thesis by simp
  qed
qed

lemma end_mono:
  assumes "ev_le ev ev'" "end_step ev names start st e = Some r"
  shows "end_step ev' names start st e = Some r"
proof (cases "start \<noteq> [] \<and> ms_done st \<and> (\<exists>t. ms_nums st = [t])")
  case True
  then obtain t where t: "ms_nums st = [t]" by blast
  then obtain x where "arith_lookup_val ev names e t = Some x"
    using assms(2) True by (auto simp: end_step_def bind_eq_Some_conv)
  with assms(2) True t lookup_mono [OF assms(1) this] show ?thesis by (simp add: end_step_def)
next
  case False
  then have "end_step ev' names start st e = end_step ev names start st e"
    by (auto simp: end_step_def split: list.splits)
  with assms(2) show ?thesis by simp
qed

lemma step_mono:
  assumes "ev_le ev ev'" "math_step ev names start st e = Some r"
  shows "math_step ev' names start st e = Some r"
  using assms(2) operator_mono [OF assms(1)] end_mono [OF assms(1)]
  by (cases r) (auto simp: math_step_def split: list.splits if_splits option.splits prod.splits)

lemma loop_mono:
  assumes "ev_le ev ev'"
  shows "math_loop ev names start st e = Some r \<Longrightarrow> math_loop ev' names start st e = Some r"
proof (induction "remaining st" arbitrary: st e rule: less_induct)
  case less
  obtain x e' where x: "math_step ev names start st e = Some (x, e')"
    using less.prems by (subst (asm) math_loop.simps) (auto split: option.splits)
  show ?case
  proof (cases x)
    case (Inl st')
    with x have s: "math_step ev names start st e = Some (Inl st', e')" by simp
    have "math_loop ev names start st' e' = Some r"
      using less.prems s by (subst (asm) math_loop.simps) simp
    from less.hyps [OF math_step_remaining [OF s] this] show ?thesis
      using step_mono [OF assms s] by (subst math_loop.simps) simp
  next
    case (Inr y)
    with x less.prems step_mono [OF assms x] show ?thesis
      by (simp add: math_loop.simps [of ev names start st e] math_loop.simps [of ev' names start st e])
  qed
qed

lemma evaluate_Suc: "ev_le (evaluate_string n) (evaluate_string (Suc n))"
proof (induction n)
  case 0
  show ?case by (simp add: ev_le_def)
next
  case (Suc n)
  have E: "evaluate_string (Suc k) names e s =
      math_loop (evaluate_string k) names (skip_whitespace s) (init_state (skip_whitespace s)) e" for k names e s
    by (simp add: Let_def)
  show ?case
    unfolding ev_le_def using loop_mono [OF Suc.IH] E [of n] E [of "Suc n"] by metis
qed

lemma evaluate_mono: "n \<le> m \<Longrightarrow> evaluate_string n names e s = Some r \<Longrightarrow> evaluate_string m names e s = Some r"
proof (induction m)
  case (Suc m)
  then show ?case using evaluate_Suc [of m] unfolding ev_le_def by (metis le_Suc_eq)
qed simp

section \<open>The stacks\<close>

text \<open>The states the loop goes through on a text.\<close>

inductive math_reach :: "evaluator \<Rightarrow> string list \<Rightarrow> string \<Rightarrow> env \<Rightarrow> mstate \<Rightarrow> env \<Rightarrow> bool"
  for ev names start e0 where
  reach_init: "math_reach ev names start e0 (init_state start) e0"
| reach_step: "math_reach ev names start e0 st e \<Longrightarrow> math_step ev names start st e = Some (Inl st', e') \<Longrightarrow>
    math_reach ev names start e0 st' e'"

text \<open>How many entries the two vectors of \<open>evaluate_string\<close> hold. They are vectors of \<open>i32\<close>
  (the type of the literal 0), four bytes an element: an entry of the number stack takes 32
  bytes, an operator one.\<close>

definition expr_len :: "string \<Rightarrow> nat" where
  "expr_len start = length start + 2"

definition numstack_capacity :: "string \<Rightarrow> nat" where
  "numstack_capacity start = 4 * (expr_len start div 2 * 32) div 32"

definition opstack_capacity :: "string \<Rightarrow> nat" where
  "opstack_capacity start = 4 * expr_len start"

lemma reach_fits: "math_reach ev names start e0 st e \<Longrightarrow> fits start st"
proof (induction rule: math_reach.induct)
  case reach_init
  show ?case by (simp add: fits_def init_state_def)
next
  case (reach_step st e st' e')
  let ?ev = "\<lambda>n e s. case ev n e s of None \<Rightarrow> Some (None, 0, e) | Some r \<Rightarrow> Some r"
  have "ev_le ev ?ev" by (simp add: ev_le_def)
  then have s: "math_step ?ev names start st e = Some (Inl st', e')" using reach_step.hyps(2) by (rule step_mono)
  have "hooks_ok True ?ev names (\<lambda>_. True)"
    by (auto simp: hooks_ok_def split: option.splits)
  then have "step_ok True (\<lambda>_. True) start st (math_step ?ev names start st e)"
    by (rule step_total) (simp_all add: state_ok_def text_ok_def nums_ok_def)
  with s reach_step.IH show ?case by simp
qed

text \<open>The states a text drives the loop through, by running it.\<close>

primrec run_steps :: "nat \<Rightarrow> evaluator \<Rightarrow> string list \<Rightarrow> string \<Rightarrow> mstate \<Rightarrow> env \<Rightarrow> (mstate \<times> env) option" where
  "run_steps 0 ev names start st e = Some (st, e)"
| "run_steps (Suc n) ev names start st e =
     (case math_step ev names start st e of
        Some (Inl st', e') \<Rightarrow> run_steps n ev names start st' e'
      | _ \<Rightarrow> None)"

lemma run_steps_reach:
  "run_steps n ev names start st e = Some (st', e') \<Longrightarrow> math_reach ev names start e0 st e \<Longrightarrow>
     math_reach ev names start e0 st' e'"
proof (induction n arbitrary: st e)
  case (Suc n)
  then show ?case by (auto split: option.splits sum.splits prod.splits intro: reach_step)
qed simp

section \<open>Properties: evaluation and stacks\<close>


definition loop_env :: env where
  "loop_env = [''a'' \<mapsto> ''b'', ''b'' \<mapsto> ''a'']"




text \<open>The bound the source claims for the number stack is wrong: on the text
  \<open>1a 1a 1a\<close> of eight characters the loop reaches a state with six entries, where the
  comment promises at most \<open>8 / 2 + 1 = 5\<close>.\<close>

theorem arith_claimed_bound_fails:
  "\<exists>st e. math_reach (evaluate_string 1) [] ''1a 1a 1a'' Map.empty st e \<and>
     length (ms_nums st) = 6 \<and> length ''1a 1a 1a'' div 2 + 1 = 5"
proof -
  have "\<exists>st e. run_steps (Suc (Suc (Suc (Suc (Suc (Suc 0)))))) (evaluate_string 1) [] ''1a 1a 1a'' (init_state ''1a 1a 1a'') Map.empty = Some (st, e) \<and>
      length (ms_nums st) = 6"
    by (simp add: math_step_def init_state_def skip_whitespace_def endofname_def name_start_def
        byte_def is_digit_def strto_arith_t_def strtoull_def strtoull_base_def base_digit_def c_digit_def
        push_num_def bb_ascii_isalnum_def Let_def)
  then show ?thesis using run_steps_reach [OF _ reach_init] by fastforce
qed

end
