(* ===== verification/RB_MathExpr.thy ===== *)
theory RB_MathExpr
  imports RB_Math
begin

text \<open>
  What the shell arithmetic computes: an abstract syntax of constant expressions with the
  operators, precedences and integer semantics of C, its rendering with as few parentheses
  as the precedences allow, and the proof that the two-stack loop of \<open>evaluate_string\<close>
  evaluates the rendering of every expression to its value.
\<close>

section \<open>Scanning a decimal number\<close>

text \<open>A text that cannot continue a number.\<close>

definition stops :: "string \<Rightarrow> bool" where
  "stops r \<longleftrightarrow> (case r of [] \<Rightarrow> True | c # _ \<Rightarrow> c_digit c = None \<and> c \<noteq> CHR ''#'')"

lemma c_digit_of: "m < 10 \<Longrightarrow> c_digit (char_of (48 + m)) = Some m"
  by (simp add: c_digit_def Let_def)

lemma is_digit_of: "m < 10 \<Longrightarrow> is_digit (char_of (48 + m :: nat))"
  by (simp add: is_digit_nat)

lemma digits_value_append: "digits_value b (s @ [c]) = digits_value b s * b + the (c_digit c)"
  by (simp add: digits_value_def)

lemma digits_value_show: "digits_value 10 (show_nat n) = n"
proof (induction n rule: show_nat.induct)
  case (1 n)
  show ?case
  proof (cases "n < 10")
    case True
    then show ?thesis by (subst show_nat.simps) (simp add: digits_value_def c_digit_of)
  next
    case False
    then show ?thesis using 1 by (subst show_nat.simps) (simp add: digits_value_append c_digit_of)
  qed
qed

lemma show_nat_hd: "0 < n \<Longrightarrow> \<exists>d cs. show_nat n = char_of (48 + d) # cs \<and> 0 < d \<and> d < (10::nat)"
proof (induction n rule: show_nat.induct)
  case (1 n)
  show ?case
  proof (cases "n < 10")
    case True
    then show ?thesis using "1.prems" by (subst show_nat.simps) (auto intro!: exI [of _ n])
  next
    case False
    then obtain d cs where "show_nat (n div 10) = char_of (48 + d) # cs" "0 < d" "d < (10::nat)"
      using "1.IH" div_greater_zero_iff [of n 10] by auto
    then show ?thesis using False by (subst show_nat.simps) (auto intro!: exI [of _ d])
  qed
qed

lemma base_digit_is: "is_digit c \<Longrightarrow> base_digit 10 c"
  by (auto simp: is_digit_nat base_digit_def c_digit_def Let_def)

lemma stops_take_drop:
  assumes "stops r" "\<forall>c \<in> set s. base_digit b c"
  shows "takeWhile (base_digit b) (s @ r) = s" "dropWhile (base_digit b) (s @ r) = r"
  using assms by (auto simp: stops_def base_digit_def takeWhile_append dropWhile_append split: list.splits)

lemma strtoull_base_show:
  assumes "stops r" "n < 2 ^ 64"
  shows "strtoull_base 10 (show_nat n @ r) = (of_nat n, r, False)"
proof -
  have "\<forall>c \<in> set (show_nat n). base_digit 10 c" using set_show_nat base_digit_is by blast
  then show ?thesis
    using assms(2) stops_take_drop [OF assms(1), of "show_nat n" 10]
    by (simp only: strtoull_base_def digits_value_show Let_def if_True)
qed

lemma char_48: "char_of (48 :: nat) = CHR ''0''"
  by (rule of_char_eqI [where 'a = nat]) simp

lemma strto_arith_show:
  assumes "stops r" "n < 2 ^ 64"
  shows "strto_arith_t (show_nat n @ r) = (of_nat n, r, False)"
proof -
  have st: "strtoull (show_nat n @ r) = (of_nat n, r, False)"
  proof (cases "n = 0")
    case True
    have z: "show_nat 0 = ''0''" by (simp add: show_nat.simps char_48)
    have "strtoull_base 8 (''0'' @ r) = (0, r, False)"
      using stops_take_drop [OF assms(1), of "''0''" 8]
      by (simp add: strtoull_base_def digits_value_def c_digit_def base_digit_def Let_def)
    moreover have "\<not> (x = CHR ''x'' \<or> x = CHR ''X'')" if "r = x # cs" for x cs
      using assms(1) that by (auto simp: stops_def c_digit_def)
    ultimately have "strtoull (CHR ''0'' # r) = (0, r, False)"
      unfolding strtoull_def by (cases r; cases "tl r") simp_all
    then show ?thesis using True z by simp
  next
    case False
    then obtain d cs where d: "show_nat n = char_of (48 + d) # cs" "0 < d" "d < (10::nat)"
      using show_nat_hd [of n] by auto
    have "c_digit (CHR ''0'') = Some 0" by (simp add: c_digit_def)
    with c_digit_of [OF d(3)] d(2) have "char_of (48 + d) \<noteq> CHR ''0''" by auto
    then have "strtoull (show_nat n @ r) = strtoull_base 10 (show_nat n @ r)"
      unfolding strtoull_def d(1) by (cases "cs @ r"; cases "tl (cs @ r)") simp_all
    then show ?thesis using strtoull_base_show [OF assms] by simp
  qed
  have "take 1 r \<noteq> ''#''" using assms(1) by (auto simp: stops_def split: list.splits)
  then show ?thesis by (simp add: strto_arith_t_def st)
qed

section \<open>Steps on one token\<close>

lemma skip_digit: "is_digit c \<Longrightarrow> skip_whitespace (c # cs) = c # cs"
  by (drule digit_set) (auto simp: skip_whitespace_def byte_def)

lemma show_nat_Cons: "\<exists>c cs. show_nat n = c # cs \<and> is_digit c"
proof -
  have "show_nat n \<noteq> []" by (subst show_nat.simps) simp
  then obtain c cs where "show_nat n = c # cs" by (cases "show_nat n") auto
  moreover from this have "is_digit c" using set_show_nat [of c n] by simp
  ultimately show ?thesis by blast
qed

lemma step_number:
  assumes "stops r" "n < 2 ^ 64" "ms_expr st = show_nat n @ r"
  shows "math_step ev names start st e = Some (Inl (push_num (number_of (of_nat n)) r st), e)"
proof -
  obtain c cs where c: "show_nat n = c # cs" "is_digit c" using show_nat_Cons by blast
  have "endofname (c # cs @ r) = ([], c # cs @ r)" using digit_not_name [OF c(2)] by (simp add: endofname_def)
  moreover have "strto_arith_t (c # cs @ r) = (of_nat n, r, False)" using strto_arith_show [OF assms(1,2)] c by simp
  ultimately show ?thesis using assms(3) c skip_digit [OF c(2)] by (simp add: math_step_def)
qed

definition op_char :: "char \<Rightarrow> bool" where
  "op_char c \<longleftrightarrow> c \<in> set ''<>|&!=*/%+-^~,?:()''"

lemma op_char_props: "op_char c \<Longrightarrow> \<not> name_start c \<and> \<not> is_digit c \<and> skip_whitespace (c # cs) = c # cs \<and>
    c_digit c = None \<and> c \<noteq> CHR ''#''"
  by (auto simp: op_char_def name_start_def is_digit_nat byte_def skip_whitespace_def c_digit_def)

lemma step_operator:
  assumes "ms_expr st = c # cs" "op_char c" "fetch_op (ms_last st) (ms_nums st) (c # cs) = Some (op, r)"
  shows "math_step ev names start st e = operator_step ev names op r st e"
proof -
  have "endofname (c # cs) = ([], c # cs)" using op_char_props [OF assms(2)] by (simp add: endofname_def)
  then show ?thesis using op_char_props [OF assms(2), of cs] assms(1,3) by (simp add: math_step_def)
qed

lemma fetch_paren: "fetch_op l nums (CHR '')'' # r) = Some (TOK_RPAREN, r)"
  "fetch_op l nums (CHR ''('' # r) = Some (TOK_LPAREN, r)"
  by (simp_all add: fetch_op_def op_tokens_def starts_with_def)

lemma step_lparen:
  assumes "ms_expr st = CHR ''('' # r" "ms_last st \<noteq> TOK_POST_INC" "ms_last st \<noteq> TOK_POST_DEC"
  shows "math_step ev names start st e =
    Some (Inl (st\<lparr>ms_expr := r, ms_ops := TOK_LPAREN # ms_ops st, ms_last := TOK_LPAREN\<rparr>), e)"
proof -
  have "math_step ev names start st e = operator_step ev names TOK_LPAREN r st e"
    using assms(1) fetch_paren(2) by (intro step_operator [where c = "CHR ''(''"]) (simp_all add: op_char_def)
  then show ?thesis by (simp add: operator_step_def unary_of_def Let_def)
qed

lemma step_rparen:
  assumes "ms_expr st = CHR '')'' # r" "ms_last st \<in> {TOK_NUM, TOK_POST_INC, TOK_POST_DEC}"
  shows "math_step ev names start st e =
    do_opt (pop_apply ev names TOK_RPAREN (ms_ops st) (ms_nums st) e)
      (\<lambda>(r', e). case r' of
         PopErr er \<Rightarrow> Some (Inr (Some er, - 1), e)
       | PopParen ops nums \<Rightarrow> Some (Inl (st\<lparr>ms_expr := r, ms_ops := ops, ms_nums := nums, ms_last := TOK_NUM\<rparr>), e)
       | PopDone ops nums \<Rightarrow> Some (Inr (Some SyntaxError, - 1), e))"
proof -
  have "math_step ev names start st e = operator_step ev names TOK_RPAREN r st e"
    using assms(1) fetch_paren(1) by (intro step_operator [where c = "CHR '')''"]) (simp_all add: op_char_def)
  then show ?thesis using assms(2)
    by (auto simp: operator_step_def unary_of_def Let_def intro!: arg_cong2 [where f = Option.bind] split: pop_result.splits)
qed

lemma apply_unary_number:
  assumes "unary_op op v = Some w" "\<not> is_assign_op op"
  shows "arith_apply ev names e op (number_of v # nums) = Some (Inr (number_of w # nums), e)"
  using assms by (simp add: arith_apply_def arith_lookup_val_def number_of_def apply_finish_def)

lemma apply_binary_number:
  assumes "unary_op op v = None" "\<not> is_assign_op op" "op \<notin> {TOK_ASSIGN, TOK_CONDITIONAL, TOK_CONDITIONAL_SEP}"
  shows "arith_apply ev names e op (number_of v # number_of u # nums) =
    (case binary_op op u v of
       Some (Inr w) \<Rightarrow> Some (Inr (number_of w # nums), e)
     | Some (Inl er) \<Rightarrow> Some (Inl er, e)
     | None \<Rightarrow> None)"
  using assms
  by (auto simp: arith_apply_def arith_lookup_val_def number_of_def apply_binary_def apply_finish_def Let_def
      split: option.splits sum.splits)

section \<open>Expressions\<close>

datatype bop = Comma | LOr | LAnd | BOr | BXor | BAnd | CEq | CNe | CLt | CGt | CGe | CLe
  | Shl | Shr | Add | Sub | Mul | Div | Rem | Pow

datatype uop = BNot | LNot | Neg | Pos

datatype aexp = Lit u64 | Una uop aexp | Bin bop aexp aexp

primrec btext :: "bop \<Rightarrow> string" where
  "btext Comma = '',''" | "btext LOr = ''||''" | "btext LAnd = ''&&''" | "btext BOr = ''|''"
| "btext BXor = ''^''" | "btext BAnd = ''&''" | "btext CEq = ''==''" | "btext CNe = ''!=''"
| "btext CLt = ''<''" | "btext CGt = ''>''" | "btext CGe = ''>=''" | "btext CLe = ''<=''"
| "btext Shl = ''<<''" | "btext Shr = ''>>''" | "btext Add = ''+''" | "btext Sub = ''-''"
| "btext Mul = ''*''" | "btext Div = ''/''" | "btext Rem = ''%''" | "btext Pow = ''**''"

text \<open>C's precedence levels, with \<open>**\<close> above the multiplicative operators.\<close>

primrec bprec :: "bop \<Rightarrow> nat" where
  "bprec Comma = 1" | "bprec LOr = 5" | "bprec LAnd = 6" | "bprec BOr = 7" | "bprec BXor = 8"
| "bprec BAnd = 9" | "bprec CEq = 10" | "bprec CNe = 10" | "bprec CLt = 11" | "bprec CGt = 11"
| "bprec CGe = 11" | "bprec CLe = 11" | "bprec Shl = 12" | "bprec Shr = 12" | "bprec Add = 13"
| "bprec Sub = 13" | "bprec Mul = 14" | "bprec Div = 14" | "bprec Rem = 14" | "bprec Pow = 15"

primrec utext :: "uop \<Rightarrow> string" where
  "utext BNot = ''~''" | "utext LNot = ''!''" | "utext Neg = ''-''" | "utext Pos = ''+''"

text \<open>The operators on mathematical integers; results are reduced to 64 bits afterwards.\<close>

primrec bsem :: "bop \<Rightarrow> int \<Rightarrow> int \<Rightarrow> math_err + int" where
  "bsem Comma x y = Inr y"
| "bsem LOr x y = Inr (of_bool (x \<noteq> 0 \<or> y \<noteq> 0))"
| "bsem LAnd x y = Inr (of_bool (x \<noteq> 0 \<and> y \<noteq> 0))"
| "bsem BOr x y = Inr (x OR y)"
| "bsem BXor x y = Inr (x XOR y)"
| "bsem BAnd x y = Inr (x AND y)"
| "bsem CEq x y = Inr (of_bool (x = y))"
| "bsem CNe x y = Inr (of_bool (x \<noteq> y))"
| "bsem CLt x y = Inr (of_bool (x < y))"
| "bsem CGt x y = Inr (of_bool (x > y))"
| "bsem CGe x y = Inr (of_bool (x \<ge> y))"
| "bsem CLe x y = Inr (of_bool (x \<le> y))"
| "bsem Shl x y = Inr (x * 2 ^ nat (y mod 64))"
| "bsem Shr x y = Inr (x div 2 ^ nat (y mod 64))"
| "bsem Add x y = Inr (x + y)"
| "bsem Sub x y = Inr (x - y)"
| "bsem Mul x y = Inr (x * y)"
| "bsem Div x y = (if y = 0 then Inl DivideByZero else Inr (x sdiv y))"
| "bsem Rem x y = (if y = 0 then Inl DivideByZero else Inr (x smod y))"
| "bsem Pow x y = (if y < 0 then Inl NegativeExponent else Inr (x ^ nat y))"

primrec usem :: "uop \<Rightarrow> int \<Rightarrow> int" where
  "usem BNot x = NOT x" | "usem LNot x = of_bool (x = 0)" | "usem Neg x = - x" | "usem Pos x = x"

definition beval :: "bop \<Rightarrow> i64 \<Rightarrow> i64 \<Rightarrow> math_err + i64" where
  "beval b u v = map_sum id word_of_int (bsem b (sint u) (sint v))"

text \<open>Operands are evaluated from left to right, and the first error is the result.\<close>

primrec aeval :: "aexp \<Rightarrow> math_err + i64" where
  "aeval (Lit n) = Inr n"
| "aeval (Una u t) = map_sum id (\<lambda>v. word_of_int (usem u (sint v))) (aeval t)"
| "aeval (Bin b l r) =
     (case aeval l of
        Inl er \<Rightarrow> Inl er
      | Inr u \<Rightarrow> (case aeval r of Inl er \<Rightarrow> Inl er | Inr v \<Rightarrow> beval b u v))"

definition left_level :: "bop \<Rightarrow> nat" where
  "left_level b = bprec b + of_bool (b = Pow)"

definition right_level :: "bop \<Rightarrow> nat" where
  "right_level b = bprec b + of_bool (b \<noteq> Pow)"

definition paren :: "bool \<Rightarrow> string \<Rightarrow> string" where
  "paren p s = (if p then CHR ''('' # s @ '')'' else s)"

text \<open>The text of an expression in a place where operators of level \<open>k\<close> and above may stand
  without parentheses.\<close>

primrec render :: "nat \<Rightarrow> aexp \<Rightarrow> string" where
  "render k (Lit n) = show_nat (unat n)"
| "render k (Una u t) = utext u @ '' '' @ render 16 t"
| "render k (Bin b l r) =
     paren (bprec b < k)
       (render (left_level b) l @ '' '' @ btext b @ '' '' @ render (right_level b) r)"

section \<open>The operators agree\<close>

primrec bcode :: "bop \<Rightarrow> nat" where
  "bcode Comma = TOK_COMMA" | "bcode LOr = TOK_OR" | "bcode LAnd = TOK_AND" | "bcode BOr = TOK_BOR"
| "bcode BXor = TOK_BXOR" | "bcode BAnd = TOK_BAND" | "bcode CEq = TOK_EQ" | "bcode CNe = TOK_NE"
| "bcode CLt = TOK_LT" | "bcode CGt = TOK_GT" | "bcode CGe = TOK_GE" | "bcode CLe = TOK_LE"
| "bcode Shl = TOK_LSHIFT" | "bcode Shr = TOK_RSHIFT" | "bcode Add = TOK_ADD" | "bcode Sub = TOK_SUB"
| "bcode Mul = TOK_MUL" | "bcode Div = TOK_DIV" | "bcode Rem = TOK_REM" | "bcode Pow = TOK_EXPONENT"

primrec ucode :: "uop \<Rightarrow> nat" where
  "ucode BNot = TOK_BNOT" | "ucode LNot = TOK_NOT" | "ucode Neg = TOK_UMINUS" | "ucode Pos = TOK_UPLUS"

lemma bcode_prec: "bcode b mod 32 = bprec b"
  by (cases b) simp_all

lemma bprec_bounds: "0 < bprec b" "bprec b < 16" "bprec b \<noteq> 2" "bprec b \<noteq> 3" "bprec b \<noteq> 4"
    "bprec b = 15 \<longleftrightarrow> b = Pow"
  by (cases b; simp)+

lemma shift_count: "unat (v AND 63 :: i64) = nat (sint v mod 64)"
proof -
  have "v AND 63 = take_bit 6 v" by (simp add: take_bit_eq_mask mask_eq_exp_minus_1)
  then have "uint (v AND 63) = take_bit 6 (uint v)" by (simp only: unsigned_take_bit_eq)
  then have "uint (v AND 63) = uint v mod 64" unfolding take_bit_eq_mod by simp
  moreover have "sint v mod 64 = uint v mod 64"
  proof -
    have "take_bit 6 (signed_take_bit 63 (uint v)) = take_bit 6 (uint v)"
      by (simp add: take_bit_signed_take_bit)
    then show ?thesis by (simp add: sint_uint take_bit_eq_mod)
  qed
  ultimately show ?thesis by (metis unat_eq_nat_uint)
qed

lemma pow_loop_power: "pow_loop c r n = c * r ^ n"
  by (induction n arbitrary: c) (simp_all add: mult.assoc)

lemma signed_drop_bit_word: "signed_drop_bit n (w :: i64) = word_of_int (drop_bit n (sint w))"
  by (simp flip: sint_signed_drop_bit_eq)

lemma bool64_of_bool: "bool64 b = of_bool b"
  by (simp add: bool64_def)

lemma sint_zero_iff: "sint (w :: i64) = 0 \<longleftrightarrow> w = 0"
  by (rule signed_eq_0_iff)

lemma sdiv_units: "(x :: int) sdiv 1 = x" "x sdiv (- 1) = - x" "x smod 1 = 0" "x smod (- 1) = 0"
  by (simp_all add: signed_divide_int_def smod_int_alt_def sgn_mult_abs abs_mult_sgn)

lemma div_patched:
  fixes u v :: i64
  assumes "v \<noteq> 0"
  defines "v' \<equiv> (if v = - 1 \<and> push_bit 1 u = 0 then 1 else v)"
  shows "rust_div u v' = Some (word_of_int (sint u sdiv sint v))"
    "rust_rem u v' = Some (word_of_int (sint u smod sint v))"
proof -
  have some: "rust_div u v' = Some (word_of_int (sint u sdiv sint v'))"
    "rust_rem u v' = Some (word_of_int (sint u smod sint v'))"
    using div_guard [OF assms(1), of u] unfolding v'_def rust_div_def rust_rem_def by (auto split: if_splits)
  have "word_of_int (sint u sdiv sint v') = (word_of_int (sint u sdiv sint v) :: i64) \<and>
      sint u smod sint v' = sint u smod sint v"
  proof (cases "v = - 1 \<and> push_bit 1 u = 0")
    case True
    then have "- u = u" by (simp add: push_bit_eq_mult neg_eq_iff_add_eq_0 mult_2_right)
    moreover have "word_of_int (- sint u) = - u" by simp
    ultimately have "word_of_int (- sint u) = (word_of_int (sint u) :: i64)" by (simp add: scast_id)
    with True show ?thesis by (simp add: v'_def sdiv_units)
  qed (auto simp: v'_def)
  with some show "rust_div u v' = Some (word_of_int (sint u sdiv sint v))"
    "rust_rem u v' = Some (word_of_int (sint u smod sint v))" by simp_all
qed

lemma binary_op_bsem: "binary_op (bcode b) u v = Some (beval b u v)"
proof (cases b)
  case Div
  then show ?thesis using div_patched [of v u] by (simp add: binary_op_def beval_def Let_def sint_zero_iff)
next
  case Rem
  then show ?thesis using div_patched [of v u] by (simp add: binary_op_def beval_def Let_def sint_zero_iff)
next
  case Shr
  then show ?thesis
    by (simp add: binary_op_def beval_def shift_count signed_drop_bit_word flip: drop_bit_eq_div)
next
  case Shl
  then show ?thesis
    by (simp add: binary_op_def beval_def shift_count push_bit_eq_mult)
next
  case Pow
  then show ?thesis
    by (simp add: binary_op_def beval_def pow_loop_power word_sless_alt)
qed (auto simp: binary_op_def beval_def bool64_of_bool of_int_or_eq of_int_and_eq of_int_xor_eq
    sint_zero_iff word_sless_alt word_sle_eq intro: signed_word_eqI)

lemma unary_op_usem: "unary_op (ucode u) v = Some (word_of_int (usem u (sint v)))"
  by (cases u) (simp_all add: unary_op_def bool64_of_bool of_int_not_eq sint_zero_iff)

section \<open>The loop on rendered expressions\<close>

text \<open>Leading blanks do not matter to a step.\<close>

lemma math_step_skip:
  assumes "skip_whitespace s = skip_whitespace (ms_expr st)"
  shows "math_step ev names start (st\<lparr>ms_expr := s\<rparr>) e = math_step ev names start st e"
proof -
  have "operator_step ev names op r (st\<lparr>ms_expr := s\<rparr>) e = operator_step ev names op r st e" for op r
    unfolding operator_step_def by (simp add: Let_def cong: if_cong pop_result.case_cong)
  moreover have "end_step ev names start (st\<lparr>ms_expr := s\<rparr>) e = end_step ev names start st e"
    by (simp add: end_step_def)
  ultimately show ?thesis using assms by (simp add: math_step_def push_num_def split: list.split prod.split option.split)
qed

lemma loop_space:
  "ms_expr st = CHR '' '' # s \<Longrightarrow> math_loop ev names start st e = math_loop ev names start (st\<lparr>ms_expr := s\<rparr>) e"
  using math_step_skip [of s st ev names start e]
  by (subst (1 2) math_loop.simps) (simp add: skip_whitespace_def)

lemma loop_step:
  "math_step ev names start st e = Some (Inl st', e') \<Longrightarrow> math_loop ev names start st e = math_loop ev names start st' e'"
  "math_step ev names start st e = Some (Inr (err, v), e') \<Longrightarrow> math_loop ev names start st e = Some (err, v, e')"
  by (subst math_loop.simps, simp)+

text \<open>An operator that ends an operand of level \<open>k\<close>: a closing parenthesis, or a binary
  operator that binds no tighter.\<close>

definition follows :: "nat \<Rightarrow> nat \<Rightarrow> bool" where
  "follows k op \<longleftrightarrow> op = TOK_RPAREN \<or> (\<exists>b. op = bcode b \<and> (bprec b < k \<or> bprec b = k \<and> b \<noteq> Pow))"

text \<open>An operator stack on which no operator of level \<open>k\<close> or above reduces.\<close>

definition guarded :: "evaluator \<Rightarrow> string list \<Rightarrow> env \<Rightarrow> nat \<Rightarrow> nat list \<Rightarrow> bool" where
  "guarded ev names e k ops \<longleftrightarrow>
     (\<forall>b nums. k \<le> bprec b \<longrightarrow> pop_apply ev names (bcode b) ops nums e = Some (PopDone ops nums, e))"

text \<open>The stacks \<open>ops'\<close> and \<open>nums'\<close> hold a pending computation of \<open>v\<close> on top of \<open>ops\<close> and \<open>nums\<close>:
  every operator that ends the operand reduces them to \<open>v\<close> first.\<close>

definition resolves ::
  "evaluator \<Rightarrow> string list \<Rightarrow> env \<Rightarrow> nat \<Rightarrow> math_err + i64 \<Rightarrow> nat list \<Rightarrow> var_or_num list \<Rightarrow>
     nat list \<Rightarrow> var_or_num list \<Rightarrow> bool" where
  "resolves ev names e k v ops nums ops' nums' \<longleftrightarrow>
     (\<forall>op. follows k op \<longrightarrow> pop_apply ev names op ops' nums' e =
        (case v of Inl er \<Rightarrow> Some (PopErr er, e) | Inr w \<Rightarrow> pop_apply ev names op ops (number_of w # nums) e))"

definition after :: "mstate \<Rightarrow> string \<Rightarrow> nat list \<Rightarrow> var_or_num list \<Rightarrow> mstate" where
  "after st rest ops nums = st\<lparr>ms_expr := rest, ms_ops := ops, ms_nums := nums, ms_last := TOK_NUM\<rparr>"

text \<open>From \<open>st\<close> the loop fails with the error of \<open>v\<close>, or gets to \<open>rest\<close> with \<open>v\<close> pending.\<close>

definition computes ::
  "evaluator \<Rightarrow> string list \<Rightarrow> string \<Rightarrow> env \<Rightarrow> nat \<Rightarrow> math_err + i64 \<Rightarrow> string \<Rightarrow> mstate \<Rightarrow> bool" where
  "computes ev names start e k v rest st \<longleftrightarrow>
     (\<exists>er. v = Inl er \<and> math_loop ev names start st e = Some (Some er, - 1, e)) \<or>
     (\<exists>ops nums. math_loop ev names start st e = math_loop ev names start (after st rest ops nums) e \<and>
        nums \<noteq> [] \<and> vn_var (hd nums) = None \<and> resolves ev names e k v (ms_ops st) (ms_nums st) ops nums)"

definition operand_pos :: "mstate \<Rightarrow> bool" where
  "operand_pos st \<longleftrightarrow> ms_last st \<noteq> TOK_NUM \<and> ms_last st \<noteq> TOK_POST_INC \<and> ms_last st \<noteq> TOK_POST_DEC"

lemma guarded_mono: "guarded ev names e k ops \<Longrightarrow> k \<le> k' \<Longrightarrow> guarded ev names e k' ops"
  by (auto simp: guarded_def)

lemma bcode_neq: "bcode b \<noteq> TOK_RPAREN" "bcode b \<noteq> TOK_LPAREN"
  by (cases b; simp)+

lemma guarded_paren: "guarded ev names e k (TOK_LPAREN # ops)"
  using bprec_bounds bcode_prec bcode_neq by (auto simp: guarded_def Let_def)

lemma guarded_op: "guarded ev names e (right_level b) (bcode b # ops)"
  using bprec_bounds bcode_neq
  by (auto simp: guarded_def Let_def bcode_prec right_level_def is_right_associative_def)

lemma guarded_top: "guarded ev names e 16 ops"
  using bprec_bounds(2) by (auto simp: guarded_def not_le [symmetric])

lemma fetch_bcode:
  assumes "vn_var (hd nums) = None"
  shows "fetch_op TOK_NUM nums (btext b @ CHR '' '' # r) = Some (bcode b, CHR '' '' # r)"
  using assms by (cases b) (simp_all add: fetch_op_def op_tokens_def starts_with_def)

lemma btext_hd: "\<exists>c cs. btext b = c # cs \<and> op_char c"
  by (cases b) (simp_all add: op_char_def)

lemma unary_step:
  assumes "ms_expr st = utext u @ CHR '' '' # r" "operand_pos st"
  shows "math_step ev names start st e =
    Some (Inl (st\<lparr>ms_expr := CHR '' '' # r, ms_ops := ucode u # ms_ops st, ms_last := ucode u\<rparr>), e)"
proof -
  have *: "\<exists>c op. utext u = [c] \<and> op_char c \<and> unary_of op = ucode u \<and>
      fetch_op (ms_last st) (ms_nums st) (utext u @ CHR '' '' # r) = Some (op, CHR '' '' # r)"
    using assms(2) by (cases u) (auto simp: fetch_op_def op_tokens_def starts_with_def op_char_def unary_of_def operand_pos_def)
  then obtain c op where c: "utext u = [c]" "op_char c" "unary_of op = ucode u"
    "fetch_op (ms_last st) (ms_nums st) (c # CHR '' '' # r) = Some (op, CHR '' '' # r)" by auto
  have "ucode u mod 32 = 16 \<or> ucode u mod 32 = 17" by (cases u) simp_all
  then show ?thesis
    using step_operator [of st c "CHR '' '' # r" op "CHR '' '' # r" ev names start e] assms c
    by (auto simp: operator_step_def operand_pos_def Let_def)
qed

lemma binary_step:
  assumes "ms_expr st = btext b @ CHR '' '' # r" "ms_last st = TOK_NUM" "vn_var (hd (ms_nums st)) = None"
  shows "math_step ev names start st e =
    do_opt (pop_apply ev names (bcode b) (ms_ops st) (ms_nums st) e)
      (\<lambda>(r', e). case r' of
         PopErr er \<Rightarrow> Some (Inr (Some er, - 1), e)
       | PopParen ops nums \<Rightarrow> Some (Inl (st\<lparr>ms_expr := CHR '' '' # r, ms_ops := ops, ms_nums := nums, ms_last := TOK_NUM\<rparr>), e)
       | PopDone ops nums \<Rightarrow>
           Some (Inl (st\<lparr>ms_expr := CHR '' '' # r, ms_ops := bcode b # ops, ms_nums := nums, ms_last := bcode b\<rparr>), e))"
proof -
  obtain c cs where c: "btext b = c # cs" "op_char c" using btext_hd by blast
  have "math_step ev names start st e = operator_step ev names (bcode b) (CHR '' '' # r) st e"
    using fetch_bcode [OF assms(3), of b r] assms c by (intro step_operator [where c = c]) simp_all
  then show ?thesis using assms(2) bprec_bounds(1,2) [of b] bcode_neq(1)
    by (auto simp: operator_step_def Let_def bcode_prec intro!: arg_cong2 [where f = Option.bind] split: pop_result.splits)
qed

lemma computesI:
  "math_loop ev names start st e = math_loop ev names start (after st rest ops nums) e \<Longrightarrow>
     nums \<noteq> [] \<Longrightarrow> vn_var (hd nums) = None \<Longrightarrow>
     resolves ev names e k v (ms_ops st) (ms_nums st) ops nums \<Longrightarrow> computes ev names start e k v rest st"
  by (auto simp: computes_def)

lemma number_of_simps [simp]: "vn_var (number_of v) = None" "second_val_present (number_of v) = False" "vn_val (number_of v) = v"
  by (simp_all add: number_of_def)

lemma resolves_value: "resolves ev names e k (Inr w) ops nums ops (number_of w # nums)"
  by (simp add: resolves_def)

lemma computes_lit:
  assumes "stops rest" "ms_expr st = show_nat (unat n) @ rest"
  shows "computes ev names start e k (Inr n) rest st"
proof -
  have "math_step ev names start st e = Some (Inl (push_num (number_of n) rest st), e)"
    using step_number [OF assms(1) _ assms(2), of ev names start e] unsigned_less [of n, where 'a = nat] by simp
  then show ?thesis
    by (intro computesI [where ops = "ms_ops st" and nums = "number_of n # ms_nums st"])
      (simp_all add: loop_step(1) after_def push_num_def resolves_value)
qed

lemma ucode_facts: "ucode u \<noteq> TOK_LPAREN" "ucode u mod 32 \<noteq> 3" "16 \<le> ucode u mod 32" "\<not> is_assign_op (ucode u)"
    "operand_pos (st\<lparr>ms_last := ucode u\<rparr>)"
  by (cases u; simp add: is_assign_op_def operand_pos_def)+

lemma bcode_facts: "\<not> is_assign_op (bcode b)" "unary_op (bcode b) v = None"
    "bcode b \<notin> {TOK_ASSIGN, TOK_CONDITIONAL, TOK_CONDITIONAL_SEP}" "operand_pos (st\<lparr>ms_last := bcode b\<rparr>)"
  by (cases b; simp add: is_assign_op_def operand_pos_def unary_op_def)+

lemma follows_top: "follows k op \<Longrightarrow> follows 16 op"
  using bprec_bounds(2) by (auto simp: follows_def)

lemma pop_unary:
  assumes "follows k op"
  shows "pop_apply ev names op (ucode u # ops) (number_of v # nums) e =
    pop_apply ev names op ops (number_of (word_of_int (usem u (sint v))) # nums) e"
proof -
  have "arith_apply ev names e (ucode u) (number_of v # nums) =
      Some (Inr (number_of (word_of_int (usem u (sint v))) # nums), e)"
    by (intro apply_unary_number unary_op_usem ucode_facts)
  moreover have "op = TOK_RPAREN \<or> op \<noteq> TOK_RPAREN \<and> (\<exists>b. op mod 32 = bprec b)"
    using assms bcode_neq bcode_prec by (auto simp: follows_def)
  ultimately show ?thesis
    using ucode_facts [of u] bprec_bounds by (auto simp: Let_def split: if_splits)
      (metis less_le_trans not_less_iff_gr_or_eq)+
qed

lemma computes_unary_loop:
  fixes st :: mstate and s rest :: string and u :: uop
  defines "st1 \<equiv> st\<lparr>ms_expr := s @ rest, ms_ops := ucode u # ms_ops st, ms_last := ucode u\<rparr>"
  assumes loop: "math_loop ev names start st e = math_loop ev names start st1 e"
    and IH: "\<And>st. operand_pos st \<Longrightarrow> ms_expr st = s @ rest \<Longrightarrow> computes ev names start e 16 v rest st"
  shows "computes ev names start e k (map_sum id (\<lambda>v. word_of_int (usem u (sint v))) v) rest st"
proof -
  have "computes ev names start e 16 v rest st1"
    using ucode_facts(5) by (intro IH) (simp_all add: st1_def operand_pos_def)
  then consider (err) er where "v = Inl er" "math_loop ev names start st1 e = Some (Some er, - 1, e)"
    | (ok) ops nums where "math_loop ev names start st1 e = math_loop ev names start (after st1 rest ops nums) e"
      "nums \<noteq> []" "vn_var (hd nums) = None" "resolves ev names e 16 v (ucode u # ms_ops st) (ms_nums st) ops nums"
    by (auto simp: computes_def st1_def)
  then show ?thesis
  proof cases
    case err
    with loop show ?thesis by (simp add: computes_def)
  next
    case ok
    have "resolves ev names e k (map_sum id (\<lambda>v. word_of_int (usem u (sint v))) v) (ms_ops st) (ms_nums st) ops nums"
      unfolding resolves_def
    proof (intro allI impI)
      fix op assume f: "follows k op"
      with ok(4) follows_top show "pop_apply ev names op ops nums e =
          (case map_sum id (\<lambda>v. word_of_int (usem u (sint v))) v of
             Inl er \<Rightarrow> Some (PopErr er, e)
           | Inr w \<Rightarrow> pop_apply ev names op (ms_ops st) (number_of w # ms_nums st) e)"
        using pop_unary [OF f] by (cases v) (auto simp: resolves_def simp del: pop_apply.simps)
    qed
    moreover have "after st1 rest ops nums = after st rest ops nums" by (simp add: after_def st1_def)
    ultimately show ?thesis using ok loop by (intro computesI [where ops = ops and nums = nums]) simp_all
  qed
qed

lemma computes_unary:
  assumes "ms_expr st = utext u @ '' '' @ s @ rest" "operand_pos st"
    and IH: "\<And>st. operand_pos st \<Longrightarrow> ms_expr st = s @ rest \<Longrightarrow> computes ev names start e 16 v rest st"
  shows "computes ev names start e k (map_sum id (\<lambda>v. word_of_int (usem u (sint v))) v) rest st"
proof (rule computes_unary_loop [OF _ IH])
  let ?st1 = "st\<lparr>ms_expr := s @ rest, ms_ops := ucode u # ms_ops st, ms_last := ucode u\<rparr>"
  have step: "math_step ev names start st e = Some (Inl (?st1\<lparr>ms_expr := CHR '' '' # s @ rest\<rparr>), e)"
    using unary_step [of st u "s @ rest"] assms(1,2) by simp
  show "math_loop ev names start st e = math_loop ev names start ?st1 e"
    using loop_step(1) [OF step] loop_space [of "?st1\<lparr>ms_expr := CHR '' '' # s @ rest\<rparr>" "s @ rest" ev names start e]
    by (cases st) simp
qed

lemma follows_own: "follows (left_level b) (bcode b)"
  unfolding follows_def left_level_def by (intro disjI2 exI [of _ b]) simp

lemma pop_reduce:
  assumes "follows (bprec b) op"
  shows "pop_apply ev names op (bcode b # ops) nums e =
    do_opt (arith_apply ev names e (bcode b) nums)
      (\<lambda>(r, e'). case r of Inl er \<Rightarrow> Some (PopErr er, e') | Inr nums' \<Rightarrow> pop_apply ev names op ops nums' e')"
proof (cases "op = TOK_RPAREN")
  case True
  then show ?thesis unfolding True using bcode_neq(2) [of b] by simp
next
  case False
  then obtain b' where b': "op = bcode b'" "bprec b' < bprec b \<or> bprec b' = bprec b \<and> b' \<noteq> Pow"
    using assms by (auto simp: follows_def)
  have "is_right_associative (bprec b') \<longleftrightarrow> b' = Pow"
    using bprec_bounds [of b'] by (auto simp: is_right_associative_def)
  then show ?thesis
    using False b' bprec_bounds(4) by (simp add: Let_def bcode_prec) (metis less_not_sym nat_neq_iff)
qed

lemma pop_binary:
  assumes "follows (bprec b) op"
  shows "pop_apply ev names op (bcode b # ops) (number_of v # number_of u # nums) e =
    (case beval b u v of
       Inl er \<Rightarrow> Some (PopErr er, e)
     | Inr w \<Rightarrow> pop_apply ev names op ops (number_of w # nums) e)"
proof -
  have "arith_apply ev names e (bcode b) (number_of v # number_of u # nums) =
      (case beval b u v of Inr w \<Rightarrow> Some (Inr (number_of w # nums), e) | Inl er \<Rightarrow> Some (Inl er, e))"
    using apply_binary_number [OF bcode_facts(2) [of b v] bcode_facts(1,3)] by (simp add: binary_op_bsem split: sum.split)
  then show ?thesis by (simp add: pop_reduce [OF assms] del: pop_apply.simps split: sum.split)
qed

lemma computesE:
  assumes "computes ev names start e k v rest st"
  obtains (err) er where "v = Inl er" "math_loop ev names start st e = Some (Some er, - 1, e)"
  | (ok) ops nums where "math_loop ev names start st e = math_loop ev names start (after st rest ops nums) e"
      "nums \<noteq> []" "vn_var (hd nums) = None" "resolves ev names e k v (ms_ops st) (ms_nums st) ops nums"
  using assms by (auto simp: computes_def)

text \<open>After the left operand, the operator reduces what is pending and is pushed.\<close>

lemma operator_pushed:
  fixes s :: string
  assumes R: "resolves ev names e (left_level b) (Inr u) (ms_ops st) (ms_nums st) ops nums"
    and "vn_var (hd nums) = None" and G: "guarded ev names e (bprec b) (ms_ops st)"
  defines "st1 \<equiv> st\<lparr>ms_expr := s, ms_ops := bcode b # ms_ops st, ms_nums := number_of u # ms_nums st, ms_last := bcode b\<rparr>"
  shows "math_loop ev names start (after st (btext b @ '' '' @ s) ops nums) e = math_loop ev names start st1 e"
proof -
  have "pop_apply ev names (bcode b) ops nums e = Some (PopDone (ms_ops st) (number_of u # ms_nums st), e)"
    using R G follows_own by (simp add: resolves_def guarded_def)
  then have "math_step ev names start (after st (btext b @ '' '' @ s) ops nums) e =
      Some (Inl (st1\<lparr>ms_expr := CHR '' '' # s\<rparr>), e)"
    using assms(2) by (cases st) (simp add: binary_step [where b = b and r = s] after_def st1_def)
  from loop_step(1) [OF this] show ?thesis
    using loop_space [of "st1\<lparr>ms_expr := CHR '' '' # s\<rparr>" s ev names start e]
    by (cases st) (simp add: st1_def)
qed

lemma operator_fails:
  assumes R: "resolves ev names e (left_level b) (Inl er) ops0 nums0 ops nums" and "vn_var (hd nums) = None"
  shows "math_loop ev names start (after st (btext b @ '' '' @ s) ops nums) e = Some (Some er, - 1, e)"
proof -
  have "pop_apply ev names (bcode b) ops nums e = Some (PopErr er, e)" using R follows_own by (simp add: resolves_def)
  then have "math_step ev names start (after st (btext b @ '' '' @ s) ops nums) e = Some (Inr (Some er, - 1), e)"
    using assms(2) by (simp add: binary_step [where b = b and r = s] after_def)
  then show ?thesis by (rule loop_step(2))
qed

lemma resolves_bin:
  assumes R: "resolves ev names e (right_level b) v (bcode b # ops0) (number_of u # nums0) ops nums" and "k \<le> bprec b"
  shows "resolves ev names e k (case v of Inl er \<Rightarrow> Inl er | Inr w \<Rightarrow> beval b u w) ops0 nums0 ops nums"
  unfolding resolves_def
proof (intro allI impI)
  fix op assume "follows k op"
  with assms(2) have f: "follows (right_level b) op" "follows (bprec b) op"
    using bprec_bounds(6) by (auto simp: follows_def right_level_def split: if_splits) (metis le_neq_implies_less)+
  then show "pop_apply ev names op ops nums e =
      (case case v of Inl er \<Rightarrow> Inl er | Inr w \<Rightarrow> beval b u w of
         Inl er \<Rightarrow> Some (PopErr er, e)
       | Inr w \<Rightarrow> pop_apply ev names op ops0 (number_of w # nums0) e)"
    using R pop_binary [OF f(2)] by (cases v) (simp_all add: resolves_def del: pop_apply.simps)
qed

lemma computes_bin:
  assumes "ms_expr st = sl @ '' '' @ btext b @ '' '' @ sr @ rest" "operand_pos st"
    "k \<le> bprec b" "guarded ev names e k (ms_ops st)" "stops rest"
    and L: "\<And>st rest. operand_pos st \<Longrightarrow> stops rest \<Longrightarrow> ms_expr st = sl @ rest \<Longrightarrow>
      guarded ev names e (left_level b) (ms_ops st) \<Longrightarrow> computes ev names start e (left_level b) vl rest st"
    and R: "\<And>st rest. operand_pos st \<Longrightarrow> stops rest \<Longrightarrow> ms_expr st = sr @ rest \<Longrightarrow>
      guarded ev names e (right_level b) (ms_ops st) \<Longrightarrow> computes ev names start e (right_level b) vr rest st"
  shows "computes ev names start e k
    (case vl of Inl er \<Rightarrow> Inl er | Inr u \<Rightarrow> (case vr of Inl er \<Rightarrow> Inl er | Inr v \<Rightarrow> beval b u v)) rest st"
proof -
  let ?mid = "btext b @ '' '' @ sr @ rest"
  have g: "guarded ev names e (bprec b) (ms_ops st)" "guarded ev names e (left_level b) (ms_ops st)"
    using assms(3,4) guarded_mono by (auto simp: left_level_def)
  have "computes ev names start e (left_level b) vl (CHR '' '' # ?mid) st"
    using assms(1,2) g(2) by (intro L) (simp_all add: stops_def c_digit_def)
  then show ?thesis
  proof (cases rule: computesE)
    case err
    then show ?thesis by (simp add: computes_def)
  next
    case (ok ops nums)
    have loop: "math_loop ev names start st e = math_loop ev names start (after st ?mid ops nums) e"
      using ok(1) loop_space [of "after st (CHR '' '' # ?mid) ops nums" ?mid ev names start e] by (cases st) (simp add: after_def)
    show ?thesis
    proof (cases vl)
      case (Inl er)
      with ok loop operator_fails [of ev names e b er "ms_ops st" "ms_nums st" ops nums start st "sr @ rest"]
      show ?thesis by (simp add: computes_def)
    next
      case (Inr u)
      define st1 where "st1 = st\<lparr>ms_expr := sr @ rest, ms_ops := bcode b # ms_ops st,
        ms_nums := number_of u # ms_nums st, ms_last := bcode b\<rparr>"
      have loop1: "math_loop ev names start st e = math_loop ev names start st1 e"
        using operator_pushed [of ev names e b u st ops nums start "sr @ rest"] ok Inr g(1) loop by (simp add: st1_def)
      have "computes ev names start e (right_level b) vr rest st1"
        using assms(5) guarded_op bcode_facts(4) [of b st] by (intro R) (simp_all add: st1_def operand_pos_def)
      then show ?thesis
      proof (cases rule: computesE)
        case err
        with Inr loop1 show ?thesis by (simp add: computes_def)
      next
        case r: (ok ops nums)
        have "resolves ev names e k (case vr of Inl er \<Rightarrow> Inl er | Inr v \<Rightarrow> beval b u v) (ms_ops st) (ms_nums st) ops nums"
          using r(4) assms(3) by (intro resolves_bin) (simp_all add: st1_def)
        moreover have "after st1 rest ops nums = after st rest ops nums" by (simp add: after_def st1_def)
        ultimately show ?thesis using r Inr loop1 by (intro computesI [where ops = ops and nums = nums]) simp_all
      qed
    qed
  qed
qed

lemma computes_paren:
  assumes "ms_expr st = CHR ''('' # s @ '')'' @ rest" "operand_pos st"
    and B: "\<And>st rest. operand_pos st \<Longrightarrow> stops rest \<Longrightarrow> ms_expr st = s @ rest \<Longrightarrow>
      guarded ev names e j (ms_ops st) \<Longrightarrow> computes ev names start e j v rest st"
  shows "computes ev names start e k v rest st"
proof -
  define st1 where "st1 = st\<lparr>ms_expr := s @ '')'' @ rest, ms_ops := TOK_LPAREN # ms_ops st, ms_last := TOK_LPAREN\<rparr>"
  have loop: "math_loop ev names start st e = math_loop ev names start st1 e"
    using step_lparen [of st "s @ '')'' @ rest" ev names start e] assms(1,2)
    by (intro loop_step(1)) (simp add: st1_def operand_pos_def)
  have "computes ev names start e j v (CHR '')'' # rest) st1"
    using guarded_paren by (intro B) (simp_all add: st1_def operand_pos_def stops_def c_digit_def)
  then show ?thesis
  proof (cases rule: computesE)
    case err
    with loop show ?thesis by (simp add: computes_def)
  next
    case (ok ops nums)
    have pop: "pop_apply ev names TOK_RPAREN ops nums e =
        (case v of Inl er \<Rightarrow> Some (PopErr er, e) | Inr w \<Rightarrow> Some (PopParen (ms_ops st) (number_of w # ms_nums st), e))"
      using ok(4) by (simp add: resolves_def follows_def st1_def split: sum.split)
    note step = step_rparen [of "after st1 (CHR '')'' # rest) ops nums" rest ev names start e]
    show ?thesis
    proof (cases v)
      case (Inl er)
      then have "math_step ev names start (after st1 (CHR '')'' # rest) ops nums) e = Some (Inr (Some er, - 1), e)"
        using step pop by (simp add: after_def)
      from loop_step(2) [OF this] show ?thesis using ok loop Inl by (simp add: computes_def)
    next
      case (Inr w)
      then have "math_step ev names start (after st1 (CHR '')'' # rest) ops nums) e =
          Some (Inl (after st rest (ms_ops st) (number_of w # ms_nums st)), e)"
        using step pop by (cases st) (simp add: after_def st1_def)
      from loop_step(1) [OF this] show ?thesis
        using ok loop Inr resolves_value
        by (intro computesI [where ops = "ms_ops st" and nums = "number_of w # ms_nums st"]) simp_all
    qed
  qed
qed

lemma computes_render:
  "operand_pos st \<Longrightarrow> stops rest \<Longrightarrow> ms_expr st = render k t @ rest \<Longrightarrow> guarded ev names e k (ms_ops st) \<Longrightarrow>
     computes ev names start e k (aeval t) rest st"
proof (induction t arbitrary: st rest k)
  case (Lit n)
  then show ?case by (simp add: computes_lit)
next
  case (Una u t)
  have "computes ev names start e 16 (aeval t) rest st'" if "operand_pos st'" "ms_expr st' = render 16 t @ rest" for st'
    using that Una.IH Una.prems guarded_top by blast
  then show ?case using Una.prems computes_unary [of st u "render 16 t" rest ev names start e "aeval t" k] by simp
next
  case (Bin b l r)
  let ?s = "render (left_level b) l @ '' '' @ btext b @ '' '' @ render (right_level b) r"
  have body: "computes ev names start e j (aeval (Bin b l r)) rest' st'"
    if "operand_pos st'" "stops rest'" "ms_expr st' = ?s @ rest'" "guarded ev names e j (ms_ops st')" "j \<le> bprec b"
    for st' rest' j
    using that Bin.IH
      computes_bin [of st' "render (left_level b) l" b "render (right_level b) r" rest' j ev names e start "aeval l" "aeval r"]
    by simp
  show ?case
  proof (cases "bprec b < k")
    case True
    with Bin.prems have "ms_expr st = CHR ''('' # ?s @ '')'' @ rest" by (simp add: paren_def)
    then show ?thesis using Bin.prems(1) by (rule computes_paren) (rule body, assumption+, rule order_refl)
  next
    case False
    with Bin.prems show ?thesis by (intro body) (simp_all add: paren_def)
  qed
qed

lemma render_hd: "\<exists>c cs. render k t = c # cs \<and> (\<forall>ds. skip_whitespace (c # ds) = c # ds)"
proof (induction t arbitrary: k)
  case (Lit n)
  obtain c cs where "show_nat (unat n) = c # cs" "is_digit c" using show_nat_Cons by blast
  then show ?case using skip_digit by auto
next
  case (Una u t)
  show ?case by (cases u) (simp_all add: skip_whitespace_def byte_def)
next
  case (Bin b l r)
  obtain c cs where "render (left_level b) l = c # cs" "\<forall>ds. skip_whitespace (c # ds) = c # ds"
    using Bin.IH(1) [of "left_level b"] by auto
  then show ?case by (auto simp: paren_def skip_whitespace_def byte_def)
qed

text \<open>The end of the text: the parenthesis the code appends, then the result.\<close>

lemma loop_end:
  assumes "start \<noteq> []" "ms_expr st = []" "\<not> ms_done st" "ms_last st \<in> {TOK_NUM, TOK_POST_INC, TOK_POST_DEC}"
    and pop: "pop_apply ev names TOK_RPAREN (ms_ops st) (ms_nums st) e = Some (r, e')"
  shows "r = PopErr er \<Longrightarrow> math_loop ev names start st e = Some (Some er, - 1, e')"
    and "r = PopParen [] [x] \<Longrightarrow> vn_var x = None \<Longrightarrow> math_loop ev names start st e = Some (None, vn_val x, e')"
proof -
  define st1 where "st1 = st\<lparr>ms_expr := '')'', ms_done := True\<rparr>"
  have "math_step ev names start st e = Some (Inl st1, e)"
    using assms by (simp add: math_step_def skip_whitespace_def end_step_def st1_def)
  then have loop: "math_loop ev names start st e = math_loop ev names start st1 e" by (rule loop_step(1))
  note step = step_rparen [of st1 "[]" ev names start e]
  show "math_loop ev names start st e = Some (Some er, - 1, e')" if "r = PopErr er"
  proof -
    have "math_step ev names start st1 e = Some (Inr (Some er, - 1), e')"
      using step pop assms(4) that by (simp add: st1_def)
    from loop_step(2) [OF this] show ?thesis using loop by simp
  qed
  show "math_loop ev names start st e = Some (None, vn_val x, e')" if "r = PopParen [] [x]" "vn_var x = None"
  proof -
    define st2 where "st2 = st1\<lparr>ms_expr := [], ms_ops := [], ms_nums := [x], ms_last := TOK_NUM\<rparr>"
    have "math_step ev names start st1 e = Some (Inl st2, e')"
      using step pop assms(4) that by (simp add: st1_def st2_def)
    from loop_step(1) [OF this] have "math_loop ev names start st e = math_loop ev names start st2 e'" using loop by simp
    moreover have "math_step ev names start st2 e' = Some (Inr (None, vn_val x), e')"
      using assms(1) that(2) by (simp add: math_step_def skip_whitespace_def end_step_def st2_def st1_def arith_lookup_val_def)
    ultimately show ?thesis by (simp add: loop_step(2))
  qed
qed

lemma evaluate_computes:
  assumes "skip_whitespace s = s" "s \<noteq> []" "computes (evaluate_string fuel) names s e k v [] (init_state s)"
  shows "evaluate_string (Suc fuel) names e s = Some (case v of Inl er \<Rightarrow> (Some er, - 1, e) | Inr w \<Rightarrow> (None, w, e))"
proof -
  have "math_loop (evaluate_string fuel) names s (init_state s) e =
      Some (case v of Inl er \<Rightarrow> (Some er, - 1, e) | Inr w \<Rightarrow> (None, w, e))"
    using assms(3)
  proof (cases rule: computesE)
    case err
    then show ?thesis by simp
  next
    case (ok ops nums)
    have pop: "pop_apply (evaluate_string fuel) names TOK_RPAREN ops nums e =
        (case v of Inl er \<Rightarrow> Some (PopErr er, e) | Inr w \<Rightarrow> Some (PopParen [] [number_of w], e))"
      using ok(4) by (simp add: resolves_def follows_def init_state_def split: sum.split)
    let ?st = "after (init_state s) [] ops nums"
    have st: "ms_expr ?st = []" "\<not> ms_done ?st" "ms_last ?st \<in> {TOK_NUM, TOK_POST_INC, TOK_POST_DEC}"
      "ms_ops ?st = ops" "ms_nums ?st = nums" by (simp_all add: after_def init_state_def)
    show ?thesis
    proof (cases v)
      case (Inl er)
      then show ?thesis using ok(1) pop loop_end(1) [OF assms(2) st(1-3)] st(4,5) by auto
    next
      case (Inr w)
      then show ?thesis using ok(1) pop loop_end(2) [OF assms(2) st(1-3)] st(4,5) by fastforce
    qed
  qed
  then show ?thesis using assms(1) by (simp add: Let_def)
qed

lemma evaluate_render:
  "evaluate_string (Suc fuel) names e (render k t) =
     Some (case aeval t of Inl er \<Rightarrow> (Some er, - 1, e) | Inr w \<Rightarrow> (None, w, e))"
proof (rule evaluate_computes)
  show "skip_whitespace (render k t) = render k t" "render k t \<noteq> []" using render_hd [of k t] by auto
  show "computes (evaluate_string fuel) names (render k t) e k (aeval t) [] (init_state (render k t))"
    using guarded_paren by (intro computes_render) (simp_all add: operand_pos_def init_state_def stops_def)
qed

text \<open>A stored number reads back as itself, the most negative one included.\<close>

lemma minus_step:
  assumes "ms_expr st = CHR ''-'' # c # cs" "is_digit c" "operand_pos st"
  shows "math_step ev names start st e =
    Some (Inl (st\<lparr>ms_expr := c # cs, ms_ops := TOK_UMINUS # ms_ops st, ms_last := TOK_UMINUS\<rparr>), e)"
proof -
  have "c \<noteq> CHR ''='' \<and> c \<noteq> CHR ''-''" using digit_set [OF assms(2)] by auto
  then have "fetch_op (ms_last st) (ms_nums st) (CHR ''-'' # c # cs) = Some (TOK_SUB, c # cs)"
    using assms(3) by (simp add: fetch_op_def op_tokens_def starts_with_def operand_pos_def)
  then show ?thesis
    using step_operator [of st "CHR ''-''" "c # cs" TOK_SUB "c # cs" ev names start e] assms
    by (simp add: op_char_def operator_step_def unary_of_def operand_pos_def Let_def)
qed

lemma negative_word: "sint w < 0 \<Longrightarrow> - (of_nat (nat (- sint w)) :: i64) = w"
  by simp

lemma computes_negative:
  assumes "sint w < 0"
  shows "computes ev names (show_i64 w) e 16 (Inr w) [] (init_state (show_i64 w))"
proof -
  define n where "n = (of_nat (nat (- sint w)) :: i64)"
  have "- (2 ^ 63) \<le> sint w" using sint_ge [of w] by simp
  then have "nat (- sint w) < 2 ^ LENGTH(64)" by simp
  then have un: "unat n = nat (- sint w)" unfolding n_def by (subst unat_of_nat) (rule mod_less)
  have s: "show_i64 w = CHR ''-'' # show_nat (unat n)" using assms un by (simp add: show_i64_def)
  obtain c cs where c: "show_nat (unat n) = c # cs" "is_digit c" using show_nat_Cons by blast
  have "computes ev names (show_i64 w) e 16 (map_sum id (\<lambda>v. word_of_int (usem Neg (sint v))) (Inr n)) [] (init_state (show_i64 w))"
  proof (rule computes_unary_loop [where s = "show_nat (unat n)"])
    show "math_loop ev names (show_i64 w) (init_state (show_i64 w)) e =
        math_loop ev names (show_i64 w) (init_state (show_i64 w)\<lparr>ms_expr := show_nat (unat n) @ [],
          ms_ops := ucode Neg # ms_ops (init_state (show_i64 w)), ms_last := ucode Neg\<rparr>) e"
      by (rule loop_step(1), subst minus_step [of _ c cs]) (simp_all add: s c init_state_def operand_pos_def)
    show "computes ev names (show_i64 w) e 16 (Inr n) [] st" if "ms_expr st = show_nat (unat n) @ []" for st
      using that by (intro computes_lit) (simp_all add: stops_def)
  qed
  moreover have "- n = w" unfolding n_def by (rule negative_word [OF assms])
  ultimately show ?thesis by simp
qed

lemma evaluate_show: "evaluate_string (Suc fuel) names e (show_i64 w) = Some (None, w, e)"
proof (cases "sint w < 0")
  case True
  have "skip_whitespace (show_i64 w) = show_i64 w" "show_i64 w \<noteq> []"
    using True by (simp_all add: show_i64_def skip_whitespace_def byte_def)
  from evaluate_computes [OF this computes_negative [OF True]] show ?thesis by simp
next
  case False
  then have "uint w = sint w" using sint_lt [of w] by (subst uint_sint) (intro take_bit_int_eq_self, simp_all)
  then have "show_i64 w = render 1 (Lit w)" using False by (simp add: show_i64_def unat_eq_nat_uint)
  then show ?thesis using evaluate_render [of fuel names e 1 "Lit w"] by simp
qed

section \<open>Variables\<close>

definition valid_name :: "string \<Rightarrow> bool" where
  "valid_name v \<longleftrightarrow> v \<noteq> [] \<and> endofname v = (v, [])"

definition ends_name :: "string \<Rightarrow> bool" where
  "ends_name r \<longleftrightarrow> r = [] \<or> op_char (hd r)"

lemma blank_not_name: "byte c - 9 \<le> 4 \<Longrightarrow> \<not> name_start c"
proof -
  assume "byte c - 9 \<le> 4"
  then have "unat (byte c - 9) \<le> 4" by (simp add: word_le_nat_alt)
  moreover have "byte c = of_nat (unat (byte c - 9)) + 9" by simp
  ultimately obtain k where "k \<le> 4" "byte c = of_nat k + 9" by blast
  moreover from this have "k = 0 \<or> k = 1 \<or> k = 2 \<or> k = 3 \<or> k = 4" by arith
  ultimately have "byte c = 9 \<or> byte c = 10 \<or> byte c = 11 \<or> byte c = 12 \<or> byte c = 13" by auto
  then show "\<not> name_start c" by (auto simp: name_start_def byte_def)
qed

lemma alnum_name: "bb_ascii_isalnum c \<Longrightarrow> is_digit c \<or> name_start c"
  by (auto simp: bb_ascii_isalnum_def is_digit_def name_start_def)

lemma underscore: "name_start CHR ''_''"
  by (simp add: name_start_def)

lemma endofname_append:
  assumes "valid_name v" "ends_name r"
  shows "endofname (v @ r) = (v, r)"
proof -
  obtain c cs where v: "v = c # cs" using assms(1) by (cases v) (auto simp: valid_name_def)
  let ?P = "\<lambda>c. c = CHR ''_'' \<or> bb_ascii_isalnum c"
  have c: "name_start c" using assms(1) v by (auto simp: valid_name_def endofname_def split: if_splits)
  then have "takeWhile ?P cs = cs" using assms(1) v by (simp add: valid_name_def endofname_def)
  then have all: "\<forall>c \<in> set cs. ?P c" unfolding takeWhile_eq_all_conv .
  have r: "r = [] \<or> \<not> ?P (hd r)"
    using assms(2) alnum_name [of "hd r"] op_char_props [of "hd r" "[]"] underscore unfolding ends_name_def by auto
  then have "takeWhile ?P r = []" "dropWhile ?P r = r" by (cases r; auto)+
  with all c v show ?thesis by (auto simp: endofname_def takeWhile_append dropWhile_append)
qed

lemma name_hd: "valid_name v \<Longrightarrow> \<exists>c cs. v = c # cs \<and> (\<forall>ds. skip_whitespace (c # ds) = c # ds)"
proof -
  assume "valid_name v"
  then obtain c cs where c: "v = c # cs" "name_start c" by (cases v) (auto simp: valid_name_def endofname_def split: if_splits)
  have "c \<noteq> CHR '' ''" using c(2) by (auto simp: name_start_def byte_def)
  with c blank_not_name show ?thesis by (auto simp: skip_whitespace_def)
qed

lemma step_name:
  assumes "valid_name v" "ends_name r" "ms_expr st = v @ r"
  shows "math_step ev names start st e = Some (Inl (push_num (name_of v) r st), e)"
proof -
  obtain c cs where "v = c # cs" "\<forall>ds. skip_whitespace (c # ds) = c # ds" using name_hd [OF assms(1)] by blast
  with endofname_append [OF assms(1,2)] assms(3) show ?thesis by (simp add: math_step_def)
qed

text \<open>The compound assignments, with the operator each applies.\<close>

definition assign_ops :: "(bop \<times> nat) list" where
  "assign_ops = [(BOr, TOK_OR_ASSIGN), (BAnd, TOK_AND_ASSIGN), (BXor, TOK_XOR_ASSIGN), (Add, TOK_PLUS_ASSIGN),
     (Sub, TOK_MINUS_ASSIGN), (Mul, TOK_MUL_ASSIGN), (Div, TOK_DIV_ASSIGN), (Rem, TOK_REM_ASSIGN),
     (Shl, TOK_LSHIFT_ASSIGN), (Shr, TOK_RSHIFT_ASSIGN)]"

lemma assign_op_facts:
  assumes "(b, a) \<in> set assign_ops"
  shows "binary_op a u v = Some (beval b u v)" "unary_op a v = None" "is_assign_op a"
    "a \<noteq> TOK_RPAREN" "a \<noteq> TOK_LPAREN" "a \<notin> {TOK_ASSIGN, TOK_CONDITIONAL, TOK_CONDITIONAL_SEP}"
    "a mod 32 = 2 \<or> a mod 32 = 3"
    "vn_var (hd nums) \<noteq> None \<Longrightarrow> fetch_op l nums (btext b @ CHR ''='' # r) = Some (a, r)"
proof -
  have "binary_op a u v = binary_op (bcode b) u v"
    using assms by (auto simp: assign_ops_def) (simp_all add: binary_op_def)
  then show "binary_op a u v = Some (beval b u v)" by (simp add: binary_op_bsem)
  show "fetch_op l nums (btext b @ CHR ''='' # r) = Some (a, r)" if "vn_var (hd nums) \<noteq> None"
    using assms that by (auto simp: assign_ops_def) (simp_all add: fetch_op_def op_tokens_def starts_with_def)
qed (use assms in \<open>auto simp: assign_ops_def unary_op_def is_assign_op_def\<close>)

lemma name_of_simps [simp]: "vn_var (name_of v) = Some v" "second_val_present (name_of v) = False"
  by (simp_all add: name_of_def)

lemma assign_step:
  assumes "(b, a) \<in> set assign_ops" "ms_expr st = btext b @ CHR ''='' # r" "ms_last st = TOK_NUM"
    "ms_nums st = [name_of v]" "ms_ops st = [TOK_LPAREN]"
  shows "math_step ev names start st e = Some (Inl (st\<lparr>ms_expr := r, ms_ops := [a, TOK_LPAREN], ms_last := a\<rparr>), e)"
proof -
  obtain c cs where c: "btext b = c # cs" "op_char c" using btext_hd by blast
  have "math_step ev names start st e = operator_step ev names a r st e"
    using assign_op_facts(8) [OF assms(1), of "[name_of v]"] assms c by (intro step_operator [where c = c]) simp_all
  moreover have "pop_apply ev names a [TOK_LPAREN] [name_of v] e = Some (PopDone [TOK_LPAREN] [name_of v], e)"
    using assign_op_facts(4,7) [OF assms(1)] by (auto simp: Let_def)
  ultimately show ?thesis using assms(3-5) assign_op_facts(4,7) [OF assms(1)]
    by (cases st) (auto simp: operator_step_def Let_def)
qed

text \<open>The variable \<open>v\<close> is unset and counts as 0, or holds the text of \<open>w\<close>.\<close>

definition holds :: "env \<Rightarrow> string \<Rightarrow> i64 \<Rightarrow> bool" where
  "holds e v w \<longleftrightarrow> (case e v of None \<Rightarrow> w = 0 | Some p \<Rightarrow> p = show_i64 w)"

lemma lookup_name:
  assumes "holds e v w"
  shows "arith_lookup_val (evaluate_string (Suc fuel)) [] e (name_of v) = Some (None, name_of v\<lparr>vn_val := w\<rparr>, e)"
  using assms by (simp add: holds_def arith_lookup_val_def evaluate_show del: evaluate_string.simps split: option.splits)

lemma pop_assign:
  assumes "(b, a) \<in> set assign_ops" "holds e v w"
  shows "pop_apply (evaluate_string (Suc fuel)) [] TOK_RPAREN [a, TOK_LPAREN] [number_of x, name_of v] e =
    Some (case beval b w x of
            Inl er \<Rightarrow> (PopErr er, e)
          | Inr y \<Rightarrow> (PopParen [] [number_of y], e(v \<mapsto> show_i64 y)))"
proof -
  have "arith_lookup_val (evaluate_string (Suc fuel)) [] e (number_of x) = Some (None, number_of x, e)"
    by (simp add: arith_lookup_val_def)
  then show ?thesis
    using assign_op_facts [OF assms(1)] lookup_name [OF assms(2)]
    by (auto simp: arith_apply_def apply_binary_def apply_finish_def Let_def number_of_def name_of_def
        simp del: evaluate_string.simps split: sum.splits)
qed

lemma pop_post_inc:
  assumes "holds e v w"
  shows "pop_apply (evaluate_string (Suc fuel)) [] TOK_RPAREN [TOK_POST_INC, TOK_LPAREN] [name_of v] e =
    Some (PopParen [] [number_of w], e(v \<mapsto> show_i64 (w + 1)))"
  using lookup_name [OF assms]
  by (simp add: arith_apply_def unary_op_def apply_finish_def is_assign_op_def Let_def number_of_def name_of_def
      del: evaluate_string.simps)

section \<open>Properties: what arithmetic computes\<close>

text \<open>C19. The evaluator implements C expressions: for every expression of constants, unary and
  binary operators, rendered with no more parentheses than C's precedences ask for, \<open>arith\<close>
  returns its value: the mathematical operators reduced to 64 bits, or the first error from
  left to right, and changes no variable.\<close>

theorem arith_expression:
  "arith (Suc fuel) e (render 1 t) =
     Some (case aeval t of Inl er \<Rightarrow> (Some er, - 1, e) | Inr w \<Rightarrow> (None, w, e))"
  unfolding arith_def by (rule evaluate_render)

text \<open>The text that \<open>arith_apply\<close> stores for a number evaluates to that number again, for
  every 64-bit value, so a variable keeps its value through an assignment.\<close>

theorem arith_stored_number: "arith (Suc fuel) e (show_i64 w) = Some (None, w, e)"
  unfolding arith_def by (rule evaluate_show)

lemma assign_end:
  assumes "computes ev [] start e 5 t [] st" "ev = evaluate_string (Suc fuel)" "start \<noteq> []"
    "(b, a) \<in> set assign_ops" "holds e v w"
    "ms_ops st = [a, TOK_LPAREN]" "ms_nums st = [name_of v]" "\<not> ms_done st"
  shows "math_loop ev [] start st e = Some (case t of
      Inl er \<Rightarrow> (Some er, - 1, e)
    | Inr x \<Rightarrow> (case beval b w x of Inl er \<Rightarrow> (Some er, - 1, e) | Inr y \<Rightarrow> (None, y, e(v \<mapsto> show_i64 y))))"
  using assms(1)
proof (cases rule: computesE)
  case err
  then show ?thesis by simp
next
  case (ok ops nums)
  let ?st = "after st [] ops nums"
  have fin: "ms_expr ?st = []" "\<not> ms_done ?st" "ms_last ?st \<in> {TOK_NUM, TOK_POST_INC, TOK_POST_DEC}"
    "ms_ops ?st = ops" "ms_nums ?st = nums" using assms(8) by (simp_all add: after_def)
  note ends = loop_end [OF assms(3) fin(1-3)]
  have pop: "pop_apply ev [] TOK_RPAREN ops nums e = Some (case t of
      Inl er \<Rightarrow> (PopErr er, e)
    | Inr x \<Rightarrow> (case beval b w x of
        Inl er \<Rightarrow> (PopErr er, e) | Inr y \<Rightarrow> (PopParen [] [number_of y], e(v \<mapsto> show_i64 y))))"
    using ok(4) pop_assign [OF assms(4,5)] assms(2,6,7)
    by (simp add: resolves_def follows_def del: pop_apply.simps split: sum.split)
  consider (er) er where "t = Inl er \<or> (\<exists>x. t = Inr x \<and> beval b w x = Inl er)"
    | (val) x y where "t = Inr x" "beval b w x = Inr y" by (cases t; cases "beval b w (projr t)") auto
  then show ?thesis
  proof cases
    case er
    then show ?thesis using pop ok(1) ends(1) fin(4,5) by auto
  next
    case val
    have "math_loop ev [] start ?st e = Some (None, vn_val (number_of y), e(v \<mapsto> show_i64 y))"
      using pop val fin(4,5) by (intro ends(2) [where r = "PopParen [] [number_of y]"]) simp_all
    then show ?thesis using val ok(1) by simp
  qed
qed

lemma guarded_assign: "(b, a) \<in> set assign_ops \<Longrightarrow> guarded ev names e 5 (a # ops)"
  using assign_op_facts(7) [of b a] bprec_bounds bcode_neq by (auto simp: guarded_def Let_def bcode_prec)



text \<open>A post-increment returns the old value of the variable and stores the next one, which
  wraps at the largest number.\<close>

theorem arith_post_increment:
  assumes "valid_name v" "holds e v w"
  shows "arith (Suc (Suc fuel)) e (v @ ''++'') = Some (None, w, e(v \<mapsto> show_i64 (w + 1)))"
proof -
  let ?ev = "evaluate_string (Suc fuel)" and ?s = "v @ ''++''"
  obtain c cs where c: "v = c # cs" "\<forall>ds. skip_whitespace (c # ds) = c # ds" using name_hd [OF assms(1)] by blast
  let ?st1 = "push_num (name_of v) ''++'' (init_state ?s)"
  define st where "st = \<lparr>ms_expr = [], ms_done = False, ms_nums = [name_of v],
    ms_ops = [TOK_POST_INC, TOK_LPAREN], ms_last = TOK_POST_INC\<rparr>"
  have "ends_name ''++''" by (simp add: ends_name_def op_char_def)
  from step_name [OF assms(1) this, of "init_state ?s" ?ev "[]" ?s e]
  have "math_loop ?ev [] ?s (init_state ?s) e = math_loop ?ev [] ?s ?st1 e"
    by (intro loop_step(1)) (simp add: init_state_def)
  also have "\<dots> = math_loop ?ev [] ?s st e"
    using step_operator [of ?st1 "CHR ''+''" "''+''" TOK_POST_INC "[]" ?ev "[]" ?s e]
    by (intro loop_step(1)) (simp add: push_num_def init_state_def op_char_def fetch_op_def op_tokens_def
        starts_with_def operator_step_def st_def)
  also have "\<dots> = Some (None, vn_val (number_of w), e(v \<mapsto> show_i64 (w + 1)))"
    using pop_post_inc [OF assms(2), of fuel]
    by (intro loop_end(2) [where r = "PopParen [] [number_of w]"]) (simp_all add: st_def c del: pop_apply.simps)
  finally show ?thesis using c by (simp add: arith_def Let_def)
qed

theorem arith_post_increment_witness:
  "arith 2 [''n'' \<mapsto> show_i64 9] ''n++'' = Some (None, 9, [''n'' \<mapsto> show_i64 10])"
proof -
  have "valid_name ''n''" by (simp add: valid_name_def endofname_def name_start_def byte_def)
  moreover have "holds [''n'' \<mapsto> show_i64 9] ''n'' 9" by (simp add: holds_def)
  ultimately show ?thesis
    using arith_post_increment [of "''n''" "[''n'' \<mapsto> show_i64 9]" 9 0] by (simp add: numeral_2_eq_2)
qed

end
