(* ===== verification/RB_Init.thy ===== *)
theory RB_Init
  imports RB_Prelude
begin

text \<open>
  The PID 1 supervisor of \<^verbatim>\<open>src/modern/init.rs\<close>: the parser of \<^verbatim>\<open>/etc/inittab\<close>, the building of
  argument vectors, spawning and waiting, delayed signals, shutdown and the main loop.

  The operating system is a parameter: a function from a system call and the state of the
  world to a response, the signals that arrive meanwhile and the next world. Every system
  call of the program goes through \<open>sys\<close>, which records it and lets the installed handler
  note the signals. A load of an atomic flag is a point where signals may arrive, hence a
  call too. What a forked child does up to its \<open>exec\<close> is the argument of the fork. The value
  \<^const>\<open>None\<close> stands for a loop that never returns or for a panic. Messages on the standard
  error stream are left out.
\<close>

section \<open>The inittab\<close>

definition ACT_SYSINIT :: u8 where "ACT_SYSINIT = 0x01"
definition ACT_WAIT :: u8 where "ACT_WAIT = 0x02"
definition ACT_ONCE :: u8 where "ACT_ONCE = 0x04"
definition ACT_RESPAWN :: u8 where "ACT_RESPAWN = 0x08"
definition ACT_ASKFIRST :: u8 where "ACT_ASKFIRST = 0x10"
definition ACT_CTRLALTDEL :: u8 where "ACT_CTRLALTDEL = 0x20"
definition ACT_SHUTDOWN :: u8 where "ACT_SHUTDOWN = 0x40"
definition ACT_RESTART :: u8 where "ACT_RESTART = 0x80"

lemmas ACT_defs = ACT_SYSINIT_def ACT_WAIT_def ACT_ONCE_def ACT_RESPAWN_def ACT_ASKFIRST_def
  ACT_CTRLALTDEL_def ACT_SHUTDOWN_def ACT_RESTART_def

type_synonym pid = nat

record entry =
  ia_terminal :: string
  ia_action :: u8
  ia_process :: string
  ia_pid :: "pid option"

definition action_keyword :: "string \<Rightarrow> u8 option" where
  "action_keyword s =
     (if s = ''sysinit'' then Some ACT_SYSINIT
      else if s = ''wait'' then Some ACT_WAIT
      else if s = ''once'' then Some ACT_ONCE
      else if s = ''respawn'' then Some ACT_RESPAWN
      else if s = ''askfirst'' then Some ACT_ASKFIRST
      else if s = ''ctrlaltdel'' then Some ACT_CTRLALTDEL
      else if s = ''shutdown'' then Some ACT_SHUTDOWN
      else if s = ''restart'' then Some ACT_RESTART
      else None)"

definition mk_entry :: "string \<Rightarrow> u8 \<Rightarrow> string \<Rightarrow> entry" where
  "mk_entry t a p = \<lparr>ia_terminal = t, ia_action = a, ia_process = p, ia_pid = None\<rparr>"

definition default_inittab :: "entry list" where
  "default_inittab =
     [mk_entry [] ACT_SYSINIT ''/etc/init.d/rcS'',
      mk_entry [] ACT_ASKFIRST ''/bin/sh'',
      mk_entry ''/dev/tty2'' ACT_ASKFIRST ''/bin/sh'',
      mk_entry ''/dev/tty3'' ACT_ASKFIRST ''/bin/sh'',
      mk_entry ''/dev/tty4'' ACT_ASKFIRST ''/bin/sh'',
      mk_entry [] ACT_CTRLALTDEL ''reboot'',
      mk_entry [] ACT_SHUTDOWN ''umount -a -r'',
      mk_entry [] ACT_SHUTDOWN ''swapoff -a'',
      mk_entry [] ACT_RESTART ''init'']"

text \<open>One line: None for a blank or a malformed one.\<close>

definition inittab_line :: "string \<Rightarrow> entry option" where
  "inittab_line raw =
     (let line = hd (split_char CHR ''#'' raw)
      in if trim line = [] then None
         else (case splitn 4 CHR '':'' line of
                 [tty, _, action_str, process] \<Rightarrow>
                   (case action_keyword action_str of
                      None \<Rightarrow> None
                    | Some act \<Rightarrow> Some (mk_entry (if tty = [] then [] else ''/dev/'' @ tty) act process))
               | _ \<Rightarrow> None))"

definition parse_inittab :: "string option \<Rightarrow> entry list" where
  "parse_inittab content =
     (case content of
        None \<Rightarrow> default_inittab
      | Some s \<Rightarrow>
          let out = List.map_filter inittab_line (str_lines s)
          in if out = [] then default_inittab else out)"

section \<open>Argument vectors and the child\<close>

definition shell_chars :: string where
  "shell_chars = ''~`!$^&*()=|'' @ [CHR 0x5C] @ ''{}[];'' @ [CHR 0x22, CHR 0x27] @ ''<>?''"

abbreviation NUL :: char where "NUL \<equiv> CHR 0x00"

text \<open>The program and its arguments; None where a NUL makes \<open>CString::new\<close> fail and the unwrap
  panic.\<close>

definition build_argv :: "string \<Rightarrow> (string \<times> string list) option" where
  "build_argv process =
     (if \<exists>c \<in> set process. c \<in> set shell_chars then
        (if NUL \<in> set process then None else Some (''/bin/sh'', [''/bin/sh'', ''-c'', process]))
      else
        (let words = split_whitespace process;
             prog0 = (if words = [] then [] else hd words);
             login_dash = starts_with ''-'' prog0;
             prog = (if login_dash then drop 1 prog0 else prog0)
         in if NUL \<in> set prog \<or> (\<exists>w \<in> set (tl words). NUL \<in> set w) then None
            else Some (prog, (if login_dash then ''-'' @ prog else prog) # tl words)))"

datatype signal = SIGHUP | SIGINT | SIGQUIT | SIGTERM | SIGUSR1 | SIGUSR2 | SIGTSTP | SIGKILL | OtherSignal nat

datatype child_step = SetDefault signal | UnblockAll | ChildSetsid | OpenTty string | PromptAndReadLine
  | ChildExec string "string list" | ChildPanic | ChildReboot | ChildExit int

text \<open>What the child of \<open>spawn\<close> does; the last step is reached when the exec fails.\<close>

definition child_program :: "entry \<Rightarrow> child_step list" where
  "child_program a =
     map SetDefault [SIGHUP, SIGINT, SIGQUIT, SIGTERM, SIGUSR1, SIGUSR2, SIGTSTP]
     @ [UnblockAll, ChildSetsid]
     @ (if ia_terminal a = [] then [] else [OpenTty (ia_terminal a)])
     @ (if ia_action a AND ACT_ASKFIRST \<noteq> 0 then [PromptAndReadLine] else [])
     @ (case build_argv (ia_process a) of
          None \<Rightarrow> [ChildPanic]
        | Some (path, argv) \<Rightarrow> [ChildExec path argv, ChildExit (- 1)])"

section \<open>The operating system\<close>

datatype magic = RB_AUTOBOOT | RB_HALT_SYSTEM | RB_POWER_OFF | RB_ENABLE_CAD | RB_DISABLE_CAD

datatype syscall = Fork "child_step list" | ForkReboot magic | WaitAny bool | WaitPid pid | Kill int signal
  | Reboot magic | Sync | Sleep nat | Execvp string "string list" | ReadFile string | Getpid
  | Chdir string | Setsid | SetVar string string | Install | ResetSignals | LoadFlag nat

datatype response = Done | Forked pid | ForkFailed | Exited pid | Signaled pid | OtherStatus | WaitError
  | Content string | Unreadable | Pid pid | Replaced | ExecFailed

type_synonym 'w os = "syscall \<Rightarrow> 'w \<Rightarrow> response \<times> signal list \<times> 'w"

record 'w init_state =
  is_world :: 'w
  is_pending :: "bool list"
  is_handlers :: bool
  is_trace :: "syscall list"

definition record_signal :: "signal \<Rightarrow> bool list \<Rightarrow> bool list" where
  "record_signal sig p =
     (case sig of
        SIGHUP \<Rightarrow> p[0 := True]
      | SIGINT \<Rightarrow> p[1 := True]
      | SIGQUIT \<Rightarrow> p[2 := True]
      | SIGTERM \<Rightarrow> p[3 := True]
      | SIGUSR1 \<Rightarrow> p[4 := True]
      | SIGUSR2 \<Rightarrow> p[5 := True]
      | _ \<Rightarrow> p)"

definition sys :: "'w os \<Rightarrow> syscall \<Rightarrow> 'w init_state \<Rightarrow> response \<times> 'w init_state" where
  "sys os c st =
     (case os c (is_world st) of (r, sigs, w) \<Rightarrow>
        (r, st\<lparr>is_world := w,
               is_pending := (if is_handlers st then fold record_signal sigs (is_pending st) else is_pending st),
               is_trace := is_trace st @ [c]\<rparr>))"

definition do_sys :: "'w os \<Rightarrow> syscall \<Rightarrow> 'w init_state \<Rightarrow> 'w init_state" where
  "do_sys os c st = snd (sys os c st)"

definition install_signal_handlers :: "'w os \<Rightarrow> 'w init_state \<Rightarrow> 'w init_state" where
  "install_signal_handlers os st = (do_sys os Install st)\<lparr>is_handlers := True\<rparr>"

definition reset_to_default_and_unblock :: "'w os \<Rightarrow> 'w init_state \<Rightarrow> 'w init_state" where
  "reset_to_default_and_unblock os st = (do_sys os ResetSignals st)\<lparr>is_handlers := False\<rparr>"

text \<open>\<open>PENDING[i].swap(false)\<close>.\<close>

definition swap_pending :: "'w os \<Rightarrow> nat \<Rightarrow> 'w init_state \<Rightarrow> bool \<times> 'w init_state" where
  "swap_pending os i st =
     (let st = do_sys os (LoadFlag i) st
      in (is_pending st ! i, st\<lparr>is_pending := (is_pending st)[i := False]\<rparr>))"

section \<open>Spawning and waiting\<close>

definition spawn :: "'w os \<Rightarrow> entry \<Rightarrow> 'w init_state \<Rightarrow> pid option \<times> 'w init_state" where
  "spawn os a st =
     (case sys os (Fork (child_program a)) st of (r, st) \<Rightarrow>
        ((case r of Forked p \<Rightarrow> Some p | _ \<Rightarrow> None), st))"

partial_function (option) wait_for :: "'w os \<Rightarrow> pid \<Rightarrow> 'w init_state \<Rightarrow> 'w init_state option" where
  "wait_for os p st =
     (case sys os (WaitAny False) st of (r, st) \<Rightarrow>
        if r = Exited p \<or> r = Signaled p \<or> r = WaitError then Some st else wait_for os p st)"

definition waits_for_completion :: "u8 \<Rightarrow> bool" where
  "waits_for_completion msk \<longleftrightarrow>
     msk AND (ACT_SYSINIT OR ACT_WAIT OR ACT_CTRLALTDEL OR ACT_SHUTDOWN) \<noteq> 0"

fun run_actions :: "'w os \<Rightarrow> u8 \<Rightarrow> entry list \<Rightarrow> 'w init_state \<Rightarrow> (entry list \<times> 'w init_state) option" where
  "run_actions os msk [] st = Some ([], st)"
| "run_actions os msk (a # as) st =
     (let next_entry = (\<lambda>a st. map_option (\<lambda>(as, st). (a # as, st)) (run_actions os msk as st))
      in if ia_action a AND msk = 0 then next_entry a st
         else if ia_action a AND (ACT_RESPAWN OR ACT_ASKFIRST) \<noteq> 0 then
           (if ia_pid a = None then (case spawn os a st of (p, st) \<Rightarrow> next_entry (a\<lparr>ia_pid := p\<rparr>) st)
            else next_entry a st)
         else
           (case spawn os a st of (p, st) \<Rightarrow>
              do_opt (case p of
                        Some p \<Rightarrow> if waits_for_completion msk then wait_for os p st else Some st
                      | None \<Rightarrow> Some st)
                (next_entry a)))"

definition mark_terminated :: "pid \<Rightarrow> entry list \<Rightarrow> entry list" where
  "mark_terminated p as = map (\<lambda>a. if ia_pid a = Some p then a\<lparr>ia_pid := None\<rparr> else a) as"

section \<open>Shutdown\<close>

text \<open>How a part of the program ends: it goes on, the process exits, or it is replaced.\<close>

datatype 'w flow = Running "entry list" "'w init_state" | Exit int "'w init_state" | ReplacedBy "'w init_state"

definition shutdown_and_kill ::
  "'w os \<Rightarrow> entry list \<Rightarrow> 'w init_state \<Rightarrow> (entry list \<times> 'w init_state) option" where
  "shutdown_and_kill os as st =
     do_opt (run_actions os ACT_SHUTDOWN as st)
       (\<lambda>(as, st). Some (as, fold (do_sys os) [Kill (- 1) SIGTERM, Sync, Sleep 1, Kill (- 1) SIGKILL, Sync] st))"

definition reboot_magic :: "signal \<Rightarrow> magic" where
  "reboot_magic sig =
     (case sig of SIGTERM \<Rightarrow> RB_AUTOBOOT | SIGUSR2 \<Rightarrow> RB_POWER_OFF | _ \<Rightarrow> RB_HALT_SYSTEM)"

definition halt_reboot_pwoff :: "'w os \<Rightarrow> signal \<Rightarrow> entry list \<Rightarrow> 'w init_state \<Rightarrow> 'w flow option" where
  "halt_reboot_pwoff os sig as st =
     do_opt (shutdown_and_kill os as (reset_to_default_and_unblock os st))
       (\<lambda>(as, st).
          let st = do_sys os (Sleep 1) st
          in case sys os (ForkReboot (reboot_magic sig)) st of (r, st) \<Rightarrow>
               let st = (case r of Forked p \<Rightarrow> do_sys os (WaitPid p) st | _ \<Rightarrow> st)
               in Some (Exit 0 (do_sys os (Sleep 1) st)))"

definition exec_restart_action :: "'w os \<Rightarrow> entry list \<Rightarrow> 'w init_state \<Rightarrow> 'w flow option" where
  "exec_restart_action os as st =
     do_opt (shutdown_and_kill os as (reset_to_default_and_unblock os st))
       (\<lambda>(as, st).
          let st = do_sys os (Reboot RB_ENABLE_CAD) st
          in case find (\<lambda>a. ia_action a AND ACT_RESTART \<noteq> 0) as of
               None \<Rightarrow> halt_reboot_pwoff os SIGUSR1 as st
             | Some a \<Rightarrow>
                 do_opt (build_argv (ia_process a))
                   (\<lambda>(path, argv).
                      case sys os (Execvp path argv) st of (r, st) \<Rightarrow>
                        if r = Replaced then Some (ReplacedBy st) else halt_reboot_pwoff os SIGUSR1 as st))"

section \<open>The main loop\<close>

definition read_inittab :: "'w os \<Rightarrow> 'w init_state \<Rightarrow> entry list \<times> 'w init_state" where
  "read_inittab os st =
     (case sys os (ReadFile ''/etc/inittab'') st of (r, st) \<Rightarrow>
        (parse_inittab (case r of Content s \<Rightarrow> Some s | _ \<Rightarrow> None), st))"

text \<open>Whether the first flag of a list of signals is set ends the program.\<close>

fun check_halts ::
  "'w os \<Rightarrow> (nat \<times> signal) list \<Rightarrow> bool \<Rightarrow> entry list \<Rightarrow> 'w init_state \<Rightarrow> (bool \<times> 'w flow) option" where
  "check_halts os [] any as st = Some (any, Running as st)"
| "check_halts os ((i, sig) # rest) any as st =
     (case swap_pending os i st of (p, st) \<Rightarrow>
        if p then map_option (Pair True) (halt_reboot_pwoff os sig as st) else check_halts os rest any as st)"

definition check_delayed_sigs :: "'w os \<Rightarrow> entry list \<Rightarrow> 'w init_state \<Rightarrow> (bool \<times> 'w flow) option" where
  "check_delayed_sigs os as st =
     (case swap_pending os 0 st of (hup, st) \<Rightarrow>
      case (if hup then read_inittab os st else (as, st)) of (as, st) \<Rightarrow>
      case swap_pending os 1 st of (cad, st) \<Rightarrow>
        do_opt (if cad then run_actions os ACT_CTRLALTDEL as st else Some (as, st))
          (\<lambda>(as, st). case swap_pending os 2 st of (quit, st) \<Rightarrow>
             if quit then map_option (Pair True) (exec_restart_action os as st)
             else check_halts os [(3, SIGTERM), (4, SIGUSR1), (5, SIGUSR2)] (hup \<or> cad) as st))"

partial_function (option) reap_loop ::
  "'w os \<Rightarrow> bool \<Rightarrow> entry list \<Rightarrow> 'w init_state \<Rightarrow> (entry list \<times> 'w init_state) option" where
  "reap_loop os nohang as st =
     (case sys os (WaitAny nohang) st of (r, st) \<Rightarrow>
        (case r of
           Exited p \<Rightarrow> reap_loop os nohang (mark_terminated p as) st
         | Signaled p \<Rightarrow> reap_loop os nohang (mark_terminated p as) st
         | _ \<Rightarrow> Some (as, st)))"

text \<open>A step that goes on only when the flow is still running.\<close>

definition and_then ::
  "'w flow \<Rightarrow> (entry list \<Rightarrow> 'w init_state \<Rightarrow> 'w flow option) \<Rightarrow> 'w flow option" where
  "and_then f k = (case f of Running as st \<Rightarrow> k as st | _ \<Rightarrow> Some f)"

definition main_iteration :: "'w os \<Rightarrow> entry list \<Rightarrow> 'w init_state \<Rightarrow> 'w flow option" where
  "main_iteration os as st =
     do_opt (check_delayed_sigs os as st) (\<lambda>(_, f). and_then f (\<lambda>as st.
     do_opt (run_actions os (ACT_RESPAWN OR ACT_ASKFIRST) as st) (\<lambda>(as, st).
     do_opt (check_delayed_sigs os as st) (\<lambda>(signaled, f). and_then f (\<lambda>as st.
       let st = (if signaled then st else do_sys os (Sleep 1) st)
       in do_opt (if signaled then Some (True, Running as st) else check_delayed_sigs os as st)
            (\<lambda>(signaled, f). and_then f (\<lambda>as st.
               map_option (\<lambda>(as, st). Running as st) (reap_loop os signaled as st))))))))"

definition is_single_user :: "string \<Rightarrow> bool" where
  "is_single_user runlevel \<longleftrightarrow> runlevel \<in> {''single'', ''-s'', ''1''}"

text \<open>The set-up before the loop, once the process is known to be PID 1.\<close>

definition init_startup :: "'w os \<Rightarrow> string \<Rightarrow> 'w init_state \<Rightarrow> (entry list \<times> 'w init_state) option" where
  "init_startup os runlevel st =
     (let st = fold (do_sys os)
        [Reboot RB_DISABLE_CAD, Chdir ''/'', Setsid, SetVar ''HOME'' ''/'',
         SetVar ''PATH'' ''/sbin:/usr/sbin:/bin:/usr/bin'', SetVar ''SHELL'' ''/bin/sh'',
         SetVar ''USER'' ''root'', SetVar ''RUNLEVEL'' runlevel] st
      in case (if is_single_user runlevel then ([mk_entry [] ACT_ONCE ''/bin/sh''], st) else read_inittab os st) of
           (as, st) \<Rightarrow>
             do_opt (run_actions os ACT_SYSINIT as (install_signal_handlers os st)) (\<lambda>(as, st).
             do_opt (run_actions os ACT_WAIT as st) (\<lambda>(as, st). run_actions os ACT_ONCE as st)))"

primrec iterate :: "nat \<Rightarrow> 'w os \<Rightarrow> entry list \<Rightarrow> 'w init_state \<Rightarrow> 'w flow option" where
  "iterate 0 os as st = Some (Running as st)"
| "iterate (Suc n) os as st = do_opt (main_iteration os as st) (\<lambda>f. and_then f (iterate n os))"

text \<open>\<open>run\<close> with a bound on the iterations of its endless loop.\<close>

definition init_run :: "nat \<Rightarrow> 'w os \<Rightarrow> string list \<Rightarrow> 'w init_state \<Rightarrow> 'w flow option" where
  "init_run n os argv st =
     (if length argv > 1 \<and> argv ! 1 = ''-q'' then Some (Exit 0 (do_sys os (Kill 1 SIGHUP) st))
      else (case sys os Getpid st of (r, st) \<Rightarrow>
              if r \<noteq> Pid 1 then Some (Exit 1 st)
              else do_opt (init_startup os (if length argv > 1 then argv ! 1 else []) st)
                     (\<lambda>(as, st). iterate n os as st)))"

section \<open>Calls and traces\<close>

definition is_fork :: "syscall \<Rightarrow> bool" where
  "is_fork c \<longleftrightarrow> (\<exists>prog. c = Fork prog)"

lemma is_fork_simps [simp]: "is_fork (Fork prog)" "\<not> is_fork (WaitAny b)"
  by (simp_all add: is_fork_def)

lemma sys_trace: "sys os c st = (r, st') \<Longrightarrow> is_trace st' = is_trace st @ [c] \<and> is_handlers st' = is_handlers st"
  by (auto simp: sys_def split: prod.splits)

lemma do_sys_trace [simp]: "is_trace (do_sys os c st) = is_trace st @ [c]"
  by (simp add: do_sys_def sys_def split: prod.splits)

lemma fold_do_sys_trace [simp]: "is_trace (fold (do_sys os) cs st) = is_trace st @ cs"
  by (induction cs arbitrary: st) simp_all

lemma spawn_trace: "spawn os a st = (p, st') \<Longrightarrow> is_trace st' = is_trace st @ [Fork (child_program a)]"
  by (auto simp: spawn_def dest: sys_trace split: prod.splits)

lemma wait_for_trace:
  "wait_for os p st = Some st' \<Longrightarrow> \<exists>n. is_trace st' = is_trace st @ replicate n (WaitAny False)"
proof (induction rule: wait_for.raw_induct [rotated 1, of os p st st', consumes 1])
  case (1 wf os p st st')
  obtain r st1 where s: "sys os (WaitAny False) st = (r, st1)" by fastforce
  note t = sys_trace [OF s]
  show ?case
  proof (cases "r = Exited p \<or> r = Signaled p \<or> r = WaitError")
    case True
    with 1(2) s t show ?thesis by (auto intro: exI [of _ 1])
  next
    case False
    with 1(2) s have "wf os p st1 = Some st'" by simp
    from 1(1) [OF this] obtain n where "is_trace st' = is_trace st1 @ replicate n (WaitAny False)" by blast
    with t show ?thesis by (auto intro: exI [of _ "Suc n"])
  qed
qed

text \<open>The entries a pass starts: those of the mask, the supervised ones only when they are not
  running.\<close>

definition respawnable :: "entry \<Rightarrow> bool" where
  "respawnable a \<longleftrightarrow> ia_action a AND (ACT_RESPAWN OR ACT_ASKFIRST) \<noteq> 0"

definition starts :: "u8 \<Rightarrow> entry \<Rightarrow> bool" where
  "starts msk a \<longleftrightarrow> ia_action a AND msk \<noteq> 0 \<and> (respawnable a \<longrightarrow> ia_pid a = None)"

definition forks :: "entry list \<Rightarrow> syscall list" where
  "forks as = map (\<lambda>a. Fork (child_program a)) as"

lemma forks_simps [simp]: "forks [] = []" "forks (a # as) = Fork (child_program a) # forks as"
    "forks (as @ bs) = forks as @ forks bs"
  by (simp_all add: forks_def)

text \<open>What a pass does to the list of entries and which calls it makes.\<close>

definition pass_entry :: "u8 \<Rightarrow> entry \<Rightarrow> entry \<Rightarrow> bool" where
  "pass_entry msk a a' \<longleftrightarrow> a' = a \<or> (starts msk a \<and> respawnable a \<and> (\<exists>p. a' = a\<lparr>ia_pid := p\<rparr>))"

definition pass_calls :: "u8 \<Rightarrow> entry list \<Rightarrow> syscall list \<Rightarrow> bool" where
  "pass_calls msk as mid \<longleftrightarrow> filter is_fork mid = forks (filter (starts msk) as) \<and>
     (\<forall>c \<in> set mid. is_fork c \<or> (c = WaitAny False \<and> waits_for_completion msk))"

lemma pass_calls_append:
  "pass_calls msk as mid \<Longrightarrow> pass_calls msk bs mid' \<Longrightarrow> pass_calls msk (as @ bs) (mid @ mid')"
  by (auto simp: pass_calls_def)

lemma pass_calls_skip: "\<not> starts msk a \<Longrightarrow> pass_calls msk [a] []"
  by (simp add: pass_calls_def)

lemma pass_calls_fork: "starts msk a \<Longrightarrow> pass_calls msk [a] [Fork (child_program a)]"
  by (simp add: pass_calls_def)

lemma pass_calls_wait:
  "starts msk a \<Longrightarrow> waits_for_completion msk \<Longrightarrow>
     pass_calls msk [a] (Fork (child_program a) # replicate n (WaitAny False))"
  by (auto simp: pass_calls_def)

lemma run_actions_pass:
  "run_actions os msk as st = Some (as', st') \<Longrightarrow>
     list_all2 (pass_entry msk) as as' \<and> (\<exists>mid. is_trace st' = is_trace st @ mid \<and> pass_calls msk as mid)"
proof (induction as arbitrary: st as')
  case Nil
  then show ?case by (simp add: pass_calls_def)
next
  case (Cons a as)
  have "\<exists>a' mid st1 as1. pass_entry msk a a' \<and> is_trace st1 = is_trace st @ mid \<and> pass_calls msk [a] mid \<and>
      run_actions os msk as st1 = Some (as1, st') \<and> as' = a' # as1"
  proof -
    obtain p st1 where sp: "spawn os a st = (p, st1)" by fastforce
    note t = spawn_trace [OF sp]
    consider (skip) "\<not> starts msk a" "\<exists>as1. run_actions os msk as st = Some (as1, st') \<and> as' = a # as1"
      | (respawn) "starts msk a" "respawnable a" "\<exists>as1. run_actions os msk as st1 = Some (as1, st') \<and> as' = a\<lparr>ia_pid := p\<rparr> # as1"
      | (other) st2 where "starts msk a" "\<exists>as1. run_actions os msk as st2 = Some (as1, st') \<and> as' = a # as1"
        "st2 = st1 \<or> (waits_for_completion msk \<and> (\<exists>q. wait_for os q st1 = Some st2))"
      using Cons.prems sp
      by (auto simp: starts_def respawnable_def Let_def bind_eq_Some_conv split: if_splits option.splits)
    then show ?thesis
    proof cases
      case skip
      then show ?thesis using pass_calls_skip by (fastforce simp: pass_entry_def)
    next
      case respawn
      then have "pass_entry msk a (a\<lparr>ia_pid := p\<rparr>)" by (auto simp: pass_entry_def starts_def)
      then show ?thesis using respawn t pass_calls_fork by blast
    next
      case other
      have "\<exists>n. is_trace st2 = is_trace st @ Fork (child_program a) # replicate n (WaitAny False) \<and>
          (n > 0 \<longrightarrow> waits_for_completion msk)"
        using other(3) t wait_for_trace by fastforce
      then have "\<exists>mid. is_trace st2 = is_trace st @ mid \<and> pass_calls msk [a] mid"
        using other(1) pass_calls_fork [of msk a] pass_calls_wait [of msk a] by (metis gr0I replicate_0)
      then show ?thesis using other(2) by (fastforce simp: pass_entry_def)
    qed
  qed
  then show ?case using Cons.IH pass_calls_append [of msk "[a]" _ as] by fastforce
qed

lemma no_wait_pass: "\<not> waits_for_completion msk \<Longrightarrow> \<exists>as' st'. run_actions os msk as st = Some (as', st')"
proof (induction as arbitrary: st)
  case (Cons a as)
  have "\<exists>as' st'. run_actions os msk as st = Some (as', st')" for st using Cons by blast
  then show ?case using Cons.prems
    by (auto simp: Let_def split: option.splits prod.splits) (metis option.distinct(1))+
qed simp

section \<open>Well-formed entries\<close>

definition act_bits :: "u8 list" where
  "act_bits = [ACT_SYSINIT, ACT_WAIT, ACT_ONCE, ACT_RESPAWN, ACT_ASKFIRST, ACT_CTRLALTDEL, ACT_SHUTDOWN, ACT_RESTART]"

text \<open>An entry names one action, and only a supervised one has a process.\<close>

definition entry_ok :: "entry \<Rightarrow> bool" where
  "entry_ok a \<longleftrightarrow> ia_action a \<in> set act_bits \<and> (ia_pid a \<noteq> None \<longrightarrow> respawnable a)"

lemma bits_disjoint: "a \<in> set act_bits \<Longrightarrow> b \<in> set act_bits \<Longrightarrow> a AND b \<noteq> 0 \<longleftrightarrow> a = b"
  by (auto simp: act_bits_def ACT_defs)

lemma respawnable_iff: "ia_action a \<in> set act_bits \<Longrightarrow> respawnable a \<longleftrightarrow> ia_action a = ACT_RESPAWN \<or> ia_action a = ACT_ASKFIRST"
  by (auto simp: respawnable_def act_bits_def ACT_defs)

lemma starts_iff:
  "entry_ok a \<Longrightarrow> msk \<in> set act_bits \<Longrightarrow> msk \<noteq> ACT_RESPAWN \<Longrightarrow> msk \<noteq> ACT_ASKFIRST \<Longrightarrow> starts msk a \<longleftrightarrow> ia_action a = msk"
  by (auto simp: starts_def entry_ok_def bits_disjoint respawnable_iff)

lemma mk_entry_simps [simp]: "ia_action (mk_entry t a p) = a" "ia_pid (mk_entry t a p) = None"
    "ia_terminal (mk_entry t a p) = t" "ia_process (mk_entry t a p) = p"
  by (simp_all add: mk_entry_def)

lemma mk_entry_ok: "a \<in> set act_bits \<Longrightarrow> entry_ok (mk_entry t a p)"
  by (simp add: entry_ok_def)

lemma action_keyword_bits: "action_keyword s = Some a \<Longrightarrow> a \<in> set act_bits"
  by (auto simp: action_keyword_def act_bits_def split: if_splits)

lemma inittab_line_ok: "inittab_line s = Some a \<Longrightarrow> entry_ok a \<and> ia_pid a = None"
  by (auto simp: inittab_line_def Let_def dest: action_keyword_bits intro: mk_entry_ok
      split: if_splits list.splits option.splits)

lemma parse_inittab_ok: "a \<in> set (parse_inittab c) \<Longrightarrow> entry_ok a \<and> ia_pid a = None"
proof -
  have "entry_ok a \<and> ia_pid a = None" if "a \<in> set default_inittab" for a
    using that by (auto simp: default_inittab_def act_bits_def intro!: mk_entry_ok)
  then show "a \<in> set (parse_inittab c) \<Longrightarrow> entry_ok a \<and> ia_pid a = None"
    using inittab_line_ok by (auto simp: parse_inittab_def Let_def map_filter_def split: option.splits if_splits)
qed

lemma parse_inittab_not_Nil: "parse_inittab c \<noteq> []"
  by (simp add: parse_inittab_def default_inittab_def Let_def split: option.splits)

lemma read_inittab_ok: "read_inittab os st = (as, st') \<Longrightarrow>
    as \<noteq> [] \<and> (\<forall>a \<in> set as. entry_ok a \<and> ia_pid a = None) \<and> is_trace st' = is_trace st @ [ReadFile ''/etc/inittab'']"
  using parse_inittab_ok parse_inittab_not_Nil by (auto simp: read_inittab_def dest: sys_trace split: prod.splits)

definition table_ok :: "entry list \<Rightarrow> bool" where
  "table_ok as \<longleftrightarrow> as \<noteq> [] \<and> (\<forall>a \<in> set as. entry_ok a)"

lemma pass_entry_ok: "pass_entry msk a a' \<Longrightarrow> entry_ok a \<Longrightarrow> entry_ok a'"
  by (auto simp: pass_entry_def entry_ok_def respawnable_def)

lemma pass_table_ok: "list_all2 (pass_entry msk) as as' \<Longrightarrow> table_ok as \<Longrightarrow> table_ok as'"
  unfolding table_ok_def list_all2_conv_all_nth by (metis in_set_conv_nth length_0_conv pass_entry_ok)

lemma run_actions_ok [rb_inv]: "run_actions os msk as st = Some (as', st') \<Longrightarrow> table_ok as \<Longrightarrow> table_ok as'"
  using run_actions_pass pass_table_ok by blast

text \<open>A pass over a single action that is not supervised leaves the table as it is.\<close>

lemma run_actions_same:
  assumes "run_actions os msk as st = Some (as', st')" "table_ok as" "msk \<in> set act_bits" "msk \<noteq> ACT_RESPAWN" "msk \<noteq> ACT_ASKFIRST"
  shows "as' = as"
proof -
  have "list_all2 (pass_entry msk) as as'" using run_actions_pass [OF assms(1)] by simp
  moreover have "a' = a" if "a \<in> set as" "pass_entry msk a a'" for a a'
    using that assms(2-5) starts_iff [of a msk] by (auto simp: pass_entry_def table_ok_def entry_ok_def respawnable_iff)
  ultimately show ?thesis by (intro nth_equalityI) (auto simp: list_all2_conv_all_nth)
qed

lemma run_actions_forks:
  assumes "run_actions os msk as st = Some (as', st')" "table_ok as" "msk \<in> set act_bits" "msk \<noteq> ACT_RESPAWN" "msk \<noteq> ACT_ASKFIRST"
  shows "\<exists>mid. is_trace st' = is_trace st @ mid \<and> filter is_fork mid = forks (filter (\<lambda>a. ia_action a = msk) as) \<and>
    (\<forall>c \<in> set mid. is_fork c \<or> c = WaitAny False)"
proof -
  have "filter (starts msk) as = filter (\<lambda>a. ia_action a = msk) as"
    using assms(2-5) starts_iff by (intro filter_cong) (auto simp: table_ok_def)
  then show ?thesis using run_actions_pass [OF assms(1)] by (auto simp: pass_calls_def)
qed

lemma mark_terminated_ok [rb_inv]: "table_ok as \<Longrightarrow> table_ok (mark_terminated p as)"
  by (auto simp: table_ok_def mark_terminated_def entry_ok_def respawnable_def)

lemma reap_loop_ok [rb_inv]: "reap_loop os nohang as st = Some (as', st') \<Longrightarrow> table_ok as \<Longrightarrow> table_ok as'"
proof -
  have "table_ok as \<longrightarrow> table_ok (fst r)" if "reap_loop os nohang as st = Some r" for r
    using that
  proof (rule reap_loop.raw_induct [of "\<lambda>os nohang as st r. table_ok as \<longrightarrow> table_ok (fst r)", rotated])
    fix rl :: "'a os \<Rightarrow> bool \<Rightarrow> entry list \<Rightarrow> 'a init_state \<Rightarrow> (entry list \<times> 'a init_state) option"
      and os nohang as st y
    assume IH: "\<And>os nohang as st y. rl os nohang as st = Some y \<Longrightarrow> table_ok as \<longrightarrow> table_ok (fst y)"
      and "(case sys os (WaitAny nohang) st of (r, st) \<Rightarrow>
        (case r of
           Exited p \<Rightarrow> rl os nohang (mark_terminated p as) st
         | Signaled p \<Rightarrow> rl os nohang (mark_terminated p as) st
         | _ \<Rightarrow> Some (as, st))) = Some y"
    then show "table_ok as \<longrightarrow> table_ok (fst y)"
      using mark_terminated_ok [of as] by (auto split: prod.splits response.splits dest!: IH)
  qed
  then show "reap_loop os nohang as st = Some (as', st') \<Longrightarrow> table_ok as \<Longrightarrow> table_ok as'" by fastforce
qed

text \<open>The loop that reaps leaves on the first response that is not the end of a child.\<close>

lemma reap_loop_last:
  assumes "reap_loop os nohang as st = Some (as', st')"
  shows "\<exists>st1 r. sys os (WaitAny nohang) st1 = (r, st') \<and> (\<forall>p. r \<noteq> Exited p \<and> r \<noteq> Signaled p)"
proof -
  let ?P = "\<lambda>os nohang (as :: entry list) st y. \<exists>st1 r. sys os (WaitAny nohang) st1 = (r, snd y) \<and> (\<forall>p. r \<noteq> Exited p \<and> r \<noteq> Signaled p)"
  from assms have "?P os nohang as st (as', st')"
  proof (rule reap_loop.raw_induct [of ?P, rotated])
    fix rl :: "'a os \<Rightarrow> bool \<Rightarrow> entry list \<Rightarrow> 'a init_state \<Rightarrow> (entry list \<times> 'a init_state) option"
      and os nohang as st and y :: "entry list \<times> 'a init_state"
    assume IH: "\<And>os nohang as st y. rl os nohang as st = Some y \<Longrightarrow> ?P os nohang as st y"
      and body: "(case sys os (WaitAny nohang) st of (r, st) \<Rightarrow>
        (case r of
           Exited p \<Rightarrow> rl os nohang (mark_terminated p as) st
         | Signaled p \<Rightarrow> rl os nohang (mark_terminated p as) st
         | _ \<Rightarrow> Some (as, st))) = Some y"
    obtain r st1 where s: "sys os (WaitAny nohang) st = (r, st1)" by fastforce
    show "?P os nohang as st y"
    proof (cases "\<exists>p. r = Exited p \<or> r = Signaled p")
      case True
      then obtain p where "rl os nohang (mark_terminated p as) st1 = Some y" using body s by auto
      from IH [OF this] show ?thesis by blast
    next
      case False
      then have "y = (as, st1)" using body s by (auto split: response.splits)
      with s False show ?thesis by auto
    qed
  qed
  then show ?thesis by simp
qed

lemma halt_exits: "halt_reboot_pwoff os sig as st = Some f \<Longrightarrow> \<exists>st'. f = Exit 0 st'"
  by (auto simp: halt_reboot_pwoff_def Let_def bind_eq_Some_conv case_prod_beta)

lemma restart_ends: "exec_restart_action os as st = Some f \<Longrightarrow> (\<exists>st'. f = Exit 0 st') \<or> (\<exists>st'. f = ReplacedBy st')"
  by (auto simp: exec_restart_action_def Let_def bind_eq_Some_conv case_prod_beta dest: halt_exits split: option.splits if_splits)

section \<open>Signals and the loop\<close>

text \<open>Calls that the delayed signals lead to while the program goes on.\<close>

definition quiet_call :: "syscall \<Rightarrow> bool" where
  "quiet_call c \<longleftrightarrow> is_fork c \<or> c = WaitAny False \<or> c = ReadFile ''/etc/inittab'' \<or> (\<exists>i. c = LoadFlag i)"

lemma swap_pending_trace [simp]: "is_trace (snd (swap_pending os i st)) = is_trace st @ [LoadFlag i]"
  by (simp add: swap_pending_def Let_def)

lemma check_halts_running:
  "check_halts os sigs any as st = Some (any', Running as' st') \<Longrightarrow>
     as' = as \<and> any' = any \<and> is_trace st' = is_trace st @ map (LoadFlag \<circ> fst) sigs"
proof (induction sigs arbitrary: st)
  case (Cons x sigs)
  obtain i sig where x: "x = (i, sig)" by fastforce
  show ?case
  proof (cases "fst (swap_pending os i st)")
    case True
    with Cons.prems x show ?thesis by (auto simp: case_prod_beta dest: halt_exits)
  next
    case False
    with Cons x show ?thesis by (auto simp: case_prod_beta)
  qed
qed simp

text \<open>When the program goes on after the delayed signals: the table is the old one, or the
  one read again, and no process was signalled.\<close>

lemma check_running:
  assumes "check_delayed_sigs os as st = Some (any, Running as' st')" "table_ok as"
  defines "hup \<equiv> is_pending (do_sys os (LoadFlag 0) st) ! 0"
  shows "table_ok as'" "hup \<Longrightarrow> any \<and> (\<forall>a \<in> set as'. ia_pid a = None)" "\<not> hup \<Longrightarrow> as' = as"
    "\<exists>mid. is_trace st' = is_trace st @ mid \<and> (\<forall>c \<in> set mid. quiet_call c)"
proof -
  define st1 where "st1 = snd (swap_pending os 0 st)"
  have sw: "swap_pending os 0 st = (hup, st1)" by (simp add: st1_def hup_def swap_pending_def Let_def)
  obtain as2 st2 where r: "(if hup then read_inittab os st1 else (as, st1)) = (as2, st2)" by fastforce
  have t2: "table_ok as2" "hup \<Longrightarrow> \<forall>a \<in> set as2. ia_pid a = None" "\<not> hup \<Longrightarrow> as2 = as"
    "\<exists>mid. is_trace st2 = is_trace st @ mid \<and> (\<forall>c \<in> set mid. quiet_call c)"
    using r assms(2) read_inittab_ok [of os st1 as2 st2]
    by (auto simp: table_ok_def st1_def quiet_call_def split: if_splits)
  obtain cad st3 where sw3: "swap_pending os 1 st2 = (cad, st3)" by fastforce
  have t3: "is_trace st3 = is_trace st2 @ [LoadFlag 1]" by (metis snd_conv sw3 swap_pending_trace)
  obtain as4 st4 where c: "(if cad then run_actions os ACT_CTRLALTDEL as2 st3 else Some (as2, st3)) = Some (as4, st4)"
    and k: "(case swap_pending os 2 st4 of (quit, st) \<Rightarrow>
        if quit then map_option (Pair True) (exec_restart_action os as4 st)
        else check_halts os [(3, SIGTERM), (4, SIGUSR1), (5, SIGUSR2)] (hup \<or> cad) as4 st) = Some (any, Running as' st')"
    using assms(1) unfolding check_delayed_sigs_def sw prod.case r sw3 by (auto simp: bind_eq_Some_conv)
  have cal: "ACT_CTRLALTDEL \<in> set act_bits" "ACT_CTRLALTDEL \<noteq> ACT_RESPAWN" "ACT_CTRLALTDEL \<noteq> ACT_ASKFIRST"
    by (simp_all add: act_bits_def ACT_defs)
  have as4: "as4 = as2" using c run_actions_same [OF _ t2(1) cal] by (auto split: if_splits)
  have "\<exists>mid. is_trace st4 = is_trace st2 @ mid \<and> (\<forall>x \<in> set mid. quiet_call x)"
  proof (cases cad)
    case True
    then obtain mid where "is_trace st4 = is_trace st3 @ mid" "\<forall>x \<in> set mid. is_fork x \<or> x = WaitAny False"
      using c run_actions_forks [OF _ t2(1) cal, of os st3 as4 st4] by auto
    then show ?thesis by (auto simp: t3 quiet_call_def)
  next
    case False
    then have "st4 = st3" using c by simp
    then show ?thesis using t3 by (intro exI [of _ "[LoadFlag 1]"]) (simp add: quiet_call_def)
  qed
  moreover have k4: "as' = as4 \<and> any = (hup \<or> cad) \<and>
      is_trace st' = is_trace st4 @ [LoadFlag 2, LoadFlag 3, LoadFlag 4, LoadFlag 5]"
    using k by (auto simp: case_prod_beta simp del: check_halts.simps dest!: restart_ends check_halts_running split: if_splits)
  moreover have "\<forall>c \<in> set [LoadFlag 2, LoadFlag 3, LoadFlag 4, LoadFlag 5]. quiet_call c" by (simp add: quiet_call_def)
  ultimately show "\<exists>mid. is_trace st' = is_trace st @ mid \<and> (\<forall>c \<in> set mid. quiet_call c)"
    using t2(4) by fastforce
  show "table_ok as'" "hup \<Longrightarrow> any \<and> (\<forall>a \<in> set as'. ia_pid a = None)" "\<not> hup \<Longrightarrow> as' = as"
    using t2 as4 k4 by auto
qed

lemma and_then_running: "and_then f k = Some (Running as st) \<longleftrightarrow> (\<exists>as' st'. f = Running as' st' \<and> k as' st' = Some (Running as st))"
  by (auto simp: and_then_def split: flow.splits)

text \<open>An iteration that goes on ends in the loop that reaps.\<close>

lemma main_iteration_running:
  assumes "main_iteration os as st = Some (Running as' st')" "table_ok as"
  obtains as1 st1 signaled where "table_ok as1" "reap_loop os signaled as1 st1 = Some (as', st')"
proof -
  from assms(1) obtain b as1 st1 as2 st2 where 1: "check_delayed_sigs os as st = Some (b, Running as1 st1)"
    "run_actions os (ACT_RESPAWN OR ACT_ASKFIRST) as1 st1 = Some (as2, st2)"
    "do_opt (check_delayed_sigs os as2 st2) (\<lambda>(signaled, f). and_then f (\<lambda>as st.
       let st = (if signaled then st else do_sys os (Sleep 1) st)
       in do_opt (if signaled then Some (True, Running as st) else check_delayed_sigs os as st)
            (\<lambda>(signaled, f). and_then f (\<lambda>as st.
               map_option (\<lambda>(as, st). Running as st) (reap_loop os signaled as st))))) = Some (Running as' st')"
    unfolding main_iteration_def by (auto simp: bind_eq_Some_conv and_then_running)
  have ok2: "table_ok as2" using 1 assms(2) check_running(1) run_actions_ok by blast
  from 1(3) obtain sg as3 st3 where 3: "check_delayed_sigs os as2 st2 = Some (sg, Running as3 st3)"
    "do_opt (if sg then Some (True, Running as3 st3) else check_delayed_sigs os as3 (do_sys os (Sleep 1) st3))
       (\<lambda>(signaled, f). and_then f (\<lambda>as st.
          map_option (\<lambda>(as, st). Running as st) (reap_loop os signaled as st))) = Some (Running as' st')"
    by (auto simp: bind_eq_Some_conv and_then_running Let_def split: if_splits)
  have ok3: "table_ok as3" using 3(1) ok2 check_running(1) by blast
  from 3(2) obtain sg2 as4 st4 where 4: "(if sg then Some (True, Running as3 st3) else check_delayed_sigs os as3 (do_sys os (Sleep 1) st3)) = Some (sg2, Running as4 st4)"
    "reap_loop os sg2 as4 st4 = Some (as', st')"
    by (auto simp: bind_eq_Some_conv and_then_running)
  have "table_ok as4" using 4(1) ok3 check_running(1) by (auto split: if_splits)
  then show thesis using 4(2) by (rule that)
qed

inductive init_reach :: "'w os \<Rightarrow> string \<Rightarrow> 'w init_state \<Rightarrow> entry list \<Rightarrow> 'w init_state \<Rightarrow> bool"
  for os runlevel st0 where
  started: "init_startup os runlevel st0 = Some (as, st) \<Longrightarrow> init_reach os runlevel st0 as st"
| iterated: "init_reach os runlevel st0 as st \<Longrightarrow> main_iteration os as st = Some (Running as' st') \<Longrightarrow>
    init_reach os runlevel st0 as' st'"

inductive_cases init_reachE: "init_reach os runlevel st0 as st"

lemma startup_passes:
  assumes "init_startup os runlevel st0 = Some (as, st)"
  obtains st1 st2 st3 where "table_ok as" "\<forall>a \<in> set as. ia_pid a = None"
    "run_actions os ACT_SYSINIT as st1 = Some (as, st2)" "run_actions os ACT_WAIT as st2 = Some (as, st3)"
    "run_actions os ACT_ONCE as st3 = Some (as, st)"
    "filter is_fork (is_trace st1) = filter is_fork (is_trace st0)"
proof -
  let ?pre = "[Reboot RB_DISABLE_CAD, Chdir ''/'', Setsid, SetVar ''HOME'' ''/'',
    SetVar ''PATH'' ''/sbin:/usr/sbin:/bin:/usr/bin'', SetVar ''SHELL'' ''/bin/sh'',
    SetVar ''USER'' ''root'', SetVar ''RUNLEVEL'' runlevel]"
  define sta where "sta = fold (do_sys os) ?pre st0"
  obtain as0 stb where r: "(if is_single_user runlevel then ([mk_entry [] ACT_ONCE ''/bin/sh''], sta) else read_inittab os sta) = (as0, stb)"
    by fastforce
  have ok: "table_ok as0" "\<forall>a \<in> set as0. ia_pid a = None" "filter is_fork (is_trace stb) = filter is_fork (is_trace st0)"
    using r read_inittab_ok [of os sta as0 stb]
    by (auto simp: table_ok_def sta_def is_fork_def act_bits_def intro!: mk_entry_ok split: if_splits)
  define st1 where "st1 = install_signal_handlers os stb"
  have f1: "filter is_fork (is_trace st1) = filter is_fork (is_trace st0)"
    using ok(3) by (simp add: st1_def install_signal_handlers_def is_fork_def)
  from assms obtain as1 st2 as2 st3 where p: "run_actions os ACT_SYSINIT as0 st1 = Some (as1, st2)"
    "run_actions os ACT_WAIT as1 st2 = Some (as2, st3)" "run_actions os ACT_ONCE as2 st3 = Some (as, st)"
    unfolding init_startup_def Let_def sta_def [symmetric] r by (auto simp: bind_eq_Some_conv st1_def)
  have b: "ACT_SYSINIT \<in> set act_bits" "ACT_SYSINIT \<noteq> ACT_RESPAWN" "ACT_SYSINIT \<noteq> ACT_ASKFIRST"
    "ACT_WAIT \<in> set act_bits" "ACT_WAIT \<noteq> ACT_RESPAWN" "ACT_WAIT \<noteq> ACT_ASKFIRST"
    "ACT_ONCE \<in> set act_bits" "ACT_ONCE \<noteq> ACT_RESPAWN" "ACT_ONCE \<noteq> ACT_ASKFIRST"
    by (simp_all add: act_bits_def ACT_defs)
  have "as1 = as0" using run_actions_same [OF p(1) ok(1) b(1-3)] .
  moreover from this have "as2 = as0" using run_actions_same [OF p(2) _ b(4-6)] ok(1) by simp
  moreover from this have "as = as0" using run_actions_same [OF p(3) _ b(7-9)] ok(1) by simp
  ultimately show thesis using that [of st1 st2 st3] p ok f1 by simp
qed

lemma init_reach_ok: "init_reach os runlevel st0 as st \<Longrightarrow> table_ok as"
proof (induction rule: init_reach.induct)
  case (started as st)
  then show ?case by (rule startup_passes)
next
  case (iterated as st as' st')
  then show ?case using main_iteration_running reap_loop_ok by metis
qed

section \<open>A small kernel\<close>

text \<open>A concrete operating system for the examples: process numbers are given out in order and
  children end in the order in which they were started.\<close>

fun demo_os :: "(pid \<times> pid list) os" where
  "demo_os (Fork _) (n, ch) = (Forked n, [], (n + 1, ch @ [n]))"
| "demo_os (ForkReboot _) (n, ch) = (Forked n, [], (n + 1, ch))"
| "demo_os (WaitAny nohang) (n, ch) =
     (case ch of
        [] \<Rightarrow> (WaitError, [], (n, []))
      | p # ps \<Rightarrow> if nohang then (OtherStatus, [], (n, ch)) else (Exited p, [], (n, ps)))"
| "demo_os Getpid w = (Pid 1, [], w)"
| "demo_os (ReadFile _) w = (Unreadable, [], w)"
| "demo_os (Execvp _ _) w = (Replaced, [], w)"
| "demo_os c w = (Done, [], w)"

definition demo_state :: "(pid \<times> pid list) init_state" where
  "demo_state = \<lparr>is_world = (2, []), is_pending = replicate 6 False, is_handlers = False, is_trace = []\<rparr>"

lemma respawn_pass:
  "\<exists>as' st'. run_actions os (ACT_RESPAWN OR ACT_ASKFIRST) as st = Some (as', st') \<and>
     is_trace st' = is_trace st @ forks (filter (\<lambda>a. respawnable a \<and> ia_pid a = None) as) \<and>
     list_all2 (\<lambda>a a'. a' = a \<or> (respawnable a \<and> ia_pid a = None \<and> (\<exists>p. a' = a\<lparr>ia_pid := p\<rparr>))) as as'"
proof -
  let ?m = "ACT_RESPAWN OR ACT_ASKFIRST"
  have w: "\<not> waits_for_completion ?m" by (simp add: waits_for_completion_def ACT_defs)
  then obtain as' st' where r: "run_actions os ?m as st = Some (as', st')" using no_wait_pass by blast
  from run_actions_pass [OF r] obtain mid where m: "is_trace st' = is_trace st @ mid" "pass_calls ?m as mid"
    "list_all2 (pass_entry ?m) as as'" by blast
  have "starts ?m a \<longleftrightarrow> respawnable a \<and> ia_pid a = None" for a by (auto simp: starts_def respawnable_def)
  moreover from m(2) w have "filter is_fork mid = mid" by (auto simp: pass_calls_def filter_id_conv)
  ultimately show ?thesis using r m by (auto simp: pass_calls_def pass_entry_def cong: filter_cong elim!: list_all2_mono)
qed

section \<open>Reading a table back\<close>

lemma split_char_first: "d \<notin> set l \<Longrightarrow> split_char d (l @ d # s) = l # split_char d s"
  by (induction l) auto

lemma split_char_none: "d \<notin> set l \<Longrightarrow> split_char d l = [l]"
  by (induction l) auto

lemma hd_split_char: "hd (split_char d s) = takeWhile (\<lambda>c. c \<noteq> d) s"
  by (induction s) (auto split: list.splits)

lemma str_lines_unlines:
  assumes "\<forall>l \<in> set ls. LF \<notin> set l \<and> (l = [] \<or> last l \<noteq> CR)"
  shows "str_lines (concat (map (\<lambda>l. l @ [LF]) ls)) = ls"
proof -
  have "split_char LF (concat (map (\<lambda>l. l @ [LF]) ls)) = ls @ [[]]"
    using assms by (induction ls) (simp_all add: split_char_first)
  moreover have "map strip_cr ls = ls" using assms by (intro map_idI) (auto simp: strip_cr_def)
  ultimately show ?thesis by (simp add: str_lines_def Let_def)
qed

lemma splitn_first: "d \<notin> set a \<Longrightarrow> splitn (Suc (Suc n)) d (a @ d # s) = a # splitn (Suc n) d s"
proof -
  assume "d \<notin> set a"
  then have "dropWhile (\<lambda>c. c \<noteq> d) (a @ d # s) = d # s" "takeWhile (\<lambda>c. c \<noteq> d) (a @ d # s) = a"
    by (auto simp: dropWhile_append takeWhile_append)
  then show ?thesis by simp
qed

lemma trim_not_Nil: "c \<in> set s \<Longrightarrow> \<not> is_whitespace c \<Longrightarrow> trim s \<noteq> []"
proof
  assume c: "c \<in> set s" "\<not> is_whitespace c" and "trim s = []"
  then have "\<forall>x \<in> set (dropWhile is_whitespace s). is_whitespace x" by (simp add: trim_def)
  then have "dropWhile is_whitespace s = []" by (metis hd_dropWhile hd_in_set)
  with c show False by auto
qed

text \<open>A line of an inittab by its parts: terminal, runlevels, keyword, process and a comment.\<close>

type_synonym source = "string \<times> string \<times> string \<times> string \<times> string"

definition source_line :: "source \<Rightarrow> string" where
  "source_line = (\<lambda>(t, rl, kw, pr, cm). t @ '':'' @ rl @ '':'' @ kw @ '':'' @ pr @ cm)"

definition source_ok :: "source \<Rightarrow> bool" where
  "source_ok = (\<lambda>(t, rl, kw, pr, cm).
     set t \<inter> set [CHR '':'', CHR ''#'', LF] = {} \<and> set rl \<inter> set [CHR '':'', CHR ''#'', LF] = {} \<and>
     set pr \<inter> set [CHR ''#'', LF] = {} \<and> action_keyword kw \<noteq> None \<and>
     LF \<notin> set cm \<and> (cm = [] \<or> hd cm = CHR ''#'') \<and> last (t @ '':'' @ rl @ '':'' @ kw @ '':'' @ pr @ cm) \<noteq> CR)"

definition source_entry :: "source \<Rightarrow> entry" where
  "source_entry = (\<lambda>(t, rl, kw, pr, cm).
     mk_entry (if t = [] then [] else ''/dev/'' @ t) (the (action_keyword kw)) pr)"

lemma keyword_chars: "action_keyword kw \<noteq> None \<Longrightarrow> set kw \<inter> set [CHR '':'', CHR ''#'', LF] = {}"
  by (auto simp: action_keyword_def split: if_splits)

lemma inittab_line_source: "source_ok l \<Longrightarrow> inittab_line (source_line l) = Some (source_entry l)"
proof -
  assume ok: "source_ok l"
  obtain t rl kw pr cm where l: "l = (t, rl, kw, pr, cm)" by (cases l)
  let ?line = "t @ CHR '':'' # rl @ CHR '':'' # kw @ CHR '':'' # pr"
  obtain act where act: "action_keyword kw = Some act" using ok l by (auto simp: source_ok_def)
  note kw = keyword_chars [of kw]
  have "\<forall>c \<in> set ?line. c \<noteq> CHR ''#''" using ok l kw by (auto simp: source_ok_def)
  moreover have "takeWhile (\<lambda>c. c \<noteq> CHR ''#'') cm = []" using ok l by (cases cm) (auto simp: source_ok_def)
  moreover have "source_line l = ?line @ cm" by (simp add: l source_line_def)
  ultimately have "hd (split_char CHR ''#'' (source_line l)) = ?line"
    by (simp add: hd_split_char del: append.simps append_assoc) (simp add: takeWhile_append2)
  moreover have "trim ?line \<noteq> []" by (rule trim_not_Nil [of "CHR '':''"]) (simp_all add: is_whitespace_def)
  moreover have "splitn (Suc (Suc (Suc (Suc 0)))) CHR '':'' ?line = [t, rl, kw, pr]"
    using ok l kw by (auto simp: source_ok_def splitn_first simp del: splitn.simps(3))
  ultimately show ?thesis by (simp add: inittab_line_def Let_def l source_entry_def act eval_nat_numeral)
qed

section \<open>Properties of the supervisor\<close>

text \<open>C23. In every state of the main loop, whatever the system answers and whichever signals
  arrive, the table has an entry, every entry names exactly one of the eight actions, and
  only an entry to be respawned has a process number.\<close>

theorem init_table_invariant:
  assumes "init_reach os runlevel st0 as st"
  shows "as \<noteq> [] \<and> (\<forall>a \<in> set as. ia_action a \<in> set act_bits \<and>
    (ia_pid a \<noteq> None \<longrightarrow> ia_action a = ACT_RESPAWN \<or> ia_action a = ACT_ASKFIRST))"
  using init_reach_ok [OF assms] by (auto simp: table_ok_def entry_ok_def respawnable_iff)

theorem init_table_invariant_witness:
  "\<exists>as st. init_reach demo_os ''single'' demo_state as st \<and> as \<noteq> []"
proof -
  have "\<exists>as st. init_startup demo_os ''single'' demo_state = Some (as, st)"
    by (simp add: init_startup_def is_single_user_def Let_def install_signal_handlers_def do_sys_def sys_def
        demo_state_def spawn_def mk_entry_def waits_for_completion_def ACT_defs)
  then obtain as st where "init_reach demo_os ''single'' demo_state as st" by (auto intro: started)
  then show ?thesis using init_table_invariant by blast
qed

text \<open>Start-up runs the table in order: the processes forked are those of the
  \<open>sysinit\<close> entries, then those of the \<open>wait\<close> entries, then those of the \<open>once\<close> entries, each
  group in the order of the file, and no other.\<close>

theorem init_startup_order:
  assumes "init_startup os runlevel st0 = Some (as, st)"
  shows "filter is_fork (is_trace st) = filter is_fork (is_trace st0)
    @ forks (filter (\<lambda>a. ia_action a = ACT_SYSINIT) as)
    @ forks (filter (\<lambda>a. ia_action a = ACT_WAIT) as)
    @ forks (filter (\<lambda>a. ia_action a = ACT_ONCE) as)"
proof -
  obtain st1 st2 st3 where p: "table_ok as" "run_actions os ACT_SYSINIT as st1 = Some (as, st2)"
    "run_actions os ACT_WAIT as st2 = Some (as, st3)" "run_actions os ACT_ONCE as st3 = Some (as, st)"
    "filter is_fork (is_trace st1) = filter is_fork (is_trace st0)"
    using startup_passes [OF assms] by metis
  have b: "ACT_SYSINIT \<in> set act_bits" "ACT_SYSINIT \<noteq> ACT_RESPAWN" "ACT_SYSINIT \<noteq> ACT_ASKFIRST"
    "ACT_WAIT \<in> set act_bits" "ACT_WAIT \<noteq> ACT_RESPAWN" "ACT_WAIT \<noteq> ACT_ASKFIRST"
    "ACT_ONCE \<in> set act_bits" "ACT_ONCE \<noteq> ACT_RESPAWN" "ACT_ONCE \<noteq> ACT_ASKFIRST"
    by (simp_all add: act_bits_def ACT_defs)
  show ?thesis
    using run_actions_forks [OF p(2,1) b(1-3)] run_actions_forks [OF p(3,1) b(4-6)]
      run_actions_forks [OF p(4,1) b(7-9)] p(5) by auto
qed

theorem init_startup_order_witness:
  "\<exists>as st. init_startup demo_os ''single'' demo_state = Some (as, st) \<and>
     filter is_fork (is_trace st) = forks (filter (\<lambda>a. ia_action a = ACT_SYSINIT) as)
       @ forks (filter (\<lambda>a. ia_action a = ACT_WAIT) as) @ forks (filter (\<lambda>a. ia_action a = ACT_ONCE) as)"
proof -
  have "\<exists>as st. init_startup demo_os ''single'' demo_state = Some (as, st)"
    by (simp add: init_startup_def is_single_user_def Let_def install_signal_handlers_def do_sys_def sys_def
        demo_state_def spawn_def mk_entry_def waits_for_completion_def ACT_defs)
  then obtain as st where s: "init_startup demo_os ''single'' demo_state = Some (as, st)" by blast
  from init_startup_order [OF s] s show ?thesis by (simp add: demo_state_def)
qed

text \<open>The pass that supervises always returns; it forks exactly the \<open>respawn\<close> and \<open>askfirst\<close>
  entries that are not running, once each and in order, and changes nothing but the process
  numbers of those.\<close>

theorem init_respawn_pass:
  "\<exists>as' st'. run_actions os (ACT_RESPAWN OR ACT_ASKFIRST) as st = Some (as', st') \<and>
     is_trace st' = is_trace st @ forks (filter (\<lambda>a. respawnable a \<and> ia_pid a = None) as) \<and>
     list_all2 (\<lambda>a a'. a' = a \<or> (respawnable a \<and> ia_pid a = None \<and> (\<exists>p. a' = a\<lparr>ia_pid := p\<rparr>))) as as'"
  by (rule respawn_pass)

text \<open>C26. A service that ends is not restarted while any other child lives: when an iteration of
  the main loop ends with a blocking wait, no child is left. The code relies here on what
  \<open>waitpid\<close> promises, that a blocking call returns the end of a child or, when there is no
  child, an error.\<close>

theorem init_blocks_until_all_children_end:
  assumes waitpid: "\<And>w r sigs w'. os (WaitAny False) w = (r, sigs, w') \<Longrightarrow>
      (\<exists>p. r = Exited p \<or> r = Signaled p) \<or> (r = WaitError \<and> children w' = {})"
    and "table_ok as" "main_iteration os as st = Some (Running as' st')" "last (is_trace st') = WaitAny False"
  shows "children (is_world st') = {}"
proof -
  obtain as1 st1 signaled where "reap_loop os signaled as1 st1 = Some (as', st')"
    using main_iteration_running [OF assms(3,2)] by metis
  from reap_loop_last [OF this] obtain st2 r where r: "sys os (WaitAny signaled) st2 = (r, st')"
    "\<forall>p. r \<noteq> Exited p \<and> r \<noteq> Signaled p" by blast
  with assms(4) have "signaled = False" using sys_trace [OF r(1)] by simp
  then obtain sigs w' where "os (WaitAny False) (is_world st2) = (r, sigs, w')" "is_world st' = w'"
    using r(1) by (auto simp: sys_def split: prod.splits)
  with waitpid [of "is_world st2" r sigs w'] r(2) show ?thesis by auto
qed

theorem init_blocks_witness:
  "\<exists>as' st'. main_iteration demo_os [mk_entry [] ACT_RESPAWN ''a'', mk_entry [] ACT_RESPAWN ''b''] demo_state = Some (Running as' st') \<and>
     set (snd (is_world st')) = {}"
proof -
  let ?as = "[mk_entry [] ACT_RESPAWN ''a'', mk_entry [] ACT_RESPAWN ''b'']"
  have "\<exists>as' st'. main_iteration demo_os ?as demo_state = Some (Running as' st') \<and> last (is_trace st') = WaitAny False"
    by (simp add: main_iteration_def check_delayed_sigs_def swap_pending_def Let_def and_then_def do_sys_def sys_def
        demo_state_def spawn_def mk_entry_def mark_terminated_def reap_loop.simps [of demo_os False] ACT_defs)
  moreover have "table_ok ?as" by (simp add: table_ok_def act_bits_def mk_entry_ok)
  moreover have "(\<exists>p. r = Exited p \<or> r = Signaled p) \<or> (r = WaitError \<and> set (snd w') = {})"
    if "demo_os (WaitAny False) w = (r, sigs, w')" for w r sigs w'
    using that by (cases w) (auto split: list.splits)
  ultimately show ?thesis
    using init_blocks_until_all_children_end [of demo_os "\<lambda>w. set (snd w)" ?as demo_state] by blast
qed

text \<open>While init waits for a \<open>ctrlaltdel\<close> process it also reaps other children, and a service
  that ends during this wait is lost: its entry keeps the process number, and the next pass
  that supervises starts nothing.\<close>

theorem init_wait_loses_respawn:
  assumes "ia_action a = ACT_RESPAWN" "ia_pid a = Some p" "ia_action c = ACT_CTRLALTDEL"
    and "os (Fork (child_program c)) (is_world st) = (Forked q, [], w1)" "q \<noteq> p"
    and "os (WaitAny False) w1 = (Exited p, [], w2)" "os (WaitAny False) w2 = (Exited q, [], w3)"
  shows "\<exists>st'. run_actions os ACT_CTRLALTDEL [a, c] st = Some ([a, c], st') \<and> is_world st' = w3 \<and>
    run_actions os (ACT_RESPAWN OR ACT_ASKFIRST) [a, c] st' = Some ([a, c], st')"
  using assms
  by (simp add: Let_def spawn_def sys_def waits_for_completion_def wait_for.simps [of os q] ACT_defs)

definition demo_service :: entry where
  "demo_service = \<lparr>ia_terminal = [], ia_action = ACT_RESPAWN, ia_process = ''getty'', ia_pid = Some 2\<rparr>"

theorem init_wait_loses_respawn_witness:
  "\<exists>st'. run_actions demo_os ACT_CTRLALTDEL [demo_service, mk_entry [] ACT_CTRLALTDEL ''reboot'']
       (demo_state\<lparr>is_world := (3, [2])\<rparr>) = Some ([demo_service, mk_entry [] ACT_CTRLALTDEL ''reboot''], st') \<and>
     is_world st' = (4, [])"
proof -
  let ?c = "mk_entry [] ACT_CTRLALTDEL ''reboot''" and ?st = "demo_state\<lparr>is_world := (3, [2])\<rparr>"
  have "ia_action demo_service = ACT_RESPAWN" "ia_pid demo_service = Some 2" "ia_action ?c = ACT_CTRLALTDEL"
    "demo_os (Fork (child_program ?c)) (is_world ?st) = (Forked 3, [], (4, [2, 3]))" "3 \<noteq> (2 :: pid)"
    "demo_os (WaitAny False) (4, [2, 3]) = (Exited 2, [], (4, [3]))" "demo_os (WaitAny False) (4, [3]) = (Exited 3, [], (4, []))"
    by (simp_all add: demo_service_def)
  from init_wait_loses_respawn [OF this] show ?thesis by blast
qed

text \<open>C28. A reload forgets what is running: after a SIGHUP no entry of the new table has a process
  number and no process has been signalled, so the next pass forks every supervised entry
  again beside the processes that still run.\<close>

theorem init_reload_forgets_processes:
  assumes "table_ok as" "is_pending (do_sys os (LoadFlag 0) st) ! 0"
    "check_delayed_sigs os as st = Some (any, Running as' st')"
  shows "(\<exists>mid. is_trace st' = is_trace st @ mid \<and> (\<forall>c \<in> set mid. \<forall>p s. c \<noteq> Kill p s)) \<and>
    (\<exists>as'' st''. run_actions os (ACT_RESPAWN OR ACT_ASKFIRST) as' st' = Some (as'', st'') \<and>
       is_trace st'' = is_trace st' @ forks (filter respawnable as'))"
proof -
  note c = check_running [OF assms(3,1)]
  have "filter (\<lambda>a. respawnable a \<and> ia_pid a = None) as' = filter respawnable as'"
    using c(2) assms(2) by (intro filter_cong) auto
  then show ?thesis using respawn_pass [of os as' st'] c(4) by (fastforce simp: quiet_call_def is_fork_def)
qed

theorem init_reload_forgets_processes_witness:
  "\<exists>any as' st' as'' st''.
     check_delayed_sigs demo_os [demo_service] (demo_state\<lparr>is_pending := True # replicate 5 False\<rparr>) = Some (any, Running as' st') \<and>
     run_actions demo_os (ACT_RESPAWN OR ACT_ASKFIRST) as' st' = Some (as'', st'') \<and>
     is_trace st'' = is_trace st' @ forks (filter respawnable as')"
proof -
  let ?st = "demo_state\<lparr>is_pending := True # replicate 5 False\<rparr>"
  have "\<exists>any as' st'. check_delayed_sigs demo_os [demo_service] ?st = Some (any, Running as' st')"
    by (auto simp: check_delayed_sigs_def swap_pending_def Let_def do_sys_def sys_def demo_state_def read_inittab_def
        eval_nat_numeral)
  then obtain any as' st' where "check_delayed_sigs demo_os [demo_service] ?st = Some (any, Running as' st')" by blast
  moreover have "table_ok [demo_service]"
    by (simp add: table_ok_def entry_ok_def demo_service_def act_bits_def respawnable_def ACT_defs)
  moreover have "is_pending (do_sys demo_os (LoadFlag 0) ?st) ! 0" by (simp add: do_sys_def sys_def demo_state_def)
  ultimately show ?thesis using init_reload_forgets_processes by blast
qed



text \<open>C30. Parsing reads back every table that is written in the documented format: whatever the
  terminals, runlevels, processes and comments, each line becomes its entry, with the
  runlevels and the comment ignored.\<close>

theorem inittab_round_trip:
  assumes "ls \<noteq> []" "\<forall>l \<in> set ls. source_ok l"
  shows "parse_inittab (Some (concat (map (\<lambda>l. source_line l @ [LF]) ls))) = map source_entry ls"
proof -
  have "\<forall>l \<in> set (map source_line ls). LF \<notin> set l \<and> (l = [] \<or> last l \<noteq> CR)"
    using assms(2) keyword_chars by (fastforce simp: source_ok_def source_line_def)
  from str_lines_unlines [OF this]
  have "str_lines (concat (map (\<lambda>l. source_line l @ [LF]) ls)) = map source_line ls" by (simp add: comp_def)
  moreover have "List.map_filter inittab_line (map source_line ls) = map source_entry ls"
    using assms(2) inittab_line_source by (induction ls) (simp_all add: map_filter_simps)
  ultimately show ?thesis using assms(1) by (simp add: parse_inittab_def Let_def)
qed

theorem inittab_round_trip_witness:
  "parse_inittab (Some (''tty1:2:respawn:/bin/getty#console'' @ [LF])) = [mk_entry ''/dev/tty1'' ACT_RESPAWN ''/bin/getty'']"
  using inittab_round_trip [of "[(''tty1'', ''2'', ''respawn'', ''/bin/getty'', ''#console'')]"]
  by (simp add: source_ok_def source_line_def source_entry_def action_keyword_def)

text \<open>Anyone but PID 1 is turned away at once: without \<open>-q\<close> the program asks for its process
  number, does nothing else and exits with status 1.\<close>

theorem init_only_pid_1:
  assumes "fst (sys os Getpid st) \<noteq> Pid 1" "length argv > 1 \<Longrightarrow> argv ! 1 \<noteq> ''-q''"
  shows "\<exists>st'. init_run n os argv st = Some (Exit 1 st') \<and> is_trace st' = is_trace st @ [Getpid]"
  using assms sys_trace [of os Getpid st] by (auto simp: init_run_def split: prod.splits)

theorem init_only_pid_1_witness:
  "\<exists>st'. init_run 5 (\<lambda>c w. (Pid 42, [], w)) [''linuxrc''] demo_state = Some (Exit 1 st') \<and> is_trace st' = [Getpid]"
  using init_only_pid_1 [of "\<lambda>c w. (Pid 42, [], w)" demo_state "[''linuxrc'']" 5] by (simp add: sys_def demo_state_def)

end
