(* ===== verification/RB_Fe.thy ===== *)
theory RB_Fe
  imports RB_Prelude
begin

text \<open>
  The Diffie-Hellman function X25519 of the TLS client, \<^verbatim>\<open>src/networking/tls_fe.rs\<close>: arithmetic in
  the field of integers modulo \<open>2^255 - 19\<close> on 32 little-endian bytes with 32-bit carries, the
  Montgomery ladder and the inversion by a power.

  A byte array is a list of length 32. The code writes results in place; every loop reads an
  index before it writes it and every function has read an array for the last time before
  an output that may be the same array is written, so results are returned as new lists.
\<close>

section \<open>Field arithmetic\<close>

text \<open>The loop that all functions end with: add a word, store a byte, keep the rest as carry.\<close>

fun carry_loop :: "u32 \<Rightarrow> u32 list \<Rightarrow> u8 list \<times> u32" where
  "carry_loop c [] = ([], c)"
| "carry_loop c (t # ts) =
     (let c = c + t in case carry_loop (drop_bit 8 c) ts of (r, c') \<Rightarrow> (ucast c # r, c'))"

text \<open>The same with the shift first, so that the last sum is kept whole.\<close>

fun acc_loop :: "u32 \<Rightarrow> u32 list \<Rightarrow> u8 list \<times> u32" where
  "acc_loop c [] = ([], c)"
| "acc_loop c (t # ts) =
     (let c = drop_bit 8 c + t in case acc_loop c ts of (r, c') \<Rightarrow> (ucast c # r, c'))"

definition words :: "u8 list \<Rightarrow> u32 list" where
  "words x = map ucast x"

text \<open>The reduction with \<open>2^255 = 19\<close>: drop the top bit of the last byte, add 19 times what is above.\<close>

definition reduce19 :: "u8 list \<Rightarrow> u32 \<Rightarrow> u8 list" where
  "reduce19 r c = fst (carry_loop (drop_bit 7 c * 19) (words (r[31 := r ! 31 AND 127])))"

definition fe_select :: "u8 list \<Rightarrow> u8 list \<Rightarrow> u8 \<Rightarrow> u8 list" where
  "fe_select zero one condition = map2 (\<lambda>z w. z XOR (- condition AND (w XOR z))) zero one"

definition fe_normalize :: "u8 list \<Rightarrow> u8 list" where
  "fe_normalize x0 =
     (let c = drop_bit 7 (ucast (x0 ! 31)) * 19 :: u32;
          x = fst (carry_loop c (words (x0[31 := x0 ! 31 AND 127])));
          (m, c) = carry_loop 19 (words (take 31 x));
          c = c + (ucast (x ! 31) - 128);
          minusp = m @ [ucast c]
      in fe_select minusp x (ucast (drop_bit 15 c AND 1)))"

definition lm_add :: "u8 list \<Rightarrow> u8 list \<Rightarrow> u8 list" where
  "lm_add a b = (case acc_loop 0 (map2 (+) (words a) (words b)) of (r, c) \<Rightarrow> reduce19 r c)"

definition lm_sub :: "u8 list \<Rightarrow> u8 list \<Rightarrow> u8 list" where
  "lm_sub a b =
     (case carry_loop 218 (map2 (\<lambda>u v. 65280 + u - v) (words (take 31 a)) (words (take 31 b))) of (r, c) \<Rightarrow>
        let c = c + (ucast (a ! 31) - ucast (b ! 31))
        in reduce19 (r @ [ucast (c AND 127)]) c)"

text \<open>One column of the product: the low part, and the part above \<open>2^256\<close> times 38.\<close>

definition mul_column :: "u8 list \<Rightarrow> u8 list \<Rightarrow> nat \<Rightarrow> u32 \<Rightarrow> u32" where
  "mul_column a b i c =
     fold (\<lambda>j c. c + ucast (a ! j) * ucast (b ! (i + 32 - j)) * 38) [Suc i..<32]
       (fold (\<lambda>j c. c + ucast (a ! j) * ucast (b ! (i - j))) [0..<Suc i] c)"

fun mul_loop :: "u8 list \<Rightarrow> u8 list \<Rightarrow> nat list \<Rightarrow> u32 \<Rightarrow> u8 list \<times> u32" where
  "mul_loop a b [] c = ([], c)"
| "mul_loop a b (i # is) c =
     (let c = mul_column a b i (drop_bit 8 c) in case mul_loop a b is c of (r, c') \<Rightarrow> (ucast c # r, c'))"

definition fe_mul__distinct :: "u8 list \<Rightarrow> u8 list \<Rightarrow> u8 list" where
  "fe_mul__distinct a b = (case mul_loop a b [0..<32] 0 of (r, c) \<Rightarrow> reduce19 r c)"

definition fe_mul_c :: "u8 list \<Rightarrow> u32 \<Rightarrow> u8 list" where
  "fe_mul_c a b = (case acc_loop 0 (map (\<lambda>x. b * x) (words a)) of (r, c) \<Rightarrow> reduce19 r c)"

section \<open>Inversion and the curve\<close>

definition inv_round :: "u8 list \<Rightarrow> u8 list \<Rightarrow> u8 list" where
  "inv_round x r = fe_mul__distinct (fe_mul__distinct r r) x"

definition fe_inv__distinct :: "u8 list \<Rightarrow> u8 list" where
  "fe_inv__distinct x =
     (let s = fe_mul__distinct x x;
          r = fe_mul__distinct s x;
          r = (inv_round x ^^ 248) r;
          s = fe_mul__distinct r r;
          r = fe_mul__distinct s s;
          s = fe_mul__distinct r x;
          r = fe_mul__distinct s s;
          s = fe_mul__distinct r r;
          r = fe_mul__distinct s x;
          s = fe_mul__distinct r r
      in fe_mul__distinct s x)"

definition xc_diffadd ::
  "u8 list \<Rightarrow> u8 list \<Rightarrow> u8 list \<Rightarrow> u8 list \<Rightarrow> u8 list \<Rightarrow> u8 list \<Rightarrow> u8 list \<times> u8 list" where
  "xc_diffadd x1 z1 x2 z2 x3 z3 =
     (let a = lm_add x2 z2;
          b = lm_sub x3 z3;
          da = fe_mul__distinct a b;
          b = lm_sub x2 z2;
          a = lm_add x3 z3;
          cb = fe_mul__distinct a b;
          a = lm_add da cb;
          b = fe_mul__distinct a a;
          x5 = fe_mul__distinct z1 b;
          a = lm_sub da cb;
          b = fe_mul__distinct a a
      in (x5, fe_mul__distinct x1 b))"

definition xc_double :: "u8 list \<Rightarrow> u8 list \<Rightarrow> u8 list \<times> u8 list" where
  "xc_double x1 z1 =
     (let x1sq = fe_mul__distinct x1 x1;
          z1sq = fe_mul__distinct z1 z1;
          x1z1 = fe_mul__distinct x1 z1;
          a = lm_sub x1sq z1sq;
          x3 = fe_mul__distinct a a;
          a = fe_mul_c x1z1 486662;
          a = lm_add x1sq a;
          a = lm_add z1sq a;
          x1sq = fe_mul__distinct x1z1 a
      in (x3, fe_mul_c x1sq 4))"

record ladder =
  xm :: "u8 list"
  zm :: "u8 list"
  xm1 :: "u8 list"
  zm1 :: "u8 list"

definition f25519_one :: "u8 list" where
  "f25519_one = 1 # replicate 31 0"

definition scalar_bit :: "u8 list \<Rightarrow> nat \<Rightarrow> u8" where
  "scalar_bit e i = drop_bit (i mod 8) (e ! (i div 8)) AND 1"

definition ladder_step :: "u8 list \<Rightarrow> u8 list \<Rightarrow> nat \<Rightarrow> ladder \<Rightarrow> ladder" where
  "ladder_step e q i z =
     (let b = scalar_bit e i;
          (px1, pz1) = xc_diffadd q f25519_one (xm z) (zm z) (xm1 z) (zm1 z);
          (px, pz) = xc_double (xm z) (zm z);
          (xms, zms) = xc_diffadd px1 pz1 px pz q f25519_one
      in \<lparr>xm = fe_select px xms b, zm = fe_select pz zms b,
          xm1 = fe_select px1 px b, zm1 = fe_select pz1 pz b\<rparr>)"

definition curve25519 :: "u8 list \<Rightarrow> u8 list \<Rightarrow> u8 list" where
  "curve25519 e q =
     (let z = fold (ladder_step e q) (rev [0..<254])
            \<lparr>xm = q, zm = f25519_one, xm1 = f25519_one, zm1 = replicate 32 0\<rparr>;
          zinv = fe_inv__distinct (zm z)
      in fe_normalize (fe_mul__distinct zinv (xm z)))"

section \<open>Values\<close>

primrec wval :: "u32 list \<Rightarrow> nat" where
  "wval [] = 0"
| "wval (t # ts) = unat t + 256 * wval ts"

lemma unat_ucast_u32: "unat (ucast (b :: u8) :: u32) = unat b"
  using unsigned_less [of b, where 'a = nat] by (simp add: unsigned_ucast_eq take_bit_nat_eq_self)

lemma wval_words [simp]: "wval (words x) = bval x"
  by (induction x) (simp_all add: words_def unat_ucast_u32)

lemma length_words [simp]: "length (words x) = length x"
  by (simp add: words_def)

lemma unat_low_byte: "unat (ucast (c :: u32) :: u8) = unat c mod 256"
  by (simp add: unsigned_ucast_eq take_bit_eq_mod)

lemma unat_shift: "unat (drop_bit n (c :: u32)) = unat c div 2 ^ n"
  by (simp only: unat_drop_bit_eq) (rule drop_bit_eq_div)

lemma unat_shift8: "unat (drop_bit 8 (c :: u32)) = unat c div 256"
  using unat_shift [of 8 c] by (simp only: power_numeral Num.pow.simps Num.sqr.simps)

lemma carry_step:
  fixes s :: nat
  assumes "b + P * q = s div 256 + w"
  shows "s mod 256 + 256 * b + 256 * P * q = s + 256 * w"
proof -
  have "256 * b + 256 * (P * q) = 256 * (s div 256) + 256 * w" using assms by simp
  moreover have "s mod 256 + 256 * (s div 256) = s" by simp
  ultimately show ?thesis by linarith
qed

lemma carry_loop_val:
  "carry_loop c ts = (r, c') \<Longrightarrow> \<forall>t \<in> set ts. unat t < 2 ^ 31 \<Longrightarrow> unat c < 2 ^ 31 \<Longrightarrow>
     length r = length ts \<and> unat c' < 2 ^ 31 \<and> bval r + 256 ^ length ts * unat c' = unat c + wval ts"
proof (induction ts arbitrary: c r)
  case (Cons t ts)
  obtain r1 where r1: "carry_loop (drop_bit 8 (c + t)) ts = (r1, c')" "r = ucast (c + t) # r1"
    using Cons.prems(1) by (auto simp: Let_def split: prod.splits)
  have s: "unat (c + t) = unat c + unat t"
    using Cons.prems(2,3) by (intro unat_add_lem [THEN iffD1]) simp
  have b: "unat (drop_bit 8 (c + t)) < 2 ^ 31"
    using Cons.prems(2,3) s unfolding unat_shift8 by (intro less_mult_imp_div_less) simp
  note IH = Cons.IH [OF r1(1) _ b]
  have "bval r1 + 256 ^ length ts * unat c' = (unat c + unat t) div 256 + wval ts"
    using IH Cons.prems(2) s by (simp add: unat_shift8)
  from carry_step [OF this] show ?case
    using IH Cons.prems(2) r1(2) s by (simp add: unat_low_byte)
qed simp

lemma acc_loop_val:
  "acc_loop c ts = (r, c') \<Longrightarrow> \<forall>t \<in> set ts. unat t < T \<Longrightarrow> T \<le> 2 ^ 31 \<Longrightarrow>
     length r = length ts \<and> bval r + 256 ^ length ts * (unat c' div 256) = unat c div 256 + wval ts \<and>
     (ts \<noteq> [] \<longrightarrow> last r = ucast c' \<and> unat c' < T + 2 ^ 24)"
proof (induction ts arbitrary: c r)
  case (Cons t ts)
  let ?c = "drop_bit 8 c + t"
  obtain r1 where r1: "acc_loop ?c ts = (r1, c')" "r = ucast ?c # r1"
    using Cons.prems(1) by (auto simp: Let_def split: prod.splits)
  have c8: "unat (drop_bit 8 c) < 2 ^ 24"
    using unsigned_less [of c, where 'a = nat] by (simp add: unat_shift8 less_mult_imp_div_less)
  have "unat (drop_bit 8 c) + unat t < 2 ^ 32" using c8 Cons.prems(2,3) by simp
  then have s: "unat ?c = unat c div 256 + unat t"
    using unat_add_lem [of "drop_bit 8 c" t] by (simp add: unat_shift8)
  note IH = Cons.IH [OF r1(1)]
  have "bval r1 + 256 ^ length ts * (unat c' div 256) = unat ?c div 256 + wval ts"
    using IH Cons.prems(2,3) by simp
  from carry_step [OF this] have "bval r + 256 ^ length (t # ts) * (unat c' div 256) = unat c div 256 + wval (t # ts)"
    using r1(2) s by (simp add: unat_low_byte)
  moreover have "last r = ucast c' \<and> unat c' < T + 2 ^ 24"
  proof (cases ts)
    case Nil
    then show ?thesis using r1 s c8 Cons.prems(2) by (auto simp: unat_shift8)
  next
    case (Cons a list)
    then have "r1 \<noteq> []" using IH Cons.prems by auto
    then show ?thesis using IH Cons r1(2) \<open>\<forall>t \<in> set (t # ts). unat t < T\<close> \<open>T \<le> 2 ^ 31\<close> by simp
  qed
  ultimately show ?case using IH Cons.prems(2,3) r1(2) by simp
qed simp

section \<open>The field and reduction\<close>

text \<open>The prime, and the field element an array stands for.\<close>

definition p25519 :: int where
  "p25519 = 2 ^ 255 - 19"

definition fval :: "u8 list \<Rightarrow> int" where
  "fval x = int (bval x) mod p25519"

text \<open>What the operations keep: 32 bytes, and not much above \<open>2^255\<close>.\<close>

definition fe_ok :: "u8 list \<Rightarrow> bool" where
  "fe_ok x \<longleftrightarrow> length x = 32 \<and> bval x < 2 ^ 255 + 2 ^ 26"

lemma p25519_pos [simp]: "0 < p25519"
  by (simp add: p25519_def)

lemma fe_ok_length [dest, simp]: "fe_ok x \<Longrightarrow> length x = 32"
  by (simp add: fe_ok_def)

lemma unat_and_127_u8: "unat (b AND 127 :: 'a :: len word) = unat b mod 128"
proof -
  have "b AND 127 = take_bit 7 b" by (simp add: take_bit_eq_mask mask_eq_exp_minus_1)
  then have "unat (b AND 127) = take_bit 7 (unat b)" by (simp only: unsigned_take_bit_eq)
  then show ?thesis by (simp add: take_bit_eq_mod)
qed

lemma unat_shift7: "unat (drop_bit 7 (c :: u32)) = unat c div 128"
proof -
  have "(2 :: nat) ^ 7 = 128" by simp
  then show ?thesis by (simp only: unat_shift)
qed

lemma take_Suc_snoc: "length r = Suc n \<Longrightarrow> r = take n r @ [r ! n]"
  by (metis lessI take_Suc_conv_app_nth take_all order_refl)

lemma bval_snoc: "bval (x @ [b]) = bval x + 256 ^ length x * unat b"
  by (simp add: bval_append)

lemma bval_update_31: "length r = 32 \<Longrightarrow> bval (r[31 := b]) = bval (take 31 r) + 256 ^ 31 * unat b"
proof -
  assume l: "length r = 32"
  then have "r[31 := b] = take 31 r @ [b]"
    using upd_conv_take_nth_drop [of 31 r b] by simp
  then show ?thesis using l by (simp only: bval_snoc) simp
qed

lemma words_small: "\<forall>t \<in> set (words x). unat t < 2 ^ 31"
proof
  fix t
  assume "t \<in> set (words x)"
  then obtain b where "t = ucast (b :: u8)" by (auto simp: words_def)
  then have "unat t < 256" using unat_byte_less [of b] by (simp only: unat_ucast_u32)
  then show "unat t < 2 ^ 31" by simp
qed

lemma top_split: "l + 256 ^ 31 * c = l + 256 ^ 31 * (c mod 128) + (2 ^ 255 :: nat) * (c div 128)"
proof -
  have "c = c mod 128 + 128 * (c div 128)" by simp
  then have "(256 :: nat) ^ 31 * c = 256 ^ 31 * (c mod 128) + 256 ^ 31 * 128 * (c div 128)"
    by (metis add_mult_distrib2 mult.assoc)
  then show ?thesis by simp
qed

text \<open>The final reduction: its value, and that it is a field element again.\<close>

lemma reduce19_eq:
  assumes r: "length r = 32" "unat (r ! 31) mod 128 = unat c mod 128" and c: "unat c < 2 ^ 28"
  shows "length (reduce19 r c) = 32 \<and>
    bval (reduce19 r c) = bval (take 31 r) + 256 ^ 31 * (unat c mod 128) + 19 * (unat c div 128)"
proof -
  have d: "unat (drop_bit 7 c * 19) = 19 * (unat c div 128)"
  proof -
    have "unat (drop_bit 7 c) = unat c div 128"
      by (rule unat_shift7)
    moreover have "unat (19 :: u32) = 19" by simp
    moreover have "unat c div 128 < 2 ^ 21" using c by (intro less_mult_imp_div_less) simp
    ultimately show ?thesis using unat_mult_lem [of "drop_bit 7 c" 19] by (simp del: unat_numeral)
  qed
  let ?x = "r[31 := r ! 31 AND 127]"
  obtain q k where l: "carry_loop (drop_bit 7 c * 19) (words ?x) = (q, k)" by fastforce
  have "unat c div 128 < 2 ^ 21" using c by (intro less_mult_imp_div_less) simp
  then have dl: "19 * (unat c div 128) < 2 ^ 26" by simp
  have v: "length q = 32" "bval q + 256 ^ 32 * unat k = 19 * (unat c div 128) + bval ?x"
    using carry_loop_val [OF l words_small] d dl r(1) by simp_all
  have x: "bval ?x = bval (take 31 r) + 256 ^ 31 * (unat c mod 128)"
    using bval_update_31 [OF r(1)] r(2) by (simp add: unat_and_127_u8)
  have "bval (take 31 r) < 256 ^ 31" using bval_bound [of "take 31 r"] r(1) by simp
  moreover have "unat c mod 128 \<le> 127" by simp
  ultimately have "bval ?x < 2 ^ 255" using x by simp
  then have "k = 0" using v(2) dl by (cases "unat k") (auto simp: unsigned_eq_0_iff)
  then show ?thesis using l v x by (simp add: reduce19_def)
qed

lemma reduce19_field:
  assumes "length r = 32" "unat (r ! 31) mod 128 = unat c mod 128" "unat c < 2 ^ 28"
  shows "fe_ok (reduce19 r c)"
    and "fval (reduce19 r c) = int (bval (take 31 r) + 256 ^ 31 * unat c) mod p25519"
proof -
  let ?l = "bval (take 31 r)" and ?h = "unat c div 128" and ?m = "unat c mod 128"
  note e = reduce19_eq [OF assms]
  have "?l < 256 ^ 31" using bval_bound [of "take 31 r"] assms(1) by simp
  moreover have "?m \<le> 127" by simp
  ultimately have "?l + 256 ^ 31 * ?m < 2 ^ 255" by simp
  moreover have "?h < 2 ^ 21" using assms(3) by (intro less_mult_imp_div_less) simp
  ultimately have "?l + 256 ^ 31 * ?m + 19 * ?h < 2 ^ 255 + 2 ^ 26" by simp
  then show "fe_ok (reduce19 r c)" using e unfolding fe_ok_def by simp
  have "?l + 256 ^ 31 * unat c = ?l + 256 ^ 31 * ?m + 2 ^ 255 * ?h" by (rule top_split)
  then have "int (?l + 256 ^ 31 * unat c) = int (?l + 256 ^ 31 * ?m + 19 * ?h) + p25519 * int ?h"
    by (simp add: p25519_def algebra_simps)
  then show "fval (reduce19 r c) = int (?l + 256 ^ 31 * unat c) mod p25519"
    using e unfolding fval_def by (simp only: mod_mult_self2)
qed

lemma acc_reduce:
  assumes l: "acc_loop 0 ts = (r, c)" and ts: "length ts = 32" "\<forall>t \<in> set ts. unat t < 2 ^ 27"
  shows "fe_ok (reduce19 r c) \<and> fval (reduce19 r c) = int (wval ts) mod p25519"
proof -
  have v: "length r = 32" "bval r + 256 ^ 32 * (unat c div 256) = wval ts"
    "last r = ucast c" "unat c < 2 ^ 28"
    using acc_loop_val [OF l ts(2)] ts(1) by auto
  have r31: "r ! 31 = ucast c" using v(1,3) last_conv_nth [of r] by fastforce
  then have u: "unat (r ! 31) = unat c mod 256" by (simp only: unat_low_byte)
  then have m: "unat (r ! 31) mod 128 = unat c mod 128" by (simp add: mod_mod_cancel)
  have "bval r = bval (take 31 r) + 256 ^ 31 * (unat c mod 256)"
    using bval_snoc [of "take 31 r" "r ! 31"] take_Suc_snoc [of r 31] v(1) u by simp
  moreover have "(256 :: nat) ^ 31 * (unat c mod 256) + 256 ^ 32 * (unat c div 256) = 256 ^ 31 * unat c"
  proof -
    have "(256 :: nat) ^ 32 = 256 ^ 31 * 256" by simp
    then have "(256 :: nat) ^ 31 * (unat c mod 256) + 256 ^ 32 * (unat c div 256)
        = 256 ^ 31 * (unat c mod 256 + 256 * (unat c div 256))" by (simp only: add_mult_distrib2 mult.assoc)
    then show ?thesis by simp
  qed
  ultimately have "bval (take 31 r) + 256 ^ 31 * unat c = wval ts" using v(2) by linarith
  then show ?thesis using reduce19_field [OF v(1) m v(4)] by simp
qed

section \<open>Addition, subtraction and multiplication by a constant\<close>

lemma lm_add_field:
  assumes "length a = 32" "length b = 32"
  shows "fe_ok (lm_add a b)" "fval (lm_add a b) = (fval a + fval b) mod p25519"
proof -
  let ?ts = "map2 (+) (words a) (words b)"
  have s: "unat (ucast u + ucast v :: u32) = unat u + unat v" for u v :: u8
    using unat_byte_less [of u] unat_byte_less [of v] unat_add_lem [of "ucast u :: u32" "ucast v"]
    by (simp add: unat_ucast_u32)
  have w: "wval ?ts = bval a + bval b"
    using assms(1)[folded assms(2)] by (induction a b rule: list_induct2) (simp_all add: words_def s)
  have t: "unat t < 2 ^ 27" if "t \<in> set ?ts" for t
  proof -
    from that obtain u v :: u8 where "t = ucast u + ucast v" by (auto simp: words_def in_set_zip)
    then show ?thesis using unat_byte_less [of u] unat_byte_less [of v] by (simp add: s)
  qed
  obtain r c where l: "acc_loop 0 ?ts = (r, c)" by fastforce
  from acc_reduce [OF l] t w assms
  have "fe_ok (reduce19 r c) \<and> fval (reduce19 r c) = int (bval a + bval b) mod p25519" by simp
  then show "fe_ok (lm_add a b)" "fval (lm_add a b) = (fval a + fval b) mod p25519"
    using l by (simp_all add: lm_add_def fval_def mod_simps)
qed

lemma fe_mul_c_field:
  assumes "length a = 32" "unat b < 2 ^ 19"
  shows "fe_ok (fe_mul_c a b)" "fval (fe_mul_c a b) = int (unat b) * fval a mod p25519"
proof -
  let ?ts = "map (\<lambda>x. b * x) (words a)"
  have lt: "unat b * unat u < 2 ^ 27" for u :: u8
  proof -
    have "unat b * unat u \<le> unat b * 255" using unat_byte_less [of u] by (intro mult_le_mono2) simp
    also have "\<dots> < 2 ^ 27" using assms(2) by simp
    finally show ?thesis .
  qed
  have s: "unat (b * ucast u) = unat b * unat u" for u :: u8
    using lt [of u] unat_mult_lem [of b "ucast u"] by (simp add: unat_ucast_u32)
  have w: "wval ?ts = unat b * bval a"
    by (induction a) (simp_all add: words_def s algebra_simps)
  have t: "unat t < 2 ^ 27" if "t \<in> set ?ts" for t
    using that lt by (auto simp: words_def s)
  obtain r c where l: "acc_loop 0 ?ts = (r, c)" by fastforce
  from acc_reduce [OF l] t w assms
  have "fe_ok (reduce19 r c) \<and> fval (reduce19 r c) = int (unat b * bval a) mod p25519" by simp
  then show "fe_ok (fe_mul_c a b)" "fval (fe_mul_c a b) = int (unat b) * fval a mod p25519"
    using l by (simp_all add: fe_mul_c_def fval_def mod_simps)
qed

lemma sub_byte: "unat (65280 + ucast u - ucast v :: u32) = 65280 + unat u - unat v" for u v :: u8
proof -
  have "unat (65280 + ucast u :: u32) = 65280 + unat u"
    using unat_byte_less [of u] unat_add_lem [of "65280 :: u32" "ucast u"] by (simp add: unat_ucast_u32)
  moreover have "(ucast v :: u32) \<le> 65280 + ucast u"
    using unat_byte_less [of v] calculation by (simp add: word_le_nat_alt unat_ucast_u32)
  ultimately show ?thesis using unat_sub [of "ucast v" "65280 + ucast u :: u32"] by (simp add: unat_ucast_u32)
qed

lemma sub_loop_val:
  assumes "length a = length b"
  shows "wval (map2 (\<lambda>u v. 65280 + u - v) (words a) (words b)) + bval b + 256 =
    256 * 256 ^ length a + bval a"
  using assms
proof (induction a b rule: list_induct2)
  case (Cons u a v b)
  have "unat v \<le> 65280 + unat u" using unat_byte_less [of v] by simp
  then show ?case using Cons.IH by (simp add: words_def sub_byte)
qed (simp add: words_def)

text \<open>The top word of \<open>a + 2 p - b\<close> does not underflow, and the whole has that value.\<close>

lemma sub_top:
  fixes R M C W A B :: nat
  assumes c: "R + M * C = 218 + W" and w: "W + B + 256 = 256 * M + A"
    and a: "va = A + M * a" and b: "vb = B + M * b" and bb: "vb + 38 \<le> 256 * M" and r: "R < M"
  shows "b \<le> C + a" "R + M * (C + a - b) + vb + 38 = 256 * M + va"
proof -
  have tot: "R + M * (C + a) + vb + 38 = 256 * M + va + M * b"
    using c w a b by (simp add: algebra_simps)
  show ge: "b \<le> C + a"
  proof (rule ccontr)
    assume "\<not> b \<le> C + a"
    then have "M * Suc (C + a) \<le> M * b" by (intro mult_le_mono2) simp
    then show False using tot bb r by simp
  qed
  have "M * (C + a) = M * (C + a - b) + M * b" using ge by (simp flip: add_mult_distrib2)
  then show "R + M * (C + a - b) + vb + 38 = 256 * M + va" using tot by linarith
qed

lemma lm_sub_field:
  assumes "length a = 32" "fe_ok b"
  shows "fe_ok (lm_sub a b)" "fval (lm_sub a b) = (fval a - fval b) mod p25519"
proof -
  let ?ts = "map2 (\<lambda>u v. 65280 + u - v) (words (take 31 a)) (words (take 31 b))"
  have t: "unat t < 2 ^ 31" if "t \<in> set ?ts" for t
  proof -
    from that obtain u v :: u8 where "t = 65280 + ucast u - ucast v" by (auto simp: words_def in_set_zip)
    then have "unat t = 65280 + unat u - unat v" by (simp only: sub_byte)
    then show ?thesis using unat_byte_less [of u] by simp
  qed
  obtain r c where l: "carry_loop 218 ?ts = (r, c)" by fastforce
  have v: "length r = 31" "unat c < 2 ^ 31" "bval r + 256 ^ 31 * unat c = 218 + wval ?ts"
    using carry_loop_val [OF l] t assms by simp_all
  have w: "wval ?ts + bval (take 31 b) + 256 = 256 ^ 32 + bval (take 31 a)"
    using sub_loop_val [of "take 31 a" "take 31 b"] assms by simp
  have ab: "bval a = bval (take 31 a) + 256 ^ 31 * unat (a ! 31)"
    "bval b = bval (take 31 b) + 256 ^ 31 * unat (b ! 31)"
    using bval_snoc [of "take 31 a" "a ! 31"] take_Suc_snoc [of a 31]
      bval_snoc [of "take 31 b" "b ! 31"] take_Suc_snoc [of b 31] assms by simp_all
  have bb: "bval b + 38 \<le> 256 * 256 ^ 31" using assms(2) by (simp add: fe_ok_def)
  have rb: "bval r < 256 ^ 31" using bval_bound [of r] v(1) by simp
  define d where "d = unat c + unat (a ! 31) - unat (b ! 31)"
  have ge: "unat (b ! 31) \<le> unat c + unat (a ! 31)"
    and val: "bval r + 256 ^ 31 * d + bval b + 38 = 256 ^ 32 + bval a"
    using sub_top [OF v(3) _ ab bb rb] w by (simp_all add: d_def)
  let ?c = "c + (ucast (a ! 31) - ucast (b ! 31)) :: u32"
  have cd: "unat ?c = d"
  proof -
    have "unat (c + ucast (a ! 31)) = unat c + unat (a ! 31)"
      using v(2) unat_byte_less [of "a ! 31"] unat_add_lem [of c "ucast (a ! 31)"] by (simp add: unat_ucast_u32)
    moreover have "(ucast (b ! 31) :: u32) \<le> c + ucast (a ! 31)"
      using calculation ge by (simp add: word_le_nat_alt unat_ucast_u32)
    ultimately have "unat (c + ucast (a ! 31) - ucast (b ! 31)) = d"
      using unat_sub [of "ucast (b ! 31)" "c + ucast (a ! 31)"] by (simp add: d_def unat_ucast_u32)
    then show ?thesis by (simp only: add_diff_eq)
  qed
  have "bval a < 256 ^ 32" using bval_bound [of a] assms(1) by simp
  then have "256 ^ 31 * d < 256 ^ 31 * 2 ^ 28" using val by simp
  then have db: "unat ?c < 2 ^ 28" using cd by simp
  let ?r = "r @ [ucast (?c AND 127)]"
  have m: "unat (?r ! 31) mod 128 = unat ?c mod 128"
    using v(1) by (simp add: nth_append unat_low_byte unat_and_127_u8 mod_mod_cancel)
  have "lm_sub a b = reduce19 ?r ?c" using l by (simp add: lm_sub_def Let_def)
  with reduce19_field [OF _ m db] v(1) cd
  have res: "fe_ok (lm_sub a b)" "fval (lm_sub a b) = int (bval r + 256 ^ 31 * d) mod p25519" by simp_all
  show "fe_ok (lm_sub a b)" by (rule res)
  have "int (bval r + 256 ^ 31 * d) = int (bval a) - int (bval b) + 2 * p25519"
    using val by (simp add: p25519_def)
  then show "fval (lm_sub a b) = (fval a - fval b) mod p25519" using res(2) by (simp add: fval_def mod_simps)
qed

section \<open>Multiplication\<close>

text \<open>The factor of \<open>a ! j\<close> in column \<open>i\<close>: a rotation of \<open>b\<close>, the part that wraps around times 38.\<close>

definition mul_factor :: "u8 list \<Rightarrow> nat \<Rightarrow> nat \<Rightarrow> nat" where
  "mul_factor b j i = (if j \<le> i then unat (b ! (i - j)) else 38 * unat (b ! (i + 32 - j)))"

primrec nval :: "nat list \<Rightarrow> nat" where
  "nval [] = 0"
| "nval (n # ns) = n + 256 * nval ns"

lemma wval_nval: "wval ts = nval (map unat ts)"
  by (induction ts) simp_all

lemma bval_nval: "bval x = nval (map unat x)"
  by (induction x) simp_all

lemma nval_append: "nval (x @ y) = nval x + 256 ^ length x * nval y"
  by (induction x) (simp_all add: algebra_simps)

lemma nval_scale: "nval (map (\<lambda>x. k * f x) xs) = k * nval (map f xs)"
  by (induction xs) (simp_all add: algebra_simps)

lemma nval_sum: "nval (map (\<lambda>i. \<Sum>j\<in>J. f j i) is) = (\<Sum>j\<in>J. nval (map (f j) is))"
  by (induction "is") (simp_all add: sum.distrib sum_distrib_left)

lemma bval_sum: "bval x = (\<Sum>j<length x. unat (x ! j) * 256 ^ j)"
proof (induction x)
  case (Cons b x)
  have "(\<Sum>j<length (b # x). unat ((b # x) ! j) * 256 ^ j)
      = unat b + (\<Sum>j<length x. unat (x ! j) * 256 ^ Suc j)"
    by (simp only: length_Cons sum.lessThan_Suc_shift) simp
  then show ?case using Cons by (simp add: sum_distrib_left algebra_simps)
qed simp

lemma mul_factor_rotates:
  assumes "length b = 32" "j < 32"
  shows "map (mul_factor b j) [0..<32] =
    map (\<lambda>x. 38 * unat x) (drop (32 - j) b) @ map unat (take (32 - j) b)"
  using assms by (intro nth_equalityI) (auto simp: mul_factor_def nth_append add.commute)

lemma mul_factor_val:
  assumes "length b = 32" "j < 32"
  shows "int (nval (map (mul_factor b j) [0..<32])) mod p25519 = int (256 ^ j * bval b) mod p25519"
proof -
  let ?lo = "bval (take (32 - j) b)" and ?hi = "bval (drop (32 - j) b)"
  have n: "nval (map (mul_factor b j) [0..<32]) = 38 * ?hi + 256 ^ j * ?lo"
    using assms by (simp only: mul_factor_rotates nval_append nval_scale bval_nval) simp
  have "bval b = ?lo + 256 ^ (32 - j) * ?hi"
    using bval_append [of "take (32 - j) b" "drop (32 - j) b"] assms by simp
  then have "256 ^ j * bval b = 256 ^ j * ?lo + 256 ^ j * 256 ^ (32 - j) * ?hi"
    by (simp add: algebra_simps)
  also have "(256 :: nat) ^ j * 256 ^ (32 - j) = 256 ^ 32"
    using assms(2) by (simp only: power_add [symmetric]) simp
  finally have "int (256 ^ j * bval b) = int (38 * ?hi + 256 ^ j * ?lo) + p25519 * (2 * int ?hi)"
    by (simp add: p25519_def)
  then show ?thesis unfolding n by (simp only: mod_mult_self2)
qed

lemma fold_plus: "fold (\<lambda>j c. c + f j) js c = c + (\<Sum>j\<leftarrow>js. f j)" for c :: "'a :: comm_monoid_add"
  by (induction js arbitrary: c) (simp_all add: ac_simps)

lemma unat_sum_list:
  "(\<Sum>j\<leftarrow>js. unat (f j)) < 2 ^ 32 \<Longrightarrow> unat (\<Sum>j\<leftarrow>js. f j) = (\<Sum>j\<leftarrow>js. unat (f j))" for f :: "nat \<Rightarrow> u32"
proof (induction js)
  case (Cons j js)
  then show ?case using unat_add_lem [of "f j" "\<Sum>j\<leftarrow>js. f j"] by simp
qed simp

definition mul_term :: "u8 list \<Rightarrow> u8 list \<Rightarrow> nat \<Rightarrow> nat \<Rightarrow> u32" where
  "mul_term a b i j = (if j \<le> i then ucast (a ! j) * ucast (b ! (i - j))
     else ucast (a ! j) * ucast (b ! (i + 32 - j)) * 38)"

lemma mul_column_sum: "i < 32 \<Longrightarrow> mul_column a b i c = c + (\<Sum>j\<leftarrow>[0..<32]. mul_term a b i j)"
proof -
  assume i: "i < 32"
  have "(\<Sum>j\<leftarrow>[0..<Suc i]. ucast (a ! j) * ucast (b ! (i - j))) = (\<Sum>j\<leftarrow>[0..<Suc i]. mul_term a b i j)"
    "(\<Sum>j\<leftarrow>[Suc i..<32]. ucast (a ! j) * ucast (b ! (i + 32 - j)) * 38) = (\<Sum>j\<leftarrow>[Suc i..<32]. mul_term a b i j)"
    by (intro arg_cong [where f = sum_list] map_cong; force simp: mul_term_def)+
  moreover have "[0..<32] = [0..<Suc i] @ [Suc i..<32]"
    using i upt_add_eq_append [of 0 "Suc i" "32 - Suc i"] by simp
  ultimately show ?thesis unfolding mul_column_def fold_plus by (simp add: ac_simps)
qed

lemma unat_mul_term: "unat (mul_term a b i j) = unat (a ! j) * mul_factor b j i"
  and mul_term_small: "unat (a ! j) * mul_factor b j i \<le> 255 * 255 * 38"
proof -
  have le: "unat (u :: u8) * unat (v :: u8) \<le> 255 * 255" for u v
    using unat_byte_less [of u] unat_byte_less [of v] by (intro mult_le_mono) simp_all
  have two: "unat (ucast u * ucast v :: u32) = unat u * unat v" for u v :: u8
    using le [of u v] unat_mult_lem [of "ucast u :: u32" "ucast v"] by (simp add: unat_ucast_u32)
  have three: "unat (ucast u * ucast v * 38 :: u32) = unat u * (38 * unat v)" for u v :: u8
    using le [of u v] unat_mult_lem [of "ucast u * ucast v :: u32" 38] by (simp add: two)
  show "unat (mul_term a b i j) = unat (a ! j) * mul_factor b j i"
    by (simp add: mul_term_def mul_factor_def two three)
  show "unat (a ! j) * mul_factor b j i \<le> 255 * 255 * 38"
    using le [of "a ! j" "b ! (i - j)"] le [of "a ! j" "b ! (i + 32 - j)"] by (simp add: mul_factor_def)
qed

lemma unat_mul_column:
  assumes "i < 32"
  shows "unat (mul_column a b i 0) = (\<Sum>j<32. unat (a ! j) * mul_factor b j i)"
    and "unat (mul_column a b i 0) < 2 ^ 27"
proof -
  have "(\<Sum>j\<leftarrow>[0..<32]. unat (mul_term a b i j)) \<le> (\<Sum>j\<leftarrow>[0..<32]. 255 * 255 * 38)"
    by (rule sum_list_mono) (simp only: unat_mul_term mul_term_small)
  then have b: "(\<Sum>j\<leftarrow>[0..<32]. unat (mul_term a b i j)) \<le> 32 * (255 * 255 * 38)"
    by (simp add: sum_list_triv)
  then have u: "unat (mul_column a b i 0) = (\<Sum>j\<leftarrow>[0..<32]. unat (mul_term a b i j))"
    using assms by (simp only: mul_column_sum add_0) (rule unat_sum_list, simp)
  then show "unat (mul_column a b i 0) = (\<Sum>j<32. unat (a ! j) * mul_factor b j i)"
    by (simp only: unat_mul_term sum_set_upt_conv_sum_list_nat [symmetric] atLeast0LessThan set_upt)
  show "unat (mul_column a b i 0) < 2 ^ 27" using u b by simp
qed

lemma mul_loop_acc: "\<forall>i \<in> set is. i < 32 \<Longrightarrow> mul_loop a b is c = acc_loop c (map (\<lambda>i. mul_column a b i 0) is)"
  by (induction "is" arbitrary: c) (simp_all add: mul_column_sum)

lemma mul_columns_val:
  assumes "length a = 32" "length b = 32"
  shows "int (wval (map (\<lambda>i. mul_column a b i 0) [0..<32])) mod p25519 = int (bval a * bval b) mod p25519"
proof -
  have "map unat (map (\<lambda>i. mul_column a b i 0) [0..<32])
      = map (\<lambda>i. \<Sum>j<32. unat (a ! j) * mul_factor b j i) [0..<32]"
    by (simp add: unat_mul_column(1))
  then have "wval (map (\<lambda>i. mul_column a b i 0) [0..<32])
      = (\<Sum>j<32. unat (a ! j) * nval (map (mul_factor b j) [0..<32]))"
    by (simp only: wval_nval nval_sum nval_scale)
  then have "int (wval (map (\<lambda>i. mul_column a b i 0) [0..<32])) mod p25519
      = (\<Sum>j<32. int (unat (a ! j)) * (int (nval (map (mul_factor b j) [0..<32])) mod p25519) mod p25519) mod p25519"
    by (simp add: mod_sum_eq mod_simps)
  also have "\<dots> = (\<Sum>j<32. int (unat (a ! j)) * (int (256 ^ j * bval b) mod p25519) mod p25519) mod p25519"
    by (intro arg_cong [where f = "\<lambda>s. s mod p25519"] sum.cong refl) (simp only: mul_factor_val [OF assms(2)] lessThan_iff)
  also have "\<dots> = int ((\<Sum>j<32. unat (a ! j) * 256 ^ j) * bval b) mod p25519"
    by (simp add: mod_sum_eq mod_simps sum_distrib_right mult.assoc)
  also have "(\<Sum>j<32. unat (a ! j) * 256 ^ j) = bval a" using bval_sum [of a] assms(1) by simp
  finally show ?thesis .
qed

lemma fe_mul_field:
  assumes "length a = 32" "length b = 32"
  shows "fe_ok (fe_mul__distinct a b)" "fval (fe_mul__distinct a b) = fval a * fval b mod p25519"
proof -
  obtain r c where l: "acc_loop 0 (map (\<lambda>i. mul_column a b i 0) [0..<32]) = (r, c)" by fastforce
  then have "fe_mul__distinct a b = reduce19 r c" by (simp add: fe_mul__distinct_def mul_loop_acc)
  moreover have "\<forall>t \<in> set (map (\<lambda>i. mul_column a b i 0) [0..<32]). unat t < 2 ^ 27"
    using unat_mul_column(2) by simp
  ultimately show "fe_ok (fe_mul__distinct a b)" "fval (fe_mul__distinct a b) = fval a * fval b mod p25519"
    using acc_reduce [OF l] mul_columns_val [OF assms] by (simp_all add: fval_def mod_simps)
qed

section \<open>Normalisation\<close>

lemma fe_select_0 [simp]: "length z = length w \<Longrightarrow> fe_select z w 0 = z"
  by (induction z w rule: list_induct2) (simp_all add: fe_select_def)

lemma fe_select_1 [simp]: "length z = length w \<Longrightarrow> fe_select z w 1 = w"
  by (induction z w rule: list_induct2) (simp_all add: fe_select_def flip: xor.assoc, simp_all add: xor.commute flip: xor.assoc)

lemma unat_bit_15: "unat (drop_bit 15 (c :: u32) AND 1) = unat c div 2 ^ 15 mod 2"
proof -
  have "unat (drop_bit 15 c AND 1) = unat (drop_bit 15 c) mod 2" by (simp only: and_one_eq unat_mod) simp
  then show ?thesis by (simp only: unat_shift)
qed

text \<open>The sign of \<open>x - p\<close> read from bit 15 of the last, wrapped sum.\<close>

lemma borrow_bit:
  assumes "unat c \<le> 1"
  shows "ucast (drop_bit 15 (c + (ucast (b :: u8) - 128) :: u32) AND 1) = (if unat c + unat b < 128 then 1 else 0 :: u8)"
    and "128 \<le> unat c + unat b \<Longrightarrow> unat (c + (ucast b - 128) :: u32) = unat c + unat b - 128"
proof -
  have s: "unat (c + ucast b) = unat c + unat b"
    using assms unat_byte_less [of b] unat_add_lem [of c "ucast b"] by (simp add: unat_ucast_u32)
  have e: "c + (ucast b - 128) = (c + ucast b) - 128" by simp
  show ge: "unat (c + (ucast b - 128)) = unat c + unat b - 128" if "128 \<le> unat c + unat b"
    using that s unat_sub [of 128 "c + ucast b"] unfolding e by (simp add: word_le_nat_alt)
  have lt: "unat (c + (ucast b - 128)) = 2 ^ 32 + (unat c + unat b) - 128" if "unat c + unat b < 128"
    using that s unat_sub_if' [of "c + ucast b" 128] unfolding e by (simp add: s)
  let ?w = "drop_bit 15 (c + (ucast b - 128)) AND 1"
  have "unat ?w = (if unat c + unat b < 128 then 1 else 0)"
  proof (cases "unat c + unat b < 128")
    case True
    then have "(2 ^ 32 + (unat c + unat b) - 128) div 2 ^ 15 = 131071" by (intro div_nat_eqI) simp_all
    then have "(2 ^ 32 + (unat c + unat b) - 128) div 2 ^ 15 mod 2 = 1" by simp
    then show ?thesis using lt [OF True] True by (simp only: unat_bit_15) simp
  next
    case False
    then have "(unat c + unat b - 128) div 2 ^ 15 = 0" using assms unat_byte_less [of b] by simp
    then show ?thesis using ge False by (simp only: unat_bit_15) simp
  qed
  then have "?w = (if unat c + unat b < 128 then 1 else 0)" by (simp add: word_unat_eq_iff)
  then show "ucast ?w = (if unat c + unat b < 128 then 1 else 0 :: u8)" by simp
qed

lemma fe_normalize_canonical:
  assumes x0: "length x0 = 32"
  shows "length (fe_normalize x0) = 32" "int (bval (fe_normalize x0)) = fval x0"
proof -
  let ?h = "ucast (x0 ! 31) :: u32"
  define x where "x = reduce19 x0 ?h"
  have hb: "unat ?h < 256" using unat_byte_less by (simp add: unat_ucast_u32)
  then have x: "length x = 32" "bval x = bval (take 31 x0) + 256 ^ 31 * (unat ?h mod 128) + 19 * (unat ?h div 128)"
    using reduce19_eq [OF x0, of ?h] by (simp_all add: x_def unat_ucast_u32)
  have fx: "int (bval x) mod p25519 = fval x0"
    using reduce19_field(2) [OF x0, of ?h] hb x0 bval_snoc [of "take 31 x0" "x0 ! 31"] take_Suc_snoc [of x0 31]
    by (simp add: x_def fval_def unat_ucast_u32)
  have "bval (take 31 x0) < 256 ^ 31" using bval_bound [of "take 31 x0"] x0 by simp
  moreover have "unat ?h mod 128 \<le> 127" by simp
  moreover have "unat ?h div 128 \<le> 1" using hb by linarith
  ultimately have xb: "bval x < 2 ^ 255 + 19" using x(2) by simp
  obtain m c where l: "carry_loop 19 (words (take 31 x)) = (m, c)" by fastforce
  have m: "length m = 31" "bval m + 256 ^ 31 * unat c = 19 + bval (take 31 x)"
    using carry_loop_val [OF l words_small] x(1) by simp_all
  have mb: "bval m < 256 ^ 31" "bval (take 31 x) < 256 ^ 31"
    using bval_bound [of m] bval_bound [of "take 31 x"] m(1) x(1) by simp_all
  then have c1: "unat c \<le> 1" using m(2) by simp
  have xs: "bval x = bval (take 31 x) + 256 ^ 31 * unat (x ! 31)"
    using bval_snoc [of "take 31 x" "x ! 31"] take_Suc_snoc [of x 31] x(1) by simp
  have diff: "bval m + 256 ^ 31 * (unat c + unat (x ! 31)) = bval x + 19"
    using m(2) xs by (simp add: algebra_simps)
  let ?c = "c + (ucast (x ! 31) - 128) :: u32"
  have n: "fe_normalize x0 = fe_select (m @ [ucast ?c]) x (if unat c + unat (x ! 31) < 128 then 1 else 0)"
    using l borrow_bit(1) [OF c1, of "x ! 31"]
    by (simp add: fe_normalize_def x_def reduce19_def Let_def)
  show "length (fe_normalize x0) = 32" using n m(1) x(1) by simp
  show "int (bval (fe_normalize x0)) = fval x0"
  proof (cases "unat c + unat (x ! 31) < 128")
    case True
    then have "unat c + unat (x ! 31) \<le> 127" by simp
    then have "256 ^ 31 * (unat c + unat (x ! 31)) \<le> 256 ^ 31 * (127 :: nat)" by (rule mult_le_mono2)
    then have "bval x + 19 < 2 ^ 255" using diff mb(1) by simp
    then have "int (bval x) mod p25519 = int (bval x)" by (intro mod_pos_pos_trivial) (simp_all add: p25519_def)
    then show ?thesis using True n m(1) x(1) fx by simp
  next
    case False
    let ?d = "unat c + unat (x ! 31) - 128"
    have d: "unat c + unat (x ! 31) = ?d + 128" using False by simp
    have cb: "unat (ucast ?c :: u8) = ?d"
      using borrow_bit(2) [OF c1, of "x ! 31"] False c1 unat_byte_less [of "x ! 31"]
      by (simp add: unat_low_byte)
    have v: "bval m + 256 ^ 31 * ?d + 2 ^ 255 = bval x + 19"
      using diff by (subst (asm) d) (simp add: algebra_simps)
    then have "int (bval m + 256 ^ 31 * ?d) = int (bval x) - p25519" by (simp add: p25519_def)
    moreover have "int (bval x) - p25519 = (int (bval x) - p25519) mod p25519"
      using v xb by (intro mod_pos_pos_trivial [symmetric]) (simp_all add: p25519_def)
    ultimately show ?thesis using False n m(1) x(1) fx cb by (simp add: bval_snoc)
  qed
qed

section \<open>Inversion\<close>

text \<open>What the power chain needs of the multiplication, and the chain: exponents add.\<close>

locale mulmod =
  fixes wf :: "'a \<Rightarrow> bool" and val :: "'a \<Rightarrow> int" and mul :: "'a \<Rightarrow> 'a \<Rightarrow> 'a" and m :: int
  assumes wf_mul: "wf a \<Longrightarrow> wf b \<Longrightarrow> wf (mul a b)"
    and val_mul: "wf a \<Longrightarrow> wf b \<Longrightarrow> val (mul a b) = val a * val b mod m"
begin

definition power_of :: "'a \<Rightarrow> nat \<Rightarrow> 'a \<Rightarrow> bool" where
  "power_of x e r \<longleftrightarrow> wf r \<and> val r mod m = val x ^ e mod m"

lemma power_of_1: "wf x \<Longrightarrow> power_of x 1 x"
  by (simp add: power_of_def)

lemma power_of_mul: "power_of x e r \<Longrightarrow> power_of x f s \<Longrightarrow> power_of x (e + f) (mul r s)"
  by (simp add: power_of_def wf_mul val_mul power_add) (metis mod_mult_eq)

lemma power_of_rounds:
  assumes "wf x" "power_of x e r"
  shows "power_of x (2 ^ n * (e + 1) - 1) (((\<lambda>r. mul (mul r r) x) ^^ n) r)"
proof (induction n)
  case (Suc n)
  let ?e = "2 ^ n * (e + 1) - 1"
  from power_of_mul [OF power_of_mul [OF Suc Suc] power_of_1 [OF assms(1)]]
  have "power_of x (?e + ?e + 1) (((\<lambda>r. mul (mul r r) x) ^^ Suc n) r)" by simp
  moreover have "?e + ?e + 1 = 2 ^ Suc n * (e + 1) - 1"
  proof -
    have "1 \<le> 2 ^ n * (e + 1)" by (simp add: Suc_le_eq)
    then show ?thesis by (simp only: power_Suc mult.assoc)
  qed
  ultimately show ?case by (simp only:)
qed (use assms in simp)

end

interpretation fe: mulmod "\<lambda>x. length x = 32" fval fe_mul__distinct p25519
  by unfold_locales (simp_all add: fe_mul_field(2) fe_ok_length [OF fe_mul_field(1)])

lemma fe_inv_field:
  assumes x: "length x = 32"
  shows "fe_ok (fe_inv__distinct x)" "fval (fe_inv__distinct x) = fval x ^ (2 ^ 255 - 21) mod p25519"
proof -
  let ?m = fe_mul__distinct
  have round: "inv_round x = (\<lambda>r. ?m (?m r r) x)" by (simp add: inv_round_def fun_eq_iff)
  note one = fe.power_of_1 [OF x] and mul = fe.power_of_mul
  define r where "r = (inv_round x ^^ 248) (?m (?m x x) x)"
  have "fe.power_of x (1 + 1 + 1) (?m (?m x x) x)" by (intro mul one)
  then have r: "fe.power_of x (2 ^ 248 * (1 + 1 + 1 + 1) - 1) r"
    unfolding r_def round by (rule fe.power_of_rounds [OF x])
  define s where "s = ?m (?m (?m r r) (?m r r)) x"
  have s: "fe.power_of x (2 ^ 252 - 3) s"
    using mul [OF mul [OF mul [OF r r] mul [OF r r]] one] by (simp add: s_def)
  define t where "t = ?m (?m (?m s s) (?m s s)) x"
  have t: "fe.power_of x (2 ^ 254 - 11) t"
    using mul [OF mul [OF mul [OF s s] mul [OF s s]] one] by (simp add: t_def)
  have i: "fe_inv__distinct x = ?m (?m t t) x"
    by (simp only: fe_inv__distinct_def Let_def r_def s_def t_def)
  have "fe.power_of x (2 ^ 255 - 21) (fe_inv__distinct x)"
    using mul [OF mul [OF t t] one] by (simp add: i)
  moreover have "length t = 32" using t by (simp add: fe.power_of_def)
  ultimately show "fe_ok (fe_inv__distinct x)"
    "fval (fe_inv__distinct x) = fval x ^ (2 ^ 255 - 21) mod p25519"
    using x by (simp_all only: fe.power_of_def i fe_mul_field fe_ok_length [OF fe_mul_field(1)] fval_def mod_mod_trivial)
qed

section \<open>The Montgomery ladder\<close>

text \<open>
  The specification: points by their projective x-coordinate modulo \<open>p\<close>, Montgomery's formulas for
  the differential addition and the doubling on \<open>y^2 = x^3 + 486662 x^2 + x\<close>, and the multiples
  \<open>m P\<close> and \<open>(m - 1) P\<close> by recursion on the binary digits of \<open>m\<close>.
\<close>

type_synonym xz = "int \<times> int"

fun mont_add :: "xz \<Rightarrow> xz \<Rightarrow> xz \<Rightarrow> xz" where
  "mont_add (x1, z1) (x2, z2) (x3, z3) =
     (let da = (x3 - z3) * (x2 + z2); cb = (x3 + z3) * (x2 - z2)
      in (z1 * (da + cb) ^ 2 mod p25519, x1 * (da - cb) ^ 2 mod p25519))"

fun mont_double :: "xz \<Rightarrow> xz" where
  "mont_double (x, z) =
     ((x ^ 2 - z ^ 2) ^ 2 mod p25519, 4 * x * z * (x ^ 2 + 486662 * x * z + z ^ 2) mod p25519)"

fun mont_mult :: "int \<Rightarrow> nat \<Rightarrow> xz \<times> xz" where
  "mont_mult x m =
     (if m \<le> 1 then ((x, 1), (1, 0))
      else case mont_mult x (m div 2) of (p, p') \<Rightarrow>
        let d = mont_double p; s = mont_add (x, 1) p p'
        in if odd m then (mont_add s d (x, 1), d) else (d, s))"

declare mont_mult.simps [simp del]

text \<open>X25519: the x-coordinate of the multiple, made affine with \<open>Z^(p-2)\<close>.\<close>

definition x25519_spec :: "nat \<Rightarrow> int \<Rightarrow> int" where
  "x25519_spec k x = (case fst (mont_mult x k) of (X, Z) \<Rightarrow> X * Z ^ (2 ^ 255 - 21) mod p25519)"

lemmas fe_ops_ok = lm_add_field(1) lm_sub_field(1) fe_mul_field(1) fe_mul_c_field(1)
lemmas fe_ops_val = lm_add_field(2) lm_sub_field(2) fe_mul_field(2) fe_mul_c_field(2)

lemma xc_diffadd_field:
  assumes "length x1 = 32" "length z1 = 32" "length x2 = 32" "fe_ok z2" "length x3 = 32" "fe_ok z3"
    and r: "xc_diffadd x1 z1 x2 z2 x3 z3 = (x5, z5)"
  shows "fe_ok x5" "fe_ok z5"
    "(fval x5, fval z5) = mont_add (fval x1, fval z1) (fval x2, fval z2) (fval x3, fval z3)"
proof -
  note s = assms(1-6) fe_ops_ok fe_ops_val
  define da cb where "da = fe_mul__distinct (lm_add x2 z2) (lm_sub x3 z3)"
    and "cb = fe_mul__distinct (lm_add x3 z3) (lm_sub x2 z2)"
  have ok: "fe_ok da" "fe_ok cb" by (simp_all add: da_def cb_def s)
  have v: "fval da = (fval x3 - fval z3) * (fval x2 + fval z2) mod p25519"
    "fval cb = (fval x3 + fval z3) * (fval x2 - fval z2) mod p25519"
    by (simp_all add: da_def cb_def s mod_simps mult.commute)
  have e: "x5 = fe_mul__distinct z1 (fe_mul__distinct (lm_add da cb) (lm_add da cb))"
    "z5 = fe_mul__distinct x1 (fe_mul__distinct (lm_sub da cb) (lm_sub da cb))"
    using r by (simp_all add: xc_diffadd_def Let_def da_def cb_def)
  show "fe_ok x5" "fe_ok z5" by (simp_all add: e s ok)
  show "(fval x5, fval z5) = mont_add (fval x1, fval z1) (fval x2, fval z2) (fval x3, fval z3)"
    by (simp add: e s ok v Let_def mod_simps power2_eq_square)
qed

lemma xc_double_field:
  assumes l: "length x1 = 32" "length z1 = 32" and r: "xc_double x1 z1 = (x3, z3)"
  shows "fe_ok x3" "fe_ok z3" "(fval x3, fval z3) = mont_double (fval x1, fval z1)"
proof -
  define d where "d = lm_sub (fe_mul__distinct x1 x1) (fe_mul__distinct z1 z1)"
  define a where "a = lm_add (fe_mul__distinct z1 z1)
    (lm_add (fe_mul__distinct x1 x1) (fe_mul_c (fe_mul__distinct x1 z1) 486662))"
  have ok: "fe_ok d" "fe_ok a" by (simp_all add: d_def a_def l fe_ops_ok)
  have v: "fval d = (fval x1 * fval x1 - fval z1 * fval z1) mod p25519"
    "fval a = (fval z1 * fval z1 + (fval x1 * fval x1 + 486662 * (fval x1 * fval z1))) mod p25519"
    by (simp_all add: d_def a_def l fe_ops_ok fe_ops_val mod_simps)
  have e: "x3 = fe_mul__distinct d d" "z3 = fe_mul_c (fe_mul__distinct (fe_mul__distinct x1 z1) a) 4"
    using r by (simp_all add: xc_double_def Let_def d_def a_def)
  have "fe_ok (fe_mul__distinct (fe_mul__distinct x1 z1) a)" by (simp add: l ok fe_ops_ok)
  then show "fe_ok x3" "fe_ok z3" by (simp_all add: e ok fe_ops_ok)
  have "fval z3 = 4 * (fval x1 * fval z1 * fval a) mod p25519"
    by (simp add: e l ok fe_ops_ok fe_ops_val mod_simps)
  then show "(fval x3, fval z3) = mont_double (fval x1, fval z1)"
    by (simp add: e ok l fe_ops_ok fe_ops_val v mod_simps power2_eq_square) (simp add: ac_simps)
qed

text \<open>The bits the ladder reads are the binary digits of the scalar.\<close>

lemma unat_scalar_bit_byte: "unat (drop_bit n (b :: u8) AND 1) = unat b div 2 ^ n mod 2"
proof -
  have "unat (drop_bit n b AND 1) = unat (drop_bit n b) mod 2" by (simp only: and_one_eq unat_mod) simp
  moreover have "unat (drop_bit n b) = unat b div 2 ^ n"
    by (simp only: unat_drop_bit_eq) (rule drop_bit_eq_div)
  ultimately show ?thesis by (simp only:)
qed

lemma scalar_bit_val: "i < 8 * length e \<Longrightarrow> unat (scalar_bit e i) = bval e div 2 ^ i mod 2"
proof (induction e arbitrary: i)
  case (Cons b e)
  show ?case
  proof (cases "i < 8")
    case True
    have "(256 :: nat) = 2 ^ i * 2 ^ (8 - i)" using True by (simp flip: power_add)
    then have "bval (b # e) = unat b + 2 ^ i * (2 ^ (8 - i) * bval e)" by simp
    then have "bval (b # e) div 2 ^ i = unat b div 2 ^ i + 2 ^ (8 - i) * bval e"
      by (simp only:) (subst div_mult_self2, simp_all)
    moreover have "even ((2 :: nat) ^ (8 - i))" using True by simp
    ultimately have "bval (b # e) div 2 ^ i mod 2 = unat b div 2 ^ i mod 2"
      by (simp only: mod2_eq_if even_add even_mult_iff) simp
    moreover have "scalar_bit (b # e) i = drop_bit i b AND 1" using True by (simp add: scalar_bit_def)
    ultimately show ?thesis by (simp only: unat_scalar_bit_byte)
  next
    case False
    then obtain j where i: "i = j + 8" by (metis le_add_diff_inverse2 not_less)
    have "(2 :: nat) ^ i = 256 * 2 ^ j" by (simp add: i power_add)
    then have "bval (b # e) div 2 ^ i = bval e div 2 ^ j"
      using unat_byte_less [of b] by (simp add: div_mult2_eq)
    moreover have "(j + 8) div 8 = Suc (j div 8)" by simp
    then have "scalar_bit (b # e) i = scalar_bit e j" by (simp only: scalar_bit_def i nth_Cons_Suc mod_add_self2)
    ultimately show ?thesis using Cons i by simp
  qed
qed simp

definition ladder_ok :: "ladder \<Rightarrow> bool" where
  "ladder_ok z \<longleftrightarrow> length (xm z) = 32 \<and> fe_ok (zm z) \<and> length (xm1 z) = 32 \<and> fe_ok (zm1 z)"

definition ladder_points :: "ladder \<Rightarrow> xz \<times> xz" where
  "ladder_points z = ((fval (xm z), fval (zm z)), (fval (xm1 z), fval (zm1 z)))"

lemma bval_replicate_0 [simp]: "bval (replicate n 0) = 0"
  by (induction n) simp_all

lemma f25519_one_field [simp]: "fe_ok f25519_one" "fval f25519_one = 1"
  by (simp_all add: fe_ok_def fval_def f25519_one_def p25519_def)

lemma scalar_bit_cases: "scalar_bit e i = (if odd (unat (scalar_bit e i)) then 1 else 0)"
  by (simp add: scalar_bit_def and_one_eq mod2_eq_if)

lemma mont_mult_step:
  assumes "0 < m" "mont_mult x m = (p, p')"
  shows "mont_mult x (2 * m + b mod 2) = (let d = mont_double p; s = mont_add (x, 1) p p'
    in if odd b then (mont_add s d (x, 1), d) else (d, s))"
proof -
  have "(2 * m + b mod 2) div 2 = m" "odd (2 * m + b mod 2) = odd b" "\<not> 2 * m + b mod 2 \<le> 1"
    using assms(1) by simp_all
  then show ?thesis using assms(2) by (subst mont_mult.simps) (simp only: if_False prod.case)
qed

lemma ladder_step_field:
  assumes ok: "ladder_ok z" and q: "length q = 32" and m: "0 < m"
    and p: "ladder_points z = mont_mult (fval q) m"
  shows "ladder_ok (ladder_step e q i z)"
    "ladder_points (ladder_step e q i z) = mont_mult (fval q) (2 * m + unat (scalar_bit e i) mod 2)"
proof -
  note l = ok [unfolded ladder_ok_def] q
  obtain px1 pz1 where s: "xc_diffadd q f25519_one (xm z) (zm z) (xm1 z) (zm1 z) = (px1, pz1)" by fastforce
  obtain px pz where d: "xc_double (xm z) (zm z) = (px, pz)" by fastforce
  obtain xms zms where a: "xc_diffadd px1 pz1 px pz q f25519_one = (xms, zms)" by fastforce
  have fs: "fe_ok px1" "fe_ok pz1"
    "(fval px1, fval pz1) = mont_add (fval q, 1) (fval (xm z), fval (zm z)) (fval (xm1 z), fval (zm1 z))"
    using xc_diffadd_field [OF _ _ _ _ _ _ s] l by simp_all
  have fd: "fe_ok px" "fe_ok pz" "(fval px, fval pz) = mont_double (fval (xm z), fval (zm z))"
    using xc_double_field [OF _ _ d] l by simp_all
  have fa: "fe_ok xms" "fe_ok zms"
    "(fval xms, fval zms) = mont_add (fval px1, fval pz1) (fval px, fval pz) (fval q, 1)"
    using xc_diffadd_field [OF _ _ _ _ _ _ a] fs fd q by simp_all
  let ?b = "scalar_bit e i"
  have st: "ladder_step e q i z = (if odd (unat ?b)
      then \<lparr>xm = xms, zm = zms, xm1 = px, zm1 = pz\<rparr> else \<lparr>xm = px, zm = pz, xm1 = px1, zm1 = pz1\<rparr>)"
  proof (cases "odd (unat ?b)")
    case True
    then have "?b = 1" by (subst scalar_bit_cases) simp
    then show ?thesis using fs fd fa by (simp add: ladder_step_def s d a Let_def)
  next
    case False
    then have "?b = 0" by (subst scalar_bit_cases) simp
    then show ?thesis using fs fd fa by (simp add: ladder_step_def s d a Let_def)
  qed
  show "ladder_ok (ladder_step e q i z)" using fs fd fa by (simp add: st ladder_ok_def)
  show "ladder_points (ladder_step e q i z) = mont_mult (fval q) (2 * m + unat ?b mod 2)"
    using mont_mult_step [OF m p [symmetric, unfolded ladder_points_def], of "unat ?b"] fs(3) fd(3) fa(3)
    by (simp add: st ladder_points_def Let_def del: mont_add.simps mont_double.simps)
qed

lemma high_bit_add:
  fixes v :: nat
  assumes "n < N"
  shows "(2 ^ N + v mod 2 ^ N) div 2 ^ n mod 2 = v div 2 ^ n mod 2"
proof -
  obtain d where N: "N = n + Suc d" using assms less_iff_Suc_add by auto
  have "v = v mod 2 ^ N + 2 ^ N * (v div 2 ^ N)" by simp
  then obtain u where v: "v = v mod 2 ^ N + 2 ^ n * (2 * u)"
    by (metis N mult.assoc power_Suc power_add)
  have "(v mod 2 ^ N + 2 ^ n * (2 * u)) div 2 ^ n mod 2 = (v mod 2 ^ N) div 2 ^ n mod 2"
    by (subst div_mult_self2) simp_all
  then have "v div 2 ^ n mod 2 = (v mod 2 ^ N) div 2 ^ n mod 2" using v by simp
  moreover have "2 ^ N + v mod 2 ^ N = v mod 2 ^ N + 2 ^ n * (2 * 2 ^ d)" by (simp add: N power_add)
  then have "(2 ^ N + v mod 2 ^ N) div 2 ^ n mod 2 = (v mod 2 ^ N) div 2 ^ n mod 2"
    by (simp only:) (subst div_mult_self2, simp_all)
  ultimately show ?thesis by simp
qed

lemma ladder_run:
  assumes e: "length e = 32" and q: "length q = 32"
  shows "n \<le> 254 \<Longrightarrow> k = 2 ^ 254 + bval e mod 2 ^ 254 \<Longrightarrow> ladder_ok z \<Longrightarrow>
    ladder_points z = mont_mult (fval q) (k div 2 ^ n) \<Longrightarrow>
    ladder_ok (fold (ladder_step e q) (rev [0..<n]) z) \<and>
    ladder_points (fold (ladder_step e q) (rev [0..<n]) z) = mont_mult (fval q) k"
proof (induction n arbitrary: z)
  case (Suc n)
  let ?m = "k div 2 ^ Suc n" and ?z = "ladder_step e q n z"
  have "(2 :: nat) ^ Suc n \<le> 2 ^ 254" using Suc.prems(1) by (intro power_increasing) simp_all
  then have "2 ^ Suc n \<le> k" using Suc.prems(2) by simp
  then have m: "0 < ?m" by (simp add: div_greater_zero_iff)
  have k: "k div 2 ^ n mod 2 = bval e div 2 ^ n mod 2"
    unfolding Suc.prems(2) by (rule high_bit_add) (use Suc.prems(1) in simp)
  have "k div 2 ^ n = 2 * ?m + unat (scalar_bit e n) mod 2"
  proof -
    have "?m = k div 2 ^ n div 2" by (simp only: power_Suc2 div_mult2_eq)
    moreover have "unat (scalar_bit e n) mod 2 = k div 2 ^ n mod 2"
      using k scalar_bit_val [of n e] e Suc.prems(1) by simp
    ultimately show ?thesis by (simp only: mult_div_mod_eq)
  qed
  then have "ladder_ok ?z" "ladder_points ?z = mont_mult (fval q) (k div 2 ^ n)"
    using ladder_step_field [OF Suc.prems(3) q m Suc.prems(4), of e n] by simp_all
  then show ?case using Suc by simp
qed simp

lemma curve25519_field:
  assumes "length e = 32" "length q = 32"
  shows "length (curve25519 e q) = 32"
    "int (bval (curve25519 e q)) = x25519_spec (2 ^ 254 + bval e mod 2 ^ 254) (fval q)"
proof -
  let ?k = "2 ^ 254 + bval e mod 2 ^ 254"
  let ?z = "\<lparr>xm = q, zm = f25519_one, xm1 = f25519_one, zm1 = replicate 32 0\<rparr>"
  define z where "z = fold (ladder_step e q) (rev [0..<254]) ?z"
  have zero: "fe_ok (replicate 32 0)" "fval (replicate 32 0) = 0"
    by (simp_all add: fe_ok_def fval_def)
  have "?k div 2 ^ 254 = 1"
    by (intro div_nat_eqI) simp_all
  then have "ladder_points ?z = mont_mult (fval q) (?k div 2 ^ 254)"
    by (subst mont_mult.simps) (simp add: ladder_points_def zero)
  moreover have "ladder_ok ?z" using assms(2) zero(1) by (simp add: ladder_ok_def)
  ultimately have z: "ladder_ok z" "ladder_points z = mont_mult (fval q) ?k"
    using ladder_run [OF assms, of 254 ?k ?z] unfolding z_def by simp_all
  have l: "length (xm z) = 32" "length (zm z) = 32" using z(1) by (simp_all add: ladder_ok_def)
  let ?r = "fe_mul__distinct (fe_inv__distinct (zm z)) (xm z)"
  have c: "curve25519 e q = fe_normalize ?r" by (simp only: curve25519_def z_def Let_def)
  note inv = fe_inv_field [OF l(2)]
  note r = fe_mul_field [OF fe_ok_length [OF inv(1)] l(1)]
  show "length (curve25519 e q) = 32" unfolding c by (rule fe_normalize_canonical(1)) (simp add: r)
  have "int (bval (curve25519 e q)) = fval ?r" unfolding c by (rule fe_normalize_canonical(2)) (simp add: r)
  also have "\<dots> = fval (xm z) * fval (zm z) ^ (2 ^ 255 - 21) mod p25519"
    unfolding r(2) inv(2) by (simp only: mod_mult_right_eq mult.commute)
  also have "\<dots> = x25519_spec ?k (fval q)"
    unfolding x25519_spec_def z(2) [symmetric] ladder_points_def by (simp only: fst_conv prod.case)
  finally show "int (bval (curve25519 e q)) = x25519_spec ?k (fval q)" .
qed

section \<open>Properties\<close>

text \<open>
  C32. The field operations on 32 bytes, for any \<open>a\<close> and for \<open>b\<close> below \<open>2^255 + 2^26\<close>: no 32-bit carry
  overflows or is lost, the result is again 32 bytes with a value below \<open>2^255 + 2^26\<close> (so that
  it can be the subtrahend of \<^verbatim>\<open>lm_sub\<close>), and it is the sum, the difference, the product and the
  power \<open>p - 2\<close> modulo \<open>p = 2^255 - 19\<close>.
\<close>

theorem fe_arithmetic:
  assumes "length a = 32" "fe_ok b"
  shows "fe_ok (lm_add a b) \<and> fval (lm_add a b) = (fval a + fval b) mod p25519 \<and>
    fe_ok (lm_sub a b) \<and> fval (lm_sub a b) = (fval a - fval b) mod p25519 \<and>
    fe_ok (fe_mul__distinct a b) \<and> fval (fe_mul__distinct a b) = fval a * fval b mod p25519 \<and>
    fe_ok (fe_inv__distinct a) \<and> fval (fe_inv__distinct a) = fval a ^ (2 ^ 255 - 21) mod p25519"
  using assms by (simp only: fe_ops_ok fe_ops_val fe_inv_field fe_ok_length)

theorem fe_arithmetic_witness:
  "fval (lm_sub (replicate 32 0) f25519_one) = (fval (replicate 32 0) - 1) mod p25519"
  using fe_arithmetic [of "replicate 32 0" f25519_one] by simp

text \<open>
  \<^verbatim>\<open>fe_normalize\<close> brings any 32 bytes to the canonical representative: 32 bytes whose
  value is the residue itself, below \<open>2^255 - 19\<close>. Two arrays for the same element become the same
  bytes, though the choice between \<open>x\<close> and \<open>x - p\<close> is made with a mask, from bit 15 of a wrapped sum.
\<close>

theorem fe_normalize_residue:
  assumes "length x = 32"
  shows "length (fe_normalize x) = 32 \<and> int (bval (fe_normalize x)) = int (bval x) mod (2 ^ 255 - 19)"
  using fe_normalize_canonical [OF assms] by (simp only: fval_def p25519_def)

theorem fe_normalize_residue_witness:
  "int (bval (fe_normalize (replicate 32 255))) = int (bval (replicate 32 255)) mod (2 ^ 255 - 19)"
  using fe_normalize_residue [of "replicate 32 255"] by (simp only: length_replicate)

text \<open>
  C34. The whole of X25519: for a scalar and a point of 32 bytes the result is 32 bytes, the
  canonical affine x-coordinate of the multiple \<open>k P\<close> where \<open>k\<close> has the low 254 bits of the scalar and bit
  254 set; the multiple by the differential addition and doubling formulas and the recursion
  on the binary digits of \<open>k\<close>.
\<close>

theorem curve25519_refines:
  assumes "length e = 32" "length q = 32"
  shows "length (curve25519 e q) = 32 \<and>
    int (bval (curve25519 e q)) = x25519_spec (2 ^ 254 + bval e mod 2 ^ 254) (int (bval q) mod (2 ^ 255 - 19))"
  using curve25519_field [OF assms] by (simp only: fval_def p25519_def)

theorem curve25519_refines_witness:
  "int (bval (curve25519 (replicate 32 0) (9 # replicate 31 0))) = x25519_spec (2 ^ 254) 9"
  using curve25519_refines [of "replicate 32 0" "9 # replicate 31 0"] by simp

end
