(* ===== verification/RB_Gcm.thy ===== *)
theory RB_Gcm
  imports RB_HashCore
begin

text \<open>
  GHASH, the authentication function of AES-GCM, \<^verbatim>\<open>src/networking/tls_aesgcm.rs\<close>, with the
  buffer operations \<open>xorbuf\<close>, \<open>xorbuf3\<close> and \<open>xorbuf_aligned_AES_BLOCK_SIZE\<close> of
  \<^verbatim>\<open>src/networking/tls.rs\<close> it calls. Blocks are lists of 16 bytes, read as two 64-bit words of a
  little-endian machine and swapped, as the code does. The \<open>loop\<close> over the bits of a byte is a
  partial function: \<^const>\<open>None\<close> means that it does not end.
\<close>

section \<open>Buffers\<close>

definition xorbuf3 :: "u8 list \<Rightarrow> u8 list \<Rightarrow> u8 list \<Rightarrow> nat \<Rightarrow> u8 list" where
  "xorbuf3 d s1 s2 count = map2 (XOR) (take count s1) (take count s2) @ drop count d"

definition xorbuf :: "u8 list \<Rightarrow> u8 list \<Rightarrow> nat \<Rightarrow> u8 list" where
  "xorbuf dst src count = xorbuf3 dst dst src count"

definition xorbuf_aligned_AES_BLOCK_SIZE :: "u8 list \<Rightarrow> u8 list \<Rightarrow> u8 list" where
  "xorbuf_aligned_AES_BLOCK_SIZE d s =
     le_bytes64 (read_u64 d 0 XOR read_u64 s 0) @ le_bytes64 (read_u64 d 1 XOR read_u64 s 1)"

section \<open>GHASH\<close>

definition RIGHTSHIFTX :: "u8 list \<Rightarrow> u8 list" where
  "RIGHTSHIFTX x =
     (let carryIn = (if x ! 15 AND 1 \<noteq> 0 then push_bit (64 - 8) 0xe1 else 0 :: u64);
          tt = swap_bytes64 (read_u64 x 0);
          carryOut = push_bit (64 - 1) tt;
          x0 = swap_bytes64 (drop_bit 1 tt XOR carryIn);
          tt = swap_bytes64 (read_u64 x 1)
      in le_bytes64 x0 @ le_bytes64 (swap_bytes64 (drop_bit 1 tt XOR carryOut)))"

partial_function (option) gmult_bits :: "u32 \<Rightarrow> u8 list \<Rightarrow> u8 list \<Rightarrow> (u8 list \<times> u8 list) option" where
  "gmult_bits y Z X =
     (let Z = (if y AND 0x80 \<noteq> 0 then xorbuf_aligned_AES_BLOCK_SIZE Z X else Z);
          X = RIGHTSHIFTX X;
          y = push_bit 1 y
      in if sint y < 0 then Some (Z, X) else gmult_bits y Z X)"

fun gmult_bytes :: "u8 list \<Rightarrow> u8 list \<Rightarrow> u8 list \<Rightarrow> (u8 list \<times> u8 list) option" where
  "gmult_bytes [] Z X = Some (Z, X)"
| "gmult_bytes (b # Y) Z X =
     do_opt (gmult_bits (0x800000 OR ucast b) Z X) (\<lambda>(Z, X). gmult_bytes Y Z X)"

definition GMULT :: "u8 list \<Rightarrow> u8 list \<Rightarrow> u8 list option" where
  "GMULT X Y = map_option fst (gmult_bytes (take 16 Y) (replicate 16 0) X)"

text \<open>The loop over the full blocks of the ciphertext, which ends at the partial one.\<close>

fun ghash_blocks :: "nat \<Rightarrow> u8 list \<Rightarrow> u8 list \<Rightarrow> u8 list \<Rightarrow> (u8 list \<times> u8 list) option" where
  "ghash_blocks 0 h x c = Some (x, c)"
| "ghash_blocks (Suc blocks) h x c =
     do_opt (GMULT (xorbuf_aligned_AES_BLOCK_SIZE x (take 16 c)) h)
       (\<lambda>x. ghash_blocks blocks h x (drop 16 c))"

definition xor_u32 :: "u8 list \<Rightarrow> nat \<Rightarrow> u32 \<Rightarrow> u8 list" where
  "xor_u32 x i w = take (4 * i) x @ le_bytes32 (read_u32 x i XOR w) @ drop (4 * i + 4) x"

definition aesgcm_GHASH :: "u8 list \<Rightarrow> u8 list \<Rightarrow> u8 list \<Rightarrow> u32 \<Rightarrow> u8 list option" where
  "aesgcm_GHASH h a c cSz =
     do_opt (GMULT (take 16 a) h) (\<lambda>x.
     do_opt
       (if cSz \<noteq> 0
        then do_opt (ghash_blocks (unat (cSz div 16)) h x c) (\<lambda>(x, c).
               if cSz mod 16 \<noteq> 0 then GMULT (xorbuf x c (unat (cSz mod 16))) h else Some x)
        else Some x) (\<lambda>x.
     let x = xor_u32 x 1 (swap_bytes32 (13 * 8));
         x = xor_u32 x 3 (swap_bytes32 (cSz * 8))
     in GMULT x h))"

section \<open>The reference: multiplication of blocks and GHASH of SP 800-38D\<close>

type_synonym u128 = "128 word"

text \<open>A block as a number, its first bit the most significant.\<close>

fun blk :: "u8 list \<Rightarrow> u128" where
  "blk [] = 0"
| "blk (b # bs) = push_bit (8 * length bs) (ucast b) OR blk bs"

text \<open>Section 6.3, algorithm 1: \<open>R\<close> is \<open>11100001\<close> followed by 120 zeros.\<close>

definition gf_shift :: "u128 \<Rightarrow> u128" where
  "gf_shift V = (if bit V 0 then drop_bit 1 V XOR push_bit 120 0xe1 else drop_bit 1 V)"

definition gf_step :: "u128 \<Rightarrow> nat \<Rightarrow> u128 \<times> u128 \<Rightarrow> u128 \<times> u128" where
  "gf_step X i ZV = (case ZV of (Z, V) \<Rightarrow> (if bit X (127 - i) then Z XOR V else Z, gf_shift V))"

definition gf_mult :: "u128 \<Rightarrow> u128 \<Rightarrow> u128" where
  "gf_mult X Y = fst (fold (gf_step X) [0..<128] (0, Y))"

text \<open>Section 6.4, algorithm 2, and the input of section 7.1: the padded data, the padded ciphertext and
  the two lengths in bits.\<close>

definition ghash :: "u128 \<Rightarrow> u128 list \<Rightarrow> u128" where
  "ghash H Xs = foldl (\<lambda>Y X. gf_mult (Y XOR X) H) 0 Xs"

definition pad16 :: "u8 list \<Rightarrow> u8 list" where
  "pad16 x = x @ replicate ((16 - length x mod 16) mod 16) 0"

definition be64 :: "nat \<Rightarrow> u8 list" where
  "be64 n = rev (le_bytes64 (of_nat n))"

definition gcm_ghash :: "u128 \<Rightarrow> u8 list \<Rightarrow> u8 list \<Rightarrow> u128" where
  "gcm_ghash H A C =
     ghash H (map blk (full_blocks 16 (pad16 A @ pad16 C @ be64 (8 * length A) @ be64 (8 * length C))))"

section \<open>Blocks as numbers\<close>

lemma bit_blk:
  "length x \<le> 16 \<Longrightarrow> bit (blk x) n \<longleftrightarrow> n < 8 * length x \<and> bit (x ! (length x - Suc (n div 8))) (n mod 8)"
proof (induction x)
  case (Cons b x)
  let ?l = "length x"
  have len: "8 * ?l \<le> 120" using Cons.prems by simp
  have "bit (blk (b # x)) n \<longleftrightarrow> (8 * ?l \<le> n \<and> n < 128 \<and> bit b (n - 8 * ?l)) \<or> bit (blk x) n"
    by (auto simp: bit_simps)
  also have "\<dots> \<longleftrightarrow> n < 8 * length (b # x) \<and> bit ((b # x) ! (length (b # x) - Suc (n div 8))) (n mod 8)"
  proof (cases "n < 8 * ?l")
    case True
    then have "n div 8 < ?l" by (simp add: less_mult_imp_div_less mult.commute)
    then have "length (b # x) - Suc (n div 8) = Suc (?l - Suc (n div 8))" by simp
    then show ?thesis using True Cons by simp
  next
    case False
    have "\<not> bit (blk x) n" using False Cons by simp
    moreover have "bit b (n - 8 * ?l) \<longleftrightarrow> n < 8 * Suc ?l \<and> bit b (n mod 8)" if "n < 128"
    proof (cases "n < 8 * Suc ?l")
      case True
      then have "n div 8 = ?l" using False by (intro div_nat_eqI) simp_all
      then have "n - 8 * ?l = n mod 8" by (metis minus_mult_div_eq_mod)
      then show ?thesis using True by simp
    next
      case f: False
      then have "8 \<le> n - 8 * ?l" by simp
      then show ?thesis using f bit_imp_le_length [of b "n - 8 * ?l"] by auto
    qed
    moreover have "n div 8 = ?l" if "n < 8 * Suc ?l" using False that by (intro div_nat_eqI) simp_all
    ultimately show ?thesis using False len by auto
  qed
  finally show ?case .
qed simp

definition join :: "u64 \<Rightarrow> u64 \<Rightarrow> u128" where
  "join a b = push_bit 64 (ucast a) OR ucast b"

lemma bit_join: "bit (join a b) n \<longleftrightarrow> (if n < 64 then bit b n else n < 128 \<and> bit a (n - 64))"
  by (auto simp: join_def bit_simps dest: bit_imp_le_length)

lemma bit_swap_read:
  assumes "length x = 16" "i < 2" "n < 64"
  shows "bit (swap_bytes64 (read_u64 x i)) n \<longleftrightarrow> bit (x ! (8 * i + 7 - n div 8)) (n mod 8)"
proof -
  have "n div 8 < 8" using assms(3) by simp
  then show ?thesis using assms
    by (simp add: swap_bytes64_def read_u64_def le_bytes64_word bit_le_word64 rev_nth)
qed

lemma blk_join:
  assumes "length x = 16"
  shows "blk x = join (swap_bytes64 (read_u64 x 0)) (swap_bytes64 (read_u64 x 1))"
proof (rule bit_word_eqI)
  fix n
  assume "n < LENGTH(128)"
  then have n: "n < 128" by simp
  show "bit (blk x) n \<longleftrightarrow> bit (join (swap_bytes64 (read_u64 x 0)) (swap_bytes64 (read_u64 x 1))) n"
  proof (cases "n < 64")
    case True
    have "16 - Suc (n div 8) = 8 * 1 + 7 - n div 8" by simp
    then show ?thesis using True assms bit_swap_read [OF assms, of 1 n] by (simp add: bit_blk bit_join)
  next
    case False
    then obtain m where m: "n = m + 64" by (metis le_add_diff_inverse2 not_less)
    then have "m < 64" using n by simp
    have "(m + 64) div 8 = m div 8 + 8" "(m + 64) mod 8 = m mod 8" by presburger+
    then show ?thesis using m \<open>m < 64\<close> assms bit_swap_read [OF assms, of 0 m] by (simp add: bit_blk bit_join)
  qed
qed

lemma length_read_write [simp]: "length (le_bytes64 a @ le_bytes64 b) = 16"
  by simp

lemma read_write:
  "read_u64 (le_bytes64 a @ le_bytes64 b) 0 = a" "read_u64 (le_bytes64 a @ le_bytes64 b) 1 = b"
  by (simp_all add: read_u64_def)
lemma blk_write: "blk (le_bytes64 (swap_bytes64 a) @ le_bytes64 (swap_bytes64 b)) = join a b"
  by (simp only: blk_join length_read_write read_write swap_swap64)

section \<open>The operations on numbers\<close>

lemma length_xorbuf_aligned [simp]: "length (xorbuf_aligned_AES_BLOCK_SIZE d s) = 16"
  by (simp add: xorbuf_aligned_AES_BLOCK_SIZE_def)

lemma length_RIGHTSHIFTX [simp]: "length (RIGHTSHIFTX x) = 16"
  by (simp add: RIGHTSHIFTX_def Let_def)

lemma xorbuf_aligned_map2:
  assumes "length d = 16" "length s = 16"
  shows "xorbuf_aligned_AES_BLOCK_SIZE d s = map2 (XOR) d s"
proof (rule nth_equalityI)
  fix i
  assume "i < length (xorbuf_aligned_AES_BLOCK_SIZE d s)"
  then have i: "i < 16" by simp
  have "i mod 8 = (if i < 8 then i else i - 8)" using i by (simp add: mod_nat_eqI)
  then show "xorbuf_aligned_AES_BLOCK_SIZE d s ! i = map2 (XOR) d s ! i"
    using i assms
    by (intro bit_word_eqI) (auto simp: xorbuf_aligned_AES_BLOCK_SIZE_def nth_append le_bytes64_def
        bit_simps read_u64_def bit_le_word64)
qed (simp add: assms)

lemma blk_map2_xor:
  assumes "length d = length s" "length s \<le> 16"
  shows "blk (map2 (XOR) d s) = blk d XOR blk s"
proof (rule bit_word_eqI)
  fix n
  show "bit (blk (map2 (XOR) d s)) n \<longleftrightarrow> bit (blk d XOR blk s) n"
    using assms less_mult_imp_div_less [of n "length s" 8] by (auto simp: bit_blk bit_simps mult.commute)
qed

lemma blk_xorbuf_aligned:
  "length d = 16 \<Longrightarrow> length s = 16 \<Longrightarrow> blk (xorbuf_aligned_AES_BLOCK_SIZE d s) = blk d XOR blk s"
  by (simp add: xorbuf_aligned_map2 blk_map2_xor)

lemma join_xor: "join (a XOR c) b = join a b XOR join c 0"
  by (rule bit_word_eqI) (auto simp: bit_join bit_simps)

lemma join_push: "join (push_bit 56 w) 0 = push_bit 120 (ucast w)"
  by (rule bit_word_eqI) (auto simp: bit_join bit_simps)

lemma join_shift: "join (drop_bit 1 a) (drop_bit 1 b XOR push_bit 63 a) = drop_bit 1 (join a b)"
proof (rule bit_word_eqI)
  fix n
  assume "n < LENGTH(128)"
  then have n: "n < 128" by simp
  consider "n < 63" | "n = 63" | "64 \<le> n" by linarith
  then show "bit (join (drop_bit 1 a) (drop_bit 1 b XOR push_bit 63 a)) n \<longleftrightarrow> bit (drop_bit 1 (join a b)) n"
  proof cases
    case 3
    then have "Suc (n - 64) = Suc n - 64" by simp
    then show ?thesis using 3 n by (auto simp: bit_join bit_simps dest: bit_imp_le_length)
  qed (auto simp: bit_join bit_simps dest: bit_imp_le_length)
qed

lemma blk_RIGHTSHIFTX:
  assumes x: "length x = 16"
  shows "blk (RIGHTSHIFTX x) = gf_shift (blk x)"
proof -
  let ?a = "swap_bytes64 (read_u64 x 0)" and ?b = "swap_bytes64 (read_u64 x 1)"
  have low: "x ! 15 AND 1 \<noteq> 0 \<longleftrightarrow> bit ?b 0"
    using bit_swap_read [OF x, of 1 0] by (simp add: and_one_eq bit_0 even_iff_mod_2_eq_zero)
  have "blk (RIGHTSHIFTX x) =
      join (drop_bit 1 ?a XOR (if bit ?b 0 then push_bit 56 0xe1 else 0)) (drop_bit 1 ?b XOR push_bit 63 ?a)"
    by (simp only: RIGHTSHIFTX_def Let_def blk_write low) simp
  also have "\<dots> = gf_shift (join ?a ?b)"
  proof -
    have "ucast (0xe1 :: u64) = (0xe1 :: u128)" by simp
    then have "join (if bit ?b 0 then push_bit 56 0xe1 else 0) 0 = (if bit ?b 0 then push_bit 120 0xe1 else 0)"
      using join_push [of "0xe1"] by (simp only: split: if_split) (simp add: join_def)
    moreover have "bit (join ?a ?b) 0 \<longleftrightarrow> bit ?b 0" by (simp add: bit_join)
    ultimately show ?thesis by (simp only: join_xor join_shift gf_shift_def split: if_split) simp
  qed
  finally show ?thesis using x by (simp add: blk_join)
qed

section \<open>GMULT is the multiplication of blocks\<close>

text \<open>The eight rounds for one byte, and that the marker bit 23 ends the loop after them.\<close>

definition byte_step :: "u8 \<Rightarrow> nat \<Rightarrow> u128 \<times> u128 \<Rightarrow> u128 \<times> u128" where
  "byte_step b k ZV = (case ZV of (Z, V) \<Rightarrow> (if bit b (7 - k) then Z XOR V else Z, gf_shift V))"

definition marked :: "u8 \<Rightarrow> u32" where
  "marked b = 0x800000 OR ucast b"

lemma bit_marked: "bit (marked b) n \<longleftrightarrow> n = 23 \<or> bit b n"
proof -
  have "(0x800000 :: u32) = push_bit 23 1" by simp
  then have "bit (0x800000 :: u32) n \<longleftrightarrow> n = 23" by (simp only: bit_push_bit_iff bit_1_iff) auto
  then show ?thesis unfolding marked_def by (auto simp: bit_simps dest: bit_imp_le_length)
qed

lemma test_bit7: "y AND 0x80 \<noteq> 0 \<longleftrightarrow> bit y 7" for y :: u32
proof -
  have "(0x80 :: u32) = push_bit 7 1" by simp
  then show ?thesis by (simp only: bit_iff_and_push_bit_not_eq_0)
qed

lemma sign_bit: "sint y < 0 \<longleftrightarrow> bit y 31" for y :: u32
  using bit_last_iff [of y] by simp

lemma gmult_bits_returns:
  assumes "k + d = 7" "length Z = 16" "length X = 16"
  shows "\<exists>Z' X'. gmult_bits (push_bit k (marked b)) Z X = Some (Z', X') \<and>
    length Z' = 16 \<and> length X' = 16 \<and> (blk Z', blk X') = fold (byte_step b) [k..<8] (blk Z, blk X)"
  using assms
proof (induction d arbitrary: k Z X)
  case (Suc d)
  let ?y = "push_bit k (marked b)"
  define Z1 where "Z1 = (if bit ?y 7 then xorbuf_aligned_AES_BLOCK_SIZE Z X else Z)"
  have k: "k < 7" using Suc.prems by simp
  have y7: "bit ?y 7 \<longleftrightarrow> bit b (7 - k)" using k by (auto simp: bit_push_bit_iff bit_marked)
  have "\<not> bit (push_bit (Suc k) (marked b)) 31"
    using k by (simp only: bit_push_bit_iff bit_marked) (auto dest: bit_imp_le_length)
  then have "gmult_bits ?y Z X = gmult_bits (push_bit (Suc k) (marked b)) Z1 (RIGHTSHIFTX X)"
    by (subst gmult_bits.simps) (simp add: Let_def test_bit7 sign_bit Z1_def push_bit_push_bit del: push_bit_Suc)
  moreover have "length Z1 = 16" using Suc.prems by (simp add: Z1_def)
  moreover have "(blk Z1, blk (RIGHTSHIFTX X)) = byte_step b k (blk Z, blk X)"
    using Suc.prems y7 by (simp add: Z1_def byte_step_def blk_xorbuf_aligned blk_RIGHTSHIFTX)
  moreover have "[k..<8] = k # [Suc k..<8]" using k by (simp add: upt_conv_Cons)
  ultimately show ?case using Suc.IH [of "Suc k" Z1 "RIGHTSHIFTX X"] Suc.prems(1) by simp
next
  case 0
  let ?y = "push_bit 7 (marked b)"
  have "bit ?y 7 \<longleftrightarrow> bit b 0" by (auto simp: bit_push_bit_iff bit_marked)
  moreover have "bit (push_bit 1 ?y) 31" by (auto simp: bit_push_bit_iff bit_marked)
  ultimately have "gmult_bits ?y Z X =
      Some (if bit b 0 then xorbuf_aligned_AES_BLOCK_SIZE Z X else Z, RIGHTSHIFTX X)"
    by (subst gmult_bits.simps) (simp add: Let_def test_bit7 sign_bit)
  then show ?case using 0 by (simp add: byte_step_def blk_xorbuf_aligned blk_RIGHTSHIFTX upt_conv_Cons)
qed

lemma byte_step_gf:
  assumes "length Y = 16" "m < 16" "k < 8"
  shows "byte_step (Y ! m) k = gf_step (blk Y) (8 * m + k)"
proof -
  have d: "127 - (8 * m + k) = 8 * (15 - m) + (7 - k)" using assms by simp
  then have "(127 - (8 * m + k)) div 8 = 15 - m" "(127 - (8 * m + k)) mod 8 = 7 - k"
    using assms(3) by (simp_all only: div_mult_self4 mod_mult_self4 div_less mod_less)
  moreover have "16 - Suc (15 - m) = m" using assms(2) by simp
  moreover have "127 - (8 * m + k) < 128" by (rule le_less_trans [OF diff_le_self]) simp
  ultimately have "bit (blk Y) (127 - (8 * m + k)) \<longleftrightarrow> bit (Y ! m) (7 - k)"
    using assms by (simp add: bit_blk)
  then show ?thesis by (simp add: byte_step_def gf_step_def fun_eq_iff)
qed

lemma byte_fold_gf:
  assumes "length Y = 16" "m < 16"
  shows "fold (byte_step (Y ! m)) [0..<8] s = fold (gf_step (blk Y)) [8 * m..<8 * Suc m] s"
proof -
  have "[8 * m..<8 * Suc m] = map (\<lambda>k. 8 * m + k) [0..<8]"
    using map_add_upt [of "8 * m" 8] by (simp add: add.commute)
  then show ?thesis
    using byte_step_gf [OF assms] by (simp only: fold_map comp_def) (rule fold_cong, auto)
qed

lemma gmult_bytes_returns:
  assumes "length Y = 16" "m + d = 16" "length Z = 16" "length X = 16"
  shows "\<exists>Z' X'. gmult_bytes (drop m Y) Z X = Some (Z', X') \<and> length Z' = 16 \<and>
    (blk Z', blk X') = fold (gf_step (blk Y)) [8 * m..<128] (blk Z, blk X)"
  using assms(2-)
proof (induction d arbitrary: m Z X)
  case (Suc d)
  then have m: "m < 16" by simp
  obtain Z1 X1 where 1: "gmult_bits (marked (Y ! m)) Z X = Some (Z1, X1)" "length Z1 = 16" "length X1 = 16"
    "(blk Z1, blk X1) = fold (byte_step (Y ! m)) [0..<8] (blk Z, blk X)"
    using gmult_bits_returns [of 0 7 Z X "Y ! m"] Suc.prems by auto
  have "drop m Y = Y ! m # drop (Suc m) Y" using m assms(1) by (simp add: Cons_nth_drop_Suc)
  then have "gmult_bytes (drop m Y) Z X = gmult_bytes (drop (Suc m) Y) Z1 X1" using 1(1) by (simp add: marked_def)
  moreover have "[8 * m..<128] = [8 * m..<8 * Suc m] @ [8 * Suc m..<128]"
    using m upt_add_eq_append [of "8 * m" "8 * Suc m" "128 - 8 * Suc m"] by simp
  ultimately show ?case
    using Suc.IH [of "Suc m" Z1 X1] Suc.prems(1) 1 by (simp add: byte_fold_gf [OF assms(1) m])
qed (use assms in simp)

lemma GMULT_returns:
  assumes "length X = 16" "length Y = 16"
  shows "\<exists>Z. GMULT X Y = Some Z \<and> length Z = 16 \<and> blk Z = gf_mult (blk Y) (blk X)"
proof -
  have "blk (replicate 16 0) = 0" by (intro bit_word_eqI) (auto simp: bit_blk)
  then show ?thesis
    using gmult_bytes_returns [OF assms(2), of 0 16 "replicate 16 0" X] assms
    by (auto simp: GMULT_def gf_mult_def fst_def split: prod.splits)
qed

section \<open>The multiplication is linear and commutative\<close>

definition xsum :: "u128 list \<Rightarrow> u128" where
  "xsum xs = foldr (XOR) xs 0"

lemma xsum_simps [simp]: "xsum [] = 0" "xsum (x # xs) = x XOR xsum xs"
  by (simp_all add: xsum_def)

lemma xsum_append: "xsum (xs @ ys) = xsum xs XOR xsum ys"
  by (induction xs) (simp_all add: xor.assoc)

lemma xsum_xor: "xsum (map (\<lambda>i. f i XOR g i) is) = xsum (map f is) XOR xsum (map g is)"
  by (induction "is") (simp_all add: xor.assoc xor.left_commute)

lemma xsum_zero [simp]: "xsum (map (\<lambda>i. 0) is) = 0"
  by (induction "is") simp_all

lemma xsum_swap: "xsum (map (\<lambda>i. xsum (map (f i) js)) is) = xsum (map (\<lambda>j. xsum (map (\<lambda>i. f i j) is)) js)"
  by (induction "is") (simp_all add: xsum_xor)

lemma gf_shift_xor: "gf_shift (a XOR b) = gf_shift a XOR gf_shift b"
  by (simp add: gf_shift_def bit_simps xor.assoc xor.left_commute xor.commute)

lemma gf_shift_0 [simp]: "gf_shift 0 = 0"
  by (simp add: gf_shift_def)

lemma gf_shifts_xsum: "(gf_shift ^^ n) (xsum (map f is)) = xsum (map (\<lambda>i. (gf_shift ^^ n) (f i)) is)"
proof -
  have x: "(gf_shift ^^ n) (a XOR b) = (gf_shift ^^ n) a XOR (gf_shift ^^ n) b" for a b
    by (induction n) (simp_all add: gf_shift_xor)
  have z: "(gf_shift ^^ n) 0 = 0" by (induction n) simp_all
  show ?thesis by (induction "is") (simp_all add: x z)
qed

lemma gf_steps:
  "fold (gf_step X) [0..<n] (0, Y) =
     (xsum (map (\<lambda>i. if bit X (127 - i) then (gf_shift ^^ i) Y else 0) [0..<n]), (gf_shift ^^ n) Y)"
  by (induction n) (simp_all add: gf_step_def xsum_append)

lemma gf_mult_xsum:
  "gf_mult X Y = xsum (map (\<lambda>i. if bit X (127 - i) then (gf_shift ^^ i) Y else 0) [0..<128])"
  by (simp only: gf_mult_def gf_steps fst_conv)

text \<open>The block with only its first bit set is the unit; its shifts are the other single bits.\<close>

definition gf_unit :: u128 where
  "gf_unit = push_bit 127 1"

lemma gf_shifts_unit: "j < 128 \<Longrightarrow> (gf_shift ^^ j) gf_unit = push_bit (127 - j) 1"
proof (induction j)
  case (Suc j)
  have "gf_shift (push_bit (Suc k) 1) = push_bit k 1" if "k < 127" for k
    using that by (intro bit_word_eqI) (auto simp: gf_shift_def bit_simps)
  moreover have "127 - j = Suc (127 - Suc j)" using Suc.prems by simp
  ultimately show ?case using Suc by simp
qed (simp add: gf_unit_def)

lemma bit_shifts_unit: "j < 128 \<Longrightarrow> bit ((gf_shift ^^ j) gf_unit) n \<longleftrightarrow> n = 127 - j"
  by (simp only: gf_shifts_unit bit_push_bit_iff bit_1_iff) auto

lemma bit_xsum_single:
  "distinct is \<Longrightarrow> (\<And>i. i \<in> set is \<Longrightarrow> bit (f i) n \<longleftrightarrow> i = m \<and> b) \<Longrightarrow>
     bit (xsum (map f is)) n \<longleftrightarrow> m \<in> set is \<and> b"
  by (induction "is") (auto simp: bit_simps)

lemma gf_bits: "Y = xsum (map (\<lambda>j. if bit Y (127 - j) then (gf_shift ^^ j) gf_unit else 0) [0..<128])"
proof (rule bit_word_eqI)
  fix n
  assume "n < LENGTH(128)"
  then have n: "n < 128" by simp
  let ?f = "\<lambda>j. if bit Y (127 - j) then (gf_shift ^^ j) gf_unit else 0"
  have "bit (?f j) n \<longleftrightarrow> j = 127 - n \<and> bit Y n" if "j \<in> set [0..<128]" for j
    using that n by (auto simp: bit_shifts_unit)
  from bit_xsum_single [OF distinct_upt this, of 0 128]
  show "bit Y n \<longleftrightarrow> bit (xsum (map ?f [0..<128])) n" using n le_less_trans [OF diff_le_self, of 127 128 n] by simp
qed

lemma gf_mult_double:
  "gf_mult X Y = xsum (map (\<lambda>i. xsum (map (\<lambda>j. if bit X (127 - i) \<and> bit Y (127 - j)
     then (gf_shift ^^ (i + j)) gf_unit else 0) [0..<128])) [0..<128])"
proof -
  have z: "(gf_shift ^^ n) 0 = 0" for n by (induction n) simp_all
  have "(if bit X (127 - i) then (gf_shift ^^ i) Y else 0) =
      xsum (map (\<lambda>j. if bit X (127 - i) \<and> bit Y (127 - j) then (gf_shift ^^ (i + j)) gf_unit else 0) [0..<128])" for i
  proof (cases "bit X (127 - i)")
    case True
    have "(gf_shift ^^ i) Y = (gf_shift ^^ i) (xsum (map (\<lambda>j. if bit Y (127 - j) then (gf_shift ^^ j) gf_unit else 0) [0..<128]))"
      using gf_bits [of Y] by simp
    also have "\<dots> = xsum (map (\<lambda>j. (gf_shift ^^ i) (if bit Y (127 - j) then (gf_shift ^^ j) gf_unit else 0)) [0..<128])"
      by (rule gf_shifts_xsum)
    also have "(\<lambda>j. (gf_shift ^^ i) (if bit Y (127 - j) then (gf_shift ^^ j) gf_unit else 0)) =
        (\<lambda>j. if bit Y (127 - j) then (gf_shift ^^ (i + j)) gf_unit else 0)"
      by (simp add: fun_eq_iff funpow_add z)
    finally show ?thesis using True by (simp only: simp_thms if_True)
  next
    case False
    then show ?thesis by (simp only: simp_thms if_False xsum_zero)
  qed
  then show ?thesis by (simp only: gf_mult_xsum)
qed

lemma gf_mult_commute: "gf_mult X Y = gf_mult Y X"
  unfolding gf_mult_double by (subst xsum_swap) (simp only: add.commute conj_commute)

lemma GMULT_correct:
  assumes "length X = 16" "length Y = 16"
  shows "\<exists>Z. GMULT X Y = Some Z \<and> length Z = 16 \<and> blk Z = gf_mult (blk X) (blk Y)"
  using GMULT_returns [OF assms] by (simp add: gf_mult_commute)

section \<open>GHASH\<close>

abbreviation ghash_step :: "u8 list \<Rightarrow> u128 \<Rightarrow> u128 \<Rightarrow> u128" where
  "ghash_step h Y X \<equiv> gf_mult (Y XOR X) (blk h)"

lemma length_pad16: "16 dvd length (pad16 c)"
proof -
  have "(length c + (16 - length c mod 16) mod 16) mod 16 = (length c mod 16 + (16 - length c mod 16)) mod 16"
    by (simp only: mod_add_left_eq mod_add_right_eq)
  also have "length c mod 16 + (16 - length c mod 16) = 16" by simp
  finally have "(length c + (16 - length c mod 16) mod 16) mod 16 = 0" by simp
  then show ?thesis by (simp add: pad16_def mod_eq_0_iff_dvd)
qed

lemma pad16_block: "length b = 16 \<Longrightarrow> pad16 (b @ c) = b @ pad16 c"
  by (simp add: pad16_def)

lemma pad16_short: "0 < length c \<Longrightarrow> length c < 16 \<Longrightarrow> pad16 c = c @ replicate (16 - length c) 0"
  by (simp add: pad16_def)

lemma full_blocks_append_dvd:
  "16 dvd length xs \<Longrightarrow> full_blocks 16 (xs @ ys) = full_blocks 16 xs @ full_blocks 16 ys"
proof (induction "length xs" arbitrary: xs rule: less_induct)
  case less
  show ?case
  proof (cases "xs = []")
    case False
    then have "16 \<le> length xs" using less.prems by (auto dest: dvd_imp_le)
    then obtain b r where x: "xs = b @ r" "length b = 16"
      by (metis append_take_drop_id length_take min.absorb2)
    then have "16 dvd length r" using less.prems by simp
    then show ?thesis using less.hyps [of r] x by (simp add: full_blocks_block)
  qed (simp add: full_blocks_short)
qed

lemma xorbuf_pad:
  assumes "length x = 16" "length c < 16" "0 < length c"
  shows "xorbuf x c (length c) = map2 (XOR) x (pad16 c)"
  using assms
  by (intro nth_equalityI) (auto simp: xorbuf_def xorbuf3_def pad16_short nth_append)

lemma blk_xorbuf_pad:
  assumes "length x = 16" "length c < 16" "0 < length c"
  shows "length (xorbuf x c (length c)) = 16" "blk (xorbuf x c (length c)) = blk x XOR blk (pad16 c)"
  using assms by (simp_all only: xorbuf_pad) (simp_all add: pad16_short blk_map2_xor)

text \<open>The ciphertext, block by block, its last block padded.\<close>

lemma ghash_data:
  assumes h: "length h = 16"
  shows "length x = 16 \<Longrightarrow> \<exists>x'. do_opt (ghash_blocks (length c div 16) h x c) (\<lambda>(x, c').
      if length c mod 16 \<noteq> 0 then GMULT (xorbuf x c' (length c mod 16)) h else Some x) = Some x' \<and>
    length x' = 16 \<and> blk x' = foldl (ghash_step h) (blk x) (map blk (full_blocks 16 (pad16 c)))"
proof (induction "length c" arbitrary: c x rule: less_induct)
  case less
  show ?case
  proof (cases "length c < 16")
    case True
    show ?thesis
    proof (cases "c = []")
      case False
      let ?x = "xorbuf x c (length c)"
      have x: "length ?x = 16" "blk ?x = blk x XOR blk (pad16 c)"
        using blk_xorbuf_pad [OF less.prems True] False by simp_all
      have "length (pad16 c) = 16" using True False by (simp add: pad16_short)
      then have "full_blocks 16 (pad16 c) = [pad16 c]"
        using full_blocks_block [of 16 "pad16 c" "[]"] by (simp add: full_blocks_short)
      then show ?thesis using True False GMULT_correct [OF x(1) h] x(2) by auto
    qed (simp add: pad16_def full_blocks_short less.prems)
  next
    case False
    then obtain b r where c: "c = b @ r" "length b = 16"
      by (metis append_take_drop_id length_take min.absorb2 not_less)
    let ?x = "xorbuf_aligned_AES_BLOCK_SIZE x b"
    obtain x1 where x1: "GMULT ?x h = Some x1" "length x1 = 16" "blk x1 = ghash_step h (blk x) (blk b)"
      using GMULT_correct [of ?x h] h less.prems c(2) by (auto simp: blk_xorbuf_aligned)
    have l: "length (b @ r) div 16 = Suc (length r div 16)" "length (b @ r) mod 16 = length r mod 16"
      using c(2) by simp_all
    have "full_blocks 16 (pad16 (b @ r)) = b # full_blocks 16 (pad16 r)"
      using c(2) by (simp add: pad16_block full_blocks_block)
    moreover have "ghash_blocks (length (b @ r) div 16) h x (b @ r) = ghash_blocks (length r div 16) h x1 r"
      using x1(1) c(2) by (simp only: l ghash_blocks.simps) simp
    ultimately show ?thesis using less.hyps [of r x1] x1(2,3) c(2) unfolding c(1) by (simp only: l) simp
  qed
qed

text \<open>The block of the lengths.\<close>

lemma length_xor_u32 [simp]: "length x = 16 \<Longrightarrow> i < 4 \<Longrightarrow> length (xor_u32 x i w) = 16"
  by (simp add: xor_u32_def le_bytes32_4)

lemma le_bytes32_xor: "le_bytes32 (a XOR b) = map2 (XOR) (le_bytes32 a) (le_bytes32 b)"
  by (simp add: le_bytes32_4 unsigned_xor_eq)

lemma list_16: "length x = 16 \<Longrightarrow> \<exists>x0 x1 x2 x3 x4 x5 x6 x7 x8 x9 xa xb xc xd xe xf.
    x = [x0, x1, x2, x3, x4, x5, x6, x7, x8, x9, xa, xb, xc, xd, xe, xf]"
  by (auto simp: numeral_eq_Suc length_Suc_conv)

lemma xor_lengths:
  assumes "length x = 16"
  shows "xor_u32 (xor_u32 x 1 (swap_bytes32 a)) 3 (swap_bytes32 b) =
    map2 (XOR) x ([0, 0, 0, 0] @ rev (le_bytes32 a) @ [0, 0, 0, 0] @ rev (le_bytes32 b))"
proof -
  obtain x0 x1 x2 x3 x4 x5 x6 x7 x8 x9 xa xb xc xd xe xf
    where x: "x = [x0, x1, x2, x3, x4, x5, x6, x7, x8, x9, xa, xb, xc, xd, xe, xf]"
    using list_16 [OF assms] by blast
  show ?thesis unfolding x
    by (simp only: xor_u32_def le_bytes32_xor le_bytes32_read le_bytes32_swap)
      (simp add: le_bytes32_4 [of a] le_bytes32_4 [of b])
qed

lemma be64_small: "n < 2 ^ 32 \<Longrightarrow> be64 n = [0, 0, 0, 0] @ rev (le_bytes32 (of_nat n))"
proof -
  assume n: "n < 2 ^ 32"
  have "le_bytes64 (of_nat n) = le_bytes32 (of_nat n) @ [0, 0, 0, 0]"
  proof (rule nth_equalityI)
    fix i
    assume "i < length (le_bytes64 (of_nat n))"
    then have i: "i < 8" by simp
    have hi: "\<not> bit (of_nat n :: u64) k" if "32 \<le> k" for k
    proof -
      have "n < 2 ^ k" using n power_increasing [OF that, of "2 :: nat"] by simp
      then have "\<not> bit n k" by (simp add: bit_iff_odd)
      then show ?thesis by (simp add: bit_simps)
    qed
    show "le_bytes64 (of_nat n) ! i = (le_bytes32 (of_nat n) @ [0, 0, 0, 0]) ! i"
    proof (cases "i < 4")
      case True
      then show ?thesis by (intro bit_word_eqI) (auto simp: le_bytes64_def le_bytes32_def nth_append bit_simps)
    next
      case False
      have "ucast (drop_bit (8 * i) (of_nat n :: u64)) = (0 :: u8)"
        using False hi by (intro bit_word_eqI) (auto simp: bit_simps)
      moreover have "[0, 0, 0, 0 :: u8] ! (i - 4) = 0" using i False by (auto simp: nth_Cons')
      ultimately show ?thesis using i False by (simp add: le_bytes64_def nth_append)
    qed
  qed simp
  then show ?thesis by (simp add: be64_def)
qed

section \<open>Property\<close>

lemma aesgcm_GHASH_correct:
  assumes h: "length h = 16" and a: "length A = 13" and c: "length C < 2 ^ 29"
  shows "\<exists>s. aesgcm_GHASH h (A @ [0, 0, 0]) C (of_nat (length C)) = Some s \<and> length s = 16 \<and>
    blk s = gcm_ghash (blk h) A C"
proof -
  let ?n = "of_nat (length C) :: u32" and ?A = "A @ [0, 0, 0]"
  have n: "unat ?n = length C" using c by (simp add: unat_of_nat)
  have n16: "unat (?n div 16) = length C div 16" "unat (?n mod 16) = length C mod 16"
    by (simp_all add: unat_div unat_mod n)
  have "replicate 3 (0 :: u8) = [0, 0, 0]" by (simp only: numeral_3_eq_3 replicate.simps)
  moreover have "(16 - length A mod 16) mod 16 = 3" using a by simp
  ultimately have pa: "pad16 A = ?A" by (simp only: pad16_def)
  obtain x where x: "GMULT ?A h = Some x" "length x = 16" "blk x = ghash_step h 0 (blk ?A)"
    using GMULT_correct [of ?A h] h a by auto
  obtain y where y: "do_opt (ghash_blocks (length C div 16) h x C) (\<lambda>(x, c').
      if length C mod 16 \<noteq> 0 then GMULT (xorbuf x c' (length C mod 16)) h else Some x) = Some y"
    "length y = 16" "blk y = foldl (ghash_step h) (blk x) (map blk (full_blocks 16 (pad16 C)))"
    using ghash_data [OF h x(2)] by blast
  let ?L = "be64 (8 * 13) @ be64 (8 * length C)"
  have L: "[0, 0, 0, 0] @ rev (le_bytes32 (13 * 8)) @ [0, 0, 0, 0] @ rev (le_bytes32 (?n * 8)) = ?L"
    using be64_small [of "8 * 13"] be64_small [of "8 * length C"] c by (simp add: mult.commute)
  let ?z = "xor_u32 (xor_u32 y 1 (swap_bytes32 (13 * 8))) 3 (swap_bytes32 (?n * 8))"
  have lL: "length ?L = 16" by (simp add: be64_def)
  have z: "length ?z = 16" "blk ?z = blk y XOR blk ?L"
    using y(2) lL by (simp, simp only: xor_lengths [OF y(2)] L blk_map2_xor order_refl)
  obtain s where s: "GMULT ?z h = Some s" "length s = 16" "blk s = ghash_step h (blk y) (blk ?L)"
    using GMULT_correct [OF z(1) h] z(2) by auto
  have "aesgcm_GHASH h ?A C ?n = Some s"
  proof -
    have "(if ?n \<noteq> 0 then do_opt (ghash_blocks (unat (?n div 16)) h x C) (\<lambda>(x, c).
        if ?n mod 16 \<noteq> 0 then GMULT (xorbuf x c (unat (?n mod 16))) h else Some x) else Some x) = Some y"
    proof (cases "?n = 0")
      case True
      then have "C = []" using n by simp
      then show ?thesis using True y(1) by simp
    next
      case False
      have "?n mod 16 \<noteq> 0 \<longleftrightarrow> length C mod 16 \<noteq> 0" by (simp only: n16(2) [symmetric] unsigned_eq_0_iff)
      then show ?thesis using False y(1) by (simp only: n16 if_True simp_thms)
    qed
    then show ?thesis using x(1) a s(1) by (simp add: aesgcm_GHASH_def Let_def)
  qed
  moreover have "full_blocks 16 (?A @ pad16 C @ ?L) = ?A # full_blocks 16 (pad16 C) @ [?L]"
    using full_blocks_block [of 16 ?A "pad16 C @ ?L"] full_blocks_block [of 16 ?L "[]"] a lL
    by (simp add: full_blocks_append_dvd [OF length_pad16] full_blocks_short)
  then have "gcm_ghash (blk h) A C = ghash_step h (foldl (ghash_step h) (ghash_step h 0 (blk ?A))
      (map blk (full_blocks 16 (pad16 C)))) (blk ?L)"
    by (simp add: gcm_ghash_def ghash_def pa a)
  ultimately show ?thesis using s x(3) y(3) by simp
qed

text \<open>
  C35. \<^verbatim>\<open>aesgcm_GHASH\<close> is the GHASH of SP 800-38D: with the 13 bytes of additional data that TLS
  has in a zero-filled block, and a ciphertext of fewer than \<open>2^29\<close> bytes (whose length in bits fits the 32-bit
  word of the code), the bit loops end and the result is the hash, under the specified
  multiplication of \<open>GF(2^128)\<close>, of the padded data, the padded ciphertext and the two lengths.
\<close>

theorem ghash_correct:
  assumes "length h = 16" "length A = 13" "length C < 2 ^ 29"
  shows "\<exists>s. aesgcm_GHASH h (A @ [0, 0, 0]) C (of_nat (length C)) = Some s \<and> length s = 16 \<and>
    blk s = gcm_ghash (blk h) A C"
  using assms by (rule aesgcm_GHASH_correct)

theorem ghash_correct_witness:
  "\<exists>s. aesgcm_GHASH (replicate 16 7) (replicate 13 1 @ [0, 0, 0]) [1, 2, 3] 3 = Some s \<and> length s = 16 \<and>
    blk s = gcm_ghash (blk (replicate 16 7)) (replicate 13 1) [1, 2, 3]"
  using ghash_correct [of "replicate 16 7" "replicate 13 1" "[1, 2, 3]"] by simp

end
