(* ===== verification/RB_Hmac.thy ===== *)
theory RB_Hmac
  imports RB_Md5Sha
begin

text \<open>
  The keyed hash and the key derivation of the TLS client, \<^verbatim>\<open>src/networking/tls.rs\<close>: HMAC with
  SHA-256 whose two keyed contexts are computed once, and the pseudorandom function of TLS 1.2.
  Both run on the contexts of \<^verbatim>\<open>src/libbb/hash_md5_sha.rs\<close>. A variable argument list is the list of its
  texts. \<^const>\<open>None\<close> is the end of the process: a message and exit (a key longer than a block), or a panic.
\<close>

section \<open>Operations\<close>

record hmac_precomputed =
  hashed_key_xor_ipad :: md5_ctx
  hashed_key_xor_opad :: md5_ctx

text \<open>The two loops that fill \<open>key_xor_ipad\<close> and \<open>key_xor_opad\<close>.\<close>

definition key_xor_pad :: "u8 list \<Rightarrow> u8 \<Rightarrow> u8 list" where
  "key_xor_pad k c = map (\<lambda>b. b XOR c) k @ replicate (64 - length k) c"

definition hmac_begin :: "hmac_precomputed \<Rightarrow> u8 list \<Rightarrow> hmac_precomputed option" where
  "hmac_begin pre k =
     (if 64 < length k then None
      else do_opt (md5_hash (sha256_begin (hashed_key_xor_ipad pre)) (key_xor_pad k 0x36)) (\<lambda>i.
           do_opt (md5_hash (sha256_begin (hashed_key_xor_opad pre)) (key_xor_pad k 0x5c)) (\<lambda>q.
             Some \<lparr>hashed_key_xor_ipad = i, hashed_key_xor_opad = q\<rparr>)))"

definition hmac_sha_precomputed_v :: "hmac_precomputed \<Rightarrow> u8 list list \<Rightarrow> (hmac_precomputed \<times> u8 list) option" where
  "hmac_sha_precomputed_v pre va =
     do_opt (absorb md5_hash (hashed_key_xor_ipad pre) va) (\<lambda>i.
     do_opt (sha1_end i) (\<lambda>(i, out).
     do_opt (md5_hash (hashed_key_xor_opad pre) out) (\<lambda>q.
     do_opt (sha1_end q) (\<lambda>(q, out).
       Some (\<lparr>hashed_key_xor_ipad = i, hashed_key_xor_opad = q\<rparr>, out)))))"

text \<open>The copy of the struct: the caller's contexts stay as they are.\<close>

definition hmac_sha_precomputed :: "hmac_precomputed \<Rightarrow> u8 list list \<Rightarrow> u8 list option" where
  "hmac_sha_precomputed pre_init va = map_option snd (hmac_sha_precomputed_v pre_init va)"

definition zero_hmac_precomputed :: hmac_precomputed where
  "zero_hmac_precomputed = \<lparr>hashed_key_xor_ipad = blank_ctx, hashed_key_xor_opad = blank_ctx\<rparr>"

definition hmac :: "u8 list \<Rightarrow> u8 list list \<Rightarrow> u8 list option" where
  "hmac k va =
     do_opt (hmac_begin zero_hmac_precomputed k) (\<lambda>pre. map_option snd (hmac_sha_precomputed_v pre va))"

function prf_loop :: "hmac_precomputed \<Rightarrow> u8 list \<Rightarrow> u8 list \<Rightarrow> u8 list \<Rightarrow> nat \<Rightarrow> u8 list option" where
  "prf_loop pre label seed a outbuf_size =
     (if outbuf_size \<le> 32 then
        do_opt (hmac_sha_precomputed pre [a, label, seed]) (\<lambda>a. Some (take outbuf_size a))
      else
        do_opt (hmac_sha_precomputed pre [a, label, seed]) (\<lambda>out_p.
        do_opt (hmac_sha_precomputed pre [a]) (\<lambda>a.
        do_opt (prf_loop pre label seed a (outbuf_size - 32)) (\<lambda>rest. Some (out_p @ rest)))))"
  by pat_completeness auto
termination by (relation "measure (\<lambda>(pre, label, seed, a, n). n)") auto

declare prf_loop.simps [simp del]

definition prf_hmac_sha256 :: "nat \<Rightarrow> u8 list \<Rightarrow> u8 list \<Rightarrow> u8 list \<Rightarrow> u8 list option" where
  "prf_hmac_sha256 outbuf_size secret label seed =
     do_opt (hmac_begin zero_hmac_precomputed secret) (\<lambda>pre.
     do_opt (hmac_sha_precomputed pre [label, seed]) (\<lambda>a.
       prf_loop pre label seed a outbuf_size))"

section \<open>The reference: RFC 2104 and section 5 of RFC 5246\<close>

definition hmac_sha256 :: "u8 list \<Rightarrow> u8 list \<Rightarrow> u8 list" where
  "hmac_sha256 k text =
     (let K = k @ replicate (64 - length k) 0
      in sha256_reference (map (\<lambda>b. b XOR 0x5c) K @ sha256_reference (map (\<lambda>b. b XOR 0x36) K @ text)))"

primrec prf_A :: "u8 list \<Rightarrow> u8 list \<Rightarrow> nat \<Rightarrow> u8 list" where
  "prf_A secret seed 0 = seed"
| "prf_A secret seed (Suc i) = hmac_sha256 secret (prf_A secret seed i)"

definition P_sha256 :: "u8 list \<Rightarrow> u8 list \<Rightarrow> nat \<Rightarrow> u8 list" where
  "P_sha256 secret seed n =
     take n (concat (map (\<lambda>i. hmac_sha256 secret (prf_A secret seed (Suc i) @ seed)) [0..<Suc (n div 32)]))"

section \<open>The keyed contexts\<close>

text \<open>What \<open>hmac_begin\<close> establishes and every use of the copy keeps.\<close>

definition keyed :: "u8 list \<Rightarrow> hmac_precomputed \<Rightarrow> bool" where
  "keyed k pre \<longleftrightarrow>
     absorb md5_hash (sha256_begin blank_ctx) [key_xor_pad k 0x36] = Some (hashed_key_xor_ipad pre) \<and>
     absorb md5_hash (sha256_begin blank_ctx) [key_xor_pad k 0x5c] = Some (hashed_key_xor_opad pre)"

lemma blank_ctx_ok [simp]: "ctx_ok blank_ctx"
  by (simp add: ctx_ok_def blank_ctx_def)

lemma length_sha256_reference [simp]: "length (sha256_reference m) = 32"
  by (simp add: sha256_reference_def length_concat comp_def sum_list_triv length_foldl_sha256 sha256_iv_def)

lemma absorb_sha256:
  assumes "\<forall>d \<in> set ds. length d < 2 ^ 64"
  shows "\<exists>c c'. absorb md5_hash (sha256_begin blank_ctx) ds = Some c \<and>
    sha1_end c = Some (c', sha256_reference (concat ds))"
  using sha256_digest [OF blank_ctx_ok assms] by (auto simp: bind_eq_Some_conv)

lemma length_key_xor_pad: "length k \<le> 64 \<Longrightarrow> length (key_xor_pad k c) = 64"
  by (simp add: key_xor_pad_def)

lemma hmac_begin_keyed:
  assumes "length k \<le> 64"
  shows "\<exists>pre. hmac_begin zero_hmac_precomputed k = Some pre \<and> keyed k pre"
proof -
  have l: "\<forall>d \<in> set [key_xor_pad k c]. length d < 2 ^ 64" for c
    using assms by (simp add: length_key_xor_pad)
  obtain i q where "absorb md5_hash (sha256_begin blank_ctx) [key_xor_pad k 0x36] = Some i"
    "absorb md5_hash (sha256_begin blank_ctx) [key_xor_pad k 0x5c] = Some q"
    using absorb_sha256 [OF l] by metis
  then show ?thesis using assms
    by (auto simp: hmac_begin_def zero_hmac_precomputed_def keyed_def bind_eq_Some_conv)
qed

lemma hmac_precomputed_correct:
  assumes "keyed k pre" "length k \<le> 64" "\<forall>t \<in> set va. length t < 2 ^ 64"
  shows "hmac_sha_precomputed pre va = Some (hmac_sha256 k (concat va))"
proof -
  let ?i = "key_xor_pad k 0x36" and ?o = "key_xor_pad k 0x5c"
  have l: "length ?i < 2 ^ 64" "length ?o < 2 ^ 64" using assms(2) by (simp_all add: length_key_xor_pad)
  obtain c c' where c: "absorb md5_hash (sha256_begin blank_ctx) (?i # va) = Some c"
    "sha1_end c = Some (c', sha256_reference (?i @ concat va))"
    using absorb_sha256 [of "?i # va"] l assms(3) by auto
  let ?d = "sha256_reference (?i @ concat va)"
  obtain q q' where q: "absorb md5_hash (sha256_begin blank_ctx) [?o, ?d] = Some q"
    "sha1_end q = Some (q', sha256_reference (?o @ ?d))"
    using absorb_sha256 [of "[?o, ?d]"] l by auto
  have "absorb md5_hash (hashed_key_xor_ipad pre) va = Some c"
    using c(1) assms(1) by (simp add: keyed_def bind_eq_Some_conv)
  moreover have "md5_hash (hashed_key_xor_opad pre) ?d = Some q"
    using q(1) assms(1) by (simp add: keyed_def bind_eq_Some_conv)
  ultimately have "hmac_sha_precomputed pre va = Some (sha256_reference (?o @ ?d))"
    using c(2) q(2) by (simp add: hmac_sha_precomputed_def hmac_sha_precomputed_v_def)
  then show ?thesis by (simp add: hmac_sha256_def key_xor_pad_def map_replicate_const Let_def)
qed

section \<open>The pseudorandom function\<close>

abbreviation prf_block :: "u8 list \<Rightarrow> u8 list \<Rightarrow> nat \<Rightarrow> u8 list" where
  "prf_block secret s i \<equiv> hmac_sha256 secret (prf_A secret s (Suc i) @ s)"

lemma length_hmac_sha256 [simp]: "length (hmac_sha256 k t) = 32"
  by (simp add: hmac_sha256_def Let_def)

lemma prf_loop_correct:
  assumes k: "keyed secret pre" "length secret \<le> 64" and l: "length label < 2 ^ 64" "length seed < 2 ^ 64"
  shows "prf_loop pre label seed (prf_A secret (label @ seed) (Suc i)) n =
    Some (take n (concat (map (prf_block secret (label @ seed)) [i..<i + Suc (n div 32)])))"
proof (induction n arbitrary: i rule: less_induct)
  case (less n)
  let ?s = "label @ seed" and ?a = "prf_A secret (label @ seed) (Suc i)"
  have b: "hmac_sha_precomputed pre [?a, label, seed] = Some (prf_block secret ?s i)"
    using hmac_precomputed_correct [OF k, of "[?a, label, seed]"] l by simp
  have a: "hmac_sha_precomputed pre [?a] = Some (prf_A secret ?s (Suc (Suc i)))"
    using hmac_precomputed_correct [OF k, of "[?a]"] by simp
  show ?case
  proof (cases "n \<le> 32")
    case True
    have "concat (map (prf_block secret ?s) [i..<i + Suc (n div 32)]) =
        prf_block secret ?s i @ concat (map (prf_block secret ?s) [Suc i..<i + Suc (n div 32)])"
      by (subst upt_conv_Cons) simp_all
    then show ?thesis using True b by (subst prf_loop.simps) simp
  next
    case False
    have u: "[i..<i + Suc (n div 32)] = i # [Suc i..<Suc i + Suc ((n - 32) div 32)]"
    proof -
      have "n div 32 = Suc ((n - 32) div 32)" using False by (simp add: le_div_geq)
      then show ?thesis by (simp add: upt_conv_Cons)
    qed
    have "prf_loop pre label seed (prf_A secret ?s (Suc (Suc i))) (n - 32) =
        Some (take (n - 32) (concat (map (prf_block secret ?s) [Suc i..<Suc i + Suc ((n - 32) div 32)])))"
      using False by (intro less.IH) simp
    then show ?thesis unfolding u using False a b
      by (subst prf_loop.simps) (simp del: prf_A.simps upt_Suc)
  qed
qed

lemma prf_hmac_sha256_correct:
  assumes "length secret \<le> 64" "length label < 2 ^ 64" "length seed < 2 ^ 64"
  shows "prf_hmac_sha256 n secret label seed = Some (P_sha256 secret (label @ seed) n)"
proof -
  obtain pre where pre: "hmac_begin zero_hmac_precomputed secret = Some pre" "keyed secret pre"
    using hmac_begin_keyed [OF assms(1)] by blast
  have "hmac_sha_precomputed pre [label, seed] = Some (prf_A secret (label @ seed) (Suc 0))"
    using hmac_precomputed_correct [OF pre(2) assms(1), of "[label, seed]"] assms(2,3) by simp
  then show ?thesis
    using prf_loop_correct [OF pre(2) assms, of 0 n] pre(1)
    by (simp add: prf_hmac_sha256_def P_sha256_def del: prf_A.simps upt_Suc)
qed

lemma hmac_correct:
  assumes "length k \<le> 64" "\<forall>t \<in> set va. length t < 2 ^ 64"
  shows "hmac k va = Some (hmac_sha256 k (concat va))"
proof -
  obtain pre where "hmac_begin zero_hmac_precomputed k = Some pre" "keyed k pre"
    using hmac_begin_keyed [OF assms(1)] by blast
  then show ?thesis using hmac_precomputed_correct [of k pre va] assms
    by (simp add: hmac_def hmac_sha_precomputed_def)
qed

section \<open>Property\<close>



end
