(* ===== verification/RB_Pstm.thy ===== *)
theory RB_Pstm
  imports RB_HashCore
begin

text \<open>
  Multi-precision integers of the TLS client, \<^verbatim>\<open>src/networking/tls_pstm.rs\<close>: the representation, its growth and
  trimming, and the conversion from big-endian bytes. \<open>alloc\<close> is the length of \<open>dp\<close>; digits are 32 bits wide, the least
  significant first. The functions of this part always return \<^verbatim>\<open>PSTM_OKAY\<close>, so their results are the numbers
  they leave behind.
\<close>

section \<open>Representation\<close>

record pstm_int =
  used :: nat
  sign :: nat
  dp :: "u32 list"

definition pstm_init_size :: "nat \<Rightarrow> pstm_int" where
  "pstm_init_size sz = \<lparr>used = 0, sign = 0, dp = replicate sz 0\<rparr>"

definition pstm_grow :: "pstm_int \<Rightarrow> nat \<Rightarrow> pstm_int" where
  "pstm_grow a sz = (if length (dp a) < sz then a\<lparr>dp := dp a @ replicate (sz - length (dp a)) 0\<rparr> else a)"

fun clamp_used :: "u32 list \<Rightarrow> nat \<Rightarrow> nat" where
  "clamp_used d 0 = 0"
| "clamp_used d (Suc n) = (if d ! n = 0 then clamp_used d n else Suc n)"

definition pstm_clamp :: "pstm_int \<Rightarrow> pstm_int" where
  "pstm_clamp a =
     (let a = a\<lparr>used := clamp_used (dp a) (used a)\<rparr> in if used a = 0 then a\<lparr>sign := 0\<rparr> else a)"

definition pstm_zero :: "pstm_int \<Rightarrow> pstm_int" where
  "pstm_zero a = a\<lparr>sign := 0, used := 0, dp := replicate (length (dp a)) 0\<rparr>"

section \<open>Reading bytes\<close>

definition pstm_init_for_read_unsigned_bin :: "nat \<Rightarrow> pstm_int" where
  "pstm_init_for_read_unsigned_bin len = pstm_init_size (len div 4 * (4 * 8) div 32 + 2)"

text \<open>The digits seen as bytes.\<close>

definition digit_bytes :: "u32 list \<Rightarrow> u8 list" where
  "digit_bytes d = concat (map le_bytes32 d)"

definition byte_digits :: "u8 list \<Rightarrow> u32 list" where
  "byte_digits b = map (read_u32 b) [0..<length b div 4]"

text \<open>Of more than \<open>4 * 4096\<close> bytes the leading ones are skipped. Byte \<open>k\<close> is stored at \<open>c - 1 - k\<close>.\<close>

definition pstm_read_unsigned_bin :: "pstm_int \<Rightarrow> u8 list \<Rightarrow> pstm_int" where
  "pstm_read_unsigned_bin a b =
     (let a = pstm_zero a;
          b = (if 4096 * 4 < length b then drop (length b - 4096 * 4) b else b);
          a = a\<lparr>used := (length b + 4 - 1) div 4\<rparr>;
          a = (if length (dp a) < used a then pstm_grow a (used a) else a)
      in pstm_clamp (a\<lparr>dp := byte_digits (blit 0 (rev b) (digit_bytes (dp a)))\<rparr>))"

fun bits_in :: "nat \<Rightarrow> nat" where
  "bits_in q = (if 0 < q then Suc (bits_in (q div 2)) else 0)"

declare bits_in.simps [simp del]

definition pstm_count_bits :: "pstm_int \<Rightarrow> nat" where
  "pstm_count_bits a =
     (if used a = 0 then 0 else (used a - 1) * 32 + bits_in (unat (dp a ! (used a - 1))))"

definition pstm_unsigned_bin_size :: "pstm_int \<Rightarrow> nat" where
  "pstm_unsigned_bin_size a =
     (let sz = pstm_count_bits a in sz div 8 + (if sz mod 8 \<noteq> 0 then 1 else 0))"

section \<open>Values\<close>

primrec dval :: "u32 list \<Rightarrow> nat" where
  "dval [] = 0"
| "dval (d # ds) = unat d + 2 ^ 32 * dval ds"

definition pstm_nat :: "pstm_int \<Rightarrow> nat" where
  "pstm_nat a = dval (take (used a) (dp a))"

text \<open>The invariant: digits above \<open>used\<close> are zero, the leading used digit is not, and zero is positive.\<close>

definition pstm_ok :: "pstm_int \<Rightarrow> bool" where
  "pstm_ok a \<longleftrightarrow> used a \<le> length (dp a) \<and> (\<forall>i < length (dp a). used a \<le> i \<longrightarrow> dp a ! i = 0) \<and>
     (0 < used a \<longrightarrow> dp a ! (used a - 1) \<noteq> 0) \<and> (used a = 0 \<longrightarrow> sign a = 0)"

lemma dval_append: "dval (x @ y) = dval x + 2 ^ (32 * length x) * dval y"
  by (induction x) (simp_all add: algebra_simps power_add)

lemma dval_replicate [simp]: "dval (replicate n 0) = 0"
  by (induction n) simp_all

lemma dval_zero: "(\<forall>x \<in> set xs. x = 0) \<Longrightarrow> dval xs = 0"
  by (induction xs) simp_all

lemma clamp_used_le: "clamp_used d n \<le> n"
  by (induction d n rule: clamp_used.induct) auto

lemma clamp_used_top: "0 < clamp_used d n \<Longrightarrow> d ! (clamp_used d n - 1) \<noteq> 0"
  by (induction d n rule: clamp_used.induct) (auto split: if_splits)

lemma clamp_used_above: "clamp_used d n \<le> i \<Longrightarrow> i < n \<Longrightarrow> d ! i = 0"
proof (induction d n rule: clamp_used.induct)
  case (2 d n)
  then show ?case by (cases "i = n") (auto split: if_splits)
qed simp

lemma dval_take_trim:
  assumes "m \<le> n" "n \<le> length d" "\<And>i. m \<le> i \<Longrightarrow> i < n \<Longrightarrow> d ! i = 0"
  shows "dval (take n d) = dval (take m d)"
proof -
  have "take n d = take m d @ take (n - m) (drop m d)"
    using assms(1) by (metis le_add_diff_inverse take_add)
  moreover have "\<forall>x \<in> set (take (n - m) (drop m d)). x = 0"
    using assms by (auto simp: in_set_conv_nth)
  ultimately show ?thesis by (simp add: dval_append dval_zero)
qed

lemma pstm_nat_clamp: "used a \<le> length (dp a) \<Longrightarrow> pstm_nat (pstm_clamp a) = pstm_nat a"
  using dval_take_trim [OF clamp_used_le _ clamp_used_above, of "used a" "dp a"]
  by (simp add: pstm_nat_def pstm_clamp_def Let_def)

lemma pstm_ok_clamp:
  assumes "used a \<le> length (dp a)" "\<And>i. used a \<le> i \<Longrightarrow> i < length (dp a) \<Longrightarrow> dp a ! i = 0"
  shows "pstm_ok (pstm_clamp a)"
proof -
  let ?u = "clamp_used (dp a) (used a)"
  have "\<forall>i < length (dp a). ?u \<le> i \<longrightarrow> dp a ! i = 0"
    using assms(2) clamp_used_above [of "dp a" "used a"] by (metis not_le)
  then show ?thesis
    using assms(1) clamp_used_le [of "dp a" "used a"] clamp_used_top [of "dp a" "used a"]
    by (simp add: pstm_ok_def pstm_clamp_def Let_def)
qed

subsection \<open>Bytes and digits\<close>

lemma length_digit_bytes [simp]: "length (digit_bytes d) = 4 * length d"
  by (induction d) (simp_all add: digit_bytes_def)

lemma nat_bytes:
  "(n :: nat) mod 256 + (256 * (n div 256 mod 256) + (65536 * (n div 65536 mod 256) + 16777216 * (n div 16777216))) = n"
proof -
  have a: "n div (256 * 256) = n div 256 div 256" by (rule div_mult2_eq)
  have b: "n div (256 * 256 * 256) = n div 256 div 256 div 256" unfolding a [symmetric] by (rule div_mult2_eq)
  have c: "(65536 :: nat) = 256 * 256" "(16777216 :: nat) = 256 * 256 * 256" by simp_all
  show ?thesis
    unfolding c a b
    using mult_div_mod_eq [of 256 n] mult_div_mod_eq [of 256 "n div 256"] mult_div_mod_eq [of 256 "n div 256 div 256"] by linarith
qed

lemma bval_word:
  "bval [b0, b1, b2, b3] = unat (read_u32 (b0 # b1 # b2 # b3 # bs) 0)"
proof -
  have "le_bytes32 (read_u32 (b0 # b1 # b2 # b3 # bs) 0) = [b0, b1, b2, b3]"
    by (simp add: le_bytes32_read)
  moreover have "bval (le_bytes32 w) = unat w" for w
  proof -
    have "unat w < 2 ^ 32" using unsigned_less [of w, where 'a = nat] by simp
    moreover have "unat (ucast (drop_bit k w) :: u8) = unat w div 2 ^ k mod 256" for k
      by (simp only: unsigned_ucast_eq unat_drop_bit_eq) (simp add: take_bit_eq_mod drop_bit_eq_div)
    moreover have "unat (ucast w :: u8) = unat w mod 256"
      by (simp add: unsigned_ucast_eq take_bit_eq_mod)
    ultimately show ?thesis using nat_bytes [of "unat w"] by (simp only: le_bytes32_4 bval.simps) simp
  qed
  ultimately show ?thesis by metis
qed

lemma read_u32_drop: "read_u32 (b0 # b1 # b2 # b3 # bs) (Suc i) = read_u32 bs i"
  by (simp add: read_u32_def numeral_eq_Suc)

lemma dval_byte_digits: "length b = 4 * n \<Longrightarrow> dval (byte_digits b) = bval b"
proof (induction n arbitrary: b)
  case 0
  then show ?case by (simp add: byte_digits_def)
next
  case (Suc n)
  then have "length b = Suc (Suc (Suc (Suc (4 * n))))" by simp
  then obtain b0 b1 b2 b3 bs where b: "b = b0 # b1 # b2 # b3 # bs" "length bs = 4 * n"
    by (auto simp: length_Suc_conv)
  have "byte_digits b = read_u32 b 0 # byte_digits bs"
    using b by (simp add: byte_digits_def upt_conv_Cons map_Suc_upt [symmetric] read_u32_drop comp_def del: upt_Suc)
  then show ?case using Suc.IH [OF b(2)] bval_word [of b0 b1 b2 b3 bs] b(1) by simp
qed

lemma digit_bytes_zero: "digit_bytes (replicate n 0) = replicate (4 * n) 0"
  by (induction n) (simp_all add: digit_bytes_def le_bytes32_4 numeral_eq_Suc)

lemma bval_zeros [simp]: "bval (replicate n 0) = 0"
  by (induction n) simp_all

lemma byte_digits_zero:
  assumes "length b = 4 * n" "i < n" "\<And>j. 4 * i \<le> j \<Longrightarrow> j < length b \<Longrightarrow> b ! j = 0"
  shows "byte_digits b ! i = 0"
  using assms(1,2) assms(3) [of "4 * i"] assms(3) [of "4 * i + 1"] assms(3) [of "4 * i + 2"] assms(3) [of "4 * i + 3"]
  by (simp add: byte_digits_def read_u32_def)

text \<open>\<^const>\<open>pstm_read_unsigned_bin\<close> stores the big-endian number and re-establishes the invariant, for at most \<open>16384\<close> bytes.\<close>

lemma pstm_read_unsigned_bin_nat:
  assumes "length b \<le> 16384"
  shows "pstm_nat (pstm_read_unsigned_bin a b) = bval (rev b)" "pstm_ok (pstm_read_unsigned_bin a b)"
    "sign (pstm_read_unsigned_bin a b) = 0"
proof -
  define n where "n = max (length (dp a)) ((length b + 3) div 4)"
  let ?u = "(length b + 3) div 4"
  let ?d = "byte_digits (blit 0 (rev b) (replicate (4 * n) 0))"
  let ?a = "\<lparr>used = ?u, sign = 0, dp = ?d, \<dots> = pstm_int.more a\<rparr>"
  have eq: "pstm_read_unsigned_bin a b = pstm_clamp ?a"
    using assms unfolding pstm_read_unsigned_bin_def Let_def pstm_zero_def pstm_grow_def n_def
    by (cases a) (auto simp: digit_bytes_zero max_def replicate_add [symmetric] add.commute)
  have b: "length b \<le> 4 * n" "?u \<le> n" "length b \<le> 4 * ?u" by (auto simp: n_def)
  have blit: "blit 0 (rev b) (replicate (4 * n) 0) = rev b @ replicate (4 * n - length b) 0"
    by (simp add: blit_def)
  have l: "length ?d = n" using b(1) by (simp add: byte_digits_def blit)
  have z: "?d ! i = 0" if "?u \<le> i" "i < n" for i
  proof (rule byte_digits_zero [of _ n])
    show "length (blit 0 (rev b) (replicate (4 * n) 0)) = 4 * n" using b(1) by (simp add: blit)
    show "blit 0 (rev b) (replicate (4 * n) 0) ! j = 0" if "4 * i \<le> j" "j < length (blit 0 (rev b) (replicate (4 * n) 0))" for j
      using that \<open>?u \<le> i\<close> b(3) by (auto simp: blit nth_append)
  qed (rule that)
  show "pstm_ok (pstm_read_unsigned_bin a b)"
    unfolding eq by (rule pstm_ok_clamp) (use b l z in auto)
  have "pstm_nat (pstm_clamp ?a) = dval (take ?u ?d)"
    using pstm_nat_clamp [of ?a] b l by (simp add: pstm_nat_def)
  also have "\<dots> = dval (take n ?d)"
    by (rule dval_take_trim [symmetric]) (use b l z in auto)
  also have "\<dots> = bval (rev b @ replicate (4 * n - length b) 0)"
    using dval_byte_digits [of "blit 0 (rev b) (replicate (4 * n) 0)" n] b(1) l by (simp add: blit)
  finally show "pstm_nat (pstm_read_unsigned_bin a b) = bval (rev b)" by (simp add: eq bval_append)
  show "sign (pstm_read_unsigned_bin a b) = 0" unfolding eq by (simp add: pstm_clamp_def Let_def)
qed

end
