(* ===== verification/RB_PstmArith.thy ===== *)
theory RB_PstmArith
  imports RB_Pstm
begin

text \<open>
  The arithmetic of the TLS client's multi-precision integers, \<^verbatim>\<open>src/networking/tls_pstm.rs\<close>: copies, comparison, shifts,
  addition and subtraction. An operation that writes its result into the integer \<open>c\<close> takes \<open>c\<close> as its last argument and
  returns it; an operation in place is the call with \<open>c\<close> one of the operands, which agrees with the code because every loop
  reads the digits at a position before it writes that position. The one exception is \<open>s_pstm_add\<close>, whose
  loop reads the count of used digits after it has been changed, so that it is told whether \<open>a\<close> and \<open>c\<close> are one object.

  The last loops of most operations clear the digits of \<open>c\<close> above the result that were in use before: \<open>lay ds old d\<close>
  are the digits \<open>d\<close> after \<open>ds\<close> has been stored from position 0 and the positions up to \<open>old\<close> have been cleared.
\<close>

text \<open>The negative values that the functions return, which their callers only compare with 0, are the one constructor
  \<open>PS_LIMIT_FAIL\<close>. \<open>Not_ended\<close> stands for fuel that was not enough.\<close>

datatype pstm_fail = PS_LIMIT_FAIL | Bad_access | Not_ended | Rsa_die string

section \<open>Copies and comparison\<close>

definition lay :: "u32 list \<Rightarrow> nat \<Rightarrow> u32 list \<Rightarrow> u32 list" where
  "lay ds old d = ds @ replicate (old - length ds) 0 @ drop (max (length ds) old) d"

definition pstm_copy :: "pstm_int \<Rightarrow> pstm_int \<Rightarrow> pstm_int" where
  "pstm_copy a b =
     (let b = (if length (dp b) < used a then pstm_grow b (used a) else b)
      in b\<lparr>dp := lay (take (used a) (dp a)) (used b) (dp b), used := used a, sign := sign a\<rparr>)"

definition pstm_init_copy :: "pstm_int \<Rightarrow> bool \<Rightarrow> pstm_int" where
  "pstm_init_copy b toSqr =
     (let x = length (dp b);
          x = (if toSqr \<and> x \<le> used b * 2 + 2 then used b * 2 + 3 else x)
      in pstm_copy b (pstm_init_size x))"

primrec cmp_digits :: "u32 list \<Rightarrow> u32 list \<Rightarrow> nat \<Rightarrow> int" where
  "cmp_digits da db 0 = 0"
| "cmp_digits da db (Suc n) =
     (if da ! n > db ! n then 1 else if da ! n < db ! n then -1 else cmp_digits da db n)"

definition pstm_cmp_mag :: "pstm_int \<Rightarrow> pstm_int \<Rightarrow> int" where
  "pstm_cmp_mag a b =
     (if used a > used b then 1 else if used a < used b then -1 else cmp_digits (dp a) (dp b) (used a))"

definition pstm_cmp :: "pstm_int \<Rightarrow> pstm_int \<Rightarrow> int" where
  "pstm_cmp a b =
     (if sign a \<noteq> sign b then if sign a = 1 then -1 else 1
      else if sign a = 1 then pstm_cmp_mag b a else pstm_cmp_mag a b)"

section \<open>Shifts\<close>

definition pstm_set :: "pstm_int \<Rightarrow> u32 \<Rightarrow> pstm_int" where
  "pstm_set a b =
     (let a = pstm_zero a; a = a\<lparr>dp := (dp a)[0 := b]\<rparr> in a\<lparr>used := (if dp a ! 0 \<noteq> 0 then 1 else 0)\<rparr>)"

definition pstm_rshd :: "pstm_int \<Rightarrow> nat \<Rightarrow> pstm_int" where
  "pstm_rshd a x =
     (if used a \<le> x then pstm_zero a
      else pstm_clamp (a\<lparr>dp := lay (drop x (take (used a) (dp a))) (used a) (dp a), used := used a - x\<rparr>))"

definition pstm_lshd :: "pstm_int \<Rightarrow> nat \<Rightarrow> pstm_int" where
  "pstm_lshd a b =
     (if b = 0 then a
      else let a = (if length (dp a) < used a + b then pstm_grow a (used a + b) else a)
           in a\<lparr>dp := replicate b 0 @ take (used a) (dp a) @ drop (used a + b) (dp a), used := used a + b\<rparr>)"

definition pstm_2expt :: "pstm_int \<Rightarrow> nat \<Rightarrow> pstm_fail + pstm_int" where
  "pstm_2expt a b =
     (let a = pstm_zero a; z = b div 32
      in if 4096 \<le> z then Inl PS_LIMIT_FAIL
         else let a = a\<lparr>used := z + 1\<rparr>;
                  a = (if length (dp a) < used a then pstm_grow a (used a) else a)
              in Inr (a\<lparr>dp := (dp a)[z := push_bit (b mod 32) 1]\<rparr>))"

fun mul_2_digits :: "u32 \<Rightarrow> u32 list \<Rightarrow> u32 list \<times> u32" where
  "mul_2_digits r [] = ([], r)"
| "mul_2_digits r (d # ds) =
     (let (es, r') = mul_2_digits (drop_bit 31 d) ds in ((push_bit 1 d OR r) # es, r'))"

definition pstm_mul_2 :: "pstm_int \<Rightarrow> pstm_int \<Rightarrow> pstm_int" where
  "pstm_mul_2 a b =
     (let b = (if length (dp b) < used a + 1 then pstm_grow b (used a + 1) else b);
          (ds, r) = mul_2_digits 0 (take (used a) (dp a));
          ds = (if r \<noteq> 0 \<and> used a \<noteq> 4096 - 1 then ds @ [1] else ds)
      in b\<lparr>dp := lay ds (used b) (dp b), used := length ds, sign := sign a\<rparr>)"

fun shl_digits :: "nat \<Rightarrow> u32 \<Rightarrow> u32 list \<Rightarrow> u32 list \<times> u32" where
  "shl_digits b carry [] = ([], carry)"
| "shl_digits b carry (d # ds) =
     (let (es, carry') = shl_digits b (drop_bit (32 - b) d) ds in ((push_bit b d + carry) # es, carry'))"

definition pstm_mul_2d :: "pstm_int \<Rightarrow> nat \<Rightarrow> pstm_int \<Rightarrow> pstm_int" where
  "pstm_mul_2d a b c =
     (let c = pstm_copy a c;
          c = (if 32 \<le> b then pstm_lshd c (b div 32) else c);
          b = b mod 32
      in pstm_clamp
           (if b = 0 then c
            else let (ds, carry) = shl_digits b 0 (take (used c) (dp c));
                     x = used c;
                     c = c\<lparr>dp := ds @ drop (used c) (dp c)\<rparr>
                 in if carry \<noteq> 0 \<and> x < 4096
                    then let c = (if used c = length (dp c) then pstm_grow c (length (dp c) + 1) else c)
                         in c\<lparr>dp := (dp c)[used c := carry], used := used c + 1\<rparr>
                    else c))"

text \<open>The most significant digit comes first.\<close>

fun shr_digits :: "nat \<Rightarrow> u32 \<Rightarrow> u32 list \<Rightarrow> u32 list" where
  "shr_digits D r [] = []"
| "shr_digits D r (d # ds) =
     (drop_bit D d OR push_bit (32 - D) r) # shr_digits D (d AND (push_bit D 1 - 1)) ds"

text \<open>Every caller passes a null pointer for the remainder.\<close>

definition pstm_div_2d :: "pstm_int \<Rightarrow> nat \<Rightarrow> pstm_int \<Rightarrow> pstm_int" where
  "pstm_div_2d a b c =
     (if b = 0 then pstm_copy a c
      else let c = pstm_copy a c;
               c = (if 32 \<le> b then pstm_rshd c (b div 32) else c);
               D = b mod 32;
               c = (if D \<noteq> 0
                    then c\<lparr>dp := rev (shr_digits D 0 (rev (take (used c) (dp c)))) @ drop (used c) (dp c)\<rparr>
                    else c)
           in pstm_clamp c)"

definition pstm_init :: pstm_int where
  "pstm_init = \<lparr>used = 0, sign = 0, dp = replicate 64 0\<rparr>"

text \<open>The shift by \<open>32 - b\<close> overflows for \<open>b > 32\<close>.\<close>

definition pstm_mod_2d :: "pstm_int \<Rightarrow> nat \<Rightarrow> pstm_int \<Rightarrow> pstm_fail + pstm_int" where
  "pstm_mod_2d a b c =
     (if b = 0 then Inr (pstm_zero c)
      else let c = pstm_copy a c
           in if 32 * used a \<le> b then Inr c
              else let x = b div 32 + (if b mod 32 = 0 then 0 else 1);
                       c = c\<lparr>dp := lay (take x (dp c)) (used c) (dp c)\<rparr>
                   in if 32 < b then Inl (Rsa_die ''attempt to shift right with overflow'')
                      else Inr (pstm_clamp (c\<lparr>dp := (dp c)[b div 32 := dp c ! (b div 32) AND drop_bit (32 - b) (NOT 0)]\<rparr>)))"

text \<open>The remainder of \<open>pstm_div_2d\<close>, which no caller asks for.\<close>

definition pstm_div_2d_remainder :: "pstm_int \<Rightarrow> nat \<Rightarrow> pstm_int \<Rightarrow> pstm_fail + pstm_int" where
  "pstm_div_2d_remainder a b d =
     (if b = 0 then Inr (pstm_zero d) else do_res (pstm_mod_2d a b pstm_init) (\<lambda>t. Inr (pstm_copy t d)))"

section \<open>Addition and subtraction\<close>

text \<open>The first loop of the subtraction keeps one bit of the borrow, the second keeps its upper 32 bits.\<close>

fun sub_digits :: "u64 \<Rightarrow> u32 list \<Rightarrow> u32 list \<Rightarrow> u32 list" where
  "sub_digits t [] bs = []"
| "sub_digits t (a # as) (b # bs) =
     (let t = ucast a - (ucast b + t) in ucast t # sub_digits (drop_bit 32 t AND 1) as bs)"
| "sub_digits t (a # as) [] = (let t = ucast a - t in ucast t # sub_digits (drop_bit 32 t) as [])"

definition s_pstm_sub :: "pstm_int \<Rightarrow> pstm_int \<Rightarrow> pstm_int \<Rightarrow> pstm_fail + pstm_int" where
  "s_pstm_sub a b c =
     (if used b > used a then Inl PS_LIMIT_FAIL
      else let c = (if length (dp c) < used a then pstm_grow c (used a) else c);
               ds = sub_digits 0 (take (used a) (dp a)) (take (used b) (dp b))
           in Inr (pstm_clamp (c\<lparr>dp := lay ds (used c) (dp c), used := used a\<rparr>)))"

text \<open>A digit of an operand with \<open>n\<close> used digits, at position \<open>x\<close>: the test \<open>n < x\<close> lets position \<open>n\<close> through.\<close>

definition add_operand :: "nat \<Rightarrow> u32 list \<Rightarrow> nat \<Rightarrow> u64 option" where
  "add_operand n d x = (if n < x then Some 0 else if x < length d then Some (ucast (d ! x)) else None)"

fun add_digits :: "(nat \<Rightarrow> u64 option) \<Rightarrow> (nat \<Rightarrow> u64 option) \<Rightarrow> u64 \<Rightarrow> nat list \<Rightarrow> (u32 list \<times> u64) option" where
  "add_digits f g t [] = Some ([], t)"
| "add_digits f g t (x # xs) =
     do_opt (f x) (\<lambda>adp. do_opt (g x) (\<lambda>bdp.
       let t = t + (adp + bdp)
       in do_opt (add_digits f g (drop_bit 32 t) xs) (\<lambda>(ds, t'). Some (ucast t # ds, t'))))"

definition s_pstm_add :: "bool \<Rightarrow> pstm_int \<Rightarrow> pstm_int \<Rightarrow> pstm_int \<Rightarrow> pstm_fail + pstm_int" where
  "s_pstm_add a_is_c a b c =
     (let y = max (used a) (used b);
          oldused = used c;
          c = c\<lparr>used := y\<rparr>;
          c = (if used c > length (dp c) then pstm_grow c (used c) else c);
          a = (if a_is_c then c else a)
      in do_res (expect Bad_access (add_digits (add_operand (used a) (dp a)) (add_operand (used b) (dp b)) 0 [0..<y])) (\<lambda>(ds, t).
           let c = c\<lparr>dp := ds @ drop y (dp c)\<rparr>;
               c = (if t \<noteq> 0 \<and> y < 4096
                    then let c = (if used c = length (dp c) then pstm_grow c (length (dp c) + 1) else c)
                         in c\<lparr>dp := (dp c)[used c := ucast t], used := used c + 1\<rparr>
                    else c)
           in Inr (pstm_clamp (c\<lparr>dp := lay (take (used c) (dp c)) oldused (dp c)\<rparr>))))"

definition pstm_sub :: "bool \<Rightarrow> pstm_int \<Rightarrow> pstm_int \<Rightarrow> pstm_int \<Rightarrow> pstm_fail + pstm_int" where
  "pstm_sub a_is_c a b c =
     (let sa = sign a; sb = sign b
      in if sa \<noteq> sb then s_pstm_add a_is_c a b (c\<lparr>sign := sa\<rparr>)
         else if pstm_cmp_mag a b \<noteq> -1 then s_pstm_sub a b (c\<lparr>sign := sa\<rparr>)
         else s_pstm_sub b a (c\<lparr>sign := (if sa = 0 then 1 else 0)\<rparr>))"

definition pstm_add :: "bool \<Rightarrow> pstm_int \<Rightarrow> pstm_int \<Rightarrow> pstm_int \<Rightarrow> pstm_fail + pstm_int" where
  "pstm_add a_is_c a b c =
     (let sa = sign a; sb = sign b
      in if sa = sb then s_pstm_add a_is_c a b (c\<lparr>sign := sa\<rparr>)
         else if pstm_cmp_mag a b = -1 then s_pstm_sub b a (c\<lparr>sign := sb\<rparr>)
         else s_pstm_sub a b (c\<lparr>sign := sa\<rparr>))"

fun mul_d_digits :: "u32 \<Rightarrow> u64 \<Rightarrow> u32 list \<Rightarrow> u32 list \<times> u64" where
  "mul_d_digits b w [] = ([], w)"
| "mul_d_digits b w (d # ds) =
     (let w = ucast d * ucast b + w; (es, w') = mul_d_digits b (drop_bit 32 w) ds in (ucast w # es, w'))"

definition pstm_mul_d :: "pstm_int \<Rightarrow> u32 \<Rightarrow> pstm_int \<Rightarrow> pstm_int" where
  "pstm_mul_d a b c =
     (let c = (if length (dp c) < used a + 1 then pstm_grow c (used a + 1) else c);
          (ds, w) = mul_d_digits b 0 (take (used a) (dp a));
          ds = (if w \<noteq> 0 \<and> used a \<noteq> 4096 then ds @ [ucast w] else ds)
      in pstm_clamp (c\<lparr>dp := lay ds (used c) (dp c), used := length ds, sign := sign a\<rparr>))"

lemma clamp_used_zero: "(\<And>i. i < n \<Longrightarrow> d ! i = 0) \<Longrightarrow> clamp_used d n = 0"
  by (induction n) auto

lemma mul_d_digits_zero: "mul_d_digits 0 0 ds = (replicate (length ds) 0, 0)"
  by (induction ds) simp_all

lemma pstm_mul_d_zero: "used (pstm_mul_d a 0 c) = 0"
proof -
  have "clamp_used (lay (replicate n 0) m d) n = 0" for n m and d :: "u32 list"
    by (rule clamp_used_zero) (simp add: lay_def nth_append)
  then show ?thesis by (simp add: pstm_mul_d_def Let_def mul_d_digits_zero pstm_clamp_def)
qed

lemma pstm_cmp_mag_unused: "used a = 0 \<Longrightarrow> pstm_cmp_mag a b \<noteq> 1"
  by (auto simp: pstm_cmp_mag_def)

section \<open>Digits and values\<close>

lemma dval_bound: "dval ds < 2 ^ (32 * length ds)"
proof (induction ds)
  case (Cons d ds)
  have "unat d < 2 ^ 32" using unsigned_less [of d, where 'a = nat] by simp
  moreover have "Suc (dval ds) \<le> 2 ^ (32 * length ds)" using Cons by simp
  then have "2 ^ 32 * Suc (dval ds) \<le> 2 ^ 32 * 2 ^ (32 * length ds)" by (rule mult_le_mono2)
  ultimately show ?case by (simp add: power_add)
qed simp

lemma dval_take_Suc: "n < length d \<Longrightarrow> dval (take (Suc n) d) = dval (take n d) + 2 ^ (32 * n) * unat (d ! n)"
  by (simp add: take_Suc_conv_app_nth dval_append)

lemma dval_drop: "dval (drop n d) = dval d div 2 ^ (32 * n)"
proof (cases "n \<le> length d")
  case True
  then have "dval d = dval (take n d) + 2 ^ (32 * n) * dval (drop n d)"
    using dval_append [of "take n d" "drop n d"] by simp
  moreover have "dval (take n d) < 2 ^ (32 * n)" using dval_bound [of "take n d"] True by simp
  ultimately show ?thesis by simp
next
  case False
  then have "dval d < 2 ^ (32 * n)" using dval_bound [of d] by (smt (verit) le_less_trans less_imp_le_nat linorder_not_le mult_le_mono2 one_le_numeral order_less_le_trans power_increasing)
  then show ?thesis using False by simp
qed

lemma dval_nth: "i < length d \<Longrightarrow> unat (d ! i) = dval d div 2 ^ (32 * i) mod 2 ^ 32"
proof -
  assume i: "i < length d"
  have "unat (d ! i) < 2 ^ 32" using unsigned_less [of "d ! i", where 'a = nat] by simp
  moreover have "dval d div 2 ^ (32 * i) = unat (d ! i) + 2 ^ 32 * dval (drop (Suc i) d)"
    using dval_drop [of i d] Cons_nth_drop_Suc [OF i, symmetric] by simp
  ultimately show ?thesis by simp
qed

lemma dval_top: "d ! n \<noteq> 0 \<Longrightarrow> n < length d \<Longrightarrow> 2 ^ (32 * n) \<le> dval (take (Suc n) d)"
proof -
  assume d: "d ! n \<noteq> 0" "n < length d"
  then have "(2 :: nat) ^ (32 * n) * 1 \<le> 2 ^ (32 * n) * unat (d ! n)"
    by (intro mult_le_mono2) (simp add: unat_eq_0 Suc_le_eq unat_gt_0)
  then show ?thesis using dval_take_Suc [OF d(2)] by linarith
qed

definition pstm_wf :: "pstm_int \<Rightarrow> bool" where
  "pstm_wf a \<longleftrightarrow> used a \<le> length (dp a) \<and> (\<forall>i < length (dp a). used a \<le> i \<longrightarrow> dp a ! i = 0)"

lemma pstm_ok_wf: "pstm_ok a \<Longrightarrow> pstm_wf a"
  by (simp add: pstm_ok_def pstm_wf_def)

lemma pstm_wf_pad: "pstm_wf a \<Longrightarrow> dp a = take (used a) (dp a) @ replicate (length (dp a) - used a) 0"
  by (rule nth_equalityI) (auto simp: pstm_wf_def nth_append)

lemma pstm_nat_wf: "pstm_wf a \<Longrightarrow> pstm_nat a = dval (dp a)"
  using pstm_wf_pad [of a] dval_append [of "take (used a) (dp a)" "replicate (length (dp a) - used a) 0"]
  by (simp add: pstm_nat_def)

lemma lay_wf:
  assumes "pstm_wf c" "length ds \<le> length (dp c)"
  shows "lay ds (used c) (dp c) = ds @ replicate (length (dp c) - length ds) 0"
  using assms by (intro nth_equalityI) (auto simp: lay_def nth_append pstm_wf_def)

text \<open>An integer whose digits are \<open>ds\<close> followed by zeros.\<close>

lemma stored:
  assumes "dp a = ds @ replicate k 0" "used a = length ds"
  shows "pstm_wf a" "pstm_nat a = dval ds" "pstm_ok (pstm_clamp a)" "pstm_nat (pstm_clamp a) = dval ds"
proof -
  show wf: "pstm_wf a" using assms by (simp add: pstm_wf_def nth_append)
  show "pstm_nat a = dval ds" using assms by (simp add: pstm_nat_def)
  then show "pstm_nat (pstm_clamp a) = dval ds" using pstm_nat_clamp [of a] wf by (simp add: pstm_wf_def)
  show "pstm_ok (pstm_clamp a)" using wf by (intro pstm_ok_clamp) (auto simp: pstm_wf_def)
qed

lemma wf_sign [simp]: "pstm_wf (c\<lparr>sign := s\<rparr>) = pstm_wf c" "pstm_nat (c\<lparr>sign := s\<rparr>) = pstm_nat c"
  by (simp_all add: pstm_wf_def pstm_nat_def)

lemma clamp_fields [simp]: "dp (pstm_clamp a) = dp a"
  by (simp add: pstm_clamp_def Let_def)

lemma sign_clamp: "pstm_wf a \<Longrightarrow> sign (pstm_clamp a) = (if pstm_nat a = 0 then 0 else sign a)"
proof -
  assume wf: "pstm_wf a"
  let ?u = "clamp_used (dp a) (used a)"
  have "?u = 0 \<longleftrightarrow> pstm_nat a = 0"
  proof
    assume "?u = 0"
    then have "dval (take (used a) (dp a)) = dval (take 0 (dp a))"
      using wf clamp_used_above [of "dp a" "used a"] by (intro dval_take_trim) (auto simp: pstm_wf_def)
    then show "pstm_nat a = 0" by (simp add: pstm_nat_def)
  next
    assume z: "pstm_nat a = 0"
    show "?u = 0"
    proof (rule ccontr)
      assume u: "?u \<noteq> 0"
      then have "2 ^ (32 * (?u - 1)) \<le> dval (take (Suc (?u - 1)) (dp a))"
        using clamp_used_top [of "dp a" "used a"] clamp_used_le [of "dp a" "used a"] wf
        by (intro dval_top) (auto simp: pstm_wf_def)
      moreover have "pstm_nat (pstm_clamp a) = dval (take ?u (dp a))"
        by (simp add: pstm_nat_def pstm_clamp_def Let_def)
      ultimately show False using z u pstm_nat_clamp [of a] wf by (simp add: pstm_wf_def)
    qed
  qed
  then show ?thesis by (simp add: pstm_clamp_def Let_def)
qed

lemma grow_wf [simp]:
  "used (pstm_grow a n) = used a" "sign (pstm_grow a n) = sign a" "length (dp (pstm_grow a n)) = max n (length (dp a))"
  "pstm_wf a \<Longrightarrow> pstm_wf (pstm_grow a n)"
  by (auto simp: pstm_grow_def pstm_wf_def nth_append)

lemma zero_wf [simp]: "pstm_wf (pstm_zero a)" "pstm_nat (pstm_zero a) = 0" "pstm_ok (pstm_zero a)"
  "used (pstm_zero a) = 0" "sign (pstm_zero a) = 0" "length (dp (pstm_zero a)) = length (dp a)"
  by (simp_all add: pstm_wf_def pstm_ok_def pstm_zero_def pstm_nat_def)

lemma init_wf [simp]: "pstm_wf (pstm_init_size n)" "pstm_nat (pstm_init_size n) = 0" "pstm_ok (pstm_init_size n)"
  "used (pstm_init_size n) = 0" "sign (pstm_init_size n) = 0" "length (dp (pstm_init_size n)) = n"
  by (simp_all add: pstm_wf_def pstm_ok_def pstm_init_size_def pstm_nat_def)

text \<open>Making room for \<open>n\<close> digits, as the operations do before they write.\<close>

abbreviation room :: "pstm_int \<Rightarrow> nat \<Rightarrow> pstm_int" where
  "room c n \<equiv> (if length (dp c) < n then pstm_grow c n else c)"

lemma room_wf: "used (room c n) = used c" "sign (room c n) = sign c" "length (dp (room c n)) = max n (length (dp c))"
  "pstm_wf c \<Longrightarrow> pstm_wf (room c n)"
  by auto

section \<open>Comparison\<close>

lemma dval_take_bound: "n \<le> length d \<Longrightarrow> dval (take n d) < 2 ^ (32 * n)"
  using dval_bound [of "take n d"] by simp

lemma cmp_digits_val:
  assumes "n \<le> length da" "n \<le> length db"
  shows "cmp_digits da db n =
    (if dval (take n da) < dval (take n db) then -1 else if dval (take n da) = dval (take n db) then 0 else 1)"
  using assms
proof (induction n)
  case (Suc n)
  have less: "dval (take n x) + 2 ^ (32 * n) * unat u < dval (take n y) + 2 ^ (32 * n) * unat v"
    if "u < v" "n \<le> length x" for x y and u v :: u32
  proof -
    have "Suc (unat u) \<le> unat v" using that(1) by (simp add: word_less_nat_alt)
    then have "2 ^ (32 * n) * Suc (unat u) \<le> 2 ^ (32 * n) * unat v" by (rule mult_le_mono2)
    then show ?thesis using dval_take_bound [OF that(2)] by simp
  qed
  show ?case
    using Suc less [of "da ! n" "db ! n" da db] less [of "db ! n" "da ! n" db da]
    by (cases "da ! n" "db ! n" rule: linorder_cases) (auto simp: dval_take_Suc)
qed simp

lemma ok_bounds:
  assumes "pstm_ok a"
  shows "pstm_nat a < 2 ^ (32 * used a)" "0 < used a \<Longrightarrow> 2 ^ (32 * (used a - 1)) \<le> pstm_nat a"
  using assms dval_take_bound [of "used a" "dp a"] dval_top [of "dp a" "used a - 1"]
  by (auto simp: pstm_ok_def pstm_nat_def)

lemma used_less: "pstm_nat a < 2 ^ (32 * n) \<Longrightarrow> pstm_ok a \<Longrightarrow> used a \<le> n"
proof (rule ccontr)
  assume "pstm_nat a < 2 ^ (32 * n)" "pstm_ok a" "\<not> used a \<le> n"
  then have "(2 :: nat) ^ (32 * n) \<le> 2 ^ (32 * (used a - 1))" by (intro power_increasing) auto
  then show False using ok_bounds(2) [OF \<open>pstm_ok a\<close>] \<open>pstm_nat a < _\<close> \<open>\<not> used a \<le> n\<close> by linarith
qed

lemma used_zero: "pstm_ok a \<Longrightarrow> used a = 0 \<longleftrightarrow> pstm_nat a = 0"
  using used_less [of a 0] by (auto simp: pstm_nat_def)

lemma pstm_cmp_mag_val:
  assumes "pstm_ok a" "pstm_ok b"
  shows "pstm_cmp_mag a b =
    (if pstm_nat a < pstm_nat b then -1 else if pstm_nat a = pstm_nat b then 0 else 1)"
proof (cases "used a" "used b" rule: linorder_cases)
  case less
  then have "pstm_nat a < pstm_nat b" using used_less [of b "used a"] ok_bounds(1) [of a] assms by (meson le_less_trans linorder_not_le)
  then show ?thesis using less by (simp add: pstm_cmp_mag_def)
next
  case greater
  then have "pstm_nat b < pstm_nat a" using used_less [of a "used b"] ok_bounds(1) [of b] assms by (meson le_less_trans linorder_not_le)
  then show ?thesis using greater by (simp add: pstm_cmp_mag_def)
next
  case equal
  then show ?thesis
    using cmp_digits_val [of "used a" "dp a" "dp b"] assms by (simp add: pstm_cmp_mag_def pstm_nat_def pstm_ok_def)
qed

section \<open>Loops over digits\<close>

lemma unat_low [simp]: "unat (ucast (w :: u64) :: u32) = unat w mod 2 ^ 32"
  by (simp add: unsigned_ucast_eq take_bit_eq_mod)

lemma unat_wide [simp]: "unat (ucast (d :: u32) :: u64) = unat d"
  by (simp add: unsigned_ucast_eq take_bit_nat_eq_self_iff less_trans [OF unsigned_less])

lemma unat_high [simp]: "unat (drop_bit n (w :: 'a :: len word)) = unat w div 2 ^ n"
  by (simp only: unat_drop_bit_eq) (simp only: drop_bit_eq_div)

lemma digit_less: "unat (d :: u32) < 2 ^ 32"
  using unsigned_less [of d, where 'a = nat] by simp

lemma digit_product: "unat (d :: u32) * unat (e :: u32) + 2 * (2 ^ 32 - 1) < 2 ^ 64"
proof -
  have "unat d * unat e \<le> (2 ^ 32 - 1) * (2 ^ 32 - 1)"
    by (rule mult_le_mono) (use digit_less [of d] digit_less [of e] in simp_all)
  then show ?thesis by simp
qed

lemma unat_mul_add:
  assumes "unat (w :: u64) \<le> 2 * (2 ^ 32 - 1)"
  shows "unat (ucast (d :: u32) * ucast (e :: u32) + w) = unat d * unat e + unat w"
  using assms digit_product [of d e] by (simp add: unat_word_ariths)

lemma split_word: "x mod 2 ^ 32 + 2 ^ 32 * (x div 2 ^ 32 + y) = (x :: nat) + 2 ^ 32 * y"
  using mod_mult_div_eq [of x "2 ^ 32"] by (simp add: algebra_simps)

lemma mul_d_digits_val:
  assumes "unat w < 2 ^ 32" "mul_d_digits b w ds = (es, w')"
  shows "dval es + 2 ^ (32 * length ds) * unat w' = unat b * dval ds + unat w \<and> unat w' < 2 ^ 32 \<and> length es = length ds"
  using assms
proof (induction ds arbitrary: w es w')
  case (Cons d ds)
  let ?w = "ucast d * ucast b + w :: u64"
  have w: "unat ?w = unat d * unat b + unat w" using Cons.prems(1) by (intro unat_mul_add) simp
  have h: "unat (drop_bit 32 ?w) < 2 ^ 32" using unsigned_less [of ?w, where 'a = nat] by (simp add: less_mult_imp_div_less)
  obtain fs where fs: "mul_d_digits b (drop_bit 32 ?w) ds = (fs, w')" "es = ucast ?w # fs"
    using Cons.prems(2) by (auto simp: Let_def split: prod.splits)
  note IH = Cons.IH [OF h fs(1)]
  have "dval es + 2 ^ (32 * length (d # ds)) * unat w' =
      unat ?w mod 2 ^ 32 + 2 ^ 32 * (dval fs + 2 ^ (32 * length ds) * unat w')"
    by (simp add: fs(2) power_add algebra_simps)
  also have "\<dots> = unat ?w mod 2 ^ 32 + 2 ^ 32 * (unat ?w div 2 ^ 32 + unat b * dval ds)"
    using IH by (simp add: add.commute)
  also have "\<dots> = unat b * dval (d # ds) + unat w"
    unfolding split_word w by (simp add: algebra_simps)
  finally show ?case using IH fs(2) by simp
qed simp

lemma or_low_bits:
  assumes "unat (r :: u32) < 2 ^ b" "b \<le> 32"
  shows "push_bit b d OR r = push_bit b d + r" "unat (push_bit b d + r) = 2 ^ b * unat d mod 2 ^ 32 + unat r"
proof -
  have r: "take_bit b r = r" using assms(1) by (simp add: unsigned_take_bit_eq word_unat_eq_iff take_bit_nat_eq_self_iff)
  have dis: "push_bit b d AND r = 0"
    by (subst r [symmetric]) (rule bit_eqI, auto simp: bit_simps)
  then show "push_bit b d OR r = push_bit b d + r" by (simp add: disjunctive_add_eq_or)
  have p: "unat (push_bit b d) = 2 ^ b * unat d mod 2 ^ 32"
    by (simp only: unsigned_push_bit_eq) (simp add: push_bit_eq_mult take_bit_eq_mod mult.commute)
  have "2 ^ b * unat d mod 2 ^ 32 = 2 ^ b * (unat d mod 2 ^ (32 - b))"
    using assms(2) by (simp add: mult_mod_right power_add [symmetric])
  moreover have "unat d mod 2 ^ (32 - b) + 1 \<le> 2 ^ (32 - b)" by (simp add: Suc_le_eq)
  then have "2 ^ b * (unat d mod 2 ^ (32 - b) + 1) \<le> 2 ^ b * 2 ^ (32 - b)" by (rule mult_le_mono2)
  moreover have "(2 :: nat) ^ b * 2 ^ (32 - b) = 2 ^ 32" using assms(2) by (simp add: power_add [symmetric])
  ultimately have "2 ^ b * unat d mod 2 ^ 32 + unat r < 2 ^ 32" using assms(1) by (simp add: algebra_simps)
  then show "unat (push_bit b d + r) = 2 ^ b * unat d mod 2 ^ 32 + unat r"
    using p by (simp add: unat_word_ariths)
qed

lemma shift_split:
  assumes "b \<le> 32"
  shows "2 ^ b * n mod 2 ^ 32 + 2 ^ 32 * (n div 2 ^ (32 - b)) = 2 ^ b * (n :: nat)"
proof -
  have e: "(2 :: nat) ^ 32 = 2 ^ b * 2 ^ (32 - b)" using assms by (simp add: power_add [symmetric])
  have "2 ^ b * n mod 2 ^ 32 = 2 ^ b * (n mod 2 ^ (32 - b))" unfolding e by (rule mult_mod_right [symmetric])
  then show ?thesis unfolding e using mult_div_mod_eq [of "2 ^ (32 - b)" n] by (metis add.commute distrib_left mult.assoc)
qed

lemma shl_digits_val:
  assumes "unat r < 2 ^ b" "0 < b" "b < 32" "shl_digits b r ds = (es, r')"
  shows "dval es + 2 ^ (32 * length ds) * unat r' = 2 ^ b * dval ds + unat r \<and> unat r' < 2 ^ b \<and> length es = length ds"
  using assms(1,4)
proof (induction ds arbitrary: r es r')
  case (Cons d ds)
  have "unat d < 2 ^ b * 2 ^ (32 - b)" using digit_less [of d] assms(3) by (simp add: power_add [symmetric])
  then have h: "unat (drop_bit (32 - b) d) < 2 ^ b" by (simp add: less_mult_imp_div_less)
  obtain fs where fs: "shl_digits b (drop_bit (32 - b) d) ds = (fs, r')" "es = (push_bit b d + r) # fs"
    using Cons.prems(2) by (auto simp: Let_def split: prod.splits)
  note IH = Cons.IH [OF h fs(1)]
  have "dval es + 2 ^ (32 * length (d # ds)) * unat r' =
      (2 ^ b * unat d mod 2 ^ 32 + unat r) + 2 ^ 32 * (dval fs + 2 ^ (32 * length ds) * unat r')"
    using or_low_bits(2) [OF Cons.prems(1), of d] assms(3) by (simp add: fs(2) power_add algebra_simps)
  also have "\<dots> = (2 ^ b * unat d mod 2 ^ 32 + 2 ^ 32 * (unat d div 2 ^ (32 - b))) + (unat r + 2 ^ 32 * (2 ^ b * dval ds))"
    using IH by (simp add: algebra_simps)
  also have "\<dots> = 2 ^ b * dval (d # ds) + unat r"
    using shift_split [of b "unat d"] assms(3) by (simp add: algebra_simps)
  finally show ?case using IH fs(2) by simp
qed simp

lemma mul_2_digits_shl: "unat r < 2 \<Longrightarrow> mul_2_digits r ds = shl_digits 1 r ds"
proof (induction ds arbitrary: r)
  case (Cons d ds)
  have "unat d < 2 * 2 ^ 31" using digit_less [of d] by simp
  then have "unat (drop_bit 31 d) < 2" by (simp add: less_mult_imp_div_less)
  then show ?case using Cons.IH or_low_bits(1) [of r 1 d] Cons.prems by simp
qed simp

lemma length_shr_digits [simp]: "length (shr_digits D r ds) = length ds"
  by (induction D r ds rule: shr_digits.induct) simp_all

lemma shr_digits_val:
  assumes "unat r < 2 ^ D" "0 < D" "D < 32"
  shows "dval (rev (shr_digits D r ds)) = (dval (rev ds) + 2 ^ (32 * length ds) * unat r) div 2 ^ D"
  using assms(1)
proof (induction ds arbitrary: r)
  case (Cons d ds)
  let ?m = "d AND (push_bit D 1 - 1)" and ?B = "2 ^ (32 * length ds) :: nat" and ?L = "dval (rev ds)"
  have m: "unat ?m = unat d mod 2 ^ D"
    by (metis mask_eq_exp_minus_1 push_bit_of_1 take_bit_eq_mask take_bit_eq_mod unsigned_take_bit_eq)
  have e: "(2 :: nat) ^ 32 = 2 ^ D * 2 ^ (32 - D)" using assms(3) by (simp add: power_add [symmetric])
  have top: "unat (drop_bit D d OR push_bit (32 - D) r) = unat d div 2 ^ D + 2 ^ (32 - D) * unat r"
  proof -
    have "unat d < 2 ^ (32 - D) * 2 ^ D" using digit_less [of d] e by (simp add: mult.commute)
    then have h: "unat (drop_bit D d) < 2 ^ (32 - D)" by (simp add: less_mult_imp_div_less)
    have "2 ^ (32 - D) * unat r < 2 ^ 32" unfolding e using Cons.prems by (simp add: mult.commute)
    then show ?thesis using or_low_bits [OF h, of r] by (simp add: or.commute)
  qed
  have "dval (rev (shr_digits D r (d # ds))) = dval (rev (shr_digits D ?m ds)) + ?B * (unat d div 2 ^ D + 2 ^ (32 - D) * unat r)"
    using top by (simp add: dval_append)
  also have "\<dots> = (?L + ?B * (unat d mod 2 ^ D)) div 2 ^ D + ?B * (unat d div 2 ^ D + 2 ^ (32 - D) * unat r)"
    using Cons.IH [of ?m] m by simp
  also have "\<dots> = (2 ^ D * (?B * (unat d div 2 ^ D + 2 ^ (32 - D) * unat r)) + (?L + ?B * (unat d mod 2 ^ D))) div 2 ^ D"
    by simp
  also have "2 ^ D * (?B * (unat d div 2 ^ D + 2 ^ (32 - D) * unat r)) + (?L + ?B * (unat d mod 2 ^ D)) =
      ?L + ?B * (2 ^ D * (unat d div 2 ^ D) + unat d mod 2 ^ D) + ?B * (2 ^ D * 2 ^ (32 - D)) * unat r"
    by (simp only: algebra_simps)
  also have "\<dots> = dval (rev (d # ds)) + 2 ^ (32 * length (d # ds)) * unat r"
    unfolding e [symmetric] mult_div_mod_eq by (simp add: dval_append power_add)
  finally show ?case .
qed simp

lemma wrapped_difference:
  assumes "0 < v" "v \<le> 2 ^ 32"
  shows "(2 ^ 64 - v :: nat) div 2 ^ 32 = 2 ^ 32 - 1" "(2 ^ 64 - v :: nat) mod 2 ^ 32 = 2 ^ 32 - v"
proof -
  have e: "2 ^ 64 - v = 2 ^ 32 * (2 ^ 32 - 1) + (2 ^ 32 - v)" "2 ^ 32 - v < 2 ^ 32" using assms by simp_all
  show "(2 ^ 64 - v :: nat) div 2 ^ 32 = 2 ^ 32 - 1" "(2 ^ 64 - v :: nat) mod 2 ^ 32 = 2 ^ 32 - v"
    unfolding e(1) using e(2) by (simp_all only: div_mult_self4 mod_mult_self4 power_not_zero) simp_all
qed

lemma borrow_step:
  fixes a b :: u32 and t :: u64
  assumes "unat t \<le> 1"
  defines "s \<equiv> ucast a - (ucast b + t)"
  shows "unat (ucast s :: u32) + unat b + unat t = unat a + 2 ^ 32 * unat (drop_bit 32 s AND 1)"
    "unat (drop_bit 32 s AND 1) = (if unat a < unat b + unat t then 1 else 0)"
proof -
  have ab: "unat a < 2 ^ 32" "unat b < 2 ^ 32" by (rule digit_less)+
  have bt: "unat (ucast b + t) = unat b + unat t" using assms(1) ab by (simp add: unat_word_ariths)
  have and1: "unat (x AND 1) = unat x mod 2" for x :: u64
    by (metis and_one_eq take_bit_eq_mod unsigned_and_eq unsigned_1)
  have s: "unat s = (if unat b + unat t \<le> unat a then unat a - (unat b + unat t) else 2 ^ 64 - (unat b + unat t - unat a))"
  proof -
    have "unat s = (if unat b + unat t \<le> unat a then unat a - (unat b + unat t) else unat a + 2 ^ 64 - (unat b + unat t))"
      using unat_sub_if' [of "ucast a" "ucast b + t"] unfolding s_def word_le_nat_alt bt unat_wide by simp
    then show ?thesis using ab assms(1) by (cases "unat b + unat t \<le> unat a") (simp_all, linarith?)
  qed
  show b: "unat (drop_bit 32 s AND 1) = (if unat a < unat b + unat t then 1 else 0)"
    using s ab assms(1) wrapped_difference(1) [of "unat b + unat t - unat a"] by (simp add: and1 not_less)
  show "unat (ucast s :: u32) + unat b + unat t = unat a + 2 ^ 32 * unat (drop_bit 32 s AND 1)"
    using s ab assms(1) wrapped_difference(2) [of "unat b + unat t - unat a"] unfolding b by (simp add: not_less)
qed

lemma narrow_wide [simp]: "ucast (ucast (a :: u32) :: u64) = a"
  using digit_less [of a] by (simp add: word_unat_eq_iff)

lemma sub_digits_none: "dval bs = 0 \<Longrightarrow> length bs \<le> length as \<Longrightarrow> sub_digits 0 as bs = as"
proof (induction "0 :: u64" as bs rule: sub_digits.induct)
  case (2 a as b bs)
  have "unat a div 2 ^ 32 = 0" using digit_less [of a] by simp
  then have "drop_bit 32 (ucast a :: u64) = 0" by (simp add: word_unat_eq_iff del: div_eq_0_iff)
  then show ?case using 2 by (simp add: Let_def unat_eq_0)
next
  case (3 a as)
  have "unat a div 2 ^ 32 = 0" using digit_less [of a] by simp
  then have "drop_bit 32 (ucast a :: u64) = 0" by (simp add: word_unat_eq_iff del: div_eq_0_iff)
  then show ?case using 3 by (simp add: Let_def)
qed simp

text \<open>The loops subtract when the second operand has at most one digit less.\<close>

lemma sub_digits_val:
  assumes "unat t \<le> 1" "length bs \<le> length as" "length as \<le> Suc (length bs)" "dval bs + unat t \<le> dval as"
  shows "dval (sub_digits t as bs) + dval bs + unat t = dval as"
  using assms
proof (induction t as bs rule: sub_digits.induct)
  case (2 t a as b bs)
  let ?s = "ucast a - (ucast b + t) :: u64"
  note step = borrow_step [OF 2(2), of a b]
  have "dval bs + unat (drop_bit 32 ?s AND 1) \<le> dval as"
    using 2(5) step(2) digit_less [of a] by (cases "unat a < unat b + unat t") auto
  then have "dval (sub_digits (drop_bit 32 ?s AND 1) as bs) + dval bs + unat (drop_bit 32 ?s AND 1) = dval as"
    using 2 step(2) by simp
  then show ?case using step(1) by (simp add: Let_def algebra_simps)
next
  case (3 t a as)
  then have "as = []" "unat t \<le> unat a" by simp_all
  moreover have "unat (ucast a - t) = unat a - unat t"
    using calculation(2) by (subst unat_sub) (simp_all add: word_le_nat_alt)
  moreover have "(unat a - unat t) mod 2 ^ 32 = unat a - unat t" using digit_less [of a] by simp
  ultimately show ?case by (simp add: Let_def)
qed simp

lemma length_sub_digits [simp]: "length (sub_digits t as bs) = length as"
  by (induction t as bs rule: sub_digits.induct) (simp_all add: Let_def)

section \<open>Operations\<close>

lemma wf_used: "pstm_wf a \<Longrightarrow> length (take (used a) (dp a)) = used a"
  by (simp add: pstm_wf_def)

lemma stored_lay:
  assumes "pstm_wf c" "length ds \<le> length (dp c)" "dp a = lay ds (used c) (dp c)" "used a = length ds"
  shows "pstm_wf a" "pstm_nat a = dval ds" "pstm_ok (pstm_clamp a)" "pstm_nat (pstm_clamp a) = dval ds"
    "length (dp a) = length (dp c)"
  using stored [of a ds "length (dp c) - length ds"] assms lay_wf [OF assms(1,2)] by simp_all

lemma pstm_copy_val:
  assumes "pstm_wf a" "pstm_wf b"
  shows "pstm_wf (pstm_copy a b)" "pstm_nat (pstm_copy a b) = pstm_nat a" "used (pstm_copy a b) = used a"
    "sign (pstm_copy a b) = sign a" "length (dp (pstm_copy a b)) = max (used a) (length (dp b))"
    "pstm_ok a \<Longrightarrow> pstm_ok (pstm_copy a b)"
    "dp (pstm_copy a b) = take (used a) (dp a) @ replicate (max (used a) (length (dp b)) - used a) 0"
proof -
  let ?b = "room b (used a)" and ?ds = "take (used a) (dp a)"
  have eq: "pstm_copy a b = ?b\<lparr>dp := lay ?ds (used ?b) (dp ?b), used := used a, sign := sign a\<rparr>"
    by (simp add: pstm_copy_def Let_def)
  have b: "pstm_wf ?b" "length ?ds \<le> length (dp ?b)" using assms wf_used [of a] by auto
  note st = stored_lay [OF b, of "pstm_copy a b"]
  show dp: "dp (pstm_copy a b) = ?ds @ replicate (max (used a) (length (dp b)) - used a) 0"
    unfolding eq using lay_wf [OF b] wf_used [OF assms(1)] by auto
  show u: "used (pstm_copy a b) = used a" "sign (pstm_copy a b) = sign a" unfolding eq by simp_all
  show wf: "pstm_wf (pstm_copy a b)" using st(1) wf_used [OF assms(1)] eq u by simp
  show "pstm_nat (pstm_copy a b) = pstm_nat a" using st(2) wf_used [OF assms(1)] eq u by (simp add: pstm_nat_def)
  show "length (dp (pstm_copy a b)) = max (used a) (length (dp b))" unfolding dp using wf_used [OF assms(1)] by simp
  show "pstm_ok (pstm_copy a b)" if "pstm_ok a"
    using that wf u assms by (auto simp: pstm_ok_def pstm_wf_def dp nth_append)
qed

lemma pstm_init_copy_val:
  assumes "pstm_wf a"
  shows "pstm_wf (pstm_init_copy a s)" "pstm_nat (pstm_init_copy a s) = pstm_nat a" "used (pstm_init_copy a s) = used a"
    "sign (pstm_init_copy a s) = sign a" "pstm_ok a \<Longrightarrow> pstm_ok (pstm_init_copy a s)"
    "length (dp (pstm_init_copy a s)) = (if s \<and> length (dp a) \<le> used a * 2 + 2 then used a * 2 + 3 else length (dp a))"
  using pstm_copy_val [OF assms init_wf(1)] assms by (auto simp: pstm_init_copy_def Let_def pstm_wf_def)

lemma pstm_lshd_val:
  assumes "pstm_wf a"
  shows "pstm_wf (pstm_lshd a b)" "pstm_nat (pstm_lshd a b) = pstm_nat a * 2 ^ (32 * b)"
    "used (pstm_lshd a b) = used a + b" "sign (pstm_lshd a b) = sign a"
    "length (dp (pstm_lshd a b)) = max (if b = 0 then 0 else used a + b) (length (dp a))"
    "pstm_ok a \<Longrightarrow> 0 < pstm_nat a \<Longrightarrow> pstm_ok (pstm_lshd a b)"
proof -
  let ?a = "room a (used a + b)" and ?ds = "replicate b 0 @ take (used a) (dp a)"
  have t: "take (used a) (dp ?a) = take (used a) (dp a)" using assms by (auto simp: pstm_grow_def pstm_wf_def)
  have z: "drop (used a + b) (dp ?a) = replicate (length (dp ?a) - (used a + b)) 0"
    using room_wf(4) [OF assms, of "used a + b"] by (intro nth_equalityI) (auto simp: pstm_wf_def)
  have eq: "pstm_lshd a b = ?a\<lparr>dp := ?ds @ replicate (length (dp ?a) - (used a + b)) 0, used := used a + b\<rparr>" if "b \<noteq> 0"
    using that t z by (auto simp: pstm_lshd_def Let_def)
  have len: "length ?ds = used a + b" using wf_used [OF assms] by simp
  show u: "used (pstm_lshd a b) = used a + b" "sign (pstm_lshd a b) = sign a"
    by (simp_all add: pstm_lshd_def Let_def)
  show wf: "pstm_wf (pstm_lshd a b)"
    using stored(1) [of "pstm_lshd a b" ?ds] eq len assms by (cases "b = 0") (simp_all add: pstm_lshd_def)
  show nat: "pstm_nat (pstm_lshd a b) = pstm_nat a * 2 ^ (32 * b)"
    using stored(2) [of "pstm_lshd a b" ?ds] eq len by (cases "b = 0") (simp_all add: pstm_lshd_def dval_append pstm_nat_def)
  show l: "length (dp (pstm_lshd a b)) = max (if b = 0 then 0 else used a + b) (length (dp a))"
    using eq len by (cases "b = 0") (auto simp: pstm_lshd_def)
  assume ok: "pstm_ok a" "0 < pstm_nat a"
  then have "0 < used a" using used_zero by fastforce
  moreover from this have "dp (pstm_lshd a b) ! (used a + b - 1) = dp a ! (used a - 1)"
  proof (cases "b = 0")
    case False
    moreover have "\<not> used a + b - Suc 0 < b" using \<open>0 < used a\<close> by simp
    ultimately show ?thesis using \<open>0 < used a\<close> wf_used [OF assms] by (simp add: eq nth_append)
  qed (simp add: pstm_lshd_def)
  ultimately show "pstm_ok (pstm_lshd a b)" using wf u ok by (auto simp: pstm_ok_def pstm_wf_def)
qed

lemma pstm_rshd_val:
  assumes "pstm_wf a" "sign a = 0"
  shows "pstm_ok (pstm_rshd a x)" "pstm_nat (pstm_rshd a x) = pstm_nat a div 2 ^ (32 * x)"
    "sign (pstm_rshd a x) = 0" "length (dp (pstm_rshd a x)) = length (dp a)"
proof -
  let ?ds = "drop x (take (used a) (dp a))"
  let ?a = "a\<lparr>dp := lay ?ds (used a) (dp a), used := used a - x\<rparr>"
  have len: "length ?ds = used a - x" "length ?ds \<le> length (dp a)" using assms by (auto simp: pstm_wf_def)
  have "dp ?a = lay ?ds (used a) (dp a)" "used ?a = length ?ds" using len(1) by simp_all
  note st = stored_lay [OF assms(1) len(2) this]
  have d: "dval ?ds = pstm_nat a div 2 ^ (32 * x)" by (simp add: dval_drop pstm_nat_def)
  have z: "pstm_nat a div 2 ^ (32 * x) = 0" if "used a \<le> x"
    using that dval_take_bound [of "used a" "dp a"] assms d len by (simp add: pstm_nat_def)
  show "pstm_ok (pstm_rshd a x)" "pstm_nat (pstm_rshd a x) = pstm_nat a div 2 ^ (32 * x)"
    "length (dp (pstm_rshd a x)) = length (dp a)"
    unfolding pstm_rshd_def using st [unfolded d] z by (cases "used a \<le> x"; simp)+
  show "sign (pstm_rshd a x) = 0"
    unfolding pstm_rshd_def using sign_clamp [OF st(1)] assms(2) by simp
qed

lemma pstm_mul_d_val:
  assumes "pstm_wf a" "pstm_wf c" "used a < 4096"
  shows "pstm_ok (pstm_mul_d a b c)" "pstm_nat (pstm_mul_d a b c) = unat b * pstm_nat a"
    "sign (pstm_mul_d a b c) = (if unat b * pstm_nat a = 0 then 0 else sign a)"
    "length (dp (pstm_mul_d a b c)) = max (used a + 1) (length (dp c))"
proof -
  let ?c = "room c (used a + 1)"
  obtain ds w where ds: "mul_d_digits b 0 (take (used a) (dp a)) = (ds, w)" by fastforce
  note v = mul_d_digits_val [OF _ ds]
  define es where "es = (if w \<noteq> 0 then ds @ [ucast w] else ds)"
  let ?r = "?c\<lparr>dp := lay es (used ?c) (dp ?c), used := length es, sign := sign a\<rparr>"
  have eq: "pstm_mul_d a b c = pstm_clamp ?r"
    using ds assms(3) by (simp add: pstm_mul_d_def Let_def es_def)
  have es: "dval es = unat b * pstm_nat a" "length es \<le> length (dp ?c)"
    using v wf_used [OF assms(1)] by (auto simp: es_def dval_append pstm_nat_def)
  note st = stored_lay [OF room_wf(4) [OF assms(2)] es(2), of ?r]
  show "pstm_ok (pstm_mul_d a b c)" "pstm_nat (pstm_mul_d a b c) = unat b * pstm_nat a"
    "length (dp (pstm_mul_d a b c)) = max (used a + 1) (length (dp c))"
    unfolding eq using st es by auto
  show "sign (pstm_mul_d a b c) = (if unat b * pstm_nat a = 0 then 0 else sign a)"
    unfolding eq using sign_clamp [of ?r] st es by simp
qed

lemma pstm_mul_2_val:
  assumes "pstm_ok a" "pstm_wf b" "used a < 4095"
  shows "pstm_ok (pstm_mul_2 a b)" "pstm_nat (pstm_mul_2 a b) = 2 * pstm_nat a" "sign (pstm_mul_2 a b) = sign a"
    "length (dp (pstm_mul_2 a b)) = max (used a + 1) (length (dp b))"
proof -
  let ?b = "room b (used a + 1)"
  have wf: "pstm_wf a" using assms(1) by (rule pstm_ok_wf)
  obtain ds r where ds: "shl_digits 1 0 (take (used a) (dp a)) = (ds, r)" by fastforce
  have v: "dval ds + 2 ^ (32 * used a) * unat r = 2 * pstm_nat a" "unat r < 2" "length ds = used a"
    using shl_digits_val [OF _ _ _ ds] wf_used [OF wf] by (simp_all add: pstm_nat_def)
  define es where "es = (if r \<noteq> 0 then ds @ [1] else ds)"
  let ?r = "?b\<lparr>dp := lay es (used ?b) (dp ?b), used := length es, sign := sign a\<rparr>"
  have eq: "pstm_mul_2 a b = ?r"
    using ds assms(3) by (simp add: pstm_mul_2_def Let_def es_def mul_2_digits_shl)
  have "unat r = (if r \<noteq> 0 then 1 else 0)" using v(2) by (cases "r = 0") (auto simp: less_Suc_eq unat_eq_0 numeral_2_eq_2)
  then have es: "dval es = 2 * pstm_nat a" "length es \<le> length (dp ?b)" "length es = (if r \<noteq> 0 then used a + 1 else used a)"
    using v by (auto simp: es_def dval_append)
  note st = stored_lay [OF room_wf(4) [OF assms(2)] es(2), of ?r]
  show nat: "pstm_nat (pstm_mul_2 a b) = 2 * pstm_nat a" unfolding eq using st es(1) by simp
  show "sign (pstm_mul_2 a b) = sign a" "length (dp (pstm_mul_2 a b)) = max (used a + 1) (length (dp b))"
    unfolding eq using st by auto
  have wfr: "pstm_wf ?r" using st by simp
  have dp: "dp ?r = es @ replicate (length (dp ?b) - length es) 0" using lay_wf [OF room_wf(4) [OF assms(2)] es(2)] by simp
  have top: "es ! (length es - 1) \<noteq> 0" if "0 < length es"
  proof (cases "r = 0")
    case False
    then show ?thesis by (simp add: es_def nth_append v)
  next
    case True
    then have u: "0 < used a" "es = ds" using that v by (simp_all add: es_def)
    have "2 ^ (32 * (used a - 1)) \<le> pstm_nat a" by (rule ok_bounds(2) [OF assms(1) u(1)])
    moreover have "dval es = dval (take (used a - 1) es) + 2 ^ (32 * (used a - 1)) * unat (es ! (used a - 1))"
      using dval_take_Suc [of "used a - 1" es] u v(3) by simp
    moreover have "dval (take (used a - 1) es) < 2 ^ (32 * (used a - 1))" using u v(3) by (intro dval_take_bound) simp
    ultimately show ?thesis using es(1,3) True by (cases "es ! (used a - 1) = 0") auto
  qed
  have "used a = 0 \<Longrightarrow> sign a = 0" using assms(1) by (simp add: pstm_ok_def)
  moreover have "length es = 0 \<Longrightarrow> used a = 0" using es(3) by (simp split: if_splits)
  ultimately show "pstm_ok (pstm_mul_2 a b)"
    unfolding eq using wfr top dp by (auto simp: pstm_ok_def pstm_wf_def nth_append)
qed

lemma pstm_mul_2d_val:
  assumes "pstm_ok a" "sign a = 0" "pstm_wf c" "b < 32" "used a < 4096"
  shows "pstm_ok (pstm_mul_2d a b c)" "pstm_nat (pstm_mul_2d a b c) = 2 ^ b * pstm_nat a" "sign (pstm_mul_2d a b c) = 0"
    "length (dp c) \<le> length (dp (pstm_mul_2d a b c))"
proof -
  let ?c = "pstm_copy a c"
  note copy = pstm_copy_val [OF pstm_ok_wf [OF assms(1)] assms(3)]
  have res: "pstm_ok (pstm_clamp r) \<and> pstm_nat (pstm_clamp r) = dval ds \<and> sign (pstm_clamp r) = 0 \<and> dp (pstm_clamp r) = dp r"
    if "dp r = ds @ replicate k 0" "used r = length ds" "sign r = 0" for r ds k
    using stored [OF that(1,2)] sign_clamp [OF stored(1) [OF that(1,2)]] that(3) by simp
  have "pstm_ok (pstm_mul_2d a b c) \<and> pstm_nat (pstm_mul_2d a b c) = 2 ^ b * pstm_nat a \<and> sign (pstm_mul_2d a b c) = 0
    \<and> length (dp c) \<le> length (dp (pstm_mul_2d a b c))"
  proof (cases "b = 0")
    case True
    then show ?thesis
      using res [of ?c "take (used a) (dp a)"] copy assms wf_used [OF pstm_ok_wf [OF assms(1)]]
      by (simp add: pstm_mul_2d_def pstm_nat_def)
  next
    case False
    obtain ds r where ds: "shl_digits b 0 (take (used ?c) (dp ?c)) = (ds, r)" by fastforce
    have v: "dval ds + 2 ^ (32 * used a) * unat r = 2 ^ b * pstm_nat a" "length ds = used a"
      using shl_digits_val [OF _ _ assms(4) ds] False wf_used [OF copy(1)] copy(2,3) by (simp_all add: pstm_nat_def)
    define k where "k = length (dp ?c) - used a"
    have k: "drop (used ?c) (dp ?c) = replicate k 0" "length (dp ?c) = used a + k"
      using copy(1,3) wf_used [OF pstm_ok_wf [OF assms(1)]] by (auto simp: copy(7) k_def pstm_wf_def)
    let ?d = "?c\<lparr>dp := ds @ replicate k 0\<rparr>"
    show ?thesis
    proof (cases "r = 0")
      case True
      have "pstm_mul_2d a b c = pstm_clamp ?d" using ds False True assms(4) k by (simp add: pstm_mul_2d_def Let_def)
      then show ?thesis using res [of ?d ds k] v True copy(3,4,5) assms(2) k by simp
    next
      case r: False
      let ?e = "(room ?d (used a + 1))\<lparr>dp := (ds @ [r]) @ replicate (k - 1) 0, used := used a + 1\<rparr>"
      have "pstm_mul_2d a b c = pstm_clamp ?e"
        using ds False r assms(4,5) k copy(3) v(2)
        by (cases k) (auto simp: pstm_mul_2d_def Let_def pstm_grow_def list_update_append replicate_append_same)
      then show ?thesis
        using res [of ?e "ds @ [r]" "k - 1"] v copy(3,4,5) assms(2) k by (auto simp: dval_append)
    qed
  qed
  then show "pstm_ok (pstm_mul_2d a b c)" "pstm_nat (pstm_mul_2d a b c) = 2 ^ b * pstm_nat a" "sign (pstm_mul_2d a b c) = 0"
    "length (dp c) \<le> length (dp (pstm_mul_2d a b c))"
    by blast+
qed

lemma pstm_div_2d_val:
  assumes "pstm_ok a" "sign a = 0" "pstm_wf c" "b < 32"
  shows "pstm_ok (pstm_div_2d a b c)" "pstm_nat (pstm_div_2d a b c) = pstm_nat a div 2 ^ b" "sign (pstm_div_2d a b c) = 0"
    "length (dp (pstm_div_2d a b c)) = max (used a) (length (dp c))"
proof -
  let ?c = "pstm_copy a c"
  note copy = pstm_copy_val [OF pstm_ok_wf [OF assms(1)] assms(3)]
  have "pstm_ok (pstm_div_2d a b c) \<and> pstm_nat (pstm_div_2d a b c) = pstm_nat a div 2 ^ b \<and> sign (pstm_div_2d a b c) = 0
    \<and> length (dp (pstm_div_2d a b c)) = max (used a) (length (dp c))"
  proof (cases "b = 0")
    case False
    let ?ds = "rev (shr_digits b 0 (rev (take (used ?c) (dp ?c))))"
    have v: "dval ?ds = pstm_nat a div 2 ^ b" "length ?ds = used a"
      using shr_digits_val [of 0 b "rev (take (used ?c) (dp ?c))"] False assms(4) copy(1,2,3) wf_used [OF copy(1)]
      by (simp_all add: pstm_nat_def)
    define k where "k = length (dp ?c) - used a"
    have k: "drop (used ?c) (dp ?c) = replicate k 0" "length (dp ?c) = used a + k"
      using copy(1,3) wf_used [OF pstm_ok_wf [OF assms(1)]] by (auto simp: copy(7) k_def pstm_wf_def)
    let ?d = "?c\<lparr>dp := ?ds @ replicate k 0\<rparr>"
    have eq: "pstm_div_2d a b c = pstm_clamp ?d" using False assms(4) k by (simp add: pstm_div_2d_def Let_def)
    have "dp ?d = ?ds @ replicate k 0" "used ?d = length ?ds" using v(2) copy(3) by simp_all
    note st = stored [OF this] sign_clamp [OF stored(1) [OF this]]
    show ?thesis unfolding eq using st v copy(4,5) assms(2) k(2) by simp
  qed (use copy assms in \<open>simp add: pstm_div_2d_def\<close>)
  then show "pstm_ok (pstm_div_2d a b c)" "pstm_nat (pstm_div_2d a b c) = pstm_nat a div 2 ^ b" "sign (pstm_div_2d a b c) = 0"
    "length (dp (pstm_div_2d a b c)) = max (used a) (length (dp c))"
    by blast+
qed

lemma s_pstm_sub_val:
  assumes "pstm_wf a" "pstm_wf b" "pstm_wf c" "pstm_nat b \<le> pstm_nat a" "used b \<le> used a"
    "used a \<le> used b + 1 \<or> pstm_nat b = 0"
  shows "\<exists>r. s_pstm_sub a b c = Inr r \<and> pstm_ok r \<and> pstm_nat r = pstm_nat a - pstm_nat b
    \<and> sign r = (if pstm_nat a = pstm_nat b then 0 else sign c) \<and> length (dp r) = max (used a) (length (dp c))"
proof -
  let ?c = "room c (used a)" and ?as = "take (used a) (dp a)" and ?bs = "take (used b) (dp b)"
  let ?ds = "sub_digits 0 ?as ?bs"
  let ?r = "?c\<lparr>dp := lay ?ds (used ?c) (dp ?c), used := used a\<rparr>"
  have len: "length ?as = used a" "length ?bs = used b" using assms wf_used by blast+
  have v: "dval ?ds = pstm_nat a - pstm_nat b"
  proof (cases "pstm_nat b = 0")
    case True
    then show ?thesis using sub_digits_none [of ?bs ?as] len assms(5) by (simp add: pstm_nat_def)
  next
    case False
    have "dval ?ds + dval ?bs + unat (0 :: u64) = dval ?as"
      by (rule sub_digits_val) (unfold len, use False assms(4,5,6) in \<open>simp_all add: pstm_nat_def\<close>)
    then show ?thesis by (simp add: pstm_nat_def)
  qed
  have "length ?ds \<le> length (dp ?c)" using len by auto
  note st = stored_lay [OF room_wf(4) [OF assms(3)] this, of ?r]
  have "s_pstm_sub a b c = Inr (pstm_clamp ?r)" using assms(5) by (simp add: s_pstm_sub_def Let_def)
  then show ?thesis using st sign_clamp [of ?r] v len assms(4) by (auto simp: le_imp_diff_is_add)
qed

text \<open>Differences of positive numbers, of which the smaller is zero or at most one digit shorter.\<close>

lemma pstm_sub_val:
  assumes "pstm_ok a" "pstm_ok b \<or> pstm_wf b \<and> pstm_nat b = 0 \<and> used b < used a" "pstm_wf c" "sign a = 0" "sign b = 0"
    "used a \<le> used b + 1 \<or> pstm_nat b = 0" "used b \<le> used a + 1"
  shows "\<exists>r. pstm_sub f a b c = Inr r \<and> pstm_ok r \<and> int (pstm_nat r) = \<bar>int (pstm_nat a) - int (pstm_nat b)\<bar>
    \<and> sign r = (if pstm_nat a < pstm_nat b then 1 else 0) \<and> length (dp c) \<le> length (dp r)"
proof (cases "pstm_nat a < pstm_nat b")
  case True
  then have b: "pstm_ok b" using assms(2) by auto
  have "used a \<le> used b" using used_less [of a "used b"] ok_bounds(1) [OF b] True assms(1) by (simp add: less_trans)
  then show ?thesis
    using s_pstm_sub_val [of b a "c\<lparr>sign := 1\<rparr>"] True b pstm_ok_wf [OF b] assms pstm_cmp_mag_val [of a b] pstm_ok_wf [OF assms(1)]
    by (auto simp: pstm_sub_def Let_def)
next
  case False
  have "pstm_cmp_mag a b \<noteq> -1 \<and> used b \<le> used a \<and> pstm_wf b"
  proof (cases "pstm_ok b")
    case True
    then have "used b \<le> used a" using used_less [of b "used a"] ok_bounds(1) [OF assms(1)] False by simp
    then show ?thesis using pstm_cmp_mag_val [OF assms(1) True] False pstm_ok_wf [OF True] by simp
  qed (use assms(2) in \<open>auto simp: pstm_cmp_mag_def\<close>)
  then show ?thesis
    using s_pstm_sub_val [of a b "c\<lparr>sign := 0\<rparr>"] False assms pstm_ok_wf [OF assms(1)]
    by (auto simp: pstm_sub_def Let_def)
qed

lemma pstm_add_val:
  assumes "pstm_ok a" "pstm_ok b" "pstm_wf c" "sign a = 1" "sign b = 0" "pstm_nat a \<le> pstm_nat b" "used b \<le> used a + 1"
  shows "\<exists>r. pstm_add f a b c = Inr r \<and> pstm_ok r \<and> pstm_nat r = pstm_nat b - pstm_nat a
    \<and> sign r = 0 \<and> length (dp c) \<le> length (dp r)"
proof -
  have u: "used a \<le> used b" using used_less [of a "used b"] ok_bounds(1) [OF assms(2)] assms(1,6) by simp
  show ?thesis
  proof (cases "pstm_nat a = pstm_nat b")
    case True
    then have "used a = used b" using u used_less [of b "used a"] ok_bounds(1) [OF assms(1)] assms(2) by simp
    then show ?thesis
      using s_pstm_sub_val [of a b "c\<lparr>sign := 1\<rparr>"] True assms pstm_cmp_mag_val [of a b] pstm_ok_wf [OF assms(1)] pstm_ok_wf [OF assms(2)]
      by (auto simp: pstm_add_def Let_def)
  next
    case False
    then show ?thesis
      using s_pstm_sub_val [of b a "c\<lparr>sign := 0\<rparr>"] u assms pstm_cmp_mag_val [of a b] pstm_ok_wf [OF assms(1)] pstm_ok_wf [OF assms(2)]
      by (auto simp: pstm_add_def Let_def)
  qed
qed

lemma bits_in_0 [simp]: "bits_in 0 = 0"
  by (simp add: bits_in.simps)

lemma bits_in_le: "bits_in n \<le> k \<longleftrightarrow> n < 2 ^ k"
proof (induction n arbitrary: k rule: bits_in.induct)
  case (1 n)
  show ?case
  proof (cases k)
    case (Suc m)
    show ?thesis
    proof (cases "n = 0")
      case False
      then have "bits_in n \<le> k \<longleftrightarrow> bits_in (n div 2) \<le> m" using Suc by (simp add: bits_in.simps [of n])
      also have "\<dots> \<longleftrightarrow> n div 2 < 2 ^ m" using 1 False by simp
      also have "\<dots> \<longleftrightarrow> n < 2 ^ k" by (simp add: Suc div_less_iff_less_mult mult.commute)
      finally show ?thesis .
    qed simp
  qed (auto simp: bits_in.simps [of n])
qed

lemma bits_in_bounds:
  assumes "0 < n"
  shows "0 < bits_in n" "2 ^ (bits_in n - 1) \<le> n" "n < 2 ^ bits_in n"
proof -
  show pos: "0 < bits_in n" using assms bits_in.simps [of n] by simp
  show "n < 2 ^ bits_in n" using bits_in_le [of n "bits_in n"] by simp
  have "\<not> bits_in n \<le> bits_in n - 1" using pos by simp
  then show "2 ^ (bits_in n - 1) \<le> n" unfolding bits_in_le by simp
qed

lemma bits_in_unique: "2 ^ k \<le> n \<Longrightarrow> n < 2 ^ Suc k \<Longrightarrow> bits_in n = Suc k"
  using bits_in_le [of n k] bits_in_le [of n "Suc k"] by simp

lemma bits_in_scaled: "0 < n \<Longrightarrow> r < 2 ^ k \<Longrightarrow> bits_in (2 ^ k * n + r) = k + bits_in n"
proof -
  assume n: "0 < n" and r: "r < 2 ^ k"
  note b = bits_in_bounds [OF n]
  have "2 ^ (k + (bits_in n - 1)) \<le> 2 ^ k * n + r" using b(2) by (simp add: power_add trans_le_add1)
  moreover have "2 ^ k * Suc n \<le> 2 ^ k * 2 ^ bits_in n" using b(3) by (intro mult_le_mono2) simp
  then have "2 ^ k * n + r < 2 ^ k * 2 ^ bits_in n" using r by simp
  moreover have "(2 :: nat) ^ k * 2 ^ bits_in n = 2 ^ Suc (k + (bits_in n - 1))"
    using b(1) by (simp only: power_add [symmetric] Suc_diff_1 add_Suc_right [symmetric])
  ultimately have "bits_in (2 ^ k * n + r) = Suc (k + (bits_in n - 1))" by (intro bits_in_unique) simp_all
  then show ?thesis using b(1) by linarith
qed

lemma pstm_count_bits_val:
  assumes "pstm_ok a"
  shows "pstm_count_bits a = bits_in (pstm_nat a)"
proof (cases "used a = 0")
  case False
  then have u: "used a - 1 < length (dp a)" "dp a ! (used a - 1) \<noteq> 0" using assms by (auto simp: pstm_ok_def)
  have "pstm_nat a = 2 ^ (32 * (used a - 1)) * unat (dp a ! (used a - 1)) + dval (take (used a - 1) (dp a))"
    using dval_take_Suc [OF u(1)] False by (simp add: pstm_nat_def)
  then show ?thesis
    using bits_in_scaled [of "unat (dp a ! (used a - 1))", OF _ dval_take_bound] u False
    by (simp add: pstm_count_bits_def unat_gt_0)
qed (simp add: pstm_count_bits_def pstm_nat_def)

lemma drop_ones: "b \<le> 32 \<Longrightarrow> drop_bit (32 - b) (NOT 0 :: u32) = mask b"
  by (rule bit_word_eqI) (auto simp: bit_simps)

lemma pstm_mod_2d_val:
  assumes a: "pstm_ok a" "sign a = 0" and c: "pstm_wf c" and b: "0 < b" "b \<le> 32"
  shows "\<exists>r. pstm_mod_2d a b c = Inr r \<and> pstm_ok r \<and> pstm_nat r = pstm_nat a mod 2 ^ b"
proof (cases "32 * used a \<le> b")
  case True
  have "pstm_nat a < 2 ^ (32 * used a)" by (rule ok_bounds(1) [OF a(1)])
  also have "\<dots> \<le> 2 ^ b" using True by (intro power_increasing) simp_all
  finally show ?thesis using True b(1) pstm_copy_val [OF pstm_ok_wf [OF a(1)] c] a(1) by (simp add: pstm_mod_2d_def)
next
  case False
  then obtain d ds where d: "dp a = d # ds" "0 < used a" using a(1) by (cases "dp a") (auto simp: pstm_ok_def)
  let ?c = "pstm_copy a c" and ?n = "max (used a) (length (dp c))"
  have cp: "dp ?c = d # tl (dp ?c)" "used ?c = used a" "length (dp ?c) = ?n" "pstm_wf ?c"
    using pstm_copy_val [OF pstm_ok_wf [OF a(1)] c] d by (simp_all add: take_Cons')
  have x: "b div 32 + (if b mod 32 = 0 then 0 else 1) = 1" using b by (cases "b = 32") (auto simp: div_eq_0_iff)
  define l where "l = lay (take 1 (dp ?c)) (used ?c) (dp ?c)"
  have l: "l = d # replicate (?n - 1) 0"
  proof -
    have "take 1 (dp ?c) = [d]" by (subst cp(1)) simp
    moreover have "length [d] \<le> length (dp ?c)" using cp(3) d(2) by simp
    ultimately show ?thesis using lay_wf [OF cp(4), of "[d]"] cp(3) by (simp add: l_def)
  qed
  let ?e = "d AND mask b"
  have "l[b div 32 := l ! (b div 32) AND mask b] = ?e # replicate (?n - 1) 0"
  proof (cases "b = 32")
    case True
    then have "?e = d" "1 < ?n" using False by (auto simp: take_bit_eq_mask [symmetric] take_bit_word_eq_self)
    then show ?thesis using True by (cases "?n - 1") (auto simp: l)
  next
    case False
    then have "b div 32 = 0" using b(2) by simp
    then show ?thesis unfolding l by simp
  qed
  also have "\<dots> = (?e # replicate (used a - 1) 0) @ replicate (?n - used a) 0"
    using d(2) by (simp add: replicate_add [symmetric])
  finally have dp: "dp (?c\<lparr>dp := l[b div 32 := l ! (b div 32) AND mask b]\<rparr>) = (?e # replicate (used a - 1) 0) @ replicate (?n - used a) 0" by simp
  have "pstm_nat a = unat d + 2 ^ 32 * dval ds" using pstm_nat_wf [OF pstm_ok_wf [OF a(1)]] d(1) by simp
  moreover have "(2 :: nat) ^ 32 = 2 ^ b * 2 ^ (32 - b)" using b(2) by (simp add: power_add [symmetric])
  ultimately have "pstm_nat a = unat d + 2 ^ b * (2 ^ (32 - b) * dval ds)" by (simp only: mult.assoc)
  then have "pstm_nat a mod 2 ^ b = unat d mod 2 ^ b" by (simp only: mod_mult_self2)
  also have "\<dots> = unat ?e" by (simp only: take_bit_eq_mask [symmetric] unsigned_take_bit_eq) (simp only: take_bit_eq_mod)
  finally have "dval (?e # replicate (used a - 1) 0) = pstm_nat a mod 2 ^ b" by simp
  then show ?thesis
    using stored(3,4) [OF dp] cp(2) d(2) False b x by (simp add: pstm_mod_2d_def Let_def l_def drop_ones)
qed
end
