(* ===== verification/RB_PstmMul.thy ===== *)
theory RB_PstmMul
  imports RB_PstmArith
begin

text \<open>
  Multiplication and squaring of multi-precision integers column by column, \<^verbatim>\<open>src/networking/tls_pstm_mul_comba.rs\<close> and
  \<^verbatim>\<open>src/networking/tls_pstm_sqr_comba.rs\<close>. Three digits accumulate a column; its low digit is stored and the other two are
  carried into the next column. The digits are collected in a buffer of their own, taken from the caller if its
  buffer has room for all of them, and only then stored in the result, so that the result may be an operand.
\<close>

section \<open>Columns\<close>

type_synonym column = "u32 \<times> u32 \<times> u32"

definition carry_up :: "u64 \<Rightarrow> column \<Rightarrow> column" where
  "carry_up t = (\<lambda>(_, c1, c2).
     let c0 = ucast t;
         t = ucast c1 + drop_bit 32 t
     in (c0, ucast t, c2 + ucast (drop_bit 32 t)))"

definition mul_add :: "u32 \<Rightarrow> u32 \<Rightarrow> column \<Rightarrow> column" where
  "mul_add a b c = carry_up (ucast (fst c) + ucast a * ucast b) c"

definition forward :: "column \<Rightarrow> column" where
  "forward = (\<lambda>(_, c1, c2). (c1, c2, 0))"

fun comba_digits :: "(nat \<Rightarrow> column \<Rightarrow> column) \<Rightarrow> nat list \<Rightarrow> column \<Rightarrow> u32 list" where
  "comba_digits col [] c = []"
| "comba_digits col (ix # ixs) c = (let c = col ix c in fst c # comba_digits col ixs c)"

text \<open>\<open>ty\<close> is one more than in the code, so that it is never negative; a negative number of rounds is no round.\<close>

definition mul_comba_column :: "pstm_int \<Rightarrow> pstm_int \<Rightarrow> nat \<Rightarrow> column \<Rightarrow> column" where
  "mul_comba_column A B ix c =
     (let ty = min (ix + 1) (used B);
          tx = ix + 1 - ty;
          iy = min (used A - tx) ty
      in fold (\<lambda>iz. mul_add (dp A ! (tx + iz)) (dp B ! (ty - 1 - iz))) [0..<iy] (forward c))"

definition comba_store :: "pstm_int \<Rightarrow> u32 list \<Rightarrow> nat \<Rightarrow> pstm_int" where
  "comba_store C ds sg = pstm_clamp (C\<lparr>dp := lay ds (used C) (dp C), used := length ds, sign := sg\<rparr>)"

definition pstm_mul_comba :: "pstm_int \<Rightarrow> pstm_int \<Rightarrow> pstm_int \<Rightarrow> pstm_int" where
  "pstm_mul_comba A B C =
     (let pa = used A + used B;
          C = (if length (dp C) < pa then pstm_grow C pa else C);
          dst = comba_digits (mul_comba_column A B) [0..<pa] (0, 0, 0)
      in comba_store C dst (if sign A = sign B then 0 else 1))"

definition sqr_add :: "u32 \<Rightarrow> u32 \<Rightarrow> column \<Rightarrow> column" where
  "sqr_add a b c =
     (let t = ucast a * ucast b :: u64;
          c = carry_up (ucast (fst c) + t) c
      in carry_up (ucast (fst c) + t) c)"

definition sqr_comba_column :: "pstm_int \<Rightarrow> nat \<Rightarrow> column \<Rightarrow> column" where
  "sqr_comba_column A ix c =
     (let ty = min (used A) (ix + 1);
          tx = ix + 1 - ty;
          iy = min (used A - tx) ty;
          iy = min iy ((ty - tx) div 2);
          c = fold (\<lambda>iz. sqr_add (dp A ! (tx + iz)) (dp A ! (ty - 1 - iz))) [0..<iy] (forward c)
      in if ix mod 2 = 0 then mul_add (dp A ! (ix div 2)) (dp A ! (ix div 2)) c else c)"

definition pstm_sqr_comba :: "pstm_int \<Rightarrow> pstm_int \<Rightarrow> pstm_int" where
  "pstm_sqr_comba A B =
     (let pa = used A + used A;
          B = (if length (dp B) < pa then pstm_grow B pa else B);
          dst = comba_digits (sqr_comba_column A) [0..<pa] (0, 0, 0)
      in comba_store B dst (sign B))"

section \<open>Values of columns\<close>

definition cval :: "column \<Rightarrow> nat" where
  "cval = (\<lambda>(c0, c1, c2). unat c0 + 2 ^ 32 * unat c1 + 2 ^ 64 * unat c2)"

lemma regroup:
  fixes b :: nat
  assumes "t = m + b * h" "s = r + b * k" "s = c1 + h"
  shows "m + b * r + b * b * (c2 + k) = t + b * c1 + b * b * c2"
proof -
  have "b * r + b * b * k = b * c1 + b * h" using assms(2,3) by (metis add_mult_distrib2 mult.assoc)
  then show ?thesis using assms(1) by (simp add: algebra_simps)
qed

lemma carry_up_val:
  assumes "unat t + 2 ^ 32 * unat (fst (snd c)) + 2 ^ 64 * unat (snd (snd c)) < 2 ^ 96"
  shows "cval (carry_up t c) = unat t + 2 ^ 32 * unat (fst (snd c)) + 2 ^ 64 * unat (snd (snd c))"
proof -
  obtain c0 c1 c2 where c: "c = (c0, c1, c2)" by (cases c)
  let ?h = "unat t div 2 ^ 32" and ?s = "ucast c1 + drop_bit 32 t :: u64"
  have t: "unat t < 2 ^ 64" using unsigned_less [of t, where 'a = nat] by simp
  then have h: "?h < 2 ^ 32" by (simp add: div_less_iff_less_mult)
  have s: "unat ?s = unat c1 + ?h" using h digit_less [of c1] by (simp add: unat_word_ariths)
  have e: "unat t = unat t mod 2 ^ 32 + 2 ^ 32 * ?h" "unat ?s = unat ?s mod 2 ^ 32 + 2 ^ 32 * (unat ?s div 2 ^ 32)"
    by (simp_all only: mod_mult_div_eq)
  have d: "unat ?s div 2 ^ 32 < 2 ^ 32" using s h digit_less [of c1] by (simp add: div_less_iff_less_mult)
  have "2 ^ 64 * (unat c2 + unat ?s div 2 ^ 32) < 2 ^ 96"
    using assms s e unfolding c by simp
  then have c2: "unat (c2 + ucast (drop_bit 32 ?s)) = unat c2 + unat ?s div 2 ^ 32"
    using d by (simp add: unat_word_ariths)
  have "cval (carry_up t c) = unat t mod 2 ^ 32 + 2 ^ 32 * (unat ?s mod 2 ^ 32) + 2 ^ 64 * (unat c2 + unat ?s div 2 ^ 32)"
    unfolding c carry_up_def cval_def Let_def prod.case c2 by simp
  then show ?thesis using regroup [OF e s, of "unat c2"] by (simp add: c)
qed

lemma mul_add_val:
  assumes "cval c + unat a * unat b < 2 ^ 96"
  shows "cval (mul_add a b c) = cval c + unat a * unat b"
proof -
  have t: "unat (ucast (fst c) + ucast a * ucast b :: u64) = unat (fst c) + unat a * unat b"
    using unat_mul_add [of "ucast (fst c)" a b] digit_less [of "fst c"] by (simp add: add.commute)
  show ?thesis
    using carry_up_val [of "ucast (fst c) + ucast a * ucast b" c] assms unfolding mul_add_def t cval_def
    by (cases c) simp
qed

lemma sqr_add_val:
  assumes "cval c + 2 * (unat a * unat b) < 2 ^ 96"
  shows "cval (sqr_add a b c) = cval c + 2 * (unat a * unat b)"
  using mul_add_val [of c a b] mul_add_val [of "mul_add a b c" a b] assms by (simp add: sqr_add_def mul_add_def Let_def)

lemma forward_val: "cval (forward c) = cval c div 2 ^ 32" and cval_fst: "unat (fst c) = cval c mod 2 ^ 32"
proof -
  obtain c0 c1 c2 where c: "c = (c0, c1, c2)" by (cases c)
  have v: "cval c = unat c0 + 2 ^ 32 * (unat c1 + 2 ^ 32 * unat c2)" by (simp add: c cval_def)
  show "cval (forward c) = cval c div 2 ^ 32" unfolding v using digit_less [of c0] by (simp add: c forward_def cval_def)
  show "unat (fst c) = cval c mod 2 ^ 32" unfolding v mod_mult_self2 using digit_less [of c0] by (simp add: c)
qed

lemma fold_add_val:
  assumes step: "\<And>i c. i < n \<Longrightarrow> cval c + g i < 2 ^ 96 \<Longrightarrow> cval (f i c) = cval c + g i"
    and "cval c + (\<Sum>i<n. g i) < 2 ^ 96"
  shows "cval (fold f [0..<n] c) = cval c + (\<Sum>i<n. g i)"
  using assms
proof (induction n)
  case (Suc n)
  have "cval (fold f [0..<n] c) = cval c + (\<Sum>i<n. g i)" using Suc.prems by (intro Suc.IH) auto
  then show ?case using Suc.prems by simp
qed simp

text \<open>If every column adds \<open>s ix\<close> to what is carried into it, the digits and the last carry are the sum.\<close>

lemma comba_digits_val:
  assumes "\<And>ix c. ix < n \<Longrightarrow> cval c \<le> K * 2 ^ 64 \<Longrightarrow> cval (col ix c) = cval c div 2 ^ 32 + s ix \<and> cval (col ix c) \<le> K * 2 ^ 64"
  shows "cval c \<le> K * 2 ^ 64 \<Longrightarrow> m \<le> n \<Longrightarrow> \<exists>e. dval (comba_digits col [m..<n] c) + 2 ^ (32 * (n - m)) * e =
    cval c div 2 ^ 32 + (\<Sum>ix = m..<n. s ix * 2 ^ (32 * (ix - m)))"
proof (induction "n - m" arbitrary: m c)
  case 0
  then show ?case by simp
next
  case (Suc k)
  then have m: "m < n" "k = n - Suc m" by simp_all
  have col: "cval (col m c) = cval c div 2 ^ 32 + s m" "cval (col m c) \<le> K * 2 ^ 64"
    using assms [OF m(1) Suc.prems(1)] by blast+
  then obtain e where e: "dval (comba_digits col [Suc m..<n] (col m c)) + 2 ^ (32 * (n - Suc m)) * e =
      cval (col m c) div 2 ^ 32 + (\<Sum>ix = Suc m..<n. s ix * 2 ^ (32 * (ix - Suc m)))"
    using Suc.hyps(1) [of "Suc m" "col m c"] m by auto
  have sum: "(\<Sum>ix = m..<n. s ix * 2 ^ (32 * (ix - m))) = s m + 2 ^ 32 * (\<Sum>ix = Suc m..<n. s ix * 2 ^ (32 * (ix - Suc m)))"
  proof -
    have "s ix * 2 ^ (32 * (ix - m)) = 2 ^ 32 * (s ix * 2 ^ (32 * (ix - Suc m)))" if "ix \<in> {Suc m..<n}" for ix
    proof -
      have "ix - m = Suc (ix - Suc m)" using that by auto
      then show ?thesis by (simp add: power_add)
    qed
    then have "(\<Sum>ix = Suc m..<n. s ix * 2 ^ (32 * (ix - m))) = 2 ^ 32 * (\<Sum>ix = Suc m..<n. s ix * 2 ^ (32 * (ix - Suc m)))"
      unfolding sum_distrib_left by (rule sum.cong [OF refl])
    then show ?thesis using m(1) by (simp add: sum.atLeast_Suc_lessThan)
  qed
  have p: "2 ^ (32 * (n - m)) = 2 ^ 32 * (2 :: nat) ^ (32 * (n - Suc m))"
  proof -
    have "n - m = Suc (n - Suc m)" using m by simp
    then show ?thesis by (simp add: power_add)
  qed
  have "dval (comba_digits col [m..<n] c) + 2 ^ (32 * (n - m)) * e =
      cval (col m c) mod 2 ^ 32 + 2 ^ 32 * (dval (comba_digits col [Suc m..<n] (col m c)) + 2 ^ (32 * (n - Suc m)) * e)"
    unfolding p using m(1) by (simp add: upt_conv_Cons Let_def cval_fst algebra_simps)
  also have "\<dots> = cval (col m c) + 2 ^ 32 * (\<Sum>ix = Suc m..<n. s ix * 2 ^ (32 * (ix - Suc m)))"
    unfolding e by (rule split_word)
  also have "\<dots> = cval c div 2 ^ 32 + (\<Sum>ix = m..<n. s ix * 2 ^ (32 * (ix - m)))" unfolding sum col(1) by simp
  finally show ?case by blast
qed

lemma length_comba_digits [simp]: "length (comba_digits col ixs c) = length ixs"
  by (induction col ixs c rule: comba_digits.induct) (simp_all add: Let_def)

section \<open>Sums of products\<close>

text \<open>The sum that belongs to column \<open>ix\<close> of the product of two numbers.\<close>

definition column_sum :: "(nat \<Rightarrow> nat) \<Rightarrow> nat \<Rightarrow> (nat \<Rightarrow> nat) \<Rightarrow> nat \<Rightarrow> nat \<Rightarrow> nat" where
  "column_sum f n g m ix = (\<Sum>i = ix + 1 - m..<min n (ix + 1). f i * g (ix - i))"

lemma sum_columns:
  fixes f g :: "nat \<Rightarrow> nat"
  shows "(\<Sum>ix<n + m. column_sum f n g m ix * b ^ ix) = (\<Sum>i<n. f i * b ^ i) * (\<Sum>j<m. g j * b ^ j)"
proof -
  have "(\<Sum>ix<n + m. column_sum f n g m ix * b ^ ix) =
      (\<Sum>ix<n + m. \<Sum>i<n. if i \<le> ix \<and> ix < i + m then f i * g (ix - i) * b ^ ix else 0)"
  proof (rule sum.cong [OF refl])
    fix ix
    have "{ix + 1 - m..<min n (ix + 1)} = {i \<in> {..<n}. i \<le> ix \<and> ix < i + m}" by auto
    then show "column_sum f n g m ix * b ^ ix = (\<Sum>i<n. if i \<le> ix \<and> ix < i + m then f i * g (ix - i) * b ^ ix else 0)"
      by (simp add: column_sum_def sum.inter_filter [symmetric] sum_distrib_right)
  qed
  also have "\<dots> = (\<Sum>i<n. \<Sum>ix<n + m. if i \<le> ix \<and> ix < i + m then f i * g (ix - i) * b ^ ix else 0)"
    by (rule sum.swap)
  also have "\<dots> = (\<Sum>i<n. \<Sum>j<m. f i * b ^ i * (g j * b ^ j))"
  proof (rule sum.cong [OF refl])
    fix i assume "i \<in> {..<n}"
    then have "{ix \<in> {..<n + m}. i \<le> ix \<and> ix < i + m} = {i..<i + m}" by auto
    then have "(\<Sum>ix<n + m. if i \<le> ix \<and> ix < i + m then f i * g (ix - i) * b ^ ix else 0) =
        (\<Sum>ix = i..<i + m. f i * g (ix - i) * b ^ ix)"
      by (simp add: sum.inter_filter [symmetric])
    also have "\<dots> = (\<Sum>j<m. f i * g j * b ^ (j + i))"
      using sum.shift_bounds_nat_ivl [of "\<lambda>ix. f i * g (ix - i) * b ^ ix" 0 i m] by (simp add: atLeast0LessThan add.commute)
    also have "\<dots> = (\<Sum>j<m. f i * b ^ i * (g j * b ^ j))" by (rule sum.cong) (simp_all add: power_add)
    finally show "(\<Sum>ix<n + m. if i \<le> ix \<and> ix < i + m then f i * g (ix - i) * b ^ ix else 0) = \<dots>" .
  qed
  also have "\<dots> = (\<Sum>i<n. f i * b ^ i) * (\<Sum>j<m. g j * b ^ j)" by (simp add: sum_product)
  finally show ?thesis .
qed

lemma dval_sum: "dval ds = (\<Sum>i<length ds. unat (ds ! i) * 2 ^ (32 * i))"
proof (induction ds)
  case (Cons d ds)
  have "(\<Sum>i<length (d # ds). unat ((d # ds) ! i) * 2 ^ (32 * i)) = unat d + (\<Sum>i<length ds. unat (ds ! i) * 2 ^ (32 * Suc i))"
    by (simp only: length_Cons sum.lessThan_Suc_shift nth_Cons_0 nth_Cons_Suc) simp
  also have "(\<Sum>i<length ds. unat (ds ! i) * 2 ^ (32 * Suc i)) = 2 ^ 32 * dval ds"
    unfolding Cons sum_distrib_left by (rule sum.cong) (simp_all add: power_add)
  finally show ?case by simp
qed simp

lemma pstm_nat_sum: "pstm_wf a \<Longrightarrow> pstm_nat a = (\<Sum>i<used a. unat (dp a ! i) * 2 ^ (32 * i))"
  using dval_sum [of "take (used a) (dp a)"] wf_used [of a] by (simp add: pstm_nat_def)

lemma column_sum_bound: "(\<And>i. f i < 2 ^ 32) \<Longrightarrow> (\<And>i. g i < 2 ^ 32) \<Longrightarrow> column_sum f n g m ix \<le> n * (2 ^ 32 - 1) ^ 2"
proof -
  assume f: "\<And>i. f i < 2 ^ 32" and g: "\<And>i. g i < (2 :: nat) ^ 32"
  have "f i * g j \<le> (2 ^ 32 - 1) ^ 2" for i j
    unfolding power2_eq_square by (rule mult_le_mono) (use f [of i] g [of j] in simp_all)
  then have "column_sum f n g m ix \<le> card {ix + 1 - m..<min n (ix + 1)} * (2 ^ 32 - 1) ^ 2"
    unfolding column_sum_def by (metis (no_types, lifting) sum_bounded_above of_nat_id)
  also have "\<dots> \<le> n * (2 ^ 32 - 1) ^ 2" by (rule mult_le_mono1) simp
  finally show ?thesis .
qed

lemma column_room: "c \<le> K * 2 ^ 64 \<Longrightarrow> s \<le> K * (2 ^ 32 - 1) ^ 2 \<Longrightarrow> c div 2 ^ 32 + s \<le> K * (2 :: nat) ^ 64"
proof -
  assume "c \<le> K * 2 ^ 64" and s: "s \<le> K * (2 ^ 32 - 1) ^ 2"
  then have "c div 2 ^ 32 \<le> K * 2 ^ 32" using div_le_mono [of c "K * 2 ^ 64" "2 ^ 32"] by simp
  then have "c div 2 ^ 32 + s \<le> K * (2 ^ 32 + (2 ^ 32 - 1) ^ 2)" using s by (simp add: algebra_simps)
  also have "\<dots> \<le> K * 2 ^ 64" by (rule mult_le_mono2) (simp add: power2_eq_square)
  finally show ?thesis .
qed

abbreviation digits :: "pstm_int \<Rightarrow> nat \<Rightarrow> nat" where
  "digits a i \<equiv> unat (dp a ! i)"

lemma mul_comba_column_val:
  assumes "cval c \<le> used A * 2 ^ 64" "used A < 2 ^ 32"
  shows "cval (mul_comba_column A B ix c) = cval c div 2 ^ 32 + column_sum (digits A) (used A) (digits B) (used B) ix \<and>
    cval (mul_comba_column A B ix c) \<le> used A * 2 ^ 64"
proof -
  let ?s = "column_sum (digits A) (used A) (digits B) (used B) ix"
  define ty where "ty = min (ix + 1) (used B)"
  define tx where "tx = ix + 1 - ty"
  define iy where "iy = min (used A - tx) ty"
  let ?f = "\<lambda>iz. mul_add (dp A ! (tx + iz)) (dp B ! (ty - 1 - iz))" and ?g = "\<lambda>iz. digits A (tx + iz) * digits B (ty - 1 - iz)"
  have "(\<Sum>iz<iy. ?g iz) = (\<Sum>i = tx..<tx + iy. digits A i * digits B (ix - i))"
  proof -
    have "(\<Sum>i = tx..<tx + iy. digits A i * digits B (ix - i)) = (\<Sum>iz<iy. digits A (iz + tx) * digits B (ix - (iz + tx)))"
      using sum.shift_bounds_nat_ivl [of "\<lambda>i. digits A i * digits B (ix - i)" 0 tx iy] by (simp add: atLeast0LessThan add.commute)
    also have "\<dots> = (\<Sum>iz<iy. ?g iz)"
      by (rule sum.cong) (auto simp: add.commute iy_def tx_def ty_def)
    finally show ?thesis ..
  qed
  also have "{tx..<tx + iy} = {ix + 1 - used B..<min (used A) (ix + 1)}" by (auto simp: tx_def iy_def ty_def)
  finally have sum: "(\<Sum>iz<iy. ?g iz) = ?s" by (simp add: column_sum_def)
  have room: "cval c div 2 ^ 32 + ?s \<le> used A * 2 ^ 64"
    by (rule column_room [OF assms(1) column_sum_bound]) (rule digit_less)+
  also have "\<dots> < 2 ^ 96" using assms(2) by simp
  finally have less: "cval (forward c) + (\<Sum>iz<iy. ?g iz) < 2 ^ 96" unfolding forward_val sum .
  have "cval (fold ?f [0..<iy] (forward c)) = cval (forward c) + (\<Sum>iz<iy. ?g iz)"
    by (rule fold_add_val [OF mul_add_val less])
  moreover have "mul_comba_column A B ix c = fold ?f [0..<iy] (forward c)"
    unfolding mul_comba_column_def Let_def ty_def tx_def iy_def ..
  ultimately show ?thesis using room unfolding forward_val sum by simp
qed

lemma comba_product:
  assumes "\<And>ix c. ix < n + m \<Longrightarrow> cval c \<le> n * 2 ^ 64 \<Longrightarrow>
      cval (col ix c) = cval c div 2 ^ 32 + column_sum (digits A) n (digits B) m ix \<and> cval (col ix c) \<le> n * 2 ^ 64"
    and "pstm_wf A" "used A = n" "pstm_wf B" "used B = m"
  shows "dval (comba_digits col [0..<n + m] (0, 0, 0)) = pstm_nat A * pstm_nat B"
proof -
  let ?ds = "comba_digits col [0..<n + m] (0, 0, 0)"
  obtain e where "dval ?ds + 2 ^ (32 * (n + m)) * e = (\<Sum>ix = 0..<n + m. column_sum (digits A) n (digits B) m ix * 2 ^ (32 * ix))"
    using comba_digits_val [where n = "n + m" and K = n and col = col and s = "column_sum (digits A) n (digits B) m" and
        m = 0 and c = "(0, 0, 0)", OF assms(1)] by (auto simp: cval_def)
  also have "\<dots> = pstm_nat A * pstm_nat B"
    using sum_columns [of "digits A" n "digits B" m "2 ^ 32"] pstm_nat_sum [OF assms(2)] pstm_nat_sum [OF assms(4)] assms(3,5)
    by (simp only: power_mult atLeast0LessThan)
  finally have eq: "dval ?ds + 2 ^ (32 * (n + m)) * e = pstm_nat A * pstm_nat B" .
  have "pstm_nat A * pstm_nat B < 2 ^ (32 * n) * 2 ^ (32 * m)"
    using dval_take_bound [of n "dp A"] dval_take_bound [of m "dp B"] assms by (intro mult_strict_mono) (auto simp: pstm_nat_def pstm_wf_def)
  also have "\<dots> = 2 ^ (32 * (n + m))" by (simp add: power_add distrib_left)
  finally have "2 ^ (32 * (n + m)) * e < 2 ^ (32 * (n + m))" using eq by linarith
  then have "e = 0" by simp
  then show ?thesis using eq by simp
qed

lemma comba_store_val:
  assumes "pstm_wf C" "length ds \<le> length (dp C)"
  shows "pstm_ok (comba_store C ds sg)" "pstm_nat (comba_store C ds sg) = dval ds"
    "sign (comba_store C ds sg) = (if dval ds = 0 then 0 else sg)" "length (dp (comba_store C ds sg)) = length (dp C)"
proof -
  let ?r = "C\<lparr>dp := lay ds (used C) (dp C), used := length ds, sign := sg\<rparr>"
  note st = stored_lay [OF assms, of ?r]
  show "pstm_ok (comba_store C ds sg)" "pstm_nat (comba_store C ds sg) = dval ds" "length (dp (comba_store C ds sg)) = length (dp C)"
    using st by (simp_all add: comba_store_def)
  show "sign (comba_store C ds sg) = (if dval ds = 0 then 0 else sg)" using st sign_clamp [of ?r] by (simp add: comba_store_def)
qed

lemma pstm_mul_comba_val:
  assumes "pstm_wf A" "pstm_wf B" "pstm_wf C" "used A < 2 ^ 32"
  shows "pstm_ok (pstm_mul_comba A B C)" "pstm_nat (pstm_mul_comba A B C) = pstm_nat A * pstm_nat B"
    "sign A = sign B \<Longrightarrow> sign (pstm_mul_comba A B C) = 0"
    "length (dp (pstm_mul_comba A B C)) = max (used A + used B) (length (dp C))"
proof -
  let ?C = "room C (used A + used B)" and ?ds = "comba_digits (mul_comba_column A B) [0..<used A + used B] (0, 0, 0)"
  have ds: "dval ?ds = pstm_nat A * pstm_nat B"
    by (rule comba_product [OF mul_comba_column_val]) (use assms in simp_all)
  have eq: "pstm_mul_comba A B C = comba_store ?C ?ds (if sign A = sign B then 0 else 1)"
    by (simp add: pstm_mul_comba_def Let_def)
  note st = comba_store_val [OF room_wf(4) [OF assms(3)], of ?ds "used A + used B"]
  show "pstm_ok (pstm_mul_comba A B C)" "pstm_nat (pstm_mul_comba A B C) = pstm_nat A * pstm_nat B"
    "length (dp (pstm_mul_comba A B C)) = max (used A + used B) (length (dp C))"
    unfolding eq using st ds by auto
  show "sign A = sign B \<Longrightarrow> sign (pstm_mul_comba A B C) = 0" unfolding eq using st(3) by auto
qed

section \<open>Squares\<close>

lemma sum_symmetric:
  fixes h :: "nat \<Rightarrow> nat"
  assumes "\<And>k. k < L \<Longrightarrow> h (L - 1 - k) = h k"
  shows "(\<Sum>k<L. h k) = 2 * (\<Sum>k<L div 2. h k) + (if odd L then h (L div 2) else 0)"
proof -
  define p where "p = L div 2"
  have "(\<Sum>k<L. h k) = (\<Sum>k<L - p. h k) + (\<Sum>k = L - p..<L. h k)"
    by (metis (no_types) atLeast0LessThan diff_le_self le0 sum.atLeastLessThan_concat)
  also have "(\<Sum>k = L - p..<L. h k) = (\<Sum>k<p. h (L - p + k))"
    using sum.shift_bounds_nat_ivl [of h 0 "L - p" p] by (simp add: p_def atLeast0LessThan add.commute)
  also have "\<dots> = (\<Sum>k<p. h (p - Suc k))"
    by (rule sum.cong [OF refl], subst assms [symmetric]) (auto simp: p_def)
  also have "\<dots> = (\<Sum>k<p. h k)" by (rule sum.nat_diff_reindex)
  also have "(\<Sum>k<L - p. h k) = (\<Sum>k<p. h k) + (if odd L then h p else 0)"
  proof (cases "odd L")
    case True
    then have "L - p = Suc p" by (auto simp: p_def elim: oddE)
    then show ?thesis using True by simp
  next
    case False
    then have "L - p = p" by (auto simp: p_def elim: evenE)
    then show ?thesis using False by simp
  qed
  finally show ?thesis by (simp add: p_def)
qed

lemma column_sum_square:
  fixes f :: "nat \<Rightarrow> nat"
  assumes "ix < 2 * n"
  defines "ty \<equiv> min n (ix + 1)" and "tx \<equiv> ix + 1 - min n (ix + 1)"
  shows "column_sum f n f n ix = (\<Sum>k<(ty - tx) div 2. 2 * (f (tx + k) * f (ty - 1 - k))) + (if even ix then f (ix div 2) * f (ix div 2) else 0)"
proof -
  let ?h = "\<lambda>k. f (tx + k) * f (ty - 1 - k)"
  have t: "tx + ty = ix + 1" "tx \<le> ty" using assms(1) by (auto simp: ty_def tx_def)
  have "column_sum f n f n ix = (\<Sum>i = tx..<ty. f i * f (ix - i))"
    unfolding column_sum_def by (rule sum.cong) (auto simp: tx_def ty_def)
  also have "\<dots> = (\<Sum>k<ty - tx. f (k + tx) * f (ix - (k + tx)))"
    using sum.shift_bounds_nat_ivl [of "\<lambda>i. f i * f (ix - i)" 0 tx "ty - tx"] t by (simp add: atLeast0LessThan)
  also have "\<dots> = (\<Sum>k<ty - tx. ?h k)"
  proof (rule sum.cong [OF refl])
    fix k assume "k \<in> {..<ty - tx}"
    then have "ix - (k + tx) = ty - 1 - k" using t by auto
    then show "f (k + tx) * f (ix - (k + tx)) = ?h k" by (simp add: add.commute)
  qed
  also have "\<dots> = 2 * (\<Sum>k<(ty - tx) div 2. ?h k) + (if odd (ty - tx) then ?h ((ty - tx) div 2) else 0)"
  proof (rule sum_symmetric)
    fix k assume "k < ty - tx"
    then have "tx + (ty - tx - 1 - k) = ty - 1 - k" "ty - 1 - (ty - tx - 1 - k) = tx + k" by simp_all
    then show "?h (ty - tx - 1 - k) = ?h k" by (simp add: mult.commute)
  qed
  also have "(if odd (ty - tx) then ?h ((ty - tx) div 2) else 0) = (if even ix then f (ix div 2) * f (ix div 2) else 0)"
  proof -
    have "odd (ty - tx) \<longleftrightarrow> odd (tx + ty)" using t(2) by auto
    then have o: "odd (ty - tx) \<longleftrightarrow> even ix" unfolding t(1) by simp
    have "tx + (ty - tx) div 2 = ix div 2 \<and> ty - 1 - (ty - tx) div 2 = ix div 2" if "even ix"
    proof -
      obtain p where p: "ix = 2 * p" using \<open>even ix\<close> by (rule evenE)
      then have "ty - tx = 2 * (p - tx) + 1" "tx \<le> p" using t by linarith+
      then show ?thesis using p t by simp
    qed
    then show ?thesis using o by auto
  qed
  finally show ?thesis by (simp add: sum_distrib_left)
qed

lemma sqr_comba_column_val:
  assumes "cval c \<le> used A * 2 ^ 64" "used A < 2 ^ 32" "ix < 2 * used A"
  shows "cval (sqr_comba_column A ix c) = cval c div 2 ^ 32 + column_sum (digits A) (used A) (digits A) (used A) ix \<and>
    cval (sqr_comba_column A ix c) \<le> used A * 2 ^ 64"
proof -
  let ?s = "column_sum (digits A) (used A) (digits A) (used A) ix"
  define ty where "ty = min (used A) (ix + 1)"
  define tx where "tx = ix + 1 - ty"
  define iy where "iy = (ty - tx) div 2"
  let ?f = "\<lambda>iz. sqr_add (dp A ! (tx + iz)) (dp A ! (ty - 1 - iz))"
  let ?g = "\<lambda>iz. 2 * (digits A (tx + iz) * digits A (ty - 1 - iz))"
  let ?sq = "digits A (ix div 2) * digits A (ix div 2)"
  have s: "?s = (\<Sum>k<iy. ?g k) + (if even ix then ?sq else 0)"
    unfolding iy_def tx_def ty_def by (rule column_sum_square [OF assms(3)])
  have room: "cval c div 2 ^ 32 + ?s \<le> used A * 2 ^ 64"
    by (rule column_room [OF assms(1) column_sum_bound]) (rule digit_less)+
  also have "\<dots> < 2 ^ 96" using assms(2) by simp
  finally have less: "cval (forward c) + ?s < 2 ^ 96" unfolding forward_val .
  let ?c = "fold ?f [0..<iy] (forward c)"
  have c: "cval ?c = cval (forward c) + (\<Sum>k<iy. ?g k)"
    by (rule fold_add_val [OF sqr_add_val]) (use less s in simp_all)
  have iy: "min (min (used A - tx) ty) ((ty - tx) div 2) = iy" unfolding iy_def ty_def by linarith
  have col: "sqr_comba_column A ix c = (if even ix then mul_add (dp A ! (ix div 2)) (dp A ! (ix div 2)) ?c else ?c)"
    using iy unfolding sqr_comba_column_def Let_def ty_def [symmetric] tx_def [symmetric] by (simp add: even_iff_mod_2_eq_zero)
  have "cval (sqr_comba_column A ix c) = cval (forward c) + ?s"
    unfolding col s using mul_add_val [of ?c "dp A ! (ix div 2)" "dp A ! (ix div 2)"] c less s by auto
  then show ?thesis using room by (simp add: forward_val)
qed

lemma pstm_sqr_comba_val:
  assumes "pstm_wf A" "pstm_wf B" "used A < 2 ^ 32"
  shows "pstm_ok (pstm_sqr_comba A B)" "pstm_nat (pstm_sqr_comba A B) = pstm_nat A * pstm_nat A"
    "sign B = 0 \<Longrightarrow> sign (pstm_sqr_comba A B) = 0"
    "length (dp (pstm_sqr_comba A B)) = max (used A + used A) (length (dp B))"
proof -
  let ?B = "room B (used A + used A)" and ?ds = "comba_digits (sqr_comba_column A) [0..<used A + used A] (0, 0, 0)"
  have ds: "dval ?ds = pstm_nat A * pstm_nat A"
    by (rule comba_product [OF sqr_comba_column_val]) (use assms in simp_all)
  have eq: "pstm_sqr_comba A B = comba_store ?B ?ds (sign B)"
    by (simp add: pstm_sqr_comba_def Let_def)
  note st = comba_store_val [OF room_wf(4) [OF assms(2)], of ?ds "used A + used A"]
  show "pstm_ok (pstm_sqr_comba A B)" "pstm_nat (pstm_sqr_comba A B) = pstm_nat A * pstm_nat A"
    "length (dp (pstm_sqr_comba A B)) = max (used A + used A) (length (dp B))"
    unfolding eq using st ds by auto
  show "sign B = 0 \<Longrightarrow> sign (pstm_sqr_comba A B) = 0" unfolding eq using st(3) by auto
qed

end
