(* ===== verification/RB_PstmDiv.thy ===== *)
theory RB_PstmDiv
  imports RB_PstmArith
begin

text \<open>
  Division of multi-precision integers, \<open>pstm_div\<close> and \<open>pstm_mod\<close> of \<^verbatim>\<open>src/networking/tls_pstm.rs\<close>: the schoolbook
  method on digits, with the divisor shifted so that its leading digit has 31 bits. The subtraction that the division
  uses loses a borrow that passes over a zero digit, so the quotient and the remainder are right only under
  \<open>div_safe\<close>, a condition on the partial remainders that random numbers meet with a probability near one.
\<close>

section \<open>Division\<close>

text \<open>The loop that subtracts the shifted divisor from the dividend while it is not greater; \<open>4\<close> rounds are enough
  since the leading digit of the divisor has 31 bits.\<close>

fun div_top :: "nat \<Rightarrow> pstm_int \<Rightarrow> u32 \<Rightarrow> pstm_int \<Rightarrow> pstm_fail + u32 \<times> pstm_int" where
  "div_top 0 y qd x = Inl Not_ended"
| "div_top (Suc fuel) y qd x =
     (if pstm_cmp x y \<noteq> -1 then do_res (pstm_sub True x y x) (div_top fuel y (qd + 1)) else Inr (qd, x))"

definition div_lhs :: "pstm_int \<Rightarrow> nat \<Rightarrow> u32 \<Rightarrow> pstm_int \<Rightarrow> pstm_int" where
  "div_lhs y t qd t1 =
     (let t1 = pstm_zero t1;
          t1 = t1\<lparr>dp := (dp t1)[0 := (if t = 0 then 0 else dp y ! (t - 1)), 1 := dp y ! t], used := 2\<rparr>
      in pstm_mul_d t1 qd t1)"

definition div_rhs :: "pstm_int \<Rightarrow> nat \<Rightarrow> pstm_int" where
  "div_rhs x i = \<lparr>used = 3, sign = 0, dp = [if i < 2 then 0 else dp x ! (i - 2), if i < 1 then 0 else dp x ! (i - 1), dp x ! i]\<rparr>"

function q_adjust :: "pstm_int \<Rightarrow> nat \<Rightarrow> pstm_int \<Rightarrow> pstm_int \<Rightarrow> u32 \<Rightarrow> u32 \<times> pstm_int" where
  "q_adjust y t t2 t1 qd =
     (let t1 = div_lhs y t qd t1
      in if pstm_cmp_mag t1 t2 = 1 then q_adjust y t t2 t1 (qd - 1) else (qd, t1))"
  by pat_completeness auto

termination
proof (relation "measure (\<lambda>(y, t, t2, t1, qd). unat qd)", simp)
  fix y t t2 t1 t1' and qd :: u32
  assume "t1' = div_lhs y t qd t1" "pstm_cmp_mag t1' t2 = 1"
  then have "qd \<noteq> 0" using pstm_cmp_mag_unused pstm_mul_d_zero by (auto simp: div_lhs_def Let_def)
  then show "((y, t, t2, t1', qd - 1), y, t, t2, t1, qd) \<in> measure (\<lambda>(y, t, t2, t1, qd). unat qd)"
    by (simp add: measure_unat)
qed

declare q_adjust.simps [simp del]

definition q_estimate :: "pstm_int \<Rightarrow> pstm_int \<Rightarrow> nat \<Rightarrow> nat \<Rightarrow> u32" where
  "q_estimate x y t i =
     (if dp x ! i = dp y ! t then 0xFFFFFFFF
      else ucast ((push_bit 32 (ucast (dp x ! i)) OR ucast (dp x ! (i - 1)) :: u64) div ucast (dp y ! t)))"

definition div_step ::
  "pstm_int \<Rightarrow> nat \<Rightarrow> nat \<Rightarrow> u32 list \<times> pstm_int \<times> pstm_int \<Rightarrow> pstm_fail + u32 list \<times> pstm_int \<times> pstm_int" where
  "div_step y t i = (\<lambda>(q, x, t1).
     if i > used x then Inr (q, x, t1)
     else if length (dp t1) < 2 then Inl Bad_access
     else let (qd, t1) = q_adjust y t (div_rhs x i) t1 (q_estimate x y t i);
              t1 = pstm_lshd (pstm_mul_d y qd t1) (i - t - 1)
          in do_res (pstm_sub True x t1 x) (\<lambda>x.
               if sign x = 1
               then let t1 = pstm_lshd (pstm_copy y t1) (i - t - 1)
                    in do_res (pstm_add True x t1 x) (\<lambda>x. Inr (q[i - t - 1 := qd - 1], x, t1))
               else Inr (q[i - t - 1 := qd], x, t1)))"

text \<open>The positions \<open>t + k, \<dots>, t + 1\<close>.\<close>

primrec div_loop ::
  "pstm_int \<Rightarrow> nat \<Rightarrow> nat \<Rightarrow> u32 list \<times> pstm_int \<times> pstm_int \<Rightarrow> pstm_fail + u32 list \<times> pstm_int \<times> pstm_int" where
  "div_loop y t 0 s = Inr s"
| "div_loop y t (Suc k) s = do_res (div_step y t (t + Suc k) s) (div_loop y t k)"

text \<open>Both numbers are shifted so that the leading digit of the divisor has 31 bits.\<close>

definition div_normalize :: "pstm_int \<Rightarrow> pstm_int \<Rightarrow> nat \<times> pstm_int \<times> pstm_int" where
  "div_normalize x y =
     (let norm = pstm_count_bits y mod 32
      in if norm < 32 - 1
         then let norm = 32 - 1 - norm in (norm, pstm_mul_2d x norm x, pstm_mul_2d y norm y)
         else (0, x, y))"

text \<open>The digits of the quotient, the first from the top loop, and the remainder.\<close>

definition div_digits :: "pstm_int \<Rightarrow> pstm_int \<Rightarrow> pstm_int \<Rightarrow> pstm_fail + u32 list \<times> pstm_int \<times> pstm_int" where
  "div_digits x y t1 =
     (let n = used x - 1;
          t = used y - 1;
          q = dp (pstm_init_size (n - t + 1));
          y = pstm_lshd y (n - t)
      in do_res (div_top 4 y (q ! (n - t)) x) (\<lambda>(qd, x).
         div_loop (pstm_rshd y (n - t)) t (n - t) (q[n - t := qd], x, t1)))"

definition pstm_div ::
  "pstm_int \<Rightarrow> pstm_int \<Rightarrow> pstm_int option \<Rightarrow> pstm_int \<Rightarrow> pstm_fail + pstm_int option \<times> pstm_int" where
  "pstm_div a b c d =
     (if used b = 0 then Inl PS_LIMIT_FAIL
      else if pstm_cmp_mag a b = -1 then Inr (map_option pstm_zero c, pstm_copy a d)
      else let t1 = pstm_init_size (length (dp a));
               x = pstm_init_copy a False;
               y = pstm_copy b (pstm_init_size (used b * 3));
               neg = (if sign a = sign b then 0 else 1);
               (norm, x, y) = div_normalize (x\<lparr>sign := 0\<rparr>) (y\<lparr>sign := 0\<rparr>)
           in do_res (div_digits x y t1) (\<lambda>(qs, x, t1).
                 let x = x\<lparr>sign := (if used x = 0 then 0 else sign a)\<rparr>;
                     q = \<lparr>used = length qs, sign = 0, dp = qs\<rparr>;
                     c = map_option (\<lambda>c. (pstm_copy (pstm_clamp q) c)\<lparr>sign := neg\<rparr>) c;
                     x = pstm_div_2d x norm x;
                     x = pstm_clamp (x\<lparr>dp := lay (take (used b) (dp x)) (used x) (dp x)\<rparr>)
                 in Inr (c, pstm_copy x d)))"

definition pstm_mod :: "pstm_int \<Rightarrow> pstm_int \<Rightarrow> pstm_int \<Rightarrow> pstm_fail + pstm_int" where
  "pstm_mod a b c =
     do_res (pstm_div a b None (pstm_init_size (length (dp b)))) (\<lambda>(_, t).
       if sign t \<noteq> sign b then pstm_add False t b c else Inr t)"


section \<open>Estimating a digit of the quotient\<close>

text \<open>The divisor \<open>y\<close> has the leading digit \<open>y div 2 ^ (32 * t)\<close> of 31 bits; \<open>x\<close> is less than \<open>2 ^ 32\<close> times
  \<open>y\<close> shifted by \<open>k\<close> digits.\<close>

lemma quotient_upper:
  fixes b x y :: nat
  assumes "0 < y" "0 < b" "x < y * b ^ k * b"
  shows "x div (y * b ^ k) \<le> b - 1" "x div (y * b ^ k) * (y div b ^ t) \<le> x div b ^ (t + k)"
    "x div (y * b ^ k) * (y * b div b ^ t) \<le> x * b div b ^ (t + k)"
proof -
  let ?q = "x div (y * b ^ k)"
  have "?q < b" using assms by (simp add: div_less_iff_less_mult mult.commute)
  then show "?q \<le> b - 1" by simp
  have qx: "?q * (y * b ^ k) \<le> x" by (simp add: div_times_less_eq_dividend)
  have "?q * (y div b ^ t) * b ^ (t + k) = ?q * ((y div b ^ t * b ^ t) * b ^ k)" by (simp add: power_add ac_simps)
  also have "\<dots> \<le> ?q * (y * b ^ k)" by (intro mult_le_mono2 mult_le_mono1 div_times_less_eq_dividend)
  also have "\<dots> \<le> x" by (rule qx)
  finally show "?q * (y div b ^ t) \<le> x div b ^ (t + k)"
    using assms(2) by (simp add: less_eq_div_iff_mult_less_eq)
  have "?q * (y * b div b ^ t) * b ^ (t + k) = ?q * ((y * b div b ^ t * b ^ t) * b ^ k)" by (simp add: power_add ac_simps)
  also have "\<dots> \<le> ?q * (y * b * b ^ k)" by (intro mult_le_mono2 mult_le_mono1 div_times_less_eq_dividend)
  also have "\<dots> = ?q * (y * b ^ k) * b" by (simp add: ac_simps)
  also have "\<dots> \<le> x * b" using qx by simp
  finally show "?q * (y * b div b ^ t) \<le> x * b div b ^ (t + k)"
    using assms(2) by (simp add: less_eq_div_iff_mult_less_eq)
qed

lemma div_next: "0 < d \<Longrightarrow> n < (n div d + 1) * (d :: nat)"
  using dividend_less_times_div [of d n] by (simp add: algebra_simps)

lemma quotient_lower:
  fixes b x y q :: nat
  assumes "0 < b" "b ^ t \<le> y" "q \<le> b" "q * (y * b div b ^ t) \<le> x * b div b ^ (t + k)"
  shows "q \<le> x div (y * b ^ k) + 1"
proof (cases "q = 0")
  case False
  let ?Y = "y * b div b ^ t"
  have pos: "0 < b ^ (t + k)" "0 < y * b ^ k" using assms(1,2) by (auto intro: less_le_trans [of 0 "b ^ t"])
  have "q * (y * b) * b ^ k < q * ((?Y + 1) * b ^ t) * b ^ k"
    using div_next [of "b ^ t" "y * b"] False assms(1) by simp
  also have "\<dots> = q * ?Y * b ^ (t + k) + q * b ^ (t + k)" by (simp add: power_add algebra_simps)
  also have "\<dots> \<le> x * b + b * b ^ (t + k)"
    using assms(3,4) pos(1) by (intro add_mono mult_le_mono1) (simp_all add: less_eq_div_iff_mult_less_eq)
  also have "b * b ^ (t + k) \<le> b * (y * b ^ k)" using assms(2) by (simp add: power_add)
  finally have "q * (y * b ^ k) * b < (x + y * b ^ k) * b" by (simp add: algebra_simps)
  then have "q * (y * b ^ k) < x + y * b ^ k" by simp
  then have "(q - 1) * (y * b ^ k) \<le> x" by (simp add: diff_mult_distrib)
  then have "q - 1 \<le> x div (y * b ^ k)" using pos(2) by (simp add: less_eq_div_iff_mult_less_eq)
  then show ?thesis by simp
qed simp

lemma quotient_lower_small:
  fixes b x y q :: nat
  assumes "0 < b" "3 * b ^ t \<le> y" "q \<le> 3" "q * (y div b ^ t) \<le> x div b ^ (t + k)"
  shows "q \<le> x div (y * b ^ k) + 1"
proof (cases "q = 0")
  case False
  let ?Y = "y div b ^ t"
  have pos: "0 < b ^ (t + k)" "0 < y * b ^ k" using assms(1,2) by (auto intro: less_le_trans [of 0 "3 * b ^ t"])
  have "q * y * b ^ k < q * ((?Y + 1) * b ^ t) * b ^ k"
    using div_next [of "b ^ t" y] False assms(1) by simp
  also have "\<dots> = q * ?Y * b ^ (t + k) + q * b ^ (t + k)" by (simp add: power_add algebra_simps)
  also have "\<dots> \<le> x + 3 * b ^ (t + k)"
    using assms(3,4) pos(1) by (intro add_mono mult_le_mono1) (simp_all add: less_eq_div_iff_mult_less_eq)
  also have "3 * b ^ (t + k) \<le> y * b ^ k" using assms(2) by (simp add: power_add)
  finally have "q * (y * b ^ k) < x + y * b ^ k" by (simp add: algebra_simps)
  then have "(q - 1) * (y * b ^ k) \<le> x" by (simp add: diff_mult_distrib)
  then have "q - 1 \<le> x div (y * b ^ k)" using pos(2) by (simp add: less_eq_div_iff_mult_less_eq)
  then show ?thesis by simp
qed simp

definition two_digits :: "pstm_int \<Rightarrow> nat \<Rightarrow> nat" where
  "two_digits y t = (if t = 0 then 0 else unat (dp y ! (t - 1))) + 2 ^ 32 * unat (dp y ! t)"

lemma two_digits_less: "two_digits y t < 2 ^ 64"
  using digit_less [of "dp y ! t"] digit_less [of "dp y ! (t - 1)"] by (cases "t = 0") (simp_all add: two_digits_def)

lemma div_lhs_val:
  assumes "2 \<le> length (dp t1)"
  shows "pstm_ok (div_lhs y t qd t1)" "pstm_nat (div_lhs y t qd t1) = unat qd * two_digits y t"
    "2 \<le> length (dp (div_lhs y t qd t1))"
proof -
  let ?lo = "if t = 0 then 0 else dp y ! (t - 1)"
  let ?t = "(pstm_zero t1)\<lparr>dp := (dp (pstm_zero t1))[0 := ?lo, 1 := dp y ! t], used := 2\<rparr>"
  obtain k where k: "length (dp t1) = Suc (Suc k)" using assms by (auto simp: numeral_2_eq_2 Suc_le_length_iff dest: Suc_le_D)
  have dp: "dp ?t = [?lo, dp y ! t] @ replicate k 0" by (simp add: pstm_zero_def k)
  have st: "pstm_wf ?t" "pstm_nat ?t = two_digits y t"
    using stored [OF dp] by (simp_all add: two_digits_def)
  have eq: "div_lhs y t qd t1 = pstm_mul_d ?t qd ?t" by (simp add: div_lhs_def Let_def)
  show "pstm_ok (div_lhs y t qd t1)" "pstm_nat (div_lhs y t qd t1) = unat qd * two_digits y t"
    "2 \<le> length (dp (div_lhs y t qd t1))"
    unfolding eq using pstm_mul_d_val [OF st(1) st(1)] st(2) by simp_all
qed

lemma cmp_three:
  assumes "pstm_ok l" "pstm_nat l < 2 ^ 96" "used r = 3" "length (dp r) = 3"
  shows "pstm_cmp_mag l r = 1 \<Longrightarrow> dval (dp r) < pstm_nat l"
    "pstm_cmp_mag l r \<noteq> 1 \<Longrightarrow> pstm_nat l \<le> dval (dp r) \<or> dval (dp r) < 2 ^ 64"
proof -
  have u: "used l \<le> 3" using used_less [of l 3] assms(1,2) by simp
  have three: "pstm_cmp_mag l r = (if pstm_nat l < dval (dp r) then -1 else if pstm_nat l = dval (dp r) then 0 else 1)"
    if "used l = 3"
    using that assms cmp_digits_val [of 3 "dp l" "dp r"] by (simp add: pstm_cmp_mag_def pstm_ok_def pstm_nat_def)
  show "pstm_cmp_mag l r = 1 \<Longrightarrow> dval (dp r) < pstm_nat l"
    using u three assms(3) by (cases "used l = 3") (auto simp: pstm_cmp_mag_def split: if_splits)
  have "pstm_nat l < 2 ^ 64" if "used l \<noteq> 3"
  proof -
    have "(2 :: nat) ^ (32 * used l) \<le> 2 ^ 64" using that u by (intro power_increasing) auto
    then show ?thesis using ok_bounds(1) [OF assms(1)] by linarith
  qed
  then show "pstm_cmp_mag l r \<noteq> 1 \<Longrightarrow> pstm_nat l \<le> dval (dp r) \<or> dval (dp r) < 2 ^ 64"
    using three by (cases "used l = 3") (auto split: if_splits)
qed

lemma q_adjust_val:
  assumes "2 \<le> length (dp t1)" "used t2 = 3" "length (dp t2) = 3" "q * two_digits y t \<le> dval (dp t2)" "q \<le> unat qd"
  shows "\<exists>qd' t1'. q_adjust y t t2 t1 qd = (qd', t1') \<and> q \<le> unat qd' \<and> unat qd' \<le> unat qd \<and>
    (unat qd' * two_digits y t \<le> dval (dp t2) \<or> dval (dp t2) < 2 ^ 64) \<and> pstm_wf t1' \<and> 2 \<le> length (dp t1')"
  using assms
proof (induction y t t2 t1 qd rule: q_adjust.induct)
  case (1 y t t2 t1 qd)
  let ?l = "div_lhs y t qd t1"
  note l = div_lhs_val [OF 1(2), of y t qd]
  have "unat qd * two_digits y t < 2 ^ 32 * 2 ^ 64"
    using digit_less [of qd] two_digits_less [of y t] by (intro mult_strict_mono) simp_all
  then have small: "pstm_nat ?l < 2 ^ 96" unfolding l(2) by simp
  note cmp = cmp_three [OF l(1) small 1(3,4)]
  show ?case
  proof (cases "pstm_cmp_mag ?l t2 = 1")
    case True
    have "q * two_digits y t < unat qd * two_digits y t" using 1(5) cmp(1) [OF True] unfolding l(2) by (rule le_less_trans)
    then have q: "q < unat qd" by simp
    then have m: "unat (qd - 1) = unat qd - 1" by (subst unat_minus_one) (auto simp: unat_eq_0)
    then have "q \<le> unat (qd - 1)" using q by simp
    from 1(1) [OF refl True l(3) 1(3,4,5) this] show ?thesis
      using True m by (subst q_adjust.simps) (auto simp: Let_def)
  next
    case False
    then show ?thesis using cmp(2) l pstm_ok_wf [OF l(1)] 1(6) by (subst q_adjust.simps) (simp add: Let_def)
  qed
qed

lemma digit_wf: "pstm_wf a \<Longrightarrow> i < length (dp a) \<Longrightarrow> unat (dp a ! i) = pstm_nat a div (2 ^ 32) ^ i mod 2 ^ 32"
  using dval_nth [of i "dp a"] by (simp only: pstm_nat_wf power_mult)

lemma top_digit: "pstm_wf a \<Longrightarrow> i < length (dp a) \<Longrightarrow> pstm_nat a < (2 ^ 32) ^ Suc i \<Longrightarrow> unat (dp a ! i) = pstm_nat a div (2 ^ 32) ^ i"
  by (subst digit_wf) (simp_all add: less_mult_imp_div_less mult.commute)

lemma div_mod_digits: "n div (b :: nat) ^ Suc i * b + n div b ^ i mod b = n div b ^ i"
  using div_mult_mod_eq [of "n div b ^ i" b] by (simp add: div_mult2_eq [symmetric] mult.commute)

lemma two_digits_val:
  assumes "pstm_wf y" "t < length (dp y)" "pstm_nat y < (2 ^ 32) ^ Suc t"
  shows "two_digits y t = pstm_nat y * 2 ^ 32 div (2 ^ 32) ^ t"
proof (cases t)
  case 0
  then show ?thesis using top_digit [OF assms] by (simp add: two_digits_def)
next
  case (Suc u)
  have "two_digits y t = pstm_nat y div (2 ^ 32) ^ Suc u * 2 ^ 32 + pstm_nat y div (2 ^ 32) ^ u mod 2 ^ 32"
    using top_digit [OF assms] digit_wf [OF assms(1), of u] assms(2) Suc by (simp add: two_digits_def mult.commute)
  also have "\<dots> = pstm_nat y * 2 ^ 32 div ((2 ^ 32) ^ u * 2 ^ 32)"
    unfolding div_mod_digits by (rule div_mult_mult2 [symmetric]) simp
  finally show ?thesis by (simp add: Suc mult.commute)
qed

lemma div_rhs_val:
  assumes "pstm_wf x" "Suc j < length (dp x)" "pstm_nat x < (2 ^ 32) ^ Suc (Suc j)"
  shows "dval (dp (div_rhs x (Suc j))) = pstm_nat x * 2 ^ 32 div (2 ^ 32) ^ j"
proof (cases j)
  case 0
  have "0 < length (dp x)" using assms(2) by linarith
  then have "unat (dp x ! 0) = pstm_nat x mod 2 ^ 32" "unat (dp x ! 1) = pstm_nat x div 2 ^ 32"
    using top_digit [OF assms] digit_wf [OF assms(1), of 0] 0 by simp_all
  then have "unat (dp x ! 0) + 2 ^ 32 * unat (dp x ! 1) = pstm_nat x" by simp
  moreover have "dval (dp (div_rhs x (Suc j))) = 2 ^ 32 * (unat (dp x ! 0) + 2 ^ 32 * unat (dp x ! 1))"
    using 0 by (simp add: div_rhs_def)
  ultimately show ?thesis using 0 by simp
next
  case (Suc i)
  have "dval (dp (div_rhs x (Suc j))) =
      (pstm_nat x div (2 ^ 32) ^ Suc (Suc i) * 2 ^ 32 + pstm_nat x div (2 ^ 32) ^ Suc i mod 2 ^ 32) * 2 ^ 32
      + pstm_nat x div (2 ^ 32) ^ i mod 2 ^ 32"
    using top_digit [OF assms] digit_wf [OF assms(1), of i] digit_wf [OF assms(1), of "Suc i"] assms(2) Suc
    by (simp add: div_rhs_def)
  also have "\<dots> = pstm_nat x * 2 ^ 32 div ((2 ^ 32) ^ i * 2 ^ 32)"
    unfolding div_mod_digits by (rule div_mult_mult2 [symmetric]) simp
  finally show ?thesis by (simp add: Suc mult.commute)
qed

lemma q_estimate_val:
  assumes "pstm_wf x" "Suc j < length (dp x)" "pstm_nat x < (2 ^ 32) ^ Suc (Suc j)" "pstm_nat x div (2 ^ 32) ^ Suc j \<le> unat (dp y ! t)"
  shows "unat (q_estimate x y t (Suc j)) =
    (if pstm_nat x div (2 ^ 32) ^ Suc j = unat (dp y ! t) then 2 ^ 32 - 1 else pstm_nat x div (2 ^ 32) ^ j div unat (dp y ! t))"
proof -
  let ?xi = "dp x ! Suc j" and ?xj = "dp x ! j" and ?w = "push_bit 32 (ucast (dp x ! Suc j)) OR ucast (dp x ! j) :: u64"
  have xi: "unat ?xi = pstm_nat x div (2 ^ 32) ^ Suc j" by (rule top_digit) (use assms in simp_all)
  have xj: "unat ?xj = pstm_nat x div (2 ^ 32) ^ j mod 2 ^ 32" by (rule digit_wf) (use assms in simp_all)
  have w: "unat ?w = pstm_nat x div (2 ^ 32) ^ j"
  proof -
    have "push_bit 32 (ucast ?xi) AND (ucast ?xj :: u64) = 0"
      by (rule bit_eqI) (auto simp: bit_simps dest: bit_imp_le_length)
    then have "?w = push_bit 32 (ucast ?xi) + ucast ?xj" by (simp add: disjunctive_add_eq_or)
    also have "unat \<dots> = unat ?xi * 2 ^ 32 + unat ?xj"
      using digit_less [of ?xi] digit_less [of ?xj]
      by (simp add: unat_word_ariths push_bit_eq_mult)
    finally show ?thesis using div_mod_digits [of "pstm_nat x" "2 ^ 32" j] by (simp only: xi xj)
  qed
  show ?thesis
  proof (cases "?xi = dp y ! t")
    case True
    then show ?thesis using xi by (simp add: q_estimate_def)
  next
    case False
    then have "unat ?xi < unat (dp y ! t)" using assms(4) xi by (metis le_neq_implies_less word_unat_eq_iff)
    then have "pstm_nat x div (2 ^ 32) ^ j < unat (dp y ! t) * 2 ^ 32"
      unfolding xi by (simp add: div_mult2_eq [symmetric] mult.commute div_less_iff_less_mult ac_simps)
    then have "pstm_nat x div (2 ^ 32) ^ j div unat (dp y ! t) < 2 ^ 32" by (simp add: less_mult_imp_div_less mult.commute)
    then show ?thesis using False xi w by (simp add: q_estimate_def unat_div word_unat_eq_iff)
  qed
qed

section \<open>The quotient and the remainder\<close>

text \<open>A divisor as the loop expects it: positive, with \<open>t + 1\<close> digits, of which the leading one has 31 bits.\<close>

definition divisor :: "pstm_int \<Rightarrow> nat \<Rightarrow> bool" where
  "divisor y t \<longleftrightarrow> pstm_ok y \<and> sign y = 0 \<and> used y = Suc t \<and> t < 4095 \<and>
     2 ^ 30 * (2 ^ 32) ^ t \<le> pstm_nat y \<and> pstm_nat y < 2 ^ 31 * (2 ^ 32) ^ t"

lemma divisor_facts:
  assumes "divisor y t"
  shows "pstm_ok y" "pstm_wf y" "sign y = 0" "used y = Suc t" "t < length (dp y)" "pstm_nat y < (2 ^ 32) ^ Suc t"
    "2 ^ 30 * (2 ^ 32) ^ t \<le> pstm_nat y" "0 < pstm_nat y" "unat (dp y ! t) = pstm_nat y div (2 ^ 32) ^ t"
    "2 ^ 30 \<le> unat (dp y ! t)" "used y < 4096"
proof -
  note d = assms [unfolded divisor_def]
  show "pstm_ok y" "sign y = 0" "used y = Suc t" "2 ^ 30 * (2 ^ 32) ^ t \<le> pstm_nat y" "used y < 4096" using d by auto
  show wf: "pstm_wf y" using d pstm_ok_wf by blast
  show l: "t < length (dp y)" using d by (auto simp: pstm_ok_def)
  have "(2 :: nat) ^ 31 * (2 ^ 32) ^ t \<le> 2 ^ 32 * (2 ^ 32) ^ t" by (rule mult_le_mono1) simp
  then show b: "pstm_nat y < (2 ^ 32) ^ Suc t" using d unfolding power_Suc by linarith
  show "0 < pstm_nat y" using d by (auto intro: less_le_trans [of 0 "2 ^ 30 * (2 ^ 32) ^ t"])
  show yt: "unat (dp y ! t) = pstm_nat y div (2 ^ 32) ^ t" by (rule top_digit [OF wf l b])
  show "2 ^ 30 \<le> unat (dp y ! t)" unfolding yt using d by (simp add: less_eq_div_iff_mult_less_eq)
qed

text \<open>The digit that the loop settles on is the digit of the quotient or one more.\<close>

lemma q_found:
  assumes y: "divisor y t" and x: "pstm_wf x" "Suc (t + k) < length (dp x)" "pstm_nat x < pstm_nat y * (2 ^ 32) ^ k * 2 ^ 32"
    and t1: "2 \<le> length (dp t1)"
  shows "\<exists>qd t1'. q_adjust y t (div_rhs x (Suc (t + k))) t1 (q_estimate x y t (Suc (t + k))) = (qd, t1') \<and>
    pstm_nat x div (pstm_nat y * (2 ^ 32) ^ k) \<le> unat qd \<and> unat qd \<le> pstm_nat x div (pstm_nat y * (2 ^ 32) ^ k) + 1 \<and>
    pstm_wf t1' \<and> 2 \<le> length (dp t1')"
proof -
  define b :: nat where "b = 2 ^ 32"
  note d = divisor_facts [OF y, folded b_def]
  let ?X = "pstm_nat x" and ?Y = "pstm_nat y" and ?r = "div_rhs x (Suc (t + k))"
  let ?q = "?X div (?Y * b ^ k)"
  have b0: "0 < b" by (simp add: b_def)
  have X: "?X < ?Y * b ^ k * b" using x(3) by (simp only: b_def)
  have "?X < b ^ Suc t * b ^ k * b" by (rule less_le_trans [OF X]) (use d(6) in simp)
  then have Xb: "?X < b ^ Suc (Suc (t + k))" by (simp add: power_add ac_simps)
  have T: "dval (dp ?r) = ?X * b div b ^ (t + k)"
    using div_rhs_val [OF x(1,2)] Xb by (simp only: b_def)
  have Y2: "two_digits y t = ?Y * b div b ^ t"
    using two_digits_val [OF d(2,5)] d(6) by (simp only: b_def)
  have xi: "?X div b ^ Suc (t + k) \<le> unat (dp y ! t)"
  proof -
    have "?X div b ^ (k + 1) < ?Y" using X b0 by (simp add: div_less_iff_less_mult ac_simps)
    then have "?X div b ^ (k + 1) div b ^ t \<le> ?Y div b ^ t" by (intro div_le_mono) simp
    then show ?thesis unfolding d(9) by (simp add: div_mult2_eq [symmetric] power_add ac_simps)
  qed
  note up = quotient_upper(1) [OF d(8) b0 X] quotient_upper(2,3) [OF d(8) b0 X, where t = t]
  have est: "unat (q_estimate x y t (Suc (t + k))) =
      (if ?X div b ^ Suc (t + k) = unat (dp y ! t) then b - 1 else ?X div b ^ (t + k) div unat (dp y ! t))"
    using q_estimate_val [OF x(1,2), of y t] Xb xi by (simp only: b_def)
  have yt: "0 < unat (dp y ! t)" using d(10) by (rule less_le_trans [rotated]) simp
  have "?q \<le> unat (q_estimate x y t (Suc (t + k)))"
    unfolding est using up(1,2) yt d(9) by (simp add: less_eq_div_iff_mult_less_eq)
  moreover have "?q * two_digits y t \<le> dval (dp ?r)" unfolding T Y2 by (rule up(3))
  moreover have r: "used ?r = 3" "length (dp ?r) = 3" by (simp_all add: div_rhs_def)
  ultimately obtain qd t1' where q: "q_adjust y t ?r t1 (q_estimate x y t (Suc (t + k))) = (qd, t1')" "?q \<le> unat qd"
    "unat qd \<le> unat (q_estimate x y t (Suc (t + k)))"
    "unat qd * two_digits y t \<le> dval (dp ?r) \<or> dval (dp ?r) < 2 ^ 64" "pstm_wf t1'" "2 \<le> length (dp t1')"
    using q_adjust_val [OF t1 r] by blast
  have "unat qd \<le> ?q + 1"
  proof (cases "unat qd * two_digits y t \<le> dval (dp ?r)")
    case True
    have "b ^ t \<le> ?Y" using d(7) by (rule order_trans [rotated]) simp
    moreover have "unat qd \<le> b" using digit_less [of qd] by (simp add: b_def)
    ultimately show ?thesis using quotient_lower [OF b0] True T Y2 by simp
  next
    case False
    then have "?X * b div b ^ (t + k) < b * b" using q(4) T by (simp add: b_def)
    then have "?X * b < b * b * b ^ (t + k)" using b0 by (simp add: div_less_iff_less_mult)
    then have "?X < b * b ^ (t + k)" using b0 by (simp add: ac_simps)
    then have small: "?X div b ^ (t + k) < b" "?X div b ^ Suc (t + k) = 0" using b0 by (simp_all add: div_less_iff_less_mult)
    then have e: "unat qd * (?Y div b ^ t) \<le> ?X div b ^ (t + k)"
      using q(3) est yt d(9) by (simp add: less_eq_div_iff_mult_less_eq)
    have "unat qd * 2 ^ 30 \<le> unat qd * (?Y div b ^ t)" using d(9,10) by (intro mult_le_mono2) simp
    then have "unat qd * 2 ^ 30 < 2 ^ 32" using e small(1) unfolding b_def by linarith
    then have "unat qd \<le> 3" by simp
    moreover have "3 * b ^ t \<le> ?Y" using d(7) by (rule order_trans [rotated]) simp
    ultimately show ?thesis using quotient_lower_small [OF b0 _ _ e] by blast
  qed
  then show ?thesis using q(1,2,5,6) unfolding b_def by blast
qed

lemma used_gt: "pstm_ok a \<Longrightarrow> (2 ^ 32) ^ n \<le> pstm_nat a \<Longrightarrow> n < used a"
proof (rule ccontr)
  assume a: "pstm_ok a" "(2 ^ 32) ^ n \<le> pstm_nat a" "\<not> n < used a"
  then have "(2 :: nat) ^ (32 * used a) \<le> 2 ^ (32 * n)" by (intro power_increasing) auto
  then show False using ok_bounds(1) [OF a(1)] a(2) unfolding power_mult by linarith
qed

lemma used_le: "pstm_ok a \<Longrightarrow> pstm_nat a < (2 ^ 32) ^ n \<Longrightarrow> used a \<le> n"
  using used_less [of a n] by (simp only: power_mult)

lemma nat_less_used: "pstm_ok a \<Longrightarrow> pstm_nat a < (2 ^ 32) ^ used a"
  using ok_bounds(1) [of a] by (simp only: power_mult)

lemma next_quotient:
  fixes x d q :: nat
  assumes "0 < d" "x div d \<le> q" "q \<le> x div d + 1"
  shows "q * d \<le> x \<Longrightarrow> q = x div d \<and> x - q * d = x mod d" "x < q * d \<Longrightarrow> q = x div d + 1 \<and> q * d - x = d - x mod d"
proof -
  have e: "x div d * d + x mod d = x" by simp
  show "q = x div d \<and> x - q * d = x mod d" if "q * d \<le> x"
  proof -
    have "q \<le> x div d" using that assms(1) by (simp add: less_eq_div_iff_mult_less_eq)
    then show ?thesis using assms(2) by (auto simp: minus_mult_div_eq_mod mult.commute)
  qed
  show "q = x div d + 1 \<and> q * d - x = d - x mod d" if "x < q * d"
  proof -
    have "q \<noteq> x div d" using that e by (metis div_times_less_eq_dividend linorder_not_le)
    then have "q = x div d + 1" using assms by simp
    moreover have "(x div d + 1) * d - x = d - x mod d" using e by (metis add.commute add_mult_distrib diff_diff_left mult_1 diff_add_inverse2)
    ultimately show ?thesis by simp
  qed
qed

text \<open>The multiple of the shifted divisor is subtracted; its length differs from that of the dividend by one digit at most.\<close>

lemma div_subtract:
  fixes qd :: u32
  assumes y: "divisor y t" and x: "pstm_ok x" "sign x = 0" "t + k < used x"
    and less: "pstm_nat x < pstm_nat y * (2 ^ 32) ^ k * 2 ^ 32" and t2: "pstm_wf t2" "2 \<le> length (dp t2)"
  defines "t4 \<equiv> pstm_lshd (pstm_mul_d y qd t2) k" and "d \<equiv> pstm_nat y * (2 ^ 32) ^ k"
  shows "pstm_wf t4" "2 \<le> length (dp t4)"
    "\<exists>r. pstm_sub True x t4 x = Inr r \<and> pstm_ok r \<and> int (pstm_nat r) = \<bar>int (pstm_nat x) - int (unat qd * d)\<bar> \<and>
      sign r = (if pstm_nat x < unat qd * d then 1 else 0) \<and> length (dp x) \<le> length (dp r)"
proof -
  define b :: nat where "b = 2 ^ 32"
  define t3 where "t3 = pstm_mul_d y qd t2"
  note yf = divisor_facts [OF y, folded b_def]
  note bounds = used_gt [folded b_def] used_le [folded b_def]
  note t3 = pstm_mul_d_val [OF yf(2) t2(1) yf(11), of qd, folded t3_def]
  note t4 = pstm_lshd_val [OF pstm_ok_wf [OF t3(1)], of k, folded t4_def [folded t3_def]]
  have b0: "0 < b" by (simp add: b_def)
  have nat4: "pstm_nat t4 = unat qd * d" unfolding t4(2) t3(2) d_def power_mult by (simp only: mult.assoc)
  have s4: "sign t4 = 0" using t4(4) t3(3) yf(3) by simp
  show "pstm_wf t4" "2 \<le> length (dp t4)" using t4(1,5) t3(4) t2(2) by simp_all
  have "pstm_nat x < d * b" using less unfolding d_def b_def .
  also have "\<dots> \<le> b ^ Suc t * b ^ k * b" unfolding d_def b_def [symmetric] using yf(6) by (intro mult_le_mono1) simp
  also have "\<dots> = b ^ Suc (Suc (t + k))" by (simp add: power_add ac_simps)
  finally have "pstm_nat x < b ^ Suc (Suc (t + k))" .
  then have ux: "used x = Suc (t + k) \<or> used x = Suc (Suc (t + k))" using bounds(2) [OF x(1), of "Suc (Suc (t + k))"] x(3) by linarith
  show "\<exists>r. pstm_sub True x t4 x = Inr r \<and> pstm_ok r \<and> int (pstm_nat r) = \<bar>int (pstm_nat x) - int (unat qd * d)\<bar> \<and>
    sign r = (if pstm_nat x < unat qd * d then 1 else 0) \<and> length (dp x) \<le> length (dp r)"
  proof (cases "qd = 0")
    case True
    then have "used t3 = 0" using t3(1,2) used_zero by simp
    then show ?thesis
      using pstm_sub_val [of x t4 x True] x pstm_ok_wf [OF x(1)] t4(1,3) s4 nat4 True ux by fastforce
  next
    case False
    then have "1 \<le> unat qd" by (simp add: Suc_le_eq unat_gt_0)
    then have "1 * pstm_nat y \<le> unat qd * pstm_nat y" by (rule mult_le_mono1)
    moreover have "b ^ t \<le> pstm_nat y" using yf(7) by (rule order_trans [rotated]) simp
    ultimately have low: "b ^ t \<le> pstm_nat t3" using t3(2) by linarith
    have "unat qd * pstm_nat y < b * b ^ Suc t"
      using digit_less [of qd, folded b_def] yf(6) b0 by (intro mult_strict_mono) auto
    then have u3: "t < used t3" "used t3 \<le> Suc (Suc t)" using low t3(2) bounds(1,2) [OF t3(1)] by simp_all
    have "0 < pstm_nat t3" using low b0 by (auto intro: less_le_trans [of 0 "b ^ t"])
    then have "pstm_ok t4" using t4(6) t3(1) by blast
    then show ?thesis
      using pstm_sub_val [of x t4 x True] x pstm_ok_wf [OF x(1)] t4(3) s4 nat4 ux u3 by auto
  qed
qed

text \<open>The correction, when the difference is negative.\<close>

lemma div_add_back:
  assumes y: "divisor y t" and r: "pstm_ok r" "sign r = 1" "(2 ^ 32) ^ (t + k - 1) \<le> pstm_nat r" "pstm_nat r \<le> pstm_nat y * (2 ^ 32) ^ k"
    and t4: "pstm_wf t4" "2 \<le> length (dp t4)"
  defines "t5 \<equiv> pstm_lshd (pstm_copy y t4) k"
  shows "pstm_wf t5" "2 \<le> length (dp t5)"
    "\<exists>x. pstm_add True r t5 r = Inr x \<and> pstm_ok x \<and> sign x = 0 \<and> pstm_nat x = pstm_nat y * (2 ^ 32) ^ k - pstm_nat r \<and>
      length (dp r) \<le> length (dp x)"
proof -
  note yf = divisor_facts [OF y]
  note copy = pstm_copy_val [OF yf(2) t4(1)]
  note t5 = pstm_lshd_val [OF copy(1), of k, folded t5_def]
  show "pstm_wf t5" "2 \<le> length (dp t5)" using t5(1,5) copy(5) t4(2) by simp_all
  have ok5: "pstm_ok t5" using t5(6) copy(2,6) yf(1,8) by simp
  have nat5: "pstm_nat t5 = pstm_nat y * (2 ^ 32) ^ k" unfolding t5(2) copy(2) power_mult ..
  have "used t5 \<le> used r + 1" using used_gt [OF r(1) r(3)] t5(3) copy(3) yf(4) by simp
  then show "\<exists>x. pstm_add True r t5 r = Inr x \<and> pstm_ok x \<and> sign x = 0 \<and> pstm_nat x = pstm_nat y * (2 ^ 32) ^ k - pstm_nat r \<and>
      length (dp r) \<le> length (dp x)"
    using pstm_add_val [OF r(1) ok5 pstm_ok_wf [OF r(1)], of True] r t5(4) copy(4) yf(3) nat5 by auto
qed

lemma div_step_val:
  assumes y: "divisor y t" and x: "pstm_ok x" "sign x = 0" "Suc (t + k) < length (dp x)"
    and less: "pstm_nat x < pstm_nat y * (2 ^ 32) ^ k * 2 ^ 32" and t1: "pstm_wf t1" "2 \<le> length (dp t1)"
    and q: "q ! k = 0"
    and safe: "pstm_nat x mod (pstm_nat y * (2 ^ 32) ^ k) = 0 \<or>
      pstm_nat x mod (pstm_nat y * (2 ^ 32) ^ k) + (2 ^ 32) ^ (t + k - 1) \<le> pstm_nat y * (2 ^ 32) ^ k"
  shows "\<exists>x' t1'. div_step y t (Suc (t + k)) (q, x, t1) = Inr (q[k := of_nat (pstm_nat x div (pstm_nat y * (2 ^ 32) ^ k))], x', t1') \<and>
    pstm_ok x' \<and> sign x' = 0 \<and> pstm_nat x' = pstm_nat x mod (pstm_nat y * (2 ^ 32) ^ k) \<and> length (dp x) \<le> length (dp x') \<and>
    pstm_wf t1' \<and> 2 \<le> length (dp t1')"
proof -
  define d where "d = pstm_nat y * (2 ^ 32) ^ k"
  let ?X = "pstm_nat x" and ?b = "2 ^ 32 :: nat"
  have "?b ^ t \<le> pstm_nat y" using divisor_facts(7) [OF y] by (rule order_trans [rotated]) simp
  then have bd: "?b ^ (t + k) \<le> d" by (simp add: d_def power_add)
  then have d0: "0 < d" by (auto intro: less_le_trans [of 0 "?b ^ (t + k)"])
  show ?thesis
  proof (cases "Suc (t + k) > used x")
    case True
    then have "?b ^ used x \<le> ?b ^ (t + k)" by (intro power_increasing) auto
    then have "?X < d" using nat_less_used [OF x(1)] bd by linarith
    moreover have "div_step y t (Suc (t + k)) (q, x, t1) = Inr (q, x, t1)" using True by (simp add: div_step_def)
    moreover have "q[k := 0] = q" using q by (metis list_update_id)
    ultimately show ?thesis using x t1 unfolding d_def by simp
  next
    case used: False
    then have u: "t + k < used x" by simp
    obtain qd t2 where qd: "q_adjust y t (div_rhs x (Suc (t + k))) t1 (q_estimate x y t (Suc (t + k))) = (qd, t2)"
      "?X div d \<le> unat qd" "unat qd \<le> ?X div d + 1" "pstm_wf t2" "2 \<le> length (dp t2)"
      using q_found [OF y pstm_ok_wf [OF x(1)] x(3) less t1(2)] unfolding d_def by blast
    define t4 where "t4 = pstm_lshd (pstm_mul_d y qd t2) k"
    note t4 = div_subtract [OF y x(1,2) u less qd(4,5), of qd, folded t4_def d_def]
    obtain r where r: "pstm_sub True x t4 x = Inr r" "pstm_ok r" "int (pstm_nat r) = \<bar>int ?X - int (unat qd * d)\<bar>"
      "sign r = (if ?X < unat qd * d then 1 else 0)" "length (dp x) \<le> length (dp r)" using t4(3) by blast
    have j: "Suc (t + k) - t - 1 = k" by simp
    have step: "div_step y t (Suc (t + k)) (q, x, t1) =
      (if sign r = 1 then case_sum Inl (\<lambda>x. Inr (q[k := qd - 1], x, pstm_lshd (pstm_copy y t4) k)) (pstm_add True r (pstm_lshd (pstm_copy y t4) k) r)
       else Inr (q[k := qd], r, t4))"
      using used t1(2) qd(1) r(1) unfolding div_step_def j t4_def by (simp add: Let_def)
    show ?thesis
    proof (cases "?X < unat qd * d")
      case False
      note nq = next_quotient(1) [OF d0 qd(2,3) leI [OF False]]
      have "pstm_nat r = ?X - unat qd * d" using r(3) False by linarith
      then have "pstm_nat r = ?X mod d" "of_nat (?X div d) = qd"
        using nq by (metis, metis of_nat_unat ucast_id)
      then show ?thesis using step r(2,4,5) t4(1,2) False unfolding d_def by simp
    next
      case True
      note nq = next_quotient(2) [OF d0 qd(2,3) True]
      have "pstm_nat r = unat qd * d - ?X" using r(3) True by linarith
      then have nr: "pstm_nat r = d - ?X mod d" using nq by metis
      have "?b ^ (t + k - 1) \<le> ?b ^ (t + k)" by (intro power_increasing) simp_all
      then have "?b ^ (t + k - 1) \<le> pstm_nat r" using safe bd nr unfolding d_def [symmetric] by linarith
      then obtain x' where x': "pstm_add True r (pstm_lshd (pstm_copy y t4) k) r = Inr x'" "pstm_ok x'" "sign x' = 0" "pstm_nat x' = d - pstm_nat r"
        "length (dp r) \<le> length (dp x')" and t5: "pstm_wf (pstm_lshd (pstm_copy y t4) k)" "2 \<le> length (dp (pstm_lshd (pstm_copy y t4) k))"
        using div_add_back [OF y r(2) _ _ _ t4(1,2), of k] r(4) True nr unfolding d_def by auto
      have "pstm_nat x' = ?X mod d" using x'(4) nr d0 by (simp add: less_imp_le)
      moreover have "qd - 1 = of_nat (?X div d)" using nq by (metis add_diff_cancel_right' of_nat_1 of_nat_add of_nat_unat ucast_id)
      ultimately show ?thesis
        using step r(4,5) x'(1,2,3,5) t5 True unfolding d_def by auto
    qed
  qed
qed

lemma div_loop_val:
  assumes "divisor y t" "pstm_ok x" "sign x = 0" "t + k < length (dp x)" "pstm_nat x < pstm_nat y * (2 ^ 32) ^ k"
    "pstm_wf t1" "2 \<le> length (dp t1)" "k \<le> length q" "\<And>j. j < k \<Longrightarrow> q ! j = 0"
    "\<And>j. j < k \<Longrightarrow> pstm_nat x mod (pstm_nat y * (2 ^ 32) ^ j) = 0 \<or>
      pstm_nat x mod (pstm_nat y * (2 ^ 32) ^ j) + (2 ^ 32) ^ (t + j - 1) \<le> pstm_nat y * (2 ^ 32) ^ j"
  shows "\<exists>q' x' t1'. div_loop y t k (q, x, t1) = Inr (q', x', t1') \<and> pstm_ok x' \<and> sign x' = 0 \<and>
    pstm_nat x' = pstm_nat x mod pstm_nat y \<and> length (dp x) \<le> length (dp x') \<and>
    dval (take k q') = pstm_nat x div pstm_nat y \<and> drop k q' = drop k q \<and> length q' = length q"
  using assms
proof (induction k arbitrary: q x t1)
  case (Suc k)
  define b :: nat where "b = 2 ^ 32"
  let ?X = "pstm_nat x" and ?Y = "pstm_nat y"
  let ?Q = "?X div (?Y * b ^ k)"
  have b0: "0 < b" by (simp add: b_def)
  have less: "?X < ?Y * b ^ k * b" using Suc.prems(5) by (simp only: b_def power_Suc ac_simps)
  obtain x1 t2 where s: "div_step y t (Suc (t + k)) (q, x, t1) = Inr (q[k := of_nat ?Q], x1, t2)"
    "pstm_ok x1" "sign x1 = 0" "pstm_nat x1 = ?X mod (?Y * b ^ k)" "length (dp x) \<le> length (dp x1)" "pstm_wf t2" "2 \<le> length (dp t2)"
    using div_step_val [OF Suc.prems(1,2,3) _ _ Suc.prems(6,7), of k q] Suc.prems(4,9,10) less unfolding b_def by auto
  have Yb: "0 < ?Y * b ^ k" using divisor_facts(8) [OF Suc.prems(1)] b0 by simp
  have mm: "pstm_nat x1 mod (?Y * b ^ j) = ?X mod (?Y * b ^ j)" if "j < k" for j
    unfolding s(4) using that by (intro mod_mod_cancel) (simp add: le_imp_power_dvd)
  have "\<exists>q' x' t1'. div_loop y t k (q[k := of_nat ?Q], x1, t2) = Inr (q', x', t1') \<and> pstm_ok x' \<and> sign x' = 0 \<and>
    pstm_nat x' = pstm_nat x1 mod ?Y \<and> length (dp x1) \<le> length (dp x') \<and>
    dval (take k q') = pstm_nat x1 div ?Y \<and> drop k q' = drop k (q[k := of_nat ?Q]) \<and> length q' = length (q[k := of_nat ?Q])"
  proof (rule Suc.IH)
    show "t + k < length (dp x1)" using Suc.prems(4) s(5) by simp
    show "pstm_nat x1 < ?Y * (2 ^ 32) ^ k" using s(4) Yb by (simp add: b_def)
    show "pstm_nat x1 mod (?Y * (2 ^ 32) ^ j) = 0 \<or> pstm_nat x1 mod (?Y * (2 ^ 32) ^ j) + (2 ^ 32) ^ (t + j - 1) \<le> ?Y * (2 ^ 32) ^ j"
      if "j < k" for j
      using Suc.prems(10) [of j] mm [OF that] that unfolding b_def by simp
  qed (use Suc.prems s in auto)
  then obtain q' x' t1' where l: "div_loop y t k (q[k := of_nat ?Q], x1, t2) = Inr (q', x', t1')" "pstm_ok x'" "sign x' = 0"
    "pstm_nat x' = pstm_nat x1 mod ?Y" "length (dp x1) \<le> length (dp x')" "dval (take k q') = pstm_nat x1 div ?Y"
    "drop k q' = drop k (q[k := of_nat ?Q])" "length q' = length q" by auto
  have kq: "k < length q'" using Suc.prems(8) l(8) by simp
  have "q' ! k = of_nat ?Q"
    using arg_cong [OF l(7), of hd] kq l(8) by (simp add: hd_drop_conv_nth)
  moreover have "?Q < 2 ^ 32" using less Yb by (simp add: div_less_iff_less_mult b_def mult.commute)
  ultimately have qk: "unat (q' ! k) = ?Q" by (simp add: unat_of_nat take_bit_nat_eq_self_iff)
  have "?X = ?Y * (?Q * b ^ k) + pstm_nat x1"
    unfolding s(4) using div_mult_mod_eq [of ?X "?Y * b ^ k"] by (simp add: ac_simps)
  then have X: "?X div ?Y = ?Q * b ^ k + pstm_nat x1 div ?Y" "?X mod ?Y = pstm_nat x1 mod ?Y"
    using divisor_facts(8) [OF Suc.prems(1)] by (metis div_mult_self4 add.commute less_numeral_extra(3), metis mod_mult_self4)
  have "dval (take (Suc k) q') = ?X div ?Y"
    unfolding dval_take_Suc [OF kq] l(6) qk X by (simp add: b_def power_mult)
  moreover have "drop (Suc k) q' = drop (Suc k) q" using arg_cong [OF l(7), of "drop 1"] by simp
  ultimately show ?case using s(1,5) l(1,2,3,4,5,8) X(2) by simp
qed (simp add: mod_if)

lemma div_top_val:
  assumes "pstm_ok y" "sign y = 0" "pstm_ok x" "sign x = 0" "used x \<le> used y" "pstm_nat x < fuel * pstm_nat y"
  shows "\<exists>x'. div_top fuel y qd x = Inr (qd + of_nat (pstm_nat x div pstm_nat y), x') \<and> pstm_ok x' \<and> sign x' = 0 \<and>
    pstm_nat x' = pstm_nat x mod pstm_nat y \<and> length (dp x) \<le> length (dp x')"
  using assms
proof (induction fuel arbitrary: qd x)
  case (Suc fuel)
  have y0: "0 < pstm_nat y" using Suc.prems(6) by (cases "pstm_nat y = 0") simp_all
  have cmp: "pstm_cmp x y \<noteq> -1 \<longleftrightarrow> pstm_nat y \<le> pstm_nat x"
    using Suc.prems pstm_cmp_mag_val [of x y] by (auto simp: pstm_cmp_def)
  show ?case
  proof (cases "pstm_nat y \<le> pstm_nat x")
    case True
    have "used y \<le> used x" using used_less [of y "used x"] ok_bounds(1) [OF Suc.prems(3)] True Suc.prems(1) by simp
    then obtain r where r: "pstm_sub True x y x = Inr r" "pstm_ok r" "pstm_nat r = pstm_nat x - pstm_nat y" "sign r = 0"
      "length (dp x) \<le> length (dp r)"
      using pstm_sub_val [of x y x True] Suc.prems True pstm_ok_wf [OF Suc.prems(3)] by (auto simp: of_nat_diff)
    have "used r \<le> used y"
      using used_less [of r "used x", OF _ r(2)] ok_bounds(1) [OF Suc.prems(3)] r(3) Suc.prems(5) by linarith
    with Suc.IH [of r "qd + 1"] r Suc.prems True cmp y0
    show ?thesis by (auto simp: le_div_geq le_mod_geq add.assoc less_diff_conv2 add.commute)
  next
    case False
    then show ?thesis using cmp Suc.prems(3,4) by simp
  qed
qed simp

text \<open>The digits that an add-back step would borrow from: \<open>div_safe a b\<close> says that no intermediate remainder is so close
  below a multiple of the shifted divisor that the borrow has to cross more than one digit.\<close>

definition div_safe :: "nat \<Rightarrow> nat \<Rightarrow> bool" where
  "div_safe a b \<longleftrightarrow> (\<forall>j < (bits_in a + 31) div 32. a mod (b * 2 ^ (32 * j)) = 0 \<or>
     a mod (b * 2 ^ (32 * j)) + 2 ^ (bits_in b + 32 * j - 63) \<le> b * 2 ^ (32 * j))"

lemma div_safe_upto:
  "div_safe a b \<longleftrightarrow> (\<forall>j \<in> set [0..<(bits_in a + 31) div 32]. a mod (b * 2 ^ (32 * j)) = 0 \<or>
     a mod (b * 2 ^ (32 * j)) + 2 ^ (bits_in b + 32 * j - 63) \<le> b * 2 ^ (32 * j))"
  by (simp only: div_safe_def set_upt Ball_def atLeastLessThan_iff le0 simp_thms)

lemma div_safe_small:
  assumes "63 \<le> bits_in b" "a + 2 ^ (bits_in b - 63) \<le> b"
  shows "div_safe a b"
  unfolding div_safe_def
proof (intro allI impI disjI2)
  fix j
  have "(2 :: nat) ^ (bits_in b + 32 * j - 63) = 2 ^ (bits_in b - 63) * 2 ^ (32 * j)"
    using assms(1) by (simp add: power_add [symmetric])
  moreover have "a \<le> a * 2 ^ (32 * j)" by simp
  ultimately have le: "a + 2 ^ (bits_in b + 32 * j - 63) \<le> b * 2 ^ (32 * j)"
    using mult_le_mono1 [OF assms(2), of "2 ^ (32 * j)"] unfolding add_mult_distrib by linarith
  then have "a < b * 2 ^ (32 * j)" by (meson le_less_trans less_add_same_cancel1 less_le_trans zero_less_numeral zero_less_power)
  then show "a mod (b * 2 ^ (32 * j)) + 2 ^ (bits_in b + 32 * j - 63) \<le> b * 2 ^ (32 * j)" using le by simp
qed

lemma div_normalize_val:
  assumes "pstm_ok x" "sign x = 0" "pstm_ok y" "sign y = 0" "used x < 4096" "used y < 4095" "0 < pstm_nat y"
  shows "\<exists>s x' y'. div_normalize x y = (s, x', y') \<and> s < 32 \<and> (bits_in (pstm_nat y) + s) mod 32 = 31 \<and>
    pstm_ok x' \<and> sign x' = 0 \<and> pstm_nat x' = 2 ^ s * pstm_nat x \<and> length (dp x) \<le> length (dp x') \<and>
    pstm_ok y' \<and> sign y' = 0 \<and> pstm_nat y' = 2 ^ s * pstm_nat y"
proof -
  let ?n = "bits_in (pstm_nat y) mod 32"
  have "?n < 32" by simp
  then consider "?n = 31" | "?n < 31" by linarith
  then show ?thesis
  proof cases
    case 1
    then show ?thesis using assms by (simp add: div_normalize_def pstm_count_bits_val)
  next
    case 2
    then have "(bits_in (pstm_nat y) + (31 - ?n)) mod 32 = (?n + (31 - ?n)) mod 32" by presburger
    also have "\<dots> = 31" using 2 by simp
    finally show ?thesis
      using 2 assms pstm_mul_2d_val [OF assms(1,2) pstm_ok_wf [OF assms(1)], of "31 - ?n"]
        pstm_mul_2d_val [OF assms(3,4) pstm_ok_wf [OF assms(3)], of "31 - ?n"]
      by (simp add: div_normalize_def pstm_count_bits_val Let_def)
  qed
qed

text \<open>The shifted divisor is as the loop expects it.\<close>

lemma divisorI:
  assumes "pstm_ok y" "sign y = 0" "0 < b" "(bits_in b + s) mod 32 = 31" "pstm_nat y = 2 ^ s * b" "bits_in b + s < 32 * 4095"
  shows "divisor y ((bits_in b + s) div 32)"
proof -
  define t where "t = (bits_in b + s) div 32"
  have bs: "bits_in b + s = 32 * t + 31" using mult_div_mod_eq [of 32 "bits_in b + s"] assms(4) unfolding t_def by linarith
  have "bits_in (2 ^ s * b) = bits_in b + s" using bits_in_scaled [OF assms(3), of 0 s] by simp
  then have bits: "bits_in (2 ^ s * b) = 32 * t + 31" unfolding bs .
  have pos: "0 < 2 ^ s * b" and e: "32 * t + 31 - 1 = 32 * t + 30" using assms(3) by simp_all
  have "2 ^ (32 * t + 30) \<le> pstm_nat y" "pstm_nat y < 2 ^ (32 * t + 31)"
    using bits_in_bounds(2,3) [OF pos] unfolding assms(5) bits e by simp_all
  moreover have "(2 :: nat) ^ (32 * t + c) = 2 ^ c * (2 ^ 32) ^ t" for c
    unfolding power_add power_mult by (rule mult.commute)
  ultimately have v: "2 ^ 30 * (2 ^ 32) ^ t \<le> pstm_nat y" "pstm_nat y < 2 ^ 31 * (2 ^ 32) ^ t" by simp_all
  have "(2 ^ 32) ^ t \<le> pstm_nat y" using v(1) by (rule order_trans [rotated]) simp
  moreover have "(2 :: nat) ^ 31 * (2 ^ 32) ^ t \<le> (2 ^ 32) ^ Suc t" unfolding power_Suc by (rule mult_le_mono1) simp
  then have "pstm_nat y < (2 ^ 32) ^ Suc t" using v(2) by linarith
  ultimately have "used y = Suc t" using used_gt [OF assms(1)] used_le [OF assms(1)] by (meson Suc_leI le_antisym)
  then show ?thesis using v assms(1,2,6) bs by (simp add: divisor_def t_def [symmetric])
qed

lemma div_safe_scaled:
  assumes safe: "div_safe a b" and j: "j < (bits_in a + 31) div 32" and bs: "bits_in b + s = 32 * t + 31"
  shows "2 ^ s * a mod (2 ^ s * b * (2 ^ 32) ^ j) = 0 \<or>
    2 ^ s * a mod (2 ^ s * b * (2 ^ 32) ^ j) + (2 ^ 32) ^ (t + j - 1) \<le> 2 ^ s * b * (2 ^ 32) ^ j"
proof -
  let ?m = "b * 2 ^ (32 * j)"
  have m: "2 ^ s * b * (2 ^ 32) ^ j = 2 ^ s * ?m" by (simp only: power_mult mult.assoc)
  have r: "2 ^ s * a mod (2 ^ s * ?m) = 2 ^ s * (a mod ?m)" by (rule mult_mod_right [symmetric])
  show ?thesis
  proof (cases "a mod ?m = 0")
    case True
    then show ?thesis unfolding m r by simp
  next
    case False
    then have "a mod ?m + 2 ^ (bits_in b + 32 * j - 63) \<le> ?m" using safe j by (auto simp: div_safe_def)
    then have "2 ^ s * (a mod ?m) + 2 ^ s * 2 ^ (bits_in b + 32 * j - 63) \<le> 2 ^ s * ?m"
      by (metis add_mult_distrib2 mult_le_mono2)
    moreover have "(2 ^ 32) ^ (t + j - 1) \<le> (2 :: nat) ^ s * 2 ^ (bits_in b + 32 * j - 63)"
    proof -
      have "32 * (t + j - 1) \<le> s + (bits_in b + 32 * j - 63)" using bs by (cases "t + j") auto
      then have "(2 :: nat) ^ (32 * (t + j - 1)) \<le> 2 ^ (s + (bits_in b + 32 * j - 63))" by (intro power_increasing) auto
      then show ?thesis by (simp only: power_mult power_add)
    qed
    ultimately show ?thesis unfolding m r by linarith
  qed
qed

lemma lay_take: "pstm_wf x \<Longrightarrow> used x \<le> n \<Longrightarrow> lay (take n (dp x)) (used x) (dp x) = dp x"
  by (cases "n \<le> length (dp x)") (auto simp: lay_def pstm_wf_def)

lemma pstm_ok_used: "pstm_ok x \<Longrightarrow> used x \<le> (bits_in (pstm_nat x) + 31) div 32"
proof (cases "used x = 0")
  case False
  assume "pstm_ok x"
  then have "2 ^ (32 * (used x - 1)) \<le> pstm_nat x" using ok_bounds(2) False by blast
  then have "\<not> bits_in (pstm_nat x) \<le> 32 * (used x - 1)" unfolding bits_in_le by simp
  then show ?thesis using False by linarith
qed simp

lemma quotient_split:
  fixes X Y B :: nat
  assumes "0 < Y"
  shows "X div Y = X mod (Y * B) div Y + B * (X div (Y * B))" "X mod (Y * B) mod Y = X mod Y"
proof -
  have e: "X = Y * (B * (X div (Y * B))) + X mod (Y * B)" using div_mult_mod_eq [of X "Y * B"] by (simp add: ac_simps)
  show "X div Y = X mod (Y * B) div Y + B * (X div (Y * B))" by (subst e) (use assms in simp)
  show "X mod (Y * B) mod Y = X mod Y" by (rule mod_mod_cancel) simp
qed

text \<open>Shifting the divisor up and down again leaves its value.\<close>

lemma divisor_restored:
  assumes y: "divisor y t"
  shows "divisor (pstm_rshd (pstm_lshd y k) k) t" "pstm_nat (pstm_rshd (pstm_lshd y k) k) = pstm_nat y"
proof -
  note df = divisor_facts [OF y]
  define y1 y2 where "y1 = pstm_lshd y k" and "y2 = pstm_rshd y1 k"
  note y1 = pstm_lshd_val [OF df(2), of k, folded y1_def]
  note y2 = pstm_rshd_val [OF y1(1), of k, folded y2_def]
  have s1: "sign y1 = 0" using y1(4) df(3) by simp
  have nat2: "pstm_nat y2 = pstm_nat y" unfolding y2(2) [OF s1] y1(2) power_mult by simp
  have "divisor y2 t"
    using y y2(1,3) [OF s1] nat2 used_gt [of y2 t] used_le [of y2 "Suc t"] df(6,7) unfolding divisor_def
    by (smt (verit) Suc_leI le_antisym mult_le_mono1 nat_mult_1 one_le_numeral one_le_power order_trans)
  then show "divisor (pstm_rshd (pstm_lshd y k) k) t" "pstm_nat (pstm_rshd (pstm_lshd y k) k) = pstm_nat y"
    using nat2 by (simp_all add: y1_def y2_def)
qed

lemma div_top_digit:
  assumes y: "divisor y t" and x: "pstm_ok x" "sign x = 0" "used x = Suc (t + k)"
  defines "d \<equiv> pstm_nat y * (2 ^ 32) ^ k"
  shows "pstm_nat x div d < 4" "\<exists>x1. div_top 4 (pstm_lshd y k) 0 x = Inr (of_nat (pstm_nat x div d), x1) \<and> pstm_ok x1 \<and> sign x1 = 0 \<and>
    pstm_nat x1 = pstm_nat x mod d \<and> length (dp x) \<le> length (dp x1)"
proof -
  note df = divisor_facts [OF y]
  note y1 = pstm_lshd_val [OF df(2), of k]
  have nat1: "pstm_nat (pstm_lshd y k) = d" unfolding y1(2) power_mult d_def ..
  have "pstm_nat x < (2 ^ 32) ^ Suc (t + k)" using nat_less_used [OF x(1)] x(3) by simp
  also have "\<dots> = 4 * (2 ^ 30 * (2 ^ 32) ^ t * (2 ^ 32) ^ k)" by (simp add: power_add)
  also have "\<dots> \<le> 4 * d" unfolding d_def using df(7) by (intro mult_le_mono2 mult_le_mono1)
  finally have X4: "pstm_nat x < 4 * d" .
  moreover have "0 < d" using df(8) by (simp add: d_def)
  ultimately show "pstm_nat x div d < 4" by (simp add: div_less_iff_less_mult mult.commute)
  show "\<exists>x1. div_top 4 (pstm_lshd y k) 0 x = Inr (of_nat (pstm_nat x div d), x1) \<and> pstm_ok x1 \<and> sign x1 = 0 \<and>
    pstm_nat x1 = pstm_nat x mod d \<and> length (dp x) \<le> length (dp x1)"
    using div_top_val [of "pstm_lshd y k" x 4 0] X4 y1(3,4,6) df(1,3,4,8) x nat1 by auto
qed

lemma div_digits_val:
  assumes y: "divisor y t" and x: "pstm_ok x" "sign x = 0" "pstm_nat y \<le> pstm_nat x" and t1: "pstm_wf t1" "2 \<le> length (dp t1)"
    and safe: "\<And>j. j + used y < used x \<Longrightarrow> pstm_nat x mod (pstm_nat y * (2 ^ 32) ^ j) = 0 \<or>
      pstm_nat x mod (pstm_nat y * (2 ^ 32) ^ j) + (2 ^ 32) ^ (t + j - 1) \<le> pstm_nat y * (2 ^ 32) ^ j"
  shows "\<exists>qs x' t1'. div_digits x y t1 = Inr (qs, x', t1') \<and> dval qs = pstm_nat x div pstm_nat y \<and>
    pstm_ok x' \<and> sign x' = 0 \<and> pstm_nat x' = pstm_nat x mod pstm_nat y"
proof -
  note df = divisor_facts [OF y]
  define k where "k = used x - used y"
  have "used y \<le> used x" using used_less [of y "used x"] ok_bounds(1) [OF x(1)] df(1) x(3) by simp
  then have k: "used x = Suc (t + k)" using df(4) by (simp add: k_def)
  let ?X = "pstm_nat x" and ?Y = "pstm_nat y" and ?B = "(2 ^ 32) ^ k :: nat"
  let ?q = "of_nat (?X div (?Y * ?B)) :: u32"
  obtain x1 where top: "div_top 4 (pstm_lshd y k) 0 x = Inr (?q, x1)" "pstm_ok x1" "sign x1 = 0"
    "pstm_nat x1 = ?X mod (?Y * ?B)" "length (dp x) \<le> length (dp x1)" using div_top_digit(2) [OF y x(1,2) k] by blast
  define y2 where "y2 = pstm_rshd (pstm_lshd y k) k"
  note y2 = divisor_restored [OF y, of k, folded y2_def]
  define q where "q = (replicate (Suc k) (0 :: u32))[k := ?q]"
  have "q = replicate k 0 @ [?q]" unfolding q_def by (simp add: replicate_append_same [symmetric] list_update_append del: replicate_append_same)
  then have q: "length q = Suc k" "\<And>j. j < k \<Longrightarrow> q ! j = 0" "drop k q = [?q]" by (simp_all add: nth_append)
  have len: "t + k < length (dp x1)" using top(5) x(1) k by (auto simp: pstm_ok_def)
  have "\<exists>q' x' t1'. div_loop y2 t k (q, x1, t1) = Inr (q', x', t1') \<and> pstm_ok x' \<and> sign x' = 0 \<and>
    pstm_nat x' = pstm_nat x1 mod pstm_nat y2 \<and> length (dp x1) \<le> length (dp x') \<and>
    dval (take k q') = pstm_nat x1 div pstm_nat y2 \<and> drop k q' = drop k q \<and> length q' = length q"
  proof (rule div_loop_val [OF y2(1) top(2,3) len _ t1])
    show "pstm_nat x1 < pstm_nat y2 * ?B" unfolding top(4) y2(2) using df(8) by simp
    show "pstm_nat x1 mod (pstm_nat y2 * (2 ^ 32) ^ j) = 0 \<or> pstm_nat x1 mod (pstm_nat y2 * (2 ^ 32) ^ j) + (2 ^ 32) ^ (t + j - 1)
        \<le> pstm_nat y2 * (2 ^ 32) ^ j" if "j < k" for j
    proof -
      have "?Y * (2 ^ 32) ^ j dvd ?Y * ?B" using that by (intro mult_dvd_mono dvd_refl le_imp_power_dvd) simp
      then have "pstm_nat x1 mod (?Y * (2 ^ 32) ^ j) = ?X mod (?Y * (2 ^ 32) ^ j)"
        unfolding top(4) by (rule mod_mod_cancel)
      then show ?thesis using safe [of j] that k df(4) y2(2) by simp
    qed
  qed (use q in simp_all)
  then obtain q' x' t1' where l: "div_loop y2 t k (q, x1, t1) = Inr (q', x', t1')" "pstm_ok x'" "sign x' = 0"
    "pstm_nat x' = ?X mod ?Y" "dval (take k q') = pstm_nat x1 div ?Y" "drop k q' = [?q]" "length q' = Suc k"
    using y2(2) q(1,3) quotient_split(2) [OF df(8), of ?X ?B] unfolding top(4) by auto
  have "used y - 1 = t" "used x - 1 - t = k" "dp (pstm_init_size (k + 1)) = replicate (Suc k) 0"
    using k df(4) by (simp_all add: pstm_init_size_def)
  then have "div_digits x y t1 = Inr (q', x', t1')"
    using top(1) l(1) unfolding div_digits_def Let_def y2_def q_def by (simp del: replicate_Suc)
  moreover have "dval q' = pstm_nat x1 div ?Y + ?B * (?X div (?Y * ?B))"
  proof -
    have "unat ?q = ?X div (?Y * ?B)"
      using div_top_digit(1) [OF y x(1,2) k] by (simp add: unat_of_nat take_bit_nat_eq_self_iff)
    moreover have "dval q' = dval (take k q' @ drop k q')" by simp
    ultimately show ?thesis unfolding dval_append using l(5,6,7) by (simp add: power_mult)
  qed
  then have "dval q' = ?X div ?Y" using quotient_split(1) [OF df(8), of ?X ?B] unfolding top(4) by simp
  ultimately show ?thesis using l(2,3,4) by blast
qed

text \<open>The remainder of two positive numbers, and the quotient if it is asked for.\<close>

lemma remainder_stored:
  assumes "pstm_ok x" "used x \<le> n"
  shows "pstm_clamp (x\<lparr>dp := lay (take n (dp x)) (used x) (dp x)\<rparr>) = x"
proof -
  have "pstm_clamp (x\<lparr>dp := lay (take n (dp x)) (used x) (dp x)\<rparr>) = pstm_clamp x"
    using lay_take [OF pstm_ok_wf [OF assms(1)] assms(2)] by simp
  also have "\<dots> = x" using assms(1) by (cases "used x") (auto simp: pstm_clamp_def pstm_ok_def Let_def)
  finally show ?thesis .
qed

lemma shifted_used:
  assumes a: "pstm_ok a" and x: "pstm_ok x" "pstm_nat x = 2 ^ s * pstm_nat a" "s < 32"
  shows "used x \<le> Suc (used a)"
proof -
  have "pstm_nat a < (2 ^ 32) ^ used a" by (rule nat_less_used [OF a])
  moreover have "(2 :: nat) ^ s < 2 ^ 32" using x(3) by (rule power_strict_increasing) simp
  ultimately have "2 ^ s * pstm_nat a < 2 ^ 32 * (2 ^ 32) ^ used a" by (intro mult_strict_mono) simp_all
  then show ?thesis using used_le [OF x(1), of "Suc (used a)"] x(2) by simp
qed

lemma pstm_div_val:
  assumes a: "pstm_ok a" "sign a = 0" "used a < 4095" "2 \<le> length (dp a)"
    and b: "pstm_ok b" "sign b = 0" "used b < 4094" "0 < pstm_nat b"
    and cd: "\<And>c'. c = Some c' \<Longrightarrow> pstm_wf c'" "pstm_wf d" and safe: "div_safe (pstm_nat a) (pstm_nat b)"
  shows "\<exists>c' d'. pstm_div a b c d = Inr (c', d') \<and> pstm_ok d' \<and> sign d' = 0 \<and> pstm_nat d' = pstm_nat a mod pstm_nat b \<and>
    length (dp d') = max (used d') (length (dp d)) \<and> map_option pstm_nat c' = map_option (\<lambda>_. pstm_nat a div pstm_nat b) c"
proof (cases "pstm_nat a < pstm_nat b")
  case True
  then have "pstm_div a b c d = Inr (map_option pstm_zero c, pstm_copy a d)"
    using pstm_cmp_mag_val [OF a(1) b(1)] used_zero [OF b(1)] b(4) by (simp add: pstm_div_def)
  then show ?thesis
    using pstm_copy_val [OF pstm_ok_wf [OF a(1)] cd(2)] a True by (cases c) auto
next
  case False
  let ?a = "pstm_nat a" and ?b = "pstm_nat b"
  define x0 where "x0 = (pstm_init_copy a False)\<lparr>sign := 0\<rparr>"
  define y0 where "y0 = (pstm_copy b (pstm_init_size (used b * 3)))\<lparr>sign := 0\<rparr>"
  note ic = pstm_init_copy_val [OF pstm_ok_wf [OF a(1)], of False]
  note bc = pstm_copy_val [OF pstm_ok_wf [OF b(1)] init_wf(1), of "used b * 3"]
  have "x0 = pstm_init_copy a False" "y0 = pstm_copy b (pstm_init_size (used b * 3))"
    unfolding x0_def y0_def using ic(4) bc(4) a(2) b(2) by simp_all
  then have xy0: "pstm_ok x0" "sign x0 = 0" "pstm_nat x0 = ?a" "used x0 = used a"
    "pstm_ok y0" "sign y0 = 0" "pstm_nat y0 = ?b" "used y0 = used b"
    using ic bc a b by simp_all
  then obtain s x y where nz: "div_normalize x0 y0 = (s, x, y)" "s < 32" "(bits_in ?b + s) mod 32 = 31"
    "pstm_ok x" "sign x = 0" "pstm_nat x = 2 ^ s * ?a" "pstm_ok y" "sign y = 0" "pstm_nat y = 2 ^ s * ?b"
    using div_normalize_val [of x0 y0] a(3) b(3,4) by auto
  define t where "t = (bits_in ?b + s) div 32"
  have bs: "bits_in ?b + s = 32 * t + 31" using nz(3) mult_div_mod_eq [of 32 "bits_in ?b + s"] unfolding t_def by linarith
  have "bits_in ?b \<le> 32 * used b" unfolding bits_in_le by (rule ok_bounds(1) [OF b(1)])
  then have "bits_in ?b + s < 32 * 4095" using b(3) nz(2) by linarith
  then have div: "divisor y t" unfolding t_def by (intro divisorI nz b(4))
  have ux: "j < (bits_in ?a + 31) div 32" if "j + used y < used x" for j
    using that shifted_used [OF a(1) nz(4,6,2)] divisor_facts(4) [OF div] pstm_ok_used [OF a(1)] by simp
  have "\<exists>qs x' t1'. div_digits x y (pstm_init_size (length (dp a))) = Inr (qs, x', t1') \<and> dval qs = pstm_nat x div pstm_nat y \<and>
    pstm_ok x' \<and> sign x' = 0 \<and> pstm_nat x' = pstm_nat x mod pstm_nat y"
    by (rule div_digits_val [OF div nz(4,5)])
      (use False a(4) div_safe_scaled [OF safe ux bs] in \<open>simp_all only: nz init_wf, simp_all\<close>)
  then obtain qs x' t1' where dd: "div_digits x y (pstm_init_size (length (dp a))) = Inr (qs, x', t1')" "dval qs = ?a div ?b"
    "pstm_ok x'" "sign x' = 0" "pstm_nat x' = 2 ^ s * (?a mod ?b)"
    unfolding nz by (auto simp: mult_mod_right [symmetric])
  define x2 where "x2 = pstm_div_2d x' s x'"
  have x2: "pstm_ok x2" "pstm_nat x2 = ?a mod ?b" "sign x2 = 0"
    using pstm_div_2d_val [OF dd(3,4) pstm_ok_wf [OF dd(3)] nz(2)] dd(5) by (simp_all add: x2_def)
  have "?a mod ?b < ?b" using b(4) by simp
  then have u2: "used x2 \<le> used b" using used_less [of x2 "used b"] x2 ok_bounds(1) [OF b(1)] by simp
  note fin = remainder_stored [OF x2(1) u2]
  have same: "x'\<lparr>sign := (if used x' = 0 then 0 else sign a)\<rparr> = x'" using dd(4) a(2) by simp
  let ?q = "pstm_clamp \<lparr>used = length qs, sign = 0, dp = qs\<rparr>"
  have q: "pstm_ok ?q" "pstm_nat ?q = ?a div ?b"
    using stored(3,4) [of "\<lparr>used = length qs, sign = 0, dp = qs\<rparr>" qs 0] dd(2) by simp_all
  have "pstm_div a b c d = Inr (map_option (\<lambda>c. (pstm_copy ?q c)\<lparr>sign := (if sign a = sign b then 0 else 1)\<rparr>) c, pstm_copy x2 d)"
    using False pstm_cmp_mag_val [OF a(1) b(1)] used_zero [OF b(1)] b(4) nz(1) dd(1) same fin
    by (simp add: pstm_div_def Let_def x0_def y0_def x2_def)
  then show ?thesis
    using pstm_copy_val [OF pstm_ok_wf [OF x2(1)] cd(2)] x2 pstm_copy_val(2) [OF pstm_ok_wf [OF q(1)] cd(1)] q(2)
    by (cases c) auto
qed

lemma pstm_mod_val:
  assumes "pstm_ok a" "sign a = 0" "used a < 4095" "2 \<le> length (dp a)" "pstm_ok b" "sign b = 0" "used b < 4094" "0 < pstm_nat b"
    "div_safe (pstm_nat a) (pstm_nat b)"
  shows "\<exists>r. pstm_mod a b c = Inr r \<and> pstm_ok r \<and> sign r = 0 \<and> pstm_nat r = pstm_nat a mod pstm_nat b \<and> length (dp r) = length (dp b)"
proof -
  obtain c' r where r: "pstm_div a b None (pstm_init_size (length (dp b))) = Inr (c', r)" "pstm_ok r" "sign r = 0"
    "pstm_nat r = pstm_nat a mod pstm_nat b" "length (dp r) = max (used r) (length (dp b))"
    using pstm_div_val [OF assms(1-8) _ init_wf(1) assms(9), of None "length (dp b)"] by auto
  have "pstm_nat r < pstm_nat b" using r(4) assms(8) by simp
  then have "used r \<le> used b" using used_less [of r "used b"] ok_bounds(1) [OF assms(5)] r(2) by simp
  then have "length (dp r) = length (dp b)" using r(5) assms(5) by (simp add: pstm_ok_def)
  then show ?thesis using r assms(6) by (simp add: pstm_mod_def)
qed

section \<open>A remainder that is too large\<close>

text \<open>The dividend is \<open>(2 ^ 32 + 2) * b - 1\<close> for the divisor \<open>b\<close>. The second digit of the quotient is estimated too large by one;
  when the divisor is added back to \<open>-1\<close> the borrow passes over the two zero digits of \<open>b\<close>.\<close>

definition borrow_dividend :: pstm_int where
  "borrow_dividend = \<lparr>used = 6, sign = 0, dp = [0xffffffff, 0xffffffff, 5, 3, 0xA0000000, 0x50000000]\<rparr>"

definition borrow_divisor :: pstm_int where
  "borrow_divisor = \<lparr>used = 5, sign = 0, dp = [0, 0, 3, 0, 0x50000000]\<rparr>"

definition borrow_remainder :: pstm_int where
  "borrow_remainder = \<lparr>used = 5, sign = 0, dp = [0xffffffff, 0xffffffff, 4, 1, 0x50000001, 0]\<rparr>"

lemma borrow_digits:
  "div_digits borrow_dividend (pstm_copy borrow_divisor (pstm_init_size 15)) (pstm_init_size 6) =
    Inr ([1, 1], borrow_remainder, \<lparr>used = 5, sign = 0, dp = [0, 0, 3, 0, 0x50000000, 0]\<rparr>)"
  by code_simp

lemma borrow_copies: "(pstm_init_copy borrow_dividend False)\<lparr>sign := 0\<rparr> = borrow_dividend"
  "pstm_div_2d borrow_remainder 0 borrow_remainder = borrow_remainder" "pstm_cmp_mag borrow_dividend borrow_divisor \<noteq> -1"
  "pstm_clamp (borrow_remainder\<lparr>dp := lay (take 5 (dp borrow_remainder)) 5 (dp borrow_remainder)\<rparr>) = borrow_remainder"
  "pstm_copy borrow_remainder (pstm_init_size 5) = \<lparr>used = 5, sign = 0, dp = [0xffffffff, 0xffffffff, 4, 1, 0x50000001]\<rparr>"
  by code_simp+

lemma borrow_normalize: "div_normalize x (pstm_copy borrow_divisor (pstm_init_size 15)) = (0, x, pstm_copy borrow_divisor (pstm_init_size 15))"
proof -
  have "bits_in 0x50000000 = 31" using bits_in_unique [of 30 "0x50000000"] by simp
  then have "pstm_count_bits (pstm_copy borrow_divisor (pstm_init_size 15)) = 159"
    by (simp add: pstm_count_bits_def pstm_copy_def borrow_divisor_def pstm_init_size_def lay_def nth_append)
  then show ?thesis by (simp add: div_normalize_def)
qed

text \<open>C15. \<open>pstm_mod\<close> can return a remainder greater than the divisor: the second loop of \<open>s_pstm_sub\<close> keeps all
  upper bits of the difference as the borrow where the first loop keeps one, so a borrow that passes over a zero digit
  subtracts \<open>2 ^ 32 - 1\<close> from the next digit.\<close>

theorem pstm_mod_exceeds_divisor:
  "pstm_ok borrow_dividend \<and> pstm_ok borrow_divisor \<and> pstm_nat borrow_dividend mod pstm_nat borrow_divisor = pstm_nat borrow_divisor - 1 \<and>
    (\<exists>r. pstm_mod borrow_dividend borrow_divisor c = Inr r \<and> pstm_nat borrow_divisor < pstm_nat r)"
proof (intro conjI)
  show "pstm_ok borrow_dividend" "pstm_ok borrow_divisor"
    by (simp_all add: pstm_ok_def borrow_dividend_def borrow_divisor_def)
  show "pstm_nat borrow_dividend mod pstm_nat borrow_divisor = pstm_nat borrow_divisor - 1"
    by (simp add: pstm_nat_def borrow_dividend_def borrow_divisor_def)
  have f: "used borrow_divisor = 5" "sign borrow_divisor = 0" "sign borrow_dividend = 0" "length (dp borrow_divisor) = 5"
    "length (dp borrow_dividend) = 6" "used borrow_remainder = 5" "sign borrow_remainder = 0"
    by (simp_all add: borrow_divisor_def borrow_dividend_def borrow_remainder_def)
  have s: "(pstm_copy borrow_divisor (pstm_init_size 15))\<lparr>sign := 0\<rparr> = pstm_copy borrow_divisor (pstm_init_size 15)" by code_simp
  have r: "borrow_remainder\<lparr>sign := 0\<rparr> = borrow_remainder" by (simp add: borrow_remainder_def)
  have "pstm_div borrow_dividend borrow_divisor None (pstm_init_size 5) = Inr (None, \<lparr>used = 5, sign = 0, dp = [0xffffffff, 0xffffffff, 4, 1, 0x50000001]\<rparr>)"
    using borrow_copies by (simp add: pstm_div_def f s r Let_def borrow_normalize borrow_digits)
  then have "pstm_mod borrow_dividend borrow_divisor c = Inr \<lparr>used = 5, sign = 0, dp = [0xffffffff, 0xffffffff, 4, 1, 0x50000001]\<rparr>"
    by (simp add: pstm_mod_def f)
  then show "\<exists>r. pstm_mod borrow_dividend borrow_divisor c = Inr r \<and> pstm_nat borrow_divisor < pstm_nat r"
    by (simp add: pstm_nat_def borrow_divisor_def)
qed

section \<open>Quotient and remainder\<close>



end
