(* ===== verification/RB_Montgomery.thy ===== *)
theory RB_Montgomery
  imports RB_PstmMul
begin

text \<open>
  Montgomery reduction, \<^verbatim>\<open>src/networking/tls_pstm_montgomery_reduce.rs\<close>, and what it needs from
  \<^verbatim>\<open>src/networking/tls_pstm.rs\<close>: the negated inverse of the modulus modulo \<open>2 ^ 32\<close> and the power of two that the
  residues carry as a factor. The reduction works in a buffer of digits. The caller lends \<open>len\<close> bytes, and the code asks
  whether that is at least \<open>2 * pa + 1\<close>, a number of digits; failing that it allocates \<open>2 * pa + 1\<close> bytes. An
  access outside the buffer or outside the result is the failure \<open>Bad_access\<close>.
\<close>

section \<open>The inverse of the modulus\<close>

definition pstm_montgomery_setup :: "pstm_int \<Rightarrow> pstm_fail + u32" where
  "pstm_montgomery_setup a =
     (let b = dp a ! 0
      in if dp a = [] then Inl Bad_access
         else if b AND 1 = 0 then Inl (Rsa_die ''pstm_montogomery_setup failure'')
         else let x = push_bit 1 ((b + 2) AND 4) + b;
                  x = x * (2 - b * x);
                  x = x * (2 - b * x);
                  x = x * (2 - b * x)
              in Inr (ucast (push_bit 32 1 - ucast x :: u64)))"

section \<open>The factor of the residues\<close>

primrec normalization_loop :: "pstm_int \<Rightarrow> nat \<Rightarrow> pstm_int \<Rightarrow> pstm_fail + pstm_int" where
  "normalization_loop b 0 a = Inr a"
| "normalization_loop b (Suc n) a =
     (let a = pstm_mul_2 a a
      in do_res (if pstm_cmp_mag a b \<noteq> -1 then s_pstm_sub a b a else Inr a) (normalization_loop b n))"

definition pstm_montgomery_calc_normalization :: "pstm_int \<Rightarrow> pstm_int \<Rightarrow> pstm_fail + pstm_int" where
  "pstm_montgomery_calc_normalization a b =
     (let bits = pstm_count_bits b mod 32;
          bits = (if bits = 0 then 32 else bits)
      in if 1 < used b
         then do_res (pstm_2expt a ((used b - 1) * 32 + bits - 1)) (normalization_loop b (32 - (bits - 1)))
         else normalization_loop b (32 - (1 - 1)) (pstm_set a 1))"

section \<open>Reduction\<close>

function propagate :: "u32 \<Rightarrow> u32 list \<Rightarrow> u32 list option" where
  "propagate cy cs =
     (if cy = 0 then Some cs
      else case cs of
             [] \<Rightarrow> None
           | c # cs \<Rightarrow> let t = c + cy
                       in map_option ((#) t) (propagate (if t < cy then 1 else 0) cs))"
  by pat_completeness auto

termination by (relation "measure (\<lambda>(cy, cs). length cs)") auto

declare propagate.simps [simp del]

fun add_multiple :: "u32 \<Rightarrow> u32 \<Rightarrow> u32 list \<Rightarrow> u32 list \<Rightarrow> u32 list option" where
  "add_multiple mu cy cs [] = propagate cy cs"
| "add_multiple mu cy [] (m # ms) = None"
| "add_multiple mu cy (c # cs) (m # ms) =
     (let t = ucast c + ucast cy + ucast mu * ucast m :: u64
      in map_option ((#) (ucast t)) (add_multiple mu (ucast (drop_bit 32 t)) cs ms))"

text \<open>Each round clears the lowest digit of what is left of the buffer, which is not looked at again.\<close>

primrec reduce_rounds :: "u32 \<Rightarrow> u32 list \<Rightarrow> nat \<Rightarrow> u32 list \<Rightarrow> u32 list option" where
  "reduce_rounds mp ms 0 cs = Some cs"
| "reduce_rounds mp ms (Suc n) cs =
     (case cs of
        [] \<Rightarrow> None
      | c # _ \<Rightarrow> do_opt (add_multiple (c * mp) 0 cs ms) (\<lambda>ds. reduce_rounds mp ms n (tl ds)))"

definition reduce_buffer :: "nat \<Rightarrow> nat \<Rightarrow> nat" where
  "reduce_buffer len pa = (if 2 * pa + 1 \<le> len then len div 4 else (2 * pa + 1) div 4)"

definition pstm_montgomery_reduce :: "pstm_int \<Rightarrow> pstm_int \<Rightarrow> u32 \<Rightarrow> nat \<Rightarrow> pstm_fail + pstm_int" where
  "pstm_montgomery_reduce a m mp len =
     (let pa = used m;
          size = reduce_buffer len pa
      in if pa > length (dp a) then Inl PS_LIMIT_FAIL
         else if used a > size then Inl Bad_access
         else let c = take (used a) (dp a) @ replicate (size - used a) 0
              in do_res (expect Bad_access (reduce_rounds mp (take pa (dp m)) pa c)) (\<lambda>c.
                 if length c < pa + 1 \<or> length (dp a) < pa + 1 then Inl Bad_access
                 else let a = pstm_clamp (a\<lparr>dp := lay (take (pa + 1) c) (used a) (dp a), used := pa + 1\<rparr>)
                      in if pstm_cmp_mag a m \<noteq> -1 then s_pstm_sub a m a else Inr a))"

section \<open>The inverse is one\<close>

lemma low_and: "take_bit 4 x AND 4 = x AND (4 :: u32)"
proof -
  have "take_bit 4 x AND 4 = x AND (mask 4 AND 4)" by (simp only: take_bit_eq_mask and.assoc)
  also have "mask 4 AND 4 = (4 :: u32)" by (simp add: mask_eq_exp_minus_1)
  finally show ?thesis .
qed

lemma first_guess:
  fixes b :: u32
  assumes "b AND 1 \<noteq> 0"
  shows "\<exists>f. 1 - b * (push_bit 1 ((b + 2) AND 4) + b) = 16 * f"
proof -
  define r c where "r = take_bit 4 b" and "c = drop_bit 4 b"
  have b: "b = r + 16 * c"
    using bits_ident [of 4 b] by (simp add: r_def c_def push_bit_eq_mult mult.commute add.commute)
  have "take_bit 4 (b + 2) = take_bit 4 (r + 2)"
  proof -
    have u: "uint (take_bit 4 (x + 2)) = (uint x + 2) mod 16" for x :: u32
      using mod_mod_cancel [of 16 "2 ^ 32" "uint x + 2"] by (simp only: unsigned_take_bit_eq) (simp add: uint_word_ariths take_bit_eq_mod)
    have "(uint b + 2) mod 16 = (uint r + 2) mod 16"
      by (simp only: r_def unsigned_take_bit_eq) (simp add: take_bit_eq_mod mod_simps)
    then show ?thesis using u [of b] u [of r] by (simp add: word_uint_eq_iff)
  qed
  then have m: "(b + 2) AND 4 = (r + 2) AND 4"
    using low_and [of "b + 2"] low_and [of "r + 2"] by simp
  have "unat r < 16" using take_bit_nat_less_exp [of 4 "unat b"] by (simp add: r_def unsigned_take_bit_eq)
  moreover have "odd (unat r)"
  proof -
    have "bit b 0" using assms by (simp add: bit_0 and_one_eq even_iff_mod_2_eq_zero)
    then have "bit (unat r) 0" by (simp only: r_def bit_unsigned_iff bit_take_bit_iff) simp
    then show ?thesis by (simp add: bit_0)
  qed
  ultimately have "unat r \<in> {1, 3, 5, 7, 9, 11, 13, 15}" unfolding insert_iff empty_iff by presburger
  then have "r \<in> {1, 3, 5, 7, 9, 11, 13, 15}" by (simp add: word_unat_eq_iff)
  then show ?thesis
  proof -
    have lift: "\<exists>f. 1 - (k + 16 * c) * (v + (k + 16 * c)) = 16 * f" if "1 - k * (v + k) = 16 * g" for k v g :: u32
    proof -
      have "1 - (k + 16 * c) * (v + (k + 16 * c)) = (1 - k * (v + k)) - 16 * (c * (v + 2 * k + 16 * c))"
        by (simp add: algebra_simps)
      then show ?thesis using that by (metis right_diff_distrib)
    qed
    have "\<exists>g. 1 - r * (push_bit 1 ((r + 2) AND 4) + r) = 16 * g"
      using \<open>r \<in> _\<close>
      by (elim insertE emptyE) (simp_all, (rule exI [of _ 0] exI [of _ "-2"] exI [of _ "-4"] exI [of _ "-3"] exI [of _ "-5"]
        exI [of _ "-13"] exI [of _ "-17"] exI [of _ "-14"], simp; fail)+)
    then obtain g where "1 - r * (push_bit 1 ((r + 2) AND 4) + r) = 16 * g" by blast
    from lift [OF this] show ?thesis by (simp only: m b [symmetric])
  qed
qed

text \<open>Each of the three steps squares the error.\<close>

lemma newton_step: "1 - b * (x * (2 - b * x)) = (1 - b * x) * (1 - (b :: u32) * x)"
  by (simp add: algebra_simps)

lemma negate_low: "ucast (push_bit 32 1 - ucast (x :: u32) :: u64) = - x"
proof -
  have p: "unat (push_bit 32 1 :: u64) = 2 ^ 32" by simp
  have "unat (push_bit 32 1 - ucast x :: u64) = 2 ^ 32 - unat x"
    using digit_less [of x] p by (subst unat_sub) (simp_all add: word_le_nat_alt)
  then have "unat (ucast (push_bit 32 1 - ucast x :: u64) :: u32) = (2 ^ 32 - unat x) mod 2 ^ 32" by simp
  also have "\<dots> = unat (- x)" using digit_less [of x] unat_sub_if' [of 0 x] by (cases "x = 0") (simp_all add: unat_eq_0 unat_gt_0)
  finally show ?thesis by (simp only: word_unat_eq_iff)
qed

lemma pstm_montgomery_setup_val:
  assumes "pstm_wf a" "0 < used a" "odd (pstm_nat a)"
  shows "\<exists>mp. pstm_montgomery_setup a = Inr mp \<and> dp a ! 0 * mp = - 1"
proof -
  let ?b = "dp a ! 0"
  have ne: "dp a \<noteq> []" using assms by (auto simp: pstm_wf_def)
  then obtain d ds where d: "dp a = d # ds" by (cases "dp a") auto
  have "pstm_nat a = unat d + 2 ^ 32 * dval ds" using pstm_nat_wf [OF assms(1)] d by simp
  then have "odd (unat d)" using assms(3) by simp
  then have "bit d 0" by (simp only: bit_0 [symmetric]) (simp add: bit_unsigned_iff)
  then have b1: "?b AND 1 \<noteq> 0" using d by (simp add: bit_0 and_one_eq even_iff_mod_2_eq_zero)
  define x0 x1 x2 x3 where "x0 = push_bit 1 ((?b + 2) AND 4) + ?b" and "x1 = x0 * (2 - ?b * x0)"
    and "x2 = x1 * (2 - ?b * x1)" and "x3 = x2 * (2 - ?b * x2)"
  obtain f where f: "1 - ?b * x0 = 16 * f" using first_guess [OF b1] x0_def by blast
  have "1 - ?b * x3 = (16 * f) ^ 8"
    unfolding x3_def newton_step x2_def x1_def f by (simp add: numeral_eq_Suc power_Suc mult.assoc)
  also have "\<dots> = 16 ^ 8 * f ^ 8" by (rule power_mult_distrib)
  also have "(16 :: u32) ^ 8 = 0" by simp
  finally have x3: "?b * x3 = 1" by simp
  have "pstm_montgomery_setup a = Inr (- x3)"
    using ne b1 negate_low [of x3] unfolding pstm_montgomery_setup_def Let_def x3_def x2_def x1_def x0_def by simp
  then show ?thesis using x3 by simp
qed

section \<open>The reduction divides by the factor\<close>

lemma carry_digit: "unat (c + cy) + 2 ^ 32 * (if c + cy < (cy :: u32) then 1 else 0) = unat c + unat cy"
proof (cases "unat c + unat cy < 2 ^ 32")
  case True
  then have "unat (c + cy) = unat c + unat cy" by (simp add: unat_word_ariths)
  then show ?thesis by (simp add: word_less_nat_alt)
next
  case False
  then have "unat (c + cy) = unat c + unat cy - 2 ^ 32"
    using digit_less [of c] digit_less [of cy] by (simp add: unat_word_ariths mod_if)
  then show ?thesis using False digit_less [of c] by (simp add: word_less_nat_alt)
qed

lemma propagate_val:
  assumes "dval cs + unat cy < 2 ^ (32 * length cs)"
  shows "\<exists>ds. propagate cy cs = Some ds \<and> dval ds = dval cs + unat cy \<and> length ds = length cs"
  using assms
proof (induction cs arbitrary: cy)
  case Nil
  then have "cy = 0" by (simp add: unat_eq_0)
  then show ?case by (simp add: propagate.simps)
next
  case (Cons c cs)
  let ?k = "if c + cy < cy then 1 else 0 :: u32"
  show ?case
  proof (cases "cy = 0")
    case False
    have k: "unat (c + cy) + 2 ^ 32 * unat ?k = unat c + unat cy" using carry_digit [of c cy] by (auto split: if_splits)
    then have "2 ^ 32 * (dval cs + unat ?k) < 2 ^ 32 * 2 ^ (32 * length cs)"
      using Cons.prems by (simp add: power_add)
    then have "dval cs + unat ?k < 2 ^ (32 * length cs)" by simp
    then obtain ds where "propagate ?k cs = Some ds" "dval ds = dval cs + unat ?k" "length ds = length cs"
      using Cons.IH by blast
    then show ?thesis using False k by (subst propagate.simps) (simp add: Let_def algebra_simps)
  qed (simp add: propagate.simps)
qed

lemma add_multiple_val:
  assumes "dval cs + unat mu * dval ms + unat cy < 2 ^ (32 * length cs)" "length ms \<le> length cs"
  shows "\<exists>ds. add_multiple mu cy cs ms = Some ds \<and> dval ds = dval cs + unat mu * dval ms + unat cy \<and> length ds = length cs"
  using assms
proof (induction mu cy cs ms rule: add_multiple.induct)
  case (1 mu cy cs)
  then show ?case using propagate_val [of cs cy] by simp
next
  case (3 mu cy c cs m ms)
  let ?t = "ucast c + ucast cy + ucast mu * ucast m :: u64"
  have t: "unat ?t = unat c + unat cy + unat mu * unat m"
  proof -
    have "unat (ucast c + ucast cy :: u64) = unat c + unat cy"
      using digit_less [of c] digit_less [of cy] by (simp add: unat_word_ariths)
    then show ?thesis
      using unat_mul_add [of "ucast c + ucast cy" mu m] digit_less [of c] digit_less [of cy] by (simp add: add.commute)
  qed
  have "unat ?t < 2 ^ 64" using unsigned_less [of ?t, where 'a = nat] by simp
  then have "unat ?t div 2 ^ 32 < 2 ^ 32" by (simp add: div_less_iff_less_mult)
  then have h: "unat (ucast (drop_bit 32 ?t) :: u32) = unat ?t div 2 ^ 32" by simp
  have split: "unat ?t mod 2 ^ 32 + 2 ^ 32 * (unat ?t div 2 ^ 32 + z) = unat ?t + 2 ^ 32 * z" for z by (rule split_word)
  have "2 ^ 32 * (dval cs + unat mu * dval ms + unat ?t div 2 ^ 32) \<le> dval (c # cs) + unat mu * dval (m # ms) + unat cy"
    using split [of "dval cs + unat mu * dval ms"] t by (simp add: algebra_simps)
  also have "\<dots> < 2 ^ 32 * 2 ^ (32 * length cs)" using 3(2) by (simp add: power_add)
  finally have "dval cs + unat mu * dval ms + unat (ucast (drop_bit 32 ?t) :: u32) < 2 ^ (32 * length cs)" unfolding h by simp
  then obtain ds where ds: "add_multiple mu (ucast (drop_bit 32 ?t)) cs ms = Some ds"
    "dval ds = dval cs + unat mu * dval ms + unat (ucast (drop_bit 32 ?t) :: u32)" "length ds = length cs"
    using 3 by fastforce
  have "dval (ucast ?t # ds) = dval (c # cs) + unat mu * dval (m # ms) + unat cy"
    using ds(2) split [of "dval cs + unat mu * dval ms"] t unfolding h by (simp add: algebra_simps)
  then show ?case using ds by (simp add: Let_def)
qed simp

lemma of_nat_dval: "of_nat (dval (d # ds)) = d"
proof -
  have "(of_nat (2 ^ 32 * dval ds) :: u32) = 0" unfolding word_of_nat_eq_0_iff by simp
  then show ?thesis by (simp only: dval.simps of_nat_add) simp
qed

lemma reduce_rounds_val:
  assumes "dval cs < dval (m # ms) * (2 ^ (32 * n) + 1)" "Suc (length (m # ms)) + n \<le> length cs" "m * mp = - 1"
  shows "\<exists>ds. reduce_rounds mp (m # ms) n cs = Some ds \<and> length ds = length cs - n \<and> dval ds < 2 * dval (m # ms) \<and>
    (\<exists>k. dval ds * 2 ^ (32 * n) = dval cs + k * dval (m # ms))"
  using assms
proof (induction n arbitrary: cs)
  case 0
  then show ?case by (simp add: mult.commute)
next
  case (Suc n)
  let ?M = "dval (m # ms)" and ?B = "2 ^ 32 :: nat"
  obtain c cs' where cs: "cs = c # cs'" using Suc.prems(2) by (cases cs) auto
  let ?mu = "c * mp"
  have bound: "dval cs + unat ?mu * ?M < ?M * (2 ^ (32 * Suc n) + ?B)"
  proof -
    have "unat ?mu * ?M \<le> (?B - 1) * ?M" using digit_less [of ?mu] by (intro mult_le_mono1) simp
    moreover have "?M * (2 ^ (32 * Suc n) + 1) + (?B - 1) * ?M = ?M * (2 ^ (32 * Suc n) + ?B)" by (simp add: algebra_simps)
    ultimately show ?thesis using Suc.prems(1) by linarith
  qed
  also have "\<dots> \<le> 2 ^ (32 * length (m # ms)) * (2 ^ (32 * Suc n) * ?B)"
  proof (rule mult_le_mono)
    have "?B \<le> 2 ^ (32 * Suc n)" by (rule power_increasing) simp_all
    then have "2 ^ (32 * Suc n) + ?B \<le> 2 ^ (32 * Suc n) * 2" by simp
    also have "\<dots> \<le> 2 ^ (32 * Suc n) * ?B" by (rule mult_le_mono2) simp
    finally show "2 ^ (32 * Suc n) + ?B \<le> 2 ^ (32 * Suc n) * ?B" .
  qed (use dval_bound [of "m # ms"] in simp)
  also have "\<dots> = 2 ^ (32 * (Suc (length (m # ms)) + Suc n))" by (simp add: power_add algebra_simps)
  also have "\<dots> \<le> 2 ^ (32 * length cs)" using Suc.prems(2) by (intro power_increasing) simp_all
  finally have "dval cs + unat ?mu * ?M + unat (0 :: u32) < 2 ^ (32 * length cs)" by simp
  then obtain ds where ds: "add_multiple ?mu 0 cs (m # ms) = Some ds" "dval ds = dval cs + unat ?mu * ?M" "length ds = length cs"
    using add_multiple_val [of cs ?mu "m # ms" 0] Suc.prems(2) by auto
  obtain e es where es: "ds = e # es" using ds(3) cs by (cases ds) auto
  have "e = of_nat (dval ds)" unfolding es of_nat_dval ..
  also have "\<dots> = c + ?mu * m" unfolding ds(2) cs by (simp only: of_nat_add of_nat_mult of_nat_dval) simp
  also have "\<dots> = 0" using Suc.prems(3) by (simp add: mult.assoc mult.commute [of mp])
  finally have tl: "dval ds = ?B * dval es" unfolding es by simp
  have "?B * dval es < ?B * (?M * (2 ^ (32 * n) + 1))"
    using bound unfolding ds(2) [symmetric] tl by (simp add: power_add algebra_simps)
  then have "dval es < ?M * (2 ^ (32 * n) + 1)" by simp
  moreover have "Suc (length (m # ms)) + n \<le> length es" using Suc.prems(2) ds(3) es by simp
  ultimately obtain fs k where fs: "reduce_rounds mp (m # ms) n es = Some fs" "length fs = length es - n"
    "dval fs < 2 * ?M" "dval fs * 2 ^ (32 * n) = dval es + k * ?M"
    using Suc.IH [OF _ _ Suc.prems(3)] by blast
  have "dval fs * 2 ^ (32 * Suc n) = ?B * (dval fs * 2 ^ (32 * n))" by (simp add: power_add)
  also have "\<dots> = dval cs + (unat ?mu + ?B * k) * ?M"
    unfolding fs(4) using tl ds(2) by (simp only: distrib_left distrib_right mult.assoc add.assoc)
  finally show ?case using fs(1,2,3) ds(1,3) es cs by auto
qed

text \<open>The last subtraction.\<close>

lemma montgomery_subtract:
  assumes r: "pstm_ok r" "sign r = 0" "pstm_nat r < 2 * pstm_nat m" and m: "pstm_ok m"
  shows "\<exists>z. (if pstm_cmp_mag r m \<noteq> -1 then s_pstm_sub r m r else Inr r) = Inr z \<and> pstm_ok z \<and> sign z = 0 \<and>
    pstm_nat z = pstm_nat r mod pstm_nat m \<and> length (dp z) = length (dp r)"
proof (cases "pstm_nat r < pstm_nat m")
  case True
  then show ?thesis using r pstm_cmp_mag_val [OF r(1) m] by simp
next
  case False
  have "pstm_nat m < 2 ^ (32 * used m)" by (rule ok_bounds(1) [OF m])
  then have "pstm_nat r < 2 ^ (32 * (used m + 1))" using r(3) by (simp add: power_add)
  then have "used r \<le> used m + 1" using used_less [OF _ r(1)] by blast
  moreover have "used m \<le> used r" using used_less [of m "used r"] ok_bounds(1) [OF r(1)] m False by simp
  ultimately obtain z where z: "s_pstm_sub r m r = Inr z" "pstm_ok z" "pstm_nat z = pstm_nat r - pstm_nat m" "sign z = 0"
    "length (dp z) = max (used r) (length (dp r))"
    using s_pstm_sub_val [of r m r] pstm_ok_wf [OF r(1)] pstm_ok_wf [OF m] r(2) False by auto
  have "pstm_nat r mod pstm_nat m = pstm_nat r - pstm_nat m" using False r(3) by (simp add: mod_if)
  then show ?thesis using z r(1) False pstm_cmp_mag_val [OF r(1) m] by (simp add: pstm_ok_def)
qed

lemma pstm_montgomery_reduce_val:
  assumes a: "pstm_ok a" "sign a = 0" "used m + 1 \<le> length (dp a)" "pstm_nat a < pstm_nat m * 2 ^ (32 * used m)"
    and m: "pstm_ok m" "0 < pstm_nat m" "dp m ! 0 * mp = - 1"
    and len: "2 * used m + 1 \<le> len div 4"
  shows "\<exists>r. pstm_montgomery_reduce a m mp len = Inr r \<and> pstm_ok r \<and> sign r = 0 \<and> pstm_nat r < pstm_nat m \<and>
    (pstm_nat r * 2 ^ (32 * used m)) mod pstm_nat m = pstm_nat a mod pstm_nat m \<and> length (dp r) = length (dp a)"
proof -
  let ?pa = "used m" and ?M = "pstm_nat m"
  define size where "size = len div 4"
  have size: "reduce_buffer len ?pa = size" using len by (simp add: reduce_buffer_def size_def)
  obtain m0 ms where ms: "take ?pa (dp m) = m0 # ms" "m0 = dp m ! 0" "length (m0 # ms) = ?pa"
    using used_zero [OF m(1)] m(1,2) by (cases "dp m") (auto simp: pstm_ok_def take_Cons')
  have M: "dval (m0 # ms) = ?M" using ms(1) by (simp add: pstm_nat_def)
  have bound: "?M < 2 ^ (32 * ?pa)" by (rule ok_bounds(1) [OF m(1)])
  then have "?M * 2 ^ (32 * ?pa) \<le> 2 ^ (32 * ?pa) * 2 ^ (32 * ?pa)" by (intro mult_le_mono1) simp
  also have "\<dots> = 2 ^ (32 * (?pa + ?pa))" by (simp only: power_add distrib_left)
  finally have "pstm_nat a < 2 ^ (32 * (?pa + ?pa))" using a(4) by linarith
  then have ua: "used a \<le> size" using used_less [of a "?pa + ?pa"] a(1) len by (simp add: size_def)
  define c where "c = take (used a) (dp a) @ replicate (size - used a) 0"
  have c: "dval c = pstm_nat a" "length c = size"
    using wf_used [OF pstm_ok_wf [OF a(1)]] ua by (simp_all add: c_def dval_append pstm_nat_def)
  have "dval c < dval (m0 # ms) * (2 ^ (32 * ?pa) + 1)" unfolding c(1) M using a(4) by simp
  then obtain ds k where ds: "reduce_rounds mp (m0 # ms) ?pa c = Some ds" "length ds = size - ?pa" "dval ds < 2 * ?M"
    "dval ds * 2 ^ (32 * ?pa) = pstm_nat a + k * ?M"
    using reduce_rounds_val [of c m0 ms ?pa mp] ms(2,3) m(3) c len unfolding M size_def by auto
  let ?es = "take (?pa + 1) ds"
  have "dval ds < 2 ^ (32 * (?pa + 1))" using ds(3) bound by (simp add: power_add)
  then have ev: "dval ?es = dval ds" using dval_append [of ?es "drop (?pa + 1) ds"] unfolding dval_drop by simp
  let ?r = "a\<lparr>dp := lay ?es (used a) (dp a), used := ?pa + 1\<rparr>"
  have "length ?es \<le> length (dp a)" "dp ?r = lay ?es (used a) (dp a)" "used ?r = length ?es"
    using ds(2) len a(3) by (simp_all add: size_def)
  note st = stored_lay [OF pstm_ok_wf [OF a(1)] this] sign_clamp [OF stored_lay(1) [OF pstm_ok_wf [OF a(1)] this]]
  define r where "r = pstm_clamp ?r"
  have r: "pstm_ok r" "sign r = 0" "pstm_nat r = dval ds" "length (dp r) = length (dp a)"
    unfolding r_def using st ev a(2) by simp_all
  have "\<not> ?pa > length (dp a)" "\<not> used a > size" "\<not> (length ds < ?pa + 1 \<or> length (dp a) < ?pa + 1)"
    using a(3) ua ds(2) len by (simp_all add: size_def)
  then have eq: "pstm_montgomery_reduce a m mp len = (if pstm_cmp_mag r m \<noteq> -1 then s_pstm_sub r m r else Inr r)"
    unfolding pstm_montgomery_reduce_def Let_def size ms(1) c_def [symmetric] r_def
    by (simp only: ds(1) expect_simps sum.case if_False)
  have "pstm_nat r * 2 ^ (32 * ?pa) mod ?M = pstm_nat a mod ?M" unfolding r(3) ds(4) by simp
  then have "pstm_nat r mod ?M * 2 ^ (32 * ?pa) mod ?M = pstm_nat a mod ?M" by (simp only: mod_mult_left_eq)
  then show ?thesis
    using montgomery_subtract [OF r(1,2) _ m(1)] ds(3) r(3,4) m(2) unfolding eq by fastforce
qed

section \<open>The factor is a power of two\<close>

lemma single_digit:
  assumes "dp a = replicate z 0 @ [d] @ replicate k 0" "used a = Suc z" "d \<noteq> 0"
  shows "pstm_ok a" "pstm_nat a = 2 ^ (32 * z) * unat d"
  using assms by (auto simp: pstm_ok_def pstm_nat_def dval_append nth_append nth_Cons')

lemma pstm_2expt_val:
  assumes "b div 32 < 4096"
  shows "\<exists>r. pstm_2expt a b = Inr r \<and> pstm_ok r \<and> pstm_nat r = 2 ^ b \<and> sign r = 0 \<and> length (dp a) \<le> length (dp r)"
proof -
  let ?z = "b div 32" and ?d = "push_bit (b mod 32) 1 :: u32"
  define n where "n = max (?z + 1) (length (dp a))"
  have d: "unat ?d = 2 ^ (b mod 32)"
  proof -
    have "(2 :: nat) ^ (b mod 32) < 2 ^ 32" by (rule power_strict_increasing) simp_all
    then show ?thesis by (simp only: unsigned_push_bit_eq) (simp add: push_bit_eq_mult take_bit_eq_mod)
  qed
  then have "?d \<noteq> 0" by (metis power_not_zero unat_0 zero_neq_numeral)
  let ?r = "(pstm_zero a)\<lparr>used := ?z + 1, dp := (replicate n 0)[?z := ?d]\<rparr>"
  have "replicate n (0 :: u32) = replicate ?z 0 @ [0] @ replicate (n - ?z - 1) 0"
    by (rule nth_equalityI) (auto simp: n_def nth_append nth_Cons')
  then have dp: "dp ?r = replicate ?z 0 @ [?d] @ replicate (n - ?z - 1) 0" by (simp add: list_update_append)
  have "pstm_2expt a b = Inr ?r"
    using assms by (auto simp: pstm_2expt_def Let_def pstm_grow_def pstm_zero_def n_def max_def replicate_add [symmetric])
  moreover have "pstm_ok ?r" "pstm_nat ?r = 2 ^ (32 * ?z) * 2 ^ (b mod 32)"
    using single_digit [OF dp _ \<open>?d \<noteq> 0\<close>] d by simp_all
  moreover have "(2 :: nat) ^ (32 * ?z) * 2 ^ (b mod 32) = 2 ^ b" by (simp only: power_add [symmetric] mult_div_mod_eq)
  ultimately show ?thesis by (simp add: n_def)
qed

lemma pstm_set_val:
  assumes "dp a \<noteq> []"
  shows "pstm_ok (pstm_set a 1)" "pstm_nat (pstm_set a 1) = 1" "sign (pstm_set a 1) = 0" "length (dp (pstm_set a 1)) = length (dp a)"
proof -
  obtain n where n: "length (dp a) = Suc n" using assms by (cases "dp a") auto
  have "dp (pstm_set a 1) = replicate 0 0 @ [1] @ replicate n 0" "used (pstm_set a 1) = Suc 0"
    by (simp_all add: pstm_set_def pstm_zero_def Let_def n)
  from single_digit [OF this] show "pstm_ok (pstm_set a 1)" "pstm_nat (pstm_set a 1) = 1" by simp_all
  show "sign (pstm_set a 1) = 0" "length (dp (pstm_set a 1)) = length (dp a)" by (simp_all add: pstm_set_def pstm_zero_def Let_def)
qed

lemma normalization_loop_val:
  assumes "pstm_ok b" "used b < 4094" "pstm_ok a" "sign a = 0" "pstm_nat a < pstm_nat b"
  shows "\<exists>r. normalization_loop b n a = Inr r \<and> pstm_ok r \<and> sign r = 0 \<and> pstm_nat r = pstm_nat a * 2 ^ n mod pstm_nat b \<and>
    length (dp a) \<le> length (dp r)"
  using assms(3,4,5)
proof (induction n arbitrary: a)
  case (Suc n)
  let ?b = "pstm_nat b" and ?a2 = "pstm_mul_2 a a"
  have "used a \<le> used b" using used_less [of a "used b"] ok_bounds(1) [OF assms(1)] Suc.prems(1,3) by simp
  then have m: "pstm_ok ?a2" "pstm_nat ?a2 = 2 * pstm_nat a" "sign ?a2 = 0" "length (dp a) \<le> length (dp ?a2)"
    using pstm_mul_2_val [OF Suc.prems(1) pstm_ok_wf [OF Suc.prems(1)]] assms(2) Suc.prems(2) by simp_all
  have "\<exists>r. (if pstm_cmp_mag ?a2 b \<noteq> -1 then s_pstm_sub ?a2 b ?a2 else Inr ?a2) = Inr r \<and> pstm_ok r \<and> sign r = 0 \<and>
    pstm_nat r = 2 * pstm_nat a mod ?b \<and> length (dp a) \<le> length (dp r)"
  proof (cases "pstm_nat ?a2 < ?b")
    case True
    then show ?thesis using m pstm_cmp_mag_val [OF m(1) assms(1)] by simp
  next
    case False
    have "?b < 2 ^ (32 * used b)" by (rule ok_bounds(1) [OF assms(1)])
    then have "pstm_nat ?a2 < 2 ^ (32 * (used b + 1))" using m(2) Suc.prems(3) by (simp add: power_add)
    then have "used ?a2 \<le> used b + 1" using used_less m(1) by blast
    moreover have "used b \<le> used ?a2" using used_less [of b "used ?a2"] ok_bounds(1) [OF m(1)] assms(1) False by simp
    ultimately obtain z where "s_pstm_sub ?a2 b ?a2 = Inr z" "pstm_ok z" "pstm_nat z = pstm_nat ?a2 - ?b" "sign z = 0"
      "length (dp z) = max (used ?a2) (length (dp ?a2))"
      using s_pstm_sub_val [of ?a2 b ?a2] pstm_ok_wf [OF m(1)] pstm_ok_wf [OF assms(1)] m(3) False by auto
    moreover have "2 * pstm_nat a mod ?b = pstm_nat ?a2 - ?b" using m(2) False Suc.prems(3) by (simp add: mod_if)
    ultimately show ?thesis using False m(4) pstm_cmp_mag_val [OF m(1) assms(1)] by simp
  qed
  then obtain r where r: "(if pstm_cmp_mag ?a2 b \<noteq> -1 then s_pstm_sub ?a2 b ?a2 else Inr ?a2) = Inr r" "pstm_ok r" "sign r = 0"
    "pstm_nat r = 2 * pstm_nat a mod ?b" "length (dp a) \<le> length (dp r)" by blast
  have "normalization_loop b (Suc n) a = normalization_loop b n r" using r(1) by (simp only: normalization_loop.simps Let_def sum.case)
  moreover have "pstm_nat r < ?b" using r(4) Suc.prems(3) by simp
  moreover have "pstm_nat r * 2 ^ n mod ?b = pstm_nat a * 2 ^ Suc n mod ?b" 
    unfolding r(4) mod_mult_left_eq power_Suc by (simp only: ac_simps)
  ultimately show ?case using Suc.IH [OF r(2,3)] r(5) by fastforce
qed simp

lemma pstm_montgomery_calc_normalization_val:
  assumes b: "pstm_ok b" "used b < 4094" "odd (pstm_nat b)" "1 < pstm_nat b" and a: "dp a \<noteq> []"
  shows "\<exists>r. pstm_montgomery_calc_normalization a b = Inr r \<and> pstm_ok r \<and> sign r = 0 \<and>
    pstm_nat r = 2 ^ (32 * used b) mod pstm_nat b \<and> length (dp a) \<le> length (dp r)"
proof (cases "1 < used b")
  case False
  have "used b = 1" using False used_zero [OF b(1)] b(4) by linarith
  then show ?thesis
    using normalization_loop_val [OF b(1,2) pstm_set_val(1,3) [OF a], of 32] pstm_set_val [OF a] b(4)
    by (simp add: pstm_montgomery_calc_normalization_def)
next
  case True
  let ?b = "pstm_nat b"
  define cb where "cb = bits_in ?b"
  define bits where "bits = (if cb mod 32 = 0 then 32 else cb mod 32)"
  note bb = bits_in_bounds [of ?b, folded cb_def]
  have "\<not> cb \<le> 32 * (used b - 1)" unfolding cb_def bits_in_le using ok_bounds(2) [OF b(1)] True by simp
  moreover have "cb \<le> 32 * used b" unfolding cb_def bits_in_le by (rule ok_bounds(1) [OF b(1)])
  ultimately obtain x where x: "cb = 32 * (used b - 1) + x" "0 < x" "x \<le> 32"
    using that [of "cb - 32 * (used b - 1)"] True by (simp add: diff_mult_distrib2)
  have "bits = x" using x by (auto simp: bits_def mod_mult_self4 le_less)
  then have e: "(used b - 1) * 32 + bits - 1 = cb - 1" "cb - 1 + (32 - (bits - 1)) = 32 * used b"
    using x True by simp_all
  have "(cb - 1) div 32 < 4096" using x b(2) by simp
  then obtain r where r: "pstm_2expt a (cb - 1) = Inr r" "pstm_ok r" "pstm_nat r = 2 ^ (cb - 1)" "sign r = 0" "length (dp a) \<le> length (dp r)"
    using pstm_2expt_val by blast
  have "pstm_nat r < ?b"
  proof -
    have "2 ^ (cb - 1) \<le> ?b" using bb(2) b(4) by simp
    moreover have "2 ^ (cb - 1) \<noteq> ?b"
    proof
      assume *: "2 ^ (cb - 1) = ?b"
      have "cb - 1 \<noteq> 0" using * b(4) by (metis power_0 less_irrefl)
      then have "even ((2 :: nat) ^ (cb - 1))" by simp
      then show False using b(3) unfolding * by simp
    qed
    ultimately show ?thesis using r(3) by simp
  qed
  then obtain z where z: "normalization_loop b (32 - (bits - 1)) r = Inr z" "pstm_ok z" "sign z = 0"
    "pstm_nat z = pstm_nat r * 2 ^ (32 - (bits - 1)) mod ?b" "length (dp r) \<le> length (dp z)"
    using normalization_loop_val [OF b(1,2) r(2,4)] by blast
  have "pstm_nat z = 2 ^ (32 * used b) mod ?b" unfolding z(4) r(3) power_add [symmetric] e(2) ..
  moreover have "pstm_montgomery_calc_normalization a b = Inr z"
    using True r(1) z(1) e(1) pstm_count_bits_val [OF b(1)]
    by (simp add: pstm_montgomery_calc_normalization_def Let_def cb_def [symmetric] bits_def [symmetric])
  ultimately show ?thesis using z r(5) by simp
qed



end
