(* ===== verification/RB_PstmExp.thy ===== *)
theory RB_PstmExp
  imports RB_PstmDiv RB_Montgomery
begin

text \<open>
  Modular exponentiation, \<open>pstm_exptmod\<close> and \<open>pstm_mulmod\<close> of \<^verbatim>\<open>src/networking/tls_pstm.rs\<close>: the exponent is read in
  windows of two or three bits, and the products are reduced by Montgomery's method. The loop over the exponent is
  written over an arbitrary squaring \<open>sq\<close> and multiplication \<open>mu\<close>; the locale \<open>window_power\<close> states what it
  relies on and is interpreted on the reduced operations.
\<close>

section \<open>The loop over the exponent\<close>

record 'a window =
  mode :: nat
  bitcpy :: nat
  bitbuf :: nat
  acc :: 'a

primrec repeat_sq :: "('a \<Rightarrow> 'e + 'a) \<Rightarrow> nat \<Rightarrow> 'a \<Rightarrow> 'e + 'a" where
  "repeat_sq sq 0 x = Inr x"
| "repeat_sq sq (Suc n) x = do_res (sq x) (repeat_sq sq n)"

text \<open>One bit \<open>y\<close> of the exponent; \<open>M\<close> holds the powers \<open>2 ^ (winsize - 1), \<dots>, 2 ^ winsize - 1\<close> of the base.\<close>

definition exp_bit ::
  "('a \<Rightarrow> 'e + 'a) \<Rightarrow> ('a \<Rightarrow> 'a \<Rightarrow> 'e + 'a) \<Rightarrow> nat \<Rightarrow> (nat \<Rightarrow> 'a) \<Rightarrow> nat \<Rightarrow> 'a window \<Rightarrow> 'e + 'a window" where
  "exp_bit sq mu winsize M y s =
     (if mode s = 0 \<and> y = 0 then Inr s
      else if mode s = 1 \<and> y = 0 then do_res (sq (acc s)) (\<lambda>r. Inr (s\<lparr>acc := r\<rparr>))
      else let s = s\<lparr>bitcpy := bitcpy s + 1\<rparr>;
               s = s\<lparr>bitbuf := bitbuf s OR push_bit (winsize - bitcpy s) y, mode := 2\<rparr>
           in if bitcpy s \<noteq> winsize then Inr s
              else do_res (repeat_sq sq winsize (acc s)) (\<lambda>r.
                   do_res (mu r (M (bitbuf s))) (\<lambda>r. Inr \<lparr>mode = 1, bitcpy = 0, bitbuf = 0, acc = r\<rparr>)))"

text \<open>The 32 bits of a digit, then the digits, most significant first.\<close>

primrec exp_bits :: "(nat \<Rightarrow> 's \<Rightarrow> 'e + 's) \<Rightarrow> nat \<Rightarrow> u32 \<Rightarrow> 's \<Rightarrow> 'e + 's" where
  "exp_bits f 0 buf s = Inr s"
| "exp_bits f (Suc n) buf s = do_res (f (unat (drop_bit (32 - 1) buf AND 1)) s) (exp_bits f n (push_bit 1 buf))"

primrec exp_digits :: "(nat \<Rightarrow> 's \<Rightarrow> 'e + 's) \<Rightarrow> u32 list \<Rightarrow> 's \<Rightarrow> 'e + 's" where
  "exp_digits f [] s = Inr s"
| "exp_digits f (d # ds) s = do_res (exp_bits f 32 d s) (exp_digits f ds)"

text \<open>The bits of a window that is not full.\<close>

primrec exp_rest ::
  "('a \<Rightarrow> 'e + 'a) \<Rightarrow> ('a \<Rightarrow> 'a \<Rightarrow> 'e + 'a) \<Rightarrow> nat \<Rightarrow> 'a \<Rightarrow> nat \<Rightarrow> nat \<Rightarrow> 'a \<Rightarrow> 'e + 'a" where
  "exp_rest sq mu winsize m1 0 buf r = Inr r"
| "exp_rest sq mu winsize m1 (Suc n) buf r =
     do_res (sq r) (\<lambda>r.
       let buf = push_bit 1 buf
       in do_res (if buf AND push_bit winsize 1 \<noteq> 0 then mu r m1 else Inr r) (exp_rest sq mu winsize m1 n buf))"

definition exp_window ::
  "('a \<Rightarrow> 'e + 'a) \<Rightarrow> ('a \<Rightarrow> 'a \<Rightarrow> 'e + 'a) \<Rightarrow> nat \<Rightarrow> 'a \<Rightarrow> (nat \<Rightarrow> 'a) \<Rightarrow> u32 list \<Rightarrow> 'a \<Rightarrow> 'e + 'a" where
  "exp_window sq mu winsize m1 M ds one =
     do_res (exp_digits (exp_bit sq mu winsize M) ds \<lparr>mode = 0, bitcpy = 0, bitbuf = 0, acc = one\<rparr>) (\<lambda>s.
       if mode s = 2 \<and> bitcpy s > 0 then exp_rest sq mu winsize m1 (bitcpy s) (bitbuf s) (acc s) else Inr (acc s))"

section \<open>Modular exponentiation\<close>

definition pstm_mulmod :: "bool \<Rightarrow> pstm_int \<Rightarrow> pstm_int \<Rightarrow> pstm_int \<Rightarrow> pstm_int \<Rightarrow> pstm_fail + pstm_int" where
  "pstm_mulmod a_is_d a b c d =
     (let size = used a + used b + 1;
          size = (if a_is_d \<and> size < length (dp a) then length (dp a) else size)
      in pstm_mod (pstm_mul_comba a b (pstm_init_size size)) c d)"

definition sqr_reduce :: "pstm_int \<Rightarrow> u32 \<Rightarrow> nat \<Rightarrow> pstm_int \<Rightarrow> pstm_fail + pstm_int" where
  "sqr_reduce P mp len x = pstm_montgomery_reduce (pstm_sqr_comba x x) P mp len"

definition mul_reduce :: "pstm_int \<Rightarrow> u32 \<Rightarrow> nat \<Rightarrow> pstm_int \<Rightarrow> pstm_int \<Rightarrow> pstm_fail + pstm_int" where
  "mul_reduce P mp len x y = pstm_montgomery_reduce (pstm_mul_comba x y x) P mp len"

text \<open>The upper half of the table of powers: each entry is the one before it times the base.\<close>

primrec upper_table ::
  "pstm_int \<Rightarrow> u32 \<Rightarrow> nat \<Rightarrow> pstm_int \<Rightarrow> nat \<Rightarrow> nat \<Rightarrow> pstm_int \<Rightarrow> pstm_fail + pstm_int list" where
  "upper_table P mp len m1 alloc 0 x = Inr []"
| "upper_table P mp len m1 alloc (Suc n) x =
     do_res (pstm_montgomery_reduce (pstm_mul_comba x m1 (pstm_init_size alloc)) P mp len) (\<lambda>y.
     do_res (upper_table P mp len m1 alloc n y) (\<lambda>ys. Inr (y # ys)))"

definition pstm_exptmod :: "pstm_int \<Rightarrow> pstm_int \<Rightarrow> pstm_int \<Rightarrow> pstm_int \<Rightarrow> pstm_fail + pstm_int" where
  "pstm_exptmod G X P Y =
     (let winsize = (if pstm_count_bits X < 50 then 2 else 3);
          half = 2 ^ (winsize - 1)
      in do_res (pstm_montgomery_setup P) (\<lambda>mp.
         do_res (pstm_montgomery_calc_normalization (pstm_init_size (used P * 2 + 1)) P) (\<lambda>res.
         let m1 = pstm_init_size (used res)
         in do_res (if pstm_cmp_mag P G \<noteq> 1 then pstm_mod G P m1 else Inr (pstm_copy G m1)) (\<lambda>m1.
            do_res (pstm_mulmod True m1 res P m1) (\<lambda>m1.
            let len = (used m1 + 3) * 2 * 4
            in do_res (repeat_sq (sqr_reduce P mp len) (winsize - 1) (pstm_init_copy m1 True)) (\<lambda>x.
               do_res (upper_table P mp len m1 (length (dp x) + 1) (half - 1) x) (\<lambda>xs.
               do_res (exp_window (sqr_reduce P mp len) (mul_reduce P mp len) winsize m1 (\<lambda>i. (x # xs) ! (i - half))
                        (rev (take (used X) (dp X))) res) (\<lambda>res.
               do_res (pstm_montgomery_reduce res P mp len) (\<lambda>res. Inr (pstm_copy res Y))))))))))"

section \<open>What the loop computes\<close>

lemma or_next_bit: "y \<le> 1 \<Longrightarrow> (v * 2 ^ Suc m) OR push_bit m y = (2 * v + y) * 2 ^ m" for v y :: nat
proof -
  assume y: "y \<le> 1"
  have "2 * v OR y = 2 * v + y"
  proof (cases "y = 0")
    case False
    then have "y = 1" using y by simp
    then show ?thesis by (simp add: or_Suc_0_eq)
  qed simp
  then have "push_bit m (2 * v) OR push_bit m y = push_bit m (2 * v + y)" by (simp only: push_bit_or [symmetric])
  then show ?thesis by (simp add: push_bit_eq_mult ac_simps)
qed

lemma top_bit: "unat (drop_bit 31 (d :: u32) AND 1) = unat d div 2 ^ 31"
proof -
  have "unat d div 2 ^ 31 < 2" using digit_less [of d] by (simp add: div_less_iff_less_mult)
  moreover have "unat (x AND 1) = unat x mod 2" for x :: u32 by (metis and_one_eq unsigned_and_eq unsigned_1)
  ultimately show ?thesis by simp
qed

text \<open>\<open>tab x e\<close> says that \<open>x\<close> stands for the power \<open>e\<close> of the base, \<open>rep x e\<close> that it can also be computed in place.\<close>

locale window_power =
  fixes tab rep :: "'a \<Rightarrow> nat \<Rightarrow> bool"
    and sq :: "'a \<Rightarrow> 'e + 'a"
    and mu :: "'a \<Rightarrow> 'a \<Rightarrow> 'e + 'a"
  assumes sq_rep: "rep x e \<Longrightarrow> \<exists>z. sq x = Inr z \<and> rep z (2 * e)"
    and mu_rep: "rep x e \<Longrightarrow> tab y f \<Longrightarrow> \<exists>z. mu x y = Inr z \<and> rep z (e + f)"
begin

lemma repeat_sq_rep: "rep x e \<Longrightarrow> \<exists>z. repeat_sq sq n x = Inr z \<and> rep z (2 ^ n * e)"
proof (induction n arbitrary: x e)
  case (Suc n)
  obtain y where y: "sq x = Inr y" "rep y (2 * e)" using sq_rep [OF Suc.prems] by blast
  then show ?case using Suc.IH [OF y(2)] by (simp add: ac_simps)
qed simp

text \<open>The state after bits of value \<open>E\<close>.\<close>

definition seen :: "nat \<Rightarrow> nat \<Rightarrow> 'a window \<Rightarrow> bool" where
  "seen w E s \<longleftrightarrow>
     (if mode s = 0 then E = 0 \<and> bitcpy s = 0 \<and> bitbuf s = 0 \<and> rep (acc s) 0
      else if mode s = 1 then bitcpy s = 0 \<and> bitbuf s = 0 \<and> rep (acc s) E
      else mode s = 2 \<and> 0 < bitcpy s \<and> bitcpy s < w \<and>
        (\<exists>e v. 2 ^ (bitcpy s - 1) \<le> v \<and> v < 2 ^ bitcpy s \<and> bitbuf s = v * 2 ^ (w - bitcpy s) \<and> rep (acc s) e \<and> E = e * 2 ^ bitcpy s + v))"

lemma exp_bit_seen:
  assumes seen: "seen w E s" and w: "2 \<le> w" and y: "y \<le> 1" and M: "\<And>i. 2 ^ (w - 1) \<le> i \<Longrightarrow> i < 2 ^ w \<Longrightarrow> tab (M i) i"
  shows "\<exists>s'. exp_bit sq mu w M y s = Inr s' \<and> seen w (2 * E + y) s'"
proof -
  consider "mode s = 0" "y = 0" | "mode s = 1" "y = 0" | "mode s = 2 \<or> y = 1"
    using seen y by (auto simp: seen_def le_Suc_eq split: if_splits)
  then show ?thesis
  proof cases
    case 1
    then show ?thesis using seen by (simp add: exp_bit_def seen_def)
  next
    case 2
    then have "rep (acc s) E" using seen by (simp add: seen_def)
    then obtain z where "sq (acc s) = Inr z" "rep z (2 * E)" using sq_rep by blast
    then show ?thesis using 2 seen by (simp add: exp_bit_def seen_def)
  next
    case 3
    define k where "k = bitcpy s"
    obtain e v where ev: "v < 2 ^ k" "k = 0 \<or> 2 ^ (k - 1) \<le> v" "bitbuf s = v * 2 ^ (w - k)" "rep (acc s) e" "E = e * 2 ^ k + v" "k < w"
      using seen w unfolding seen_def k_def by (auto split: if_splits)
    have k0: "k = 0 \<Longrightarrow> y = 1" using 3 seen by (auto simp: seen_def k_def split: if_splits)
    let ?v = "2 * v + y"
    have v: "?v < 2 ^ Suc k" "2 ^ k \<le> ?v"
    proof -
      show "?v < 2 ^ Suc k" using ev(1) y by simp
      show "2 ^ k \<le> ?v"
      proof (cases k)
        case 0
        then show ?thesis using k0 by simp
      next
        case (Suc j)
        then show ?thesis using ev(2) by simp
      qed
    qed
    have buf: "bitbuf s OR push_bit (w - Suc k) y = ?v * 2 ^ (w - Suc k)"
      using or_next_bit [OF y, of v "w - Suc k"] ev(3,6) by (simp add: Suc_diff_Suc)
    have E: "2 * E + y = e * 2 ^ Suc k + ?v" using ev(5) by simp
    have nskip: "\<not> (mode s = 0 \<and> y = 0)" "\<not> (mode s = 1 \<and> y = 0)" using 3 by auto
    show ?thesis
    proof (cases "Suc k = w")
      case False
      then have "exp_bit sq mu w M y s = Inr (s\<lparr>bitcpy := Suc k, bitbuf := ?v * 2 ^ (w - Suc k), mode := 2\<rparr>)"
        using nskip buf by (auto simp: exp_bit_def Let_def k_def [symmetric])
      moreover have "seen w (2 * E + y) (s\<lparr>bitcpy := Suc k, bitbuf := ?v * 2 ^ (w - Suc k), mode := 2\<rparr>)"
        using False ev(4,6) v E unfolding seen_def by auto
      ultimately show ?thesis by blast
    next
      case True
      obtain r where r: "repeat_sq sq w (acc s) = Inr r" "rep r (2 ^ w * e)" using repeat_sq_rep [OF ev(4)] by blast
      have "tab (M ?v) ?v" using M [of ?v] v True by auto
      then obtain z where z: "mu r (M ?v) = Inr z" "rep z (2 ^ w * e + ?v)" using mu_rep [OF r(2)] by blast
      have "exp_bit sq mu w M y s = Inr \<lparr>mode = 1, bitcpy = 0, bitbuf = 0, acc = z\<rparr>"
        using nskip buf True r(1) z(1) by (auto simp: exp_bit_def Let_def k_def [symmetric])
      moreover have "seen w (2 * E + y) \<lparr>mode = 1, bitcpy = 0, bitbuf = 0, acc = z\<rparr>"
        using z(2) True unfolding E by (simp add: seen_def ac_simps)
      ultimately show ?thesis by blast
    qed
  qed
qed

lemma exp_bits_seen:
  assumes w: "2 \<le> w" and M: "\<And>i. 2 ^ (w - 1) \<le> i \<Longrightarrow> i < 2 ^ w \<Longrightarrow> tab (M i) i"
  shows "seen w E s \<Longrightarrow> n \<le> 32 \<Longrightarrow> \<exists>s'. exp_bits (exp_bit sq mu w M) n buf s = Inr s' \<and> seen w (E * 2 ^ n + unat buf div 2 ^ (32 - n)) s'"
proof (induction n arbitrary: E s buf)
  case 0
  then show ?case using digit_less [of buf] by simp
next
  case (Suc n)
  let ?y = "unat buf div 2 ^ 31"
  have "?y < 2" using digit_less [of buf] by (simp add: div_less_iff_less_mult)
  then have "?y \<le> 1" by simp
  then obtain s1 where s1: "exp_bit sq mu w M ?y s = Inr s1" "seen w (2 * E + ?y) s1" using exp_bit_seen [OF Suc.prems(1) w _ M] by blast
  have p: "unat (push_bit 1 buf) = 2 * unat buf mod 2 ^ 32"
    by (simp only: unsigned_push_bit_eq) (simp add: push_bit_eq_mult take_bit_eq_mod mult.commute)
  have "2 * unat buf = ?y * 2 ^ 32 + unat (push_bit 1 buf)"
  proof -
    have "2 * unat buf div 2 ^ 32 = ?y" by simp
    then show ?thesis unfolding p using div_mult_mod_eq [of "2 * unat buf" "2 ^ 32"] by simp
  qed
  also have "?y * 2 ^ 32 = ?y * 2 ^ n * 2 ^ (32 - n)" using Suc.prems(2) by (simp add: power_add [symmetric])
  finally have "2 * unat buf div 2 ^ (32 - n) = ?y * 2 ^ n + unat (push_bit 1 buf) div 2 ^ (32 - n)" by simp
  moreover have "32 - n = Suc (32 - Suc n)" using Suc.prems(2) by simp
  then have "2 * unat buf div 2 ^ (32 - n) = unat buf div 2 ^ (32 - Suc n)" by (simp only: power_Suc) simp
  ultimately have e: "(2 * E + ?y) * 2 ^ n + unat (push_bit 1 buf) div 2 ^ (32 - n) = E * 2 ^ Suc n + unat buf div 2 ^ (32 - Suc n)"
    by (simp add: algebra_simps)
  have "exp_bits (exp_bit sq mu w M) (Suc n) buf s = exp_bits (exp_bit sq mu w M) n (push_bit 1 buf) s1"
    using s1(1) top_bit [of buf] by simp
  then show ?case using Suc.IH [OF s1(2), of "push_bit 1 buf"] Suc.prems(2) unfolding e by simp
qed

lemma exp_digits_seen:
  assumes w: "2 \<le> w" and M: "\<And>i. 2 ^ (w - 1) \<le> i \<Longrightarrow> i < 2 ^ w \<Longrightarrow> tab (M i) i"
  shows "seen w E s \<Longrightarrow> \<exists>s'. exp_digits (exp_bit sq mu w M) ds s = Inr s' \<and> seen w (E * 2 ^ (32 * length ds) + dval (rev ds)) s'"
proof (induction ds arbitrary: E s)
  case (Cons d ds)
  obtain s1 where s1: "exp_bits (exp_bit sq mu w M) 32 d s = Inr s1" "seen w (E * 2 ^ 32 + unat d) s1"
    using exp_bits_seen [OF w M Cons.prems, of 32 d] by auto
  have "(E * 2 ^ 32 + unat d) * 2 ^ (32 * length ds) + dval (rev ds) = E * 2 ^ (32 * length (d # ds)) + dval (rev (d # ds))"
    by (simp add: dval_append power_add algebra_simps)
  then show ?case using Cons.IH [OF s1(2)] s1(1) by simp
qed simp

lemma exp_rest_rep:
  assumes m1: "tab m1 1"
  shows "rep r e \<Longrightarrow> n \<le> w \<Longrightarrow> \<exists>z. exp_rest sq mu w m1 n buf r = Inr z \<and> rep z (e * 2 ^ n + buf div 2 ^ (w - n) mod 2 ^ n)"
proof (induction n arbitrary: buf r e)
  case (Suc n)
  obtain q where q: "sq r = Inr q" "rep q (2 * e)" using sq_rep [OF Suc.prems(1)] by blast
  define b where "b = 2 * buf div 2 ^ w mod 2"
  have "(push_bit 1 buf AND push_bit w 1 \<noteq> 0) \<longleftrightarrow> b = 1"
  proof -
    have "push_bit 1 buf AND push_bit w 1 \<noteq> 0 \<longleftrightarrow> bit (2 * buf) w"
      by (simp add: and_exp_eq_0_iff_not_bit push_bit_eq_mult mult.commute)
    then show ?thesis by (simp add: b_def bit_iff_odd odd_iff_mod_2_eq_one)
  qed
  moreover have "b = 0 \<or> b = 1" by (auto simp: b_def)
  ultimately obtain q1 where q1: "(if push_bit 1 buf AND push_bit w 1 \<noteq> 0 then mu q m1 else Inr q) = Inr q1" "rep q1 (2 * e + b)"
    using q(2) mu_rep [OF q(2) m1] by auto
  have wn: "w - n = Suc (w - Suc n)" "w = (w - n) + n" using Suc.prems(2) by simp_all
  have h: "2 * buf div 2 ^ (w - n) = buf div 2 ^ (w - Suc n)" unfolding wn(1) by (simp only: power_Suc) simp
  have "b = buf div 2 ^ (w - Suc n) div 2 ^ n mod 2"
    unfolding b_def by (subst wn(2)) (simp only: power_add div_mult2_eq h)
  then have "(2 * e + b) * 2 ^ n + 2 * buf div 2 ^ (w - n) mod 2 ^ n = e * 2 ^ Suc n + buf div 2 ^ (w - Suc n) mod 2 ^ Suc n"
    unfolding h using mod_mult2_eq [of "buf div 2 ^ (w - Suc n)" "2 ^ n" 2] by (simp add: algebra_simps)
  moreover have "exp_rest sq mu w m1 (Suc n) buf r = exp_rest sq mu w m1 n (push_bit 1 buf) q1"
    using q(1) q1(1) by (simp only: exp_rest.simps sum.case Let_def)
  moreover have "push_bit 1 buf = 2 * buf" by (simp add: push_bit_eq_mult)
  ultimately show ?case using Suc.IH [OF q1(2), of "2 * buf"] Suc.prems(2) by (metis Suc_leD)
qed simp

lemma exp_window_rep:
  assumes w: "2 \<le> w" and M: "\<And>i. 2 ^ (w - 1) \<le> i \<Longrightarrow> i < 2 ^ w \<Longrightarrow> tab (M i) i" and m1: "tab m1 1" and one: "rep one 0"
  shows "\<exists>z. exp_window sq mu w m1 M ds one = Inr z \<and> rep z (dval (rev ds))"
proof -
  have "seen w 0 \<lparr>mode = 0, bitcpy = 0, bitbuf = 0, acc = one\<rparr>" using one by (simp add: seen_def)
  then obtain s where s: "exp_digits (exp_bit sq mu w M) ds \<lparr>mode = 0, bitcpy = 0, bitbuf = 0, acc = one\<rparr> = Inr s"
    "seen w (dval (rev ds)) s"
    using exp_digits_seen [OF w M, of 0] by fastforce
  show ?thesis
  proof (cases "mode s = 2 \<and> bitcpy s > 0")
    case True
    then obtain e v where ev: "v < 2 ^ bitcpy s" "bitbuf s = v * 2 ^ (w - bitcpy s)" "rep (acc s) e"
      "dval (rev ds) = e * 2 ^ bitcpy s + v" "bitcpy s < w"
      using s(2) by (auto simp: seen_def)
    have v: "bitbuf s div 2 ^ (w - bitcpy s) mod 2 ^ bitcpy s = v" unfolding ev(2) using ev(1) by simp
    obtain z where z: "exp_rest sq mu w m1 (bitcpy s) (bitbuf s) (acc s) = Inr z" "rep z (dval (rev ds))"
      using exp_rest_rep [OF m1 ev(3) less_imp_le [OF ev(5)], of "bitbuf s"] unfolding v ev(4) by blast
    have "exp_window sq mu w m1 M ds one = Inr z" using s(1) True z(1) by (simp add: exp_window_def)
    then show ?thesis using z(2) by blast
  next
    case False
    consider "mode s = 0" | "mode s = 1" | "mode s \<noteq> 0" "mode s \<noteq> 1" by blast
    then have "rep (acc s) (dval (rev ds))"
      by cases (use s(2) False in \<open>simp_all only: seen_def if_True if_False one_neq_zero simp_thms\<close>)
    moreover have "exp_window sq mu w m1 M ds one = Inr (acc s)" using s(1) False by (simp only: exp_window_def sum.case if_False)
    ultimately show ?thesis by blast
  qed
qed

end

section \<open>Montgomery's residues\<close>

lemma cancel_radix:
  fixes p x y :: nat
  assumes "odd p" "x * 2 ^ k mod p = y * 2 ^ k mod p"
  shows "x mod p = y mod p"
proof -
  have "int p dvd (int x - int y) * 2 ^ k"
    using arg_cong [OF assms(2), of int] by (simp add: zmod_int mod_eq_dvd_iff left_diff_distrib)
  moreover have "coprime (int p) (2 ^ k)" using assms(1) by (simp add: coprime_commute)
  ultimately have "int p dvd int x - int y" by (simp add: coprime_dvd_mult_left_iff)
  then have "int x mod int p = int y mod int p" by (simp add: mod_eq_dvd_iff)
  then show ?thesis by (metis of_nat_eq_iff zmod_int)
qed

definition montgomery_ok :: "pstm_int \<Rightarrow> u32 \<Rightarrow> nat \<Rightarrow> bool" where
  "montgomery_ok P mp len \<longleftrightarrow> pstm_ok P \<and> sign P = 0 \<and> odd (pstm_nat P) \<and> 1 < pstm_nat P \<and> used P < 2000 \<and>
     dp P ! 0 * mp = - 1 \<and> 2 * used P + 1 \<le> len div 4"

text \<open>\<open>x\<close> is the residue of the power \<open>e\<close> of \<open>g\<close>; \<open>montgomery_rep\<close>: with room to reduce a product in it.\<close>

definition residue :: "pstm_int \<Rightarrow> u32 \<Rightarrow> nat \<Rightarrow> nat \<Rightarrow> pstm_int \<Rightarrow> nat \<Rightarrow> bool" where
  "residue P mp len g x e \<longleftrightarrow> montgomery_ok P mp len \<and> pstm_ok x \<and> sign x = 0 \<and>
     pstm_nat x = g ^ e * 2 ^ (32 * used P) mod pstm_nat P"

definition montgomery_rep :: "pstm_int \<Rightarrow> u32 \<Rightarrow> nat \<Rightarrow> nat \<Rightarrow> pstm_int \<Rightarrow> nat \<Rightarrow> bool" where
  "montgomery_rep P mp len g x e \<longleftrightarrow> residue P mp len g x e \<and> used P + 1 \<le> length (dp x)"

lemma montgomery_reduce_rep:
  assumes x: "residue P mp len g x e" and y: "residue P mp len g y f"
    and z: "pstm_ok z" "sign z = 0" "pstm_nat z = pstm_nat x * pstm_nat y" "used P + 1 \<le> length (dp z)"
  shows "\<exists>r. pstm_montgomery_reduce z P mp len = Inr r \<and> montgomery_rep P mp len g r (e + f)"
proof -
  let ?P = "pstm_nat P" and ?R = "2 ^ (32 * used P) :: nat"
  note ok = x [unfolded residue_def montgomery_ok_def]
  have P: "pstm_ok P" "0 < ?P" "odd ?P" "dp P ! 0 * mp = - 1" "2 * used P + 1 \<le> len div 4" using ok by auto
  have xy: "pstm_nat x = g ^ e * ?R mod ?P" "pstm_nat y = g ^ f * ?R mod ?P" using ok y by (simp_all add: residue_def)
  then have "pstm_nat x * pstm_nat y < ?P * ?P" using P(2) by (intro mult_strict_mono) simp_all
  also have "\<dots> \<le> ?P * ?R" using ok_bounds(1) [OF P(1)] by (intro mult_le_mono2) simp
  finally obtain r where r: "pstm_montgomery_reduce z P mp len = Inr r" "pstm_ok r" "sign r = 0" "pstm_nat r < ?P"
    "pstm_nat r * ?R mod ?P = pstm_nat z mod ?P" "length (dp r) = length (dp z)"
    using pstm_montgomery_reduce_val [OF z(1,2,4) _ P(1,2,4,5)] z(3) by auto
  have "pstm_nat r * ?R mod ?P = (g ^ e * ?R) * (g ^ f * ?R) mod ?P"
    unfolding r(5) z(3) xy by (simp add: mod_mult_eq)
  also have "\<dots> = g ^ (e + f) * ?R * ?R mod ?P" by (simp only: power_add ac_simps)
  finally have "pstm_nat r mod ?P = g ^ (e + f) * ?R mod ?P" by (rule cancel_radix [OF P(3)])
  then have "pstm_nat r = g ^ (e + f) * ?R mod ?P" using r(4) by simp
  then show ?thesis using r(1,2,3,6) z(4) x unfolding montgomery_rep_def residue_def by auto
qed

lemma residue_small: "residue P mp len g x e \<Longrightarrow> used x < 2 ^ 32 \<and> pstm_wf x"
proof -
  assume r: "residue P mp len g x e"
  then have ok: "pstm_ok P" "pstm_ok x" "used P < 2000" unfolding residue_def montgomery_ok_def by simp_all
  have "pstm_nat x < pstm_nat P" using r unfolding residue_def montgomery_ok_def by simp
  also have "\<dots> < 2 ^ (32 * used P)" by (rule ok_bounds(1) [OF ok(1)])
  finally have "used x \<le> used P" by (rule used_less [OF _ ok(2)])
  then show ?thesis using ok pstm_ok_wf by simp
qed

lemma mul_comba_rep:
  assumes x: "residue P mp len g x e" and y: "residue P mp len g y f"
    and z: "pstm_wf z" "used P + 1 \<le> length (dp z)"
  shows "\<exists>r. pstm_montgomery_reduce (pstm_mul_comba x y z) P mp len = Inr r \<and> montgomery_rep P mp len g r (e + f)"
proof (rule montgomery_reduce_rep [OF x y])
  note s = residue_small [OF x] residue_small [OF y]
  have "pstm_ok x" "pstm_ok y" "sign x = 0" "sign y = 0" using x y by (simp_all add: residue_def)
  then show "pstm_ok (pstm_mul_comba x y z)" "sign (pstm_mul_comba x y z) = 0"
    "pstm_nat (pstm_mul_comba x y z) = pstm_nat x * pstm_nat y" "used P + 1 \<le> length (dp (pstm_mul_comba x y z))"
    using pstm_mul_comba_val [of x y z] s z by auto
qed

interpretation mont: window_power "residue P mp len g" "montgomery_rep P mp len g" "sqr_reduce P mp len" "mul_reduce P mp len"
  for P mp len g
proof
  show "\<exists>z. sqr_reduce P mp len x = Inr z \<and> montgomery_rep P mp len g z (2 * e)" if r: "montgomery_rep P mp len g x e" for x e
  proof -
    have x: "residue P mp len g x e" "sign x = 0" "used P + 1 \<le> length (dp x)" using r by (auto simp: montgomery_rep_def residue_def)
    show ?thesis unfolding sqr_reduce_def mult_2
      by (rule montgomery_reduce_rep [OF x(1,1)]) (use pstm_sqr_comba_val [of x x] residue_small [OF x(1)] x in auto)
  qed
  show "\<exists>z. mul_reduce P mp len x y = Inr z \<and> montgomery_rep P mp len g z (e + f)"
    if "montgomery_rep P mp len g x e" "residue P mp len g y f" for x e y f
    unfolding mul_reduce_def using mul_comba_rep [of P mp len g x e y f x] that residue_small
    by (auto simp: montgomery_rep_def)
qed

lemma upper_table_rep:
  assumes m1: "residue P mp len g m1 1" and alloc: "used P + 1 \<le> alloc"
  shows "residue P mp len g x e \<Longrightarrow> \<exists>ys. upper_table P mp len m1 alloc n x = Inr ys \<and> length ys = n \<and>
    (\<forall>i < Suc n. residue P mp len g ((x # ys) ! i) (e + i))"
proof (induction n arbitrary: x e)
  case (Suc n)
  obtain y where y: "pstm_montgomery_reduce (pstm_mul_comba x m1 (pstm_init_size alloc)) P mp len = Inr y"
    "residue P mp len g y (e + 1)"
    using mul_comba_rep [OF Suc.prems m1, of "pstm_init_size alloc"] alloc init_wf unfolding montgomery_rep_def by auto
  obtain ys where ys: "upper_table P mp len m1 alloc n y = Inr ys" "length ys = n"
    "\<forall>i < Suc n. residue P mp len g ((y # ys) ! i) (e + 1 + i)"
    using Suc.IH [OF y(2)] by blast
  have "residue P mp len g ((x # y # ys) ! i) (e + i)" if "i < Suc (Suc n)" for i
    using that ys(3) Suc.prems by (cases i) auto
  then show ?case using y(1) ys(1,2) by auto
qed simp

lemma pstm_mulmod_val:
  assumes a: "pstm_ok a" "sign a = 0" "used a < 2000" and b: "pstm_ok b" "sign b = 0" "used b < 2000" "0 < pstm_nat b"
    and c: "pstm_ok c" "sign c = 0" "used c < 4094" "0 < pstm_nat c" and safe: "div_safe (pstm_nat a * pstm_nat b) (pstm_nat c)"
  shows "\<exists>r. pstm_mulmod a_is_d a b c d = Inr r \<and> pstm_ok r \<and> sign r = 0 \<and>
    pstm_nat r = pstm_nat a * pstm_nat b mod pstm_nat c \<and> length (dp r) = length (dp c)"
proof -
  define size where "size = (if a_is_d \<and> used a + used b + 1 < length (dp a) then length (dp a) else used a + used b + 1)"
  have "0 < used b" using used_zero [OF b(1)] b(4) by simp
  then have size: "2 \<le> size" by (simp add: size_def)
  let ?t = "pstm_mul_comba a b (pstm_init_size size)"
  have t: "pstm_ok ?t" "sign ?t = 0" "pstm_nat ?t = pstm_nat a * pstm_nat b" "2 \<le> length (dp ?t)"
    using pstm_mul_comba_val [of a b "pstm_init_size size"] a b init_wf pstm_ok_wf size by auto
  have "pstm_nat a * pstm_nat b < 2 ^ (32 * used a) * 2 ^ (32 * used b)"
    using ok_bounds(1) [OF a(1)] ok_bounds(1) [OF b(1)] by (intro mult_strict_mono) simp_all
  then have "pstm_nat ?t < 2 ^ (32 * (used a + used b))" unfolding t(3) by (simp add: power_add algebra_simps)
  then have "used ?t < 4095" using used_less [OF _ t(1)] a(3) b(3) by fastforce
  then have "\<exists>r. pstm_mod ?t c d = Inr r \<and> pstm_ok r \<and> sign r = 0 \<and>
    pstm_nat r = pstm_nat a * pstm_nat b mod pstm_nat c \<and> length (dp r) = length (dp c)"
    using pstm_mod_val [OF t(1,2) _ t(4) c, of d] safe unfolding t(3) by blast
  then show ?thesis unfolding pstm_mulmod_def size_def Let_def .
qed

section \<open>The result\<close>

lemma reduce_power:
  assumes z: "montgomery_rep P mp len g z e"
  shows "\<exists>r. pstm_montgomery_reduce z P mp len = Inr r \<and> pstm_ok r \<and> sign r = 0 \<and> pstm_nat r = g ^ e mod pstm_nat P"
proof -
  let ?P = "pstm_nat P" and ?R = "2 ^ (32 * used P) :: nat"
  note ok = z [unfolded montgomery_rep_def residue_def montgomery_ok_def]
  have P: "pstm_ok P" "0 < ?P" "odd ?P" "dp P ! 0 * mp = - 1" "2 * used P + 1 \<le> len div 4" using ok by auto
  have zz: "pstm_ok z" "sign z = 0" "used P + 1 \<le> length (dp z)" "pstm_nat z = g ^ e * ?R mod ?P" using ok by auto
  have "pstm_nat z < ?P * 1" using P(2) unfolding zz(4) by simp
  also have "\<dots> \<le> ?P * ?R" by (rule mult_le_mono2) simp
  finally obtain r where r: "pstm_montgomery_reduce z P mp len = Inr r" "pstm_ok r" "sign r = 0" "pstm_nat r < ?P"
    "pstm_nat r * ?R mod ?P = pstm_nat z mod ?P"
    using pstm_montgomery_reduce_val [OF zz(1-3) _ P(1,2,4,5)] by auto
  have "pstm_nat r * ?R mod ?P = g ^ e * ?R mod ?P" unfolding r(5) zz(4) by simp
  then have "pstm_nat r mod ?P = g ^ e mod ?P" by (rule cancel_radix [OF P(3)])
  then show ?thesis using r by auto
qed

text \<open>The base times the radix modulo \<open>P\<close> has at most two digits less than \<open>P\<close>: the buffer is sized from it.\<close>

definition exptmod_safe :: "nat \<Rightarrow> pstm_int \<Rightarrow> bool" where
  "exptmod_safe g P \<longleftrightarrow> div_safe (g * (2 ^ (32 * used P) mod pstm_nat P)) (pstm_nat P) \<and>
     (used P \<le> 2 \<or> 2 ^ (32 * (used P - 3)) \<le> g * 2 ^ (32 * used P) mod pstm_nat P)"

lemma table_base:
  assumes G: "pstm_ok G" "sign G = 0" "pstm_nat G < pstm_nat P"
    and P: "pstm_ok P" "sign P = 0" "odd (pstm_nat P)" "1 < pstm_nat P" "used P < 2000"
    and res: "pstm_ok res" "sign res = 0" "pstm_nat res = 2 ^ (32 * used P) mod pstm_nat P"
    and safe: "exptmod_safe (pstm_nat G) P"
  shows "\<exists>r. pstm_mulmod True (pstm_copy G (pstm_init_size (used res))) res P m1 = Inr r \<and> pstm_ok r \<and> sign r = 0 \<and>
    pstm_nat r = pstm_nat G * 2 ^ (32 * used P) mod pstm_nat P \<and> length (dp r) = length (dp P) \<and> used P \<le> used r + 2"
proof -
  let ?P = "pstm_nat P" and ?R = "2 ^ (32 * used P) :: nat"
  have le: "pstm_nat a < ?P \<Longrightarrow> pstm_ok a \<Longrightarrow> used a < 2000" for a
    using used_less [of a "used P"] ok_bounds(1) [OF P(1)] P(5) by simp
  have "pstm_nat res \<noteq> 0"
  proof
    assume "pstm_nat res = 0"
    then have "?P dvd ?R" using res(3) by (simp add: mod_eq_0_iff_dvd)
    moreover have "coprime ?P ?R" using P(3) by (simp add: coprime_commute)
    ultimately show False using P(4) by (metis coprime_common_divisor_nat dvd_refl less_irrefl)
  qed
  moreover have "pstm_nat res < ?P" using P(4) unfolding res(3) by simp
  ultimately obtain r where r: "pstm_mulmod True (pstm_copy G (pstm_init_size (used res))) res P m1 = Inr r" "pstm_ok r" "sign r = 0"
    "pstm_nat r = pstm_nat G * pstm_nat res mod ?P" "length (dp r) = length (dp P)"
    using pstm_mulmod_val [of "pstm_copy G (pstm_init_size (used res))" res P True m1]
      pstm_copy_val [OF pstm_ok_wf [OF G(1)] init_wf(1), of "used res"] le G res P safe
    by (auto simp: exptmod_safe_def)
  have m: "pstm_nat r = pstm_nat G * ?R mod ?P" unfolding r(4) res(3) by (simp add: mod_mult_right_eq)
  have "used P \<le> used r + 2"
  proof (rule ccontr)
    assume "\<not> used P \<le> used r + 2"
    then have "2 ^ (32 * used r) \<le> (2 :: nat) ^ (32 * (used P - 3))" "\<not> used P \<le> 2" by (auto intro: power_increasing)
    then show False using ok_bounds(1) [OF r(2)] safe unfolding m exptmod_safe_def by linarith
  qed
  then show ?thesis using r m by blast
qed

lemma pstm_exptmod_val:
  assumes G: "pstm_ok G" "sign G = 0" "pstm_nat G < pstm_nat P"
    and P: "pstm_ok P" "sign P = 0" "odd (pstm_nat P)" "1 < pstm_nat P" "used P < 2000"
    and Y: "pstm_wf Y" and safe: "exptmod_safe (pstm_nat G) P"
  shows "\<exists>r. pstm_exptmod G X P Y = Inr r \<and> pstm_ok r \<and> sign r = 0 \<and>
    pstm_nat r = pstm_nat G ^ pstm_nat X mod pstm_nat P"
proof -
  let ?P = "pstm_nat P" and ?R = "2 ^ (32 * used P) :: nat" and ?g = "pstm_nat G"
  define w where "w = (if pstm_count_bits X < 50 then 2 else 3 :: nat)"
  have w: "2 \<le> w" "(2 :: nat) ^ w = 2 * 2 ^ (w - 1)" by (simp_all add: w_def)
  have "0 < used P" using used_zero [OF P(1)] P(4) by simp
  then obtain mp where mp: "pstm_montgomery_setup P = Inr mp" "dp P ! 0 * mp = - 1"
    using pstm_montgomery_setup_val [OF pstm_ok_wf [OF P(1)] _ P(3)] by blast
  let ?z = "pstm_init_size (used P * 2 + 1)"
  have z: "dp ?z \<noteq> []" "length (dp ?z) = used P * 2 + 1" using init_wf(6) [of "used P * 2 + 1"] by (auto simp del: init_wf(6))
  obtain res where res: "pstm_montgomery_calc_normalization ?z P = Inr res" "pstm_ok res"
    "sign res = 0" "pstm_nat res = ?R mod ?P" "used P * 2 + 1 \<le> length (dp res)"
    using pstm_montgomery_calc_normalization_val [OF P(1) less_trans [OF P(5)] P(3,4) z(1)] unfolding z(2) by auto
  obtain m1 where m1: "pstm_mulmod True (pstm_copy G (pstm_init_size (used res))) res P (pstm_copy G (pstm_init_size (used res))) = Inr m1"
    "pstm_ok m1" "sign m1 = 0" "pstm_nat m1 = ?g * ?R mod ?P" "length (dp m1) = length (dp P)" "used P \<le> used m1 + 2"
    using table_base [OF G P res(2-4) safe] by blast
  define len where "len = (used m1 + 3) * 2 * 4"
  have ok: "montgomery_ok P mp len" using P mp(2) m1(6) by (simp add: montgomery_ok_def len_def)
  then have one: "montgomery_rep P mp len ?g res 0" and base: "residue P mp len ?g m1 1"
    using res m1 by (simp_all add: montgomery_rep_def residue_def)
  have "montgomery_rep P mp len ?g (pstm_init_copy m1 True) 1"
    using base pstm_init_copy_val [OF pstm_ok_wf [OF m1(2)], of True] m1(6) by (auto simp: montgomery_rep_def residue_def)
  then obtain x where x: "repeat_sq (sqr_reduce P mp len) (w - 1) (pstm_init_copy m1 True) = Inr x"
    "montgomery_rep P mp len ?g x (2 ^ (w - 1))"
    using mont.repeat_sq_rep [of P mp len ?g _ 1 "w - 1"] by fastforce
  then have "residue P mp len ?g x (2 ^ (w - 1))" "used P + 1 \<le> length (dp x) + 1" by (simp_all add: montgomery_rep_def)
  then obtain xs where xs: "upper_table P mp len m1 (length (dp x) + 1) (2 ^ (w - 1) - 1) x = Inr xs"
    "\<forall>i < Suc (2 ^ (w - 1) - 1). residue P mp len ?g ((x # xs) ! i) (2 ^ (w - 1) + i)"
    using upper_table_rep [OF base] by blast
  have M: "residue P mp len ?g ((x # xs) ! (i - 2 ^ (w - 1))) i" if "2 ^ (w - 1) \<le> i" "i < 2 ^ w" for i
    using xs(2) [rule_format, of "i - 2 ^ (w - 1)"] that w by simp
  obtain z where z: "exp_window (sqr_reduce P mp len) (mul_reduce P mp len) w m1 (\<lambda>i. (x # xs) ! (i - 2 ^ (w - 1)))
      (rev (take (used X) (dp X))) res = Inr z" "montgomery_rep P mp len ?g z (pstm_nat X)"
    using mont.exp_window_rep [OF w(1) M base one, of "rev (take (used X) (dp X))"] by (auto simp: pstm_nat_def)
  obtain r where r: "pstm_montgomery_reduce z P mp len = Inr r" "pstm_ok r" "sign r = 0" "pstm_nat r = ?g ^ pstm_nat X mod ?P"
    using reduce_power [OF z(2)] by blast
  have "pstm_cmp_mag P G = 1" using pstm_cmp_mag_val [OF P(1) G(1)] G(3) by simp
  then have "pstm_exptmod G X P Y = Inr (pstm_copy r Y)"
    using mp(1) res(1) m1(1) x(1) xs(1) z(1) r(1) unfolding pstm_exptmod_def Let_def w_def [symmetric] len_def
    by (simp only: sum.case simp_thms if_False)
  then show ?thesis using pstm_copy_val [OF pstm_ok_wf [OF r(2)] Y] r by simp
qed

text \<open>C20. Modular exponentiation: for an odd modulus \<open>P > 1\<close> of less than 2000 digits, a base below it with \<open>exptmod_safe\<close>
  and every exponent, \<open>pstm_exptmod\<close> ends without an error and without an access outside a buffer, and the result is the
  power of the base modulo \<open>P\<close>.\<close>

theorem pstm_exptmod_correct:
  assumes "pstm_ok G" "sign G = 0" "pstm_nat G < pstm_nat P"
    and "pstm_ok P" "sign P = 0" "odd (pstm_nat P)" "1 < pstm_nat P" "used P < 2000"
    and "pstm_wf Y" "exptmod_safe (pstm_nat G) P"
  shows "\<exists>r. pstm_exptmod G X P Y = Inr r \<and> pstm_ok r \<and> sign r = 0 \<and>
    pstm_nat r = pstm_nat G ^ pstm_nat X mod pstm_nat P"
  using assms by (rule pstm_exptmod_val)

theorem pstm_exptmod_correct_witness:
  "\<exists>r. pstm_exptmod \<lparr>used = 1, sign = 0, dp = [0x12345678]\<rparr> \<lparr>used = 1, sign = 0, dp = [5]\<rparr> \<lparr>used = 2, sign = 0, dp = [15, 1]\<rparr>
      (pstm_init_size 2) = Inr r \<and> pstm_nat r = 0x12345678 ^ 5 mod (2 ^ 32 + 15)"
proof -
  let ?G = "\<lparr>used = 1, sign = 0, dp = [0x12345678]\<rparr>" and ?P = "\<lparr>used = 2, sign = 0, dp = [15, 1]\<rparr>"
  let ?X = "\<lparr>used = 1, sign = 0, dp = [5]\<rparr>"
  have ok: "pstm_ok ?G" "pstm_ok ?P" by (simp_all add: pstm_ok_def)
  have n: "pstm_nat ?G = 0x12345678" "pstm_nat ?P = 4294967311" "pstm_nat ?X = 5" by (simp_all add: pstm_nat_def)
  have "bits_in 68719476600 = 36" "bits_in 4294967311 = 33"
    using bits_in_unique [of 35 68719476600] bits_in_unique [of 32 4294967311] by simp_all
  then have "exptmod_safe (pstm_nat ?G) ?P"
    unfolding n exptmod_safe_def div_safe_upto by (simp add: upt_rec)
  then show ?thesis
    using pstm_exptmod_correct [of ?G ?P "pstm_init_size 2" ?X] ok unfolding n by auto
qed

end
