(* ===== verification/RB_TlsRecord.thy ===== *)
theory RB_TlsRecord
  imports RB_Aes RB_Gcm RB_Hmac RB_Pstm
begin

text \<open>
  The record layer of the TLS client, \<^verbatim>\<open>src/networking/tls.rs\<close>: writing a record under AES-GCM or
  under AES-CBC with HMAC, and the decryption of a received record. It composes the block cipher
  (\<^verbatim>\<open>tls_aes.rs\<close>), GHASH (\<^verbatim>\<open>tls_aesgcm.rs\<close>) and HMAC. In \<^verbatim>\<open>tls_state\<close> \<open>outbuf_size\<close> and \<open>inbuf_size\<close> are the
  lengths of the buffers, the file descriptors are \<open>written\<close> and \<open>incoming\<close> (what the peer still has to deliver, with
  the number of calls of \<open>safe_read\<close> so far in \<open>reads\<close>), and a pointer into it is the bytes it points at (\<open>client_write_MAC_key\<close> to the end of the
  136 bytes of keys and IVs that it begins), and what \<open>xwrite\<close> sends is
  appended to \<open>written\<close>. A buffer is its bytes; reading or writing outside it is \<^const>\<open>None\<close>, as are a panic and
  the end of the process with a message. The random IV is an argument.
\<close>

section \<open>State and buffers\<close>

text \<open>Of the RSA key, the fields that a public key has.\<close>

record psRsaKey =
  rsa_e :: pstm_int
  rsa_N :: pstm_int
  rsa_size :: nat

record tls_handshake_data =
  handshake_hash_ctx :: md5_ctx
  client_and_server_rand32 :: "u8 list"
  master_secret :: "u8 list"
  server_rsa_pub_key :: psRsaKey
  ecc_pub_key32 :: "u8 list"

record tls_state =
  flags :: u32
  min_encrypted_len_on_read :: u32
  cipher_id :: u16
  MAC_size :: u32
  key_size :: u32
  IV_size :: u32
  outbuf :: "u8 list"
  ofs_to_buffered :: nat
  buffered_size :: nat
  inbuf :: "u8 list"
  hsd :: "tls_handshake_data option"
  write_seq64_be :: u64
  client_write_IV :: "u8 list"
  server_write_IV :: "u8 list"
  client_write_MAC_key :: "u8 list"
  aes_encrypt :: tls_aes
  aes_decrypt :: tls_aes
  gcm_H :: "u8 list"
  written :: "u8 list list"
  incoming :: "u8 list"
  reads :: nat

definition RECHDR_LEN :: nat where "RECHDR_LEN = 5"
definition OUTBUF_PFX :: nat where "OUTBUF_PFX = 24"
definition OUTBUF_SFX :: nat where "OUTBUF_SFX = 48"
definition ENCRYPTION_AESGCM :: u32 where "ENCRYPTION_AESGCM = 16"

definition load :: "nat \<Rightarrow> nat \<Rightarrow> u8 list \<Rightarrow> u8 list option" where
  "load off n buf = (if off + n \<le> length buf then Some (take n (drop off buf)) else None)"

definition store :: "nat \<Rightarrow> u8 list \<Rightarrow> u8 list \<Rightarrow> u8 list option" where
  "store off src buf = (if off + length src \<le> length buf then Some (blit off src buf) else None)"

text \<open>The bytes a grown buffer gets from \<open>xrealloc\<close> are the argument \<open>fresh\<close>.\<close>

definition tls_get_outbuf :: "u8 list \<Rightarrow> tls_state \<Rightarrow> nat \<Rightarrow> tls_state option" where
  "tls_get_outbuf fresh tls len =
     (if 2 ^ 14 < len then None
      else let n = len + OUTBUF_PFX + OUTBUF_SFX
           in if length (outbuf tls) < n then Some (tls\<lparr>outbuf := take n (outbuf tls @ fresh)\<rparr>) else Some tls)"

definition len_hi :: "nat \<Rightarrow> u8" where
  "len_hi sz = ucast (drop_bit 8 (of_nat sz :: u32))"

definition len_lo :: "nat \<Rightarrow> u8" where
  "len_lo sz = ucast (of_nat sz AND 0xff :: u32)"

definition next_seq :: "u64 \<Rightarrow> u64" where
  "next_seq t64 = swap_bytes64 (1 + swap_bytes64 t64)"

section \<open>Records under AES-GCM\<close>

definition set_counter :: "u8 list \<Rightarrow> u32 \<Rightarrow> u8 list" where
  "set_counter nonce cnt = take 12 nonce @ le_bytes32 (swap_bytes32 cnt)"

function aesgcm_encrypt_loop :: "tls_aes \<Rightarrow> u8 list \<Rightarrow> u32 \<Rightarrow> nat \<Rightarrow> nat \<Rightarrow> u8 list \<Rightarrow> u8 list option" where
  "aesgcm_encrypt_loop aes nonce cnt off remaining buf =
     (if remaining = 0 then Some buf
      else let cnt = cnt + 1; n = (if 16 < remaining then 16 else remaining)
           in do_opt (aes_encrypt_one_block aes (set_counter nonce cnt)) (\<lambda>scratch.
              do_opt (load off n buf) (\<lambda>d.
              do_opt (store off (xorbuf d scratch n) buf) (\<lambda>buf.
                aesgcm_encrypt_loop aes nonce cnt (off + n) (remaining - n) buf))))"
  by pat_completeness auto
termination by (relation "measure (\<lambda>(aes, nonce, cnt, off, remaining, buf). remaining)") (auto split: if_splits)

declare aesgcm_encrypt_loop.simps [simp del]

definition gcm_aad :: "u64 \<Rightarrow> u8 \<Rightarrow> nat \<Rightarrow> u8 list" where
  "gcm_aad t64 ty sz =
     le_bytes64 t64 @ [ty, 3, 3, len_hi sz] @ le_bytes32 (of_nat sz AND 0xff)"

definition xwrite_encrypted_aesgcm :: "tls_state \<Rightarrow> nat \<Rightarrow> u8 \<Rightarrow> tls_state option" where
  "xwrite_encrypted_aesgcm tls sz ty =
     (let xhdr = OUTBUF_PFX - 8 - RECHDR_LEN;
          t64 = write_seq64_be tls;
          aad = gcm_aad t64 ty sz;
          nonce = take 4 (client_write_IV tls) @ le_bytes64 t64 @ [0, 0, 0, 0]
      in do_opt (store xhdr [ty] (outbuf tls)) (\<lambda>buf.
         do_opt (store (OUTBUF_PFX - 8) (le_bytes64 t64) buf) (\<lambda>buf.
         do_opt (aesgcm_encrypt_loop (aes_encrypt tls) nonce 1 OUTBUF_PFX sz buf) (\<lambda>buf.
         do_opt (load OUTBUF_PFX sz buf) (\<lambda>c.
         do_opt (aesgcm_GHASH (gcm_H tls) aad c (of_nat sz)) (\<lambda>authtag.
         do_opt (aes_encrypt_one_block (aes_encrypt tls) (set_counter nonce 1)) (\<lambda>scratch.
         do_opt (store (OUTBUF_PFX + sz) (xorbuf_aligned_AES_BLOCK_SIZE authtag scratch) buf) (\<lambda>buf.
         do_opt (store (xhdr + 1) [3, 3, len_hi (sz + (8 + 16)), len_lo (sz + (8 + 16))] buf) (\<lambda>buf.
         do_opt (load xhdr (sz + (8 + 16) + RECHDR_LEN) buf) (\<lambda>out.
           Some (tls\<lparr>outbuf := buf, write_seq64_be := next_seq t64, written := written tls @ [out]\<rparr>)))))))))))"

text \<open>Decryption moves the data down over the nonce: a byte is read 8 places ahead of where it is written,
  so no byte is read after it was overwritten.\<close>

function aesgcm_decrypt_loop :: "tls_aes \<Rightarrow> u8 list \<Rightarrow> u32 \<Rightarrow> nat \<Rightarrow> nat \<Rightarrow> u8 list \<Rightarrow> u8 list option" where
  "aesgcm_decrypt_loop aes nonce cnt off remaining buf =
     (if remaining = 0 then Some buf
      else let cnt = cnt + 1; n = (if 16 < remaining then 16 else remaining)
           in do_opt (aes_encrypt_one_block aes (set_counter nonce cnt)) (\<lambda>scratch.
              do_opt (load off n buf) (\<lambda>d.
              do_opt (load (off + 8) n buf) (\<lambda>s.
              do_opt (store off (xorbuf3 d scratch s n) buf) (\<lambda>buf.
                aesgcm_decrypt_loop aes nonce cnt (off + n) (remaining - n) buf)))))"
  by pat_completeness auto
termination by (relation "measure (\<lambda>(aes, nonce, cnt, off, remaining, buf). remaining)") (auto split: if_splits)

declare aesgcm_decrypt_loop.simps [simp del]

definition tls_aesgcm_decrypt :: "tls_state \<Rightarrow> nat \<Rightarrow> nat \<Rightarrow> u8 list \<Rightarrow> u8 list option" where
  "tls_aesgcm_decrypt tls p sz ibuf =
     do_opt (load p 8 ibuf) (\<lambda>explicit.
       aesgcm_decrypt_loop (aes_decrypt tls) (take 4 (server_write_IV tls) @ explicit @ [0, 0, 0, 0]) 1 p sz ibuf)"

section \<open>Records under AES-CBC with HMAC\<close>

function padding_loop :: "u8 \<Rightarrow> nat \<Rightarrow> u8 list \<Rightarrow> (nat \<times> u8 list) option" where
  "padding_loop padding_length sz buf =
     do_opt (store (OUTBUF_PFX + sz) [padding_length] buf) (\<lambda>buf.
       if Suc sz mod 16 \<noteq> 0 then padding_loop padding_length (Suc sz) buf else Some (Suc sz, buf))"
  by pat_completeness auto
termination by (relation "measure (\<lambda>(p, sz, buf). 16 - sz mod 16)") (auto simp: mod_Suc)

declare padding_loop.simps [simp del]

definition xwrite_encrypted_and_hmac_signed :: "u8 list \<Rightarrow> tls_state \<Rightarrow> nat \<Rightarrow> u8 \<Rightarrow> tls_state option" where
  "xwrite_encrypted_and_hmac_signed iv tls sz ty =
     (let xhdr = OUTBUF_PFX - RECHDR_LEN - 16
      in do_opt (store xhdr [ty, 3, 3, len_hi sz, len_lo sz] (outbuf tls)) (\<lambda>buf.
         do_opt (load xhdr RECHDR_LEN buf) (\<lambda>hdr.
         do_opt (load OUTBUF_PFX sz buf) (\<lambda>data.
         do_opt (hmac (take 32 (client_write_MAC_key tls)) [le_bytes64 (write_seq64_be tls), hdr, data]) (\<lambda>mac.
         do_opt (store (OUTBUF_PFX + sz) mac buf) (\<lambda>buf.
         do_opt (store (OUTBUF_PFX - 16) iv buf) (\<lambda>buf.
         do_opt (padding_loop (ucast (NOT (of_nat (sz + 32)) AND 15 :: u32)) (sz + 32) buf) (\<lambda>(sz, buf).
         do_opt (load (OUTBUF_PFX - 16) 16 buf) (\<lambda>iv.
         do_opt (load OUTBUF_PFX sz buf) (\<lambda>pt.
         do_opt (aes_cbc_encrypt (aes_encrypt tls) iv pt) (\<lambda>ct.
         do_opt (store OUTBUF_PFX ct buf) (\<lambda>buf.
         do_opt (store (xhdr + 3) [len_hi (sz + 16), len_lo (sz + 16)] buf) (\<lambda>buf.
         do_opt (load xhdr (RECHDR_LEN + (sz + 16)) buf) (\<lambda>out.
           Some (tls\<lparr>outbuf := buf, write_seq64_be := next_seq (write_seq64_be tls),
             written := written tls @ [out]\<rparr>)))))))))))))))"

definition xwrite_encrypted :: "u8 list \<Rightarrow> tls_state \<Rightarrow> nat \<Rightarrow> u8 \<Rightarrow> tls_state option" where
  "xwrite_encrypted iv tls sz ty =
     (if flags tls AND ENCRYPTION_AESGCM = 0 then xwrite_encrypted_and_hmac_signed iv tls sz ty
      else xwrite_encrypted_aesgcm tls sz ty)"

section \<open>Decrypting a received record\<close>

text \<open>The part of \<open>tls_xread_record\<close> from a complete record of \<open>sz\<close> bytes after its header to the
  length of its decrypted content, which then follows the header.\<close>

definition decrypt_record :: "tls_state \<Rightarrow> u8 list \<Rightarrow> int \<Rightarrow> (u8 list \<times> int) option" where
  "decrypt_record tls ibuf sz =
     do_opt
       (if min_encrypted_len_on_read tls \<noteq> 0 then
          if sz < sint (min_encrypted_len_on_read tls) then None
          else if flags tls AND ENCRYPTION_AESGCM \<noteq> 0 then
            let sz = sz - (8 + 16)
            in do_opt (tls_aesgcm_decrypt tls RECHDR_LEN (nat sz) ibuf) (\<lambda>ibuf. Some (ibuf, sz))
          else if 32 < min_encrypted_len_on_read tls then
            if sz mod 16 \<noteq> 0 then None
            else let sz = sz - 16
                 in do_opt (load RECHDR_LEN 16 ibuf) (\<lambda>iv.
                    do_opt (load (RECHDR_LEN + 16) (nat sz) ibuf) (\<lambda>ct.
                    do_opt (aes_cbc_decrypt (aes_decrypt tls) iv ct) (\<lambda>pt.
                    do_opt (store RECHDR_LEN pt ibuf) (\<lambda>ibuf.
                    do_opt (load (RECHDR_LEN + nat (sz - 1)) 1 ibuf) (\<lambda>b.
                      let padding_len = uint (hd b) + 1
                      in Some (ibuf, sz - (32 + padding_len)))))))
          else Some (ibuf, sz - uint (min_encrypted_len_on_read tls))
        else Some (ibuf, sz))
       (\<lambda>(ibuf, sz). if sz < 0 then None else Some (ibuf, sz))"

section \<open>The reference: the counter mode and the authenticated encryption of SP 800-38D\<close>

definition be32 :: "nat \<Rightarrow> u8 list" where
  "be32 n = rev (le_bytes32 (of_nat n))"

text \<open>Section 6.5, with a counter block of 12 bytes and a 32-bit counter; the last piece may be short.\<close>

function gctr :: "(u8 list \<Rightarrow> u8 list) \<Rightarrow> u8 list \<Rightarrow> nat \<Rightarrow> u8 list \<Rightarrow> u8 list" where
  "gctr E iv n x =
     (if x = [] then [] else map2 (XOR) (take 16 x) (E (iv @ be32 n)) @ gctr E iv (Suc n) (drop 16 x))"
  by pat_completeness auto
termination by (relation "measure (\<lambda>(E, iv, n, x). length x)") auto

declare gctr.simps [simp del]

definition unblk :: "u128 \<Rightarrow> u8 list" where
  "unblk w = map (\<lambda>i. ucast (drop_bit (8 * (15 - i)) w)) [0..<16]"

text \<open>Section 7.1 for an IV of 96 bits and a tag of 128 bits.\<close>

definition gcm_ae :: "(u8 list \<Rightarrow> u8 list) \<Rightarrow> u8 list \<Rightarrow> u8 list \<Rightarrow> u8 list \<Rightarrow> u8 list \<times> u8 list" where
  "gcm_ae E iv A P =
     (let C = gctr E iv 2 P
      in (C, unblk (gcm_ghash (blk (E (replicate 16 0))) A C XOR blk (E (iv @ be32 1)))))"

lemma unblk_blk: "length x = 16 \<Longrightarrow> unblk (blk x) = x"
proof (rule nth_equalityI)
  fix i
  assume x: "length x = 16" and "i < length (unblk (blk x))"
  then have i: "i < 16" by (simp add: unblk_def)
  show "unblk (blk x) ! i = x ! i"
  proof (rule bit_word_eqI)
    fix n
    assume "n < LENGTH(8)"
    then have n: "n < 8" by simp
    let ?m = "8 * (15 - i) + n"
    have m: "?m div 8 = 15 - i" "?m mod 8 = n" "?m < 8 * 16" using n i by simp_all
    have "unblk (blk x) ! i = ucast (drop_bit (8 * (15 - i)) (blk x))" using i by (simp add: unblk_def)
    then have "bit (unblk (blk x) ! i) n \<longleftrightarrow> bit (blk x) ?m" using n by (simp add: bit_ucast_iff bit_drop_bit_eq)
    also have "\<dots> \<longleftrightarrow> bit (x ! (16 - Suc (15 - i))) n"
      using bit_blk [of x ?m] x m by (simp only: order_refl simp_thms)
    also have "16 - Suc (15 - i) = i" using i by simp
    finally show "bit (unblk (blk x) ! i) n \<longleftrightarrow> bit (x ! i) n" .
  qed
qed (simp add: unblk_def)

section \<open>Buffers in pieces\<close>

lemma load_append [simp]: "off = length pre \<Longrightarrow> n = length m \<Longrightarrow> load off n (pre @ m @ post) = Some m"
  by (simp add: load_def)

lemma store_append [simp]:
  "off = length pre \<Longrightarrow> length src = length m \<Longrightarrow> store off src (pre @ m @ post) = Some (pre @ src @ post)"
  by (simp add: store_def blit_def)

definition block_cipher :: "tls_aes \<Rightarrow> (u8 list \<Rightarrow> u8 list) \<Rightarrow> bool" where
  "block_cipher aes E \<longleftrightarrow>
     (\<forall>b. length b = 16 \<longrightarrow> aes_encrypt_one_block aes b = Some (E b) \<and> length (E b) = 16)"

lemma block_cipherD:
  "block_cipher aes E \<Longrightarrow> length b = 16 \<Longrightarrow> aes_encrypt_one_block aes b = Some (E b)"
  "block_cipher aes E \<Longrightarrow> length b = 16 \<Longrightarrow> length (E b) = 16"
  by (simp_all add: block_cipher_def)

lemma length_le_bytes32 [simp]: "length (le_bytes32 w) = 4"
  by simp

lemma set_counter: "length iv = 12 \<Longrightarrow> set_counter (iv @ z) (of_nat n) = iv @ be32 n"
  by (simp add: set_counter_def be32_def le_bytes32_swap)

lemma length_counter_block [simp]: "length iv = 12 \<Longrightarrow> length (iv @ be32 n) = 16"
  by (simp add: be32_def)

lemma split_block:
  assumes "d \<noteq> []"
  obtains d1 d2 where "d = d1 @ d2" "take 16 d = d1" "drop 16 d = d2"
    "length d1 = (if 16 < length d then 16 else length d)" "length d2 < length d"
proof (rule that [of "take 16 d" "drop 16 d"])
  have "0 < length d" using assms by simp
  then show "length (drop 16 d) < length d" by (simp only: length_drop diff_less zero_less_numeral)
  show "length (take 16 d) = (if 16 < length d then 16 else length d)" by simp
qed (simp only: append_take_drop_id, rule refl, rule refl)

lemma xorbuf_all: "length d = n \<Longrightarrow> n \<le> length s \<Longrightarrow> xorbuf d s n = map2 (XOR) d s"
  by (auto simp: xorbuf_def xorbuf3_def intro: nth_equalityI)

lemma xorbuf3_all: "length d = n \<Longrightarrow> length s = n \<Longrightarrow> n \<le> length k \<Longrightarrow> xorbuf3 d k s n = map2 (XOR) s k"
  by (auto simp: xorbuf3_def xor.commute intro: nth_equalityI)

lemma encrypt_loop_step:
  assumes "r \<noteq> 0" "m = (if 16 < r then 16 else r)" "aes_encrypt_one_block aes (set_counter nonce (cnt + 1)) = Some k"
    "load off m buf = Some d" "store off (xorbuf d k m) buf = Some buf'"
  shows "aesgcm_encrypt_loop aes nonce cnt off r buf = aesgcm_encrypt_loop aes nonce (cnt + 1) (off + m) (r - m) buf'"
  using assms(1,3-) unfolding assms(2) by (subst aesgcm_encrypt_loop.simps) (simp add: Let_def)

lemma encrypt_loop_gctr:
  assumes E: "block_cipher aes E" and iv: "length iv = 12"
  shows "off = length pre \<Longrightarrow> r = length d \<Longrightarrow>
    aesgcm_encrypt_loop aes (iv @ z) (of_nat n) off r (pre @ d @ post) = Some (pre @ gctr E iv (Suc n) d @ post)"
proof (induction "length d" arbitrary: d pre n off r rule: less_induct)
  case less
  show ?case
  proof (cases "d = []")
    case True
    then show ?thesis using less.prems by (simp add: aesgcm_encrypt_loop.simps gctr.simps)
  next
    case False
    then obtain d1 d2 where d: "d = d1 @ d2" "take 16 d = d1" "drop 16 d = d2"
      "length d1 = (if 16 < length d then 16 else length d)" "length d2 < length d" by (rule split_block)
    let ?k = "E (iv @ be32 (Suc n))"
    have k: "aes_encrypt_one_block aes (iv @ be32 (Suc n)) = Some ?k" "length ?k = 16"
      using iv by (simp_all only: block_cipherD [OF E] length_counter_block)
    let ?x = "map2 (XOR) d1 ?k"
    have x: "length ?x = length d1" using d(4) k(2) by simp
    have c: "set_counter (iv @ z) (of_nat n + 1) = iv @ be32 (Suc n)"
      using set_counter [OF iv, of z "Suc n"] by (simp add: add.commute)
    have "aesgcm_encrypt_loop aes (iv @ z) (of_nat n) off r (pre @ d @ post) =
        aesgcm_encrypt_loop aes (iv @ z) (of_nat (Suc n)) (length (pre @ ?x)) (length d2) ((pre @ ?x) @ d2 @ post)"
    proof -
      have "xorbuf d1 ?k (length d1) = ?x" using d(4) k(2) by (intro xorbuf_all) simp_all
      then have ls: "load off (length d1) (pre @ d @ post) = Some d1"
        "store off (xorbuf d1 ?k (length d1)) (pre @ d @ post) = Some ((pre @ ?x) @ d2 @ post)"
        using less.prems(1) x by (simp_all add: d(1))
      have r: "r \<noteq> 0" "length d1 = (if 16 < r then 16 else r)" using False d(4) less.prems(2) by simp_all
      have k': "aes_encrypt_one_block aes (set_counter (iv @ z) (of_nat n + 1)) = Some ?k" using k(1) by (simp only: c)
      have "r - length d1 = length d2" using arg_cong [OF d(1), of length] less.prems(2) by simp
      moreover have "off + length d1 = length (pre @ ?x)" using x less.prems(1) by simp
      moreover have "of_nat n + 1 = (of_nat (Suc n) :: u32)" by simp
      ultimately show ?thesis using encrypt_loop_step [OF r k' ls] by (simp only:)
    qed
    also have "\<dots> = Some ((pre @ ?x) @ gctr E iv (Suc (Suc n)) d2 @ post)"
      by (rule less.hyps [OF d(5) refl refl])
    also have "(pre @ ?x) @ gctr E iv (Suc (Suc n)) d2 @ post = pre @ gctr E iv (Suc n) d @ post"
      using False d(2,3) by (simp add: gctr.simps [of E iv "Suc n"])
    finally show ?thesis .
  qed
qed

lemma decrypt_loop_step:
  assumes "r \<noteq> 0" "m = (if 16 < r then 16 else r)" "aes_encrypt_one_block aes (set_counter nonce (cnt + 1)) = Some k"
    "load off m buf = Some d" "load (off + 8) m buf = Some s" "store off (xorbuf3 d k s m) buf = Some buf'"
  shows "aesgcm_decrypt_loop aes nonce cnt off r buf = aesgcm_decrypt_loop aes nonce (cnt + 1) (off + m) (r - m) buf'"
  using assms(1,3-) unfolding assms(2) by (subst aesgcm_decrypt_loop.simps) (simp add: Let_def)

text \<open>The window \<open>w\<close> of 8 bytes between what is written and what is still to be read.\<close>

lemma decrypt_loop_gctr:
  assumes E: "block_cipher aes E" and iv: "length iv = 12"
  shows "off = length pre \<Longrightarrow> r = length d \<Longrightarrow> length w = 8 \<Longrightarrow>
    \<exists>w'. length w' = 8 \<and> aesgcm_decrypt_loop aes (iv @ z) (of_nat n) off r (pre @ w @ d @ post) =
      Some (pre @ gctr E iv (Suc n) d @ w' @ post)"
proof (induction "length d" arbitrary: d pre n off r w rule: less_induct)
  case less
  show ?case
  proof (cases "d = []")
    case True
    then show ?thesis using less.prems by (simp add: aesgcm_decrypt_loop.simps gctr.simps)
  next
    case False
    then obtain d1 d2 where d: "d = d1 @ d2" "take 16 d = d1" "drop 16 d = d2"
      "length d1 = (if 16 < length d then 16 else length d)" "length d2 < length d" by (rule split_block)
    let ?k = "E (iv @ be32 (Suc n))" and ?w = "drop (length d1) (w @ d1)" and ?b = "pre @ w @ d @ post"
    have k: "aes_encrypt_one_block aes (iv @ be32 (Suc n)) = Some ?k" "length ?k = 16"
      using iv by (simp_all only: block_cipherD [OF E] length_counter_block)
    have c: "set_counter (iv @ z) (of_nat n + 1) = iv @ be32 (Suc n)"
      using set_counter [OF iv, of z "Suc n"] by (simp add: add.commute)
    let ?x = "map2 (XOR) d1 ?k" and ?o = "take (length d1) (w @ d1)"
    have x: "length ?x = length d1" using d(4) k(2) by simp
    have b: "?b = pre @ ?o @ ?w @ d2 @ post" "?b = (pre @ w) @ d1 @ d2 @ post"
      using append_take_drop_id [of "length d1" "w @ d1"] by (simp_all add: d(1))
    have o: "length ?o = length d1" by simp
    have "xorbuf3 ?o ?k d1 (length d1) = ?x" using d(4) k(2) o by (intro xorbuf3_all) simp_all
    then have st: "store off (xorbuf3 ?o ?k d1 (length d1)) ?b = Some (pre @ ?x @ ?w @ d2 @ post)"
      using store_append [of off pre ?x ?o "?w @ d2 @ post"] less.prems(1) x o by (simp only: b(1))
    have l1: "load off (length d1) ?b = Some ?o"
      using load_append [of off pre "length d1" ?o "?w @ d2 @ post"] less.prems(1) o by (simp only: b(1))
    have l2: "load (off + 8) (length d1) ?b = Some d1"
      using load_append [of "off + 8" "pre @ w" "length d1" d1 "d2 @ post"] less.prems(1,3)
      by (simp only: b(2)) simp
    have r: "r \<noteq> 0" "length d1 = (if 16 < r then 16 else r)" using False d(4) less.prems(2) by simp_all
    have k': "aes_encrypt_one_block aes (set_counter (iv @ z) (of_nat n + 1)) = Some ?k" using k(1) by (simp only: c)
    have "r - length d1 = length d2" using arg_cong [OF d(1), of length] less.prems(2) by simp
    moreover have "off + length d1 = length (pre @ ?x)" using x less.prems(1) by simp
    moreover have "of_nat n + 1 = (of_nat (Suc n) :: u32)" by simp
    ultimately have step: "aesgcm_decrypt_loop aes (iv @ z) (of_nat n) off r ?b =
        aesgcm_decrypt_loop aes (iv @ z) (of_nat (Suc n)) (length (pre @ ?x)) (length d2) ((pre @ ?x) @ ?w @ d2 @ post)"
      using decrypt_loop_step [OF r k' l1 l2 st] by (simp only: append_assoc)
    have "length ?w = 8" using less.prems(3) by simp
    then obtain w' where "length w' = 8" "aesgcm_decrypt_loop aes (iv @ z) (of_nat (Suc n)) (length (pre @ ?x)) (length d2)
        ((pre @ ?x) @ ?w @ d2 @ post) = Some ((pre @ ?x) @ gctr E iv (Suc (Suc n)) d2 @ w' @ post)"
      using less.hyps [OF d(5) refl refl] by blast
    moreover have "gctr E iv (Suc n) d = ?x @ gctr E iv (Suc (Suc n)) d2"
      using False d(2,3) by (simp add: gctr.simps [of E iv "Suc n"])
    ultimately show ?thesis using step by (simp only: append_assoc) blast
  qed
qed

lemma map2_xor_twice: "length d \<le> length k \<Longrightarrow> map2 (XOR) (map2 (XOR) d k) k = d" for d k :: "u8 list"
proof (induction d arbitrary: k)
  case (Cons a d)
  then show ?case by (cases k) (auto simp: xor.assoc)
qed simp

lemma gctr_gctr:
  assumes "\<And>n. length (E (iv @ be32 n)) = 16"
  shows "gctr E iv n (gctr E iv n x) = x"
proof (induction "length x" arbitrary: x n rule: less_induct)
  case less
  show ?case
  proof (cases "x = []")
    case False
    then obtain d1 d2 where d: "x = d1 @ d2" "take 16 x = d1" "drop 16 x = d2"
      "length d1 = (if 16 < length x then 16 else length x)" "length d2 < length x" by (rule split_block)
    let ?k = "E (iv @ be32 n)" and ?r = "gctr E iv (Suc n) d2"
    let ?x = "map2 (XOR) d1 ?k"
    have g: "gctr E iv n x = ?x @ ?r" using False d(2,3) by (simp add: gctr.simps [of E iv n])
    have xx: "map2 (XOR) ?x ?k = d1"
      using d(4) assms [of n] by (intro map2_xor_twice) simp
    have "length ?x = 16 \<or> (length ?x < 16 \<and> ?r = [])"
      using d(3,4) assms [of n] by (auto simp: gctr.simps [of E iv "Suc n" "[]"])
    then have t: "take 16 (?x @ ?r) = ?x" "drop 16 (?x @ ?r) = ?r" by auto
    have "?x @ ?r \<noteq> []" using False d(4) assms [of n] by (auto split: if_splits)
    then have "gctr E iv n (?x @ ?r) = map2 (XOR) ?x ?k @ gctr E iv (Suc n) ?r"
      by (subst gctr.simps) (simp only: t if_False)
    then show ?thesis using g xx less.hyps [OF d(5), of "Suc n"] d(1) by simp
  qed (simp add: gctr.simps)
qed

lemma length_gctr:
  assumes "\<And>n. length (E (iv @ be32 n)) = 16"
  shows "length (gctr E iv n x) = length x"
proof (induction "length x" arbitrary: x n rule: less_induct)
  case less
  show ?case
  proof (cases "x = []")
    case False
    then have "length (drop 16 x) < length x" by (cases x) auto
    from less.hyps [OF this, of "Suc n"] show ?thesis
      using False assms [of n] by (simp add: gctr.simps [of E iv n x] min_def)
  qed (simp add: gctr.simps)
qed

section \<open>Writing under AES-GCM\<close>

lemma split_pre:
  assumes "length pre = 24"
  obtains p h g e where "pre = p @ h @ g @ e" "length p = 11" "length h = 1" "length g = 4" "length e = 8"
proof (rule that)
  show "pre = take 11 pre @ take 1 (drop 11 pre) @ take 4 (drop 12 pre) @ drop 16 pre"
    using append_take_drop_id [of 11 pre] append_take_drop_id [of 1 "drop 11 pre"]
      append_take_drop_id [of 4 "drop 12 pre"] by simp
qed (use assms in simp_all)

text \<open>The record on the wire.\<close>

definition gcm_record :: "(u8 list \<Rightarrow> u8 list) \<Rightarrow> u8 list \<Rightarrow> u64 \<Rightarrow> u8 \<Rightarrow> u8 list \<Rightarrow> u8 list" where
  "gcm_record E iv4 seq ty P =
     (let s = le_bytes64 seq; n = length P;
          (C, T) = gcm_ae E (iv4 @ s) (s @ [ty, 3, 3, len_hi n, len_lo n]) P
      in [ty, 3, 3, len_hi (n + 24), len_lo (n + 24)] @ s @ C @ T)"

lemma gcm_aad_eq: "gcm_aad seq ty n = (le_bytes64 seq @ [ty, 3, 3, len_hi n, len_lo n]) @ [0, 0, 0]"
proof -
  have b: "bit (of_nat n AND 255 :: u32) k \<Longrightarrow> k < 8" for k
  proof -
    have "(255 :: u32) = mask 8" by (simp add: mask_eq_exp_minus_1)
    then show "bit (of_nat n AND 255 :: u32) k \<Longrightarrow> k < 8" by (simp only: bit_and_iff bit_mask_iff)
  qed
  have z: "ucast (drop_bit (8 * i) w) = (0 :: u8)" if "\<And>k. bit w k \<Longrightarrow> k < 8" "0 < i" for i and w :: u32
    using that(1) [of "8 * i + k" for k] that(2) by (intro bit_word_eqI) (auto simp: bit_simps)
  from z [OF b, of 1] z [OF b, of 2] z [OF b, of 3]
  have "le_bytes32 (of_nat n AND 255) = [len_lo n, 0, 0, 0]"
    by (simp add: le_bytes32_4 len_lo_def)
  then show ?thesis by (simp add: gcm_aad_def)
qed

text \<open>The accesses of \<open>xwrite_encrypted_aesgcm\<close> to its buffer, in pieces.\<close>

lemma gcm_buffer:
  fixes p h g e s P C t T q :: "u8 list"
  assumes "length p = 11" "length h = 1" "length g = 4" "length e = 8" "length s = 8" "length C = length P"
    "length t = 16" "length T = 16" "length hd4 = 4"
  shows "store 11 [ty] (p @ h @ g @ e @ P @ t @ q) = Some (p @ [ty] @ g @ e @ P @ t @ q)"
    "store 16 s (p @ [ty] @ g @ e @ P @ t @ q) = Some ((p @ [ty] @ g) @ s @ P @ t @ q)"
    "load 24 (length P) ((p @ [ty] @ g @ s) @ C @ t @ q) = Some C"
    "store (24 + length P) T ((p @ [ty] @ g @ s) @ C @ t @ q) = Some (p @ [ty] @ g @ s @ C @ T @ q)"
    "store 12 hd4 (p @ [ty] @ g @ s @ C @ T @ q) = Some ((p @ [ty]) @ hd4 @ s @ C @ T @ q)"
    "load 11 (length P + 24 + 5) ((p @ [ty]) @ hd4 @ s @ C @ T @ q) = Some ([ty] @ hd4 @ s @ C @ T)"
  using assms store_append [of 16 "p @ [ty] @ g" s e "P @ t @ q"] store_append [of 24 "p @ [ty] @ g @ s"]
    store_append [of "24 + length P" "(p @ [ty] @ g @ s) @ C" T t q] store_append [of 12 "p @ [ty]" hd4 g "s @ C @ T @ q"]
    load_append [of 24 "p @ [ty] @ g @ s" "length P" C "t @ q"]
    load_append [of 11 p "length P + 24 + 5" "[ty] @ hd4 @ s @ C @ T" q]
  by simp_all

text \<open>The tag: GHASH, masked with the first counter block.\<close>

lemma gcm_tag:
  assumes E: "block_cipher aes E" and iv: "length iv = 12" and A: "length A = 13" and C: "length C < 2 ^ 29"
  shows "\<exists>T0. aesgcm_GHASH (E (replicate 16 0)) (A @ [0, 0, 0]) C (of_nat (length C)) = Some T0 \<and>
    xorbuf_aligned_AES_BLOCK_SIZE T0 (E (iv @ be32 1)) =
      unblk (gcm_ghash (blk (E (replicate 16 0))) A C XOR blk (E (iv @ be32 1)))"
proof -
  have k: "length (E (iv @ be32 1)) = 16" "length (E (replicate 16 0)) = 16"
    using block_cipherD(2) [OF E length_counter_block [OF iv]] block_cipherD(2) [OF E, of "replicate 16 0"] by simp_all
  obtain T0 where T0: "aesgcm_GHASH (E (replicate 16 0)) (A @ [0, 0, 0]) C (of_nat (length C)) = Some T0"
    "length T0 = 16" "blk T0 = gcm_ghash (blk (E (replicate 16 0))) A C"
    using aesgcm_GHASH_correct [OF k(2) A C] by blast
  let ?T = "xorbuf_aligned_AES_BLOCK_SIZE T0 (E (iv @ be32 1))"
  have "blk ?T = gcm_ghash (blk (E (replicate 16 0))) A C XOR blk (E (iv @ be32 1))"
    using T0(2,3) k(1) by (simp add: blk_xorbuf_aligned)
  then have "?T = unblk (gcm_ghash (blk (E (replicate 16 0))) A C XOR blk (E (iv @ be32 1)))"
    using unblk_blk [of ?T] by simp
  then show ?thesis using T0(1) by blast
qed

lemma gcm_write:
  assumes E: "block_cipher (aes_encrypt tls) E" and H: "gcm_H tls = E (replicate 16 0)"
    and iv: "length (client_write_IV tls) = 4"
    and buf: "outbuf tls = pre @ P @ post" "length pre = 24" "16 \<le> length post" and P: "length P < 2 ^ 29"
  shows "\<exists>buf'. length buf' = length (outbuf tls) \<and> xwrite_encrypted_aesgcm tls (length P) ty =
    Some (tls\<lparr>outbuf := buf', write_seq64_be := next_seq (write_seq64_be tls),
      written := written tls @ [gcm_record E (client_write_IV tls) (write_seq64_be tls) ty P]\<rparr>)"
proof -
  let ?s = "le_bytes64 (write_seq64_be tls)" and ?n = "length P"
  let ?iv = "client_write_IV tls @ ?s" and ?A = "?s @ [ty, 3, 3, len_hi ?n, len_lo ?n]"
  let ?nonce = "?iv @ [0, 0, 0, 0]"
  obtain p h g e where pre: "pre = p @ h @ g @ e" "length p = 11" "length h = 1" "length g = 4" "length e = 8"
    using buf(2) by (rule split_pre)
  obtain t q where post: "post = t @ q" "length t = 16"
    using buf(3) by (metis append_take_drop_id length_take min.absorb2)
  have ivl: "length ?iv = 12" using iv by simp
  define C where "C = gctr E ?iv 2 P"
  have k: "length (E (?iv @ be32 n)) = 16" for n using block_cipherD(2) [OF E length_counter_block [OF ivl]] .
  have lC: "length C = ?n" unfolding C_def by (rule length_gctr) (rule k)
  have s3: "aesgcm_encrypt_loop (aes_encrypt tls) ?nonce 1 24 ?n ((p @ [ty] @ g) @ ?s @ P @ t @ q) =
      Some ((p @ [ty] @ g @ ?s) @ C @ t @ q)"
    using encrypt_loop_gctr [OF E ivl, of 24 "p @ [ty] @ g @ ?s" ?n P "[0, 0, 0, 0]" 1 "t @ q"] pre
    by (simp add: C_def numeral_2_eq_2)
  obtain T0 where T0: "aesgcm_GHASH (gcm_H tls) (gcm_aad (write_seq64_be tls) ty ?n) C (of_nat ?n) = Some T0"
    "xorbuf_aligned_AES_BLOCK_SIZE T0 (E (?iv @ be32 1)) =
      unblk (gcm_ghash (blk (E (replicate 16 0))) ?A C XOR blk (E (?iv @ be32 1)))"
    using gcm_tag [OF E ivl, of ?A C] P lC by (auto simp: gcm_aad_eq H)
  let ?k = "E (?iv @ be32 1)"
  have s5: "aes_encrypt_one_block (aes_encrypt tls) (set_counter ?nonce 1) = Some ?k"
    using block_cipherD(1) [OF E length_counter_block [OF ivl]] set_counter [OF ivl, of "[0, 0, 0, 0]" 1] by simp
  define T where "T = xorbuf_aligned_AES_BLOCK_SIZE T0 ?k"
  have T: "length T = 16" by (simp add: T_def)
  let ?h = "[3, 3, len_hi (?n + 24), len_lo (?n + 24)]"
  have hd: "length ?h = 4" by simp
  note s = gcm_buffer [OF pre(2-5) length_le_bytes(2) lC post(2) T hd, where ty = ty and q = q]
  have "gcm_record E (client_write_IV tls) (write_seq64_be tls) ty P = [ty] @ ?h @ ?s @ C @ T"
    using T0(2) by (simp add: T_def gcm_record_def gcm_ae_def Let_def C_def)
  moreover have "xwrite_encrypted_aesgcm tls ?n ty = Some (tls\<lparr>outbuf := (p @ [ty]) @ ?h @ ?s @ C @ T @ q,
      write_seq64_be := next_seq (write_seq64_be tls), written := written tls @ [[ty] @ ?h @ ?s @ C @ T]\<rparr>)"
    using s s3 T0(1) s5 iv pre(1) post(1) buf(1)
    by (simp add: xwrite_encrypted_aesgcm_def OUTBUF_PFX_def RECHDR_LEN_def Let_def T_def)
  moreover have "length ((p @ [ty]) @ ?h @ ?s @ C @ T @ q) = length (outbuf tls)"
    using pre post(2) lC T by (simp add: buf(1) post(1))
  ultimately show ?thesis by (intro exI [of _ "(p @ [ty]) @ ?h @ ?s @ C @ T @ q"] conjI) (simp_all only:)
qed

section \<open>Reading under AES-GCM\<close>

lemma gcm_read:
  assumes E: "block_cipher (aes_decrypt tls) E" and iv: "length (server_write_IV tls) = 4" and e: "length e = 8"
    and f: "flags tls AND ENCRYPTION_AESGCM \<noteq> 0" "min_encrypted_len_on_read tls = 24"
    and b: "length hdr = 5" "length tag = 16"
  shows "\<exists>w. length w = 8 \<and> decrypt_record tls (hdr @ e @ C @ tag @ rest) (int (length C + 24)) =
    Some (hdr @ gctr E (server_write_IV tls @ e) 2 C @ w @ tag @ rest, int (length C))"
proof -
  let ?iv = "server_write_IV tls @ e"
  have ivl: "length ?iv = 12" using iv e by simp
  obtain w where w: "length w = 8" "aesgcm_decrypt_loop (aes_decrypt tls) (?iv @ [0, 0, 0, 0]) (of_nat 1) 5 (length C)
      (hdr @ e @ C @ tag @ rest) = Some (hdr @ gctr E ?iv (Suc 1) C @ w @ tag @ rest)"
    using decrypt_loop_gctr [OF E ivl, of 5 hdr "length C" C e "[0, 0, 0, 0]" 1 "tag @ rest"] b e by auto
  have "load 5 8 (hdr @ e @ C @ tag @ rest) = Some e" using b e by (intro load_append) simp_all
  then have "tls_aesgcm_decrypt tls 5 (length C) (hdr @ e @ C @ tag @ rest) =
      Some (hdr @ gctr E ?iv 2 C @ w @ tag @ rest)"
    using w(2) iv by (simp add: tls_aesgcm_decrypt_def numeral_2_eq_2)
  then show ?thesis using f w(1) by (auto simp: decrypt_record_def RECHDR_LEN_def Let_def)
qed

lemma setkey_block_cipher:
  assumes "length kb \<in> {16, 24, 32}" "length (key aes) = 60" "aes_setkey aes kb = Some a"
  shows "block_cipher a (ref_cipher (key_word (length kb div 4) kb) (6 + length kb div 4))" "aes_ok a"
proof -
  let ?nk = "length kb div 4"
  have a: "aes_ok a" "rounds a = of_nat (6 + ?nk)" "\<forall>i < 28 + length kb. key a ! i = key_word ?nk kb i"
    using aes_setkey_ref [OF assms(1,2)] assms(3) by auto
  have "28 + length kb = 4 * (6 + ?nk) + 4" "6 + ?nk \<le> 14" using assms(1) by auto
  then have "aes_encrypt_one_block a b = Some (ref_cipher (key_word ?nk kb) (6 + ?nk) b)" if "length b = 16" for b
    using a that by (intro encrypt_block_ref) (simp_all add: aes_ok_def)
  then show "block_cipher a (ref_cipher (key_word ?nk kb) (6 + ?nk))"
    by (simp add: block_cipher_def ref_cipher_def)
  show "aes_ok a" by (rule a)
qed

section \<open>Records under AES-CBC\<close>

lemma padding_loop_fills:
  assumes "length X = OUTBUF_PFX + n" "length m = 16 - n mod 16"
  shows "padding_loop p n (X @ m @ post) = Some (n + length m, X @ replicate (length m) p @ post)"
  using assms
proof (induction "length m" arbitrary: m n X)
  case 0
  then show ?case by simp
next
  case (Suc k)
  obtain b m' where m: "m = b # m'" using Suc.hyps(2) by (cases m) auto
  have s: "store (OUTBUF_PFX + n) [p] (X @ m @ post) = Some ((X @ [p]) @ m' @ post)"
    using store_append [of "OUTBUF_PFX + n" X "[p]" "[b]" "m' @ post"] Suc.prems(1) m by simp
  show ?case
  proof (cases "Suc n mod 16 = 0")
    case True
    then have "n mod 16 = 15" by presburger
    then have "m' = []" using Suc.prems(2) m by simp
    then show ?thesis using s True m by (subst padding_loop.simps) simp
  next
    case False
    then have "length m' = 16 - Suc n mod 16" using Suc.prems(2) m by (simp add: mod_Suc split: if_splits)
    then have "padding_loop p (Suc n) ((X @ [p]) @ m' @ post) =
        Some (Suc n + length m', (X @ [p]) @ replicate (length m') p @ post)"
      using Suc.hyps(2) Suc.prems(1) m by (intro Suc.hyps(1)) simp_all
    then show ?thesis using s False m by (subst padding_loop.simps) simp
  qed
qed

lemma padding_byte: "uint (ucast (NOT (of_nat n) AND 15 :: u32) :: u8) = 15 - int n mod 16"
proof -
  have m: "uint (w AND 15) = uint w mod 16" for w :: u32
  proof -
    have "w AND 15 = take_bit 4 w" by (simp add: take_bit_eq_mask mask_eq_exp_minus_1)
    then have "uint (w AND 15) = take_bit 4 (uint w)" by (simp only: unsigned_take_bit_eq)
    then show ?thesis by (simp add: take_bit_eq_mod)
  qed
  have "NOT (of_nat n :: u32) = of_int (- 1 - int n)" by (simp add: not_eq_complement)
  then have "uint (NOT (of_nat n :: u32)) = (- 1 - int n) mod 2 ^ 32"
    by (simp only: uint_word_of_int) simp
  then have "uint (NOT (of_nat n) AND 15 :: u32) = (- 1 - int n) mod 2 ^ 32 mod 16" by (simp only: m)
  also have "\<dots> = (- 1 - int n) mod 16" by (simp add: mod_mod_cancel)
  also have "\<dots> = 15 - int n mod 16"
  proof -
    have "(- 1 - int n) mod 16 = (15 - int n mod 16 + 16 * (- 1 - int n div 16)) mod 16"
      using mult_div_mod_eq [of 16 "int n"] by (intro arg_cong [of _ _ "\<lambda>k. k mod 16"]) (simp add: algebra_simps)
    also have "\<dots> = (15 - int n mod 16) mod 16" by (rule mod_mult_self2)
    also have "\<dots> = 15 - int n mod 16"
      using pos_mod_bound [of 16 "int n"] pos_mod_sign [of 16 "int n"] by (intro mod_pos_pos_trivial) linarith+
    finally show ?thesis .
  qed
  finally have v: "uint (NOT (of_nat n) AND 15 :: u32) = 15 - int n mod 16" .
  have "uint (ucast (NOT (of_nat n) AND 15 :: u32) :: u8) = uint (NOT (of_nat n) AND 15 :: u32) mod 256"
    by (simp add: unsigned_ucast_eq take_bit_eq_mod)
  also have "\<dots> = 15 - int n mod 16" 
    unfolding v using pos_mod_bound [of 16 "int n"] pos_mod_sign [of 16 "int n"]
    by (intro mod_pos_pos_trivial) linarith+
  finally show ?thesis .
qed

text \<open>The plaintext of a block of section 6.2.3.2 of RFC 5246: content, MAC and padding.\<close>

definition cbc_plain :: "u8 list \<Rightarrow> u64 \<Rightarrow> u8 \<Rightarrow> u8 list \<Rightarrow> u8 list" where
  "cbc_plain mac_key seq ty P =
     (let n = length P; k = 16 - (n + 32) mod 16
      in P @ hmac_sha256 mac_key (le_bytes64 seq @ [ty, 3, 3, len_hi n, len_lo n] @ P) @
         replicate k (of_nat (k - 1)))"

lemma length_cbc_plain: "length (cbc_plain K seq ty P) = length P + 32 + (16 - (length P + 32) mod 16)"
  by (simp add: cbc_plain_def Let_def)

lemma length_cbc_plain_mod: "length (cbc_plain K seq ty P) mod 16 = 0"
proof -
  have "n + (16 - n mod 16) = 16 * Suc (n div 16)" for n :: nat
  proof -
    obtain r d where "n mod 16 = r" "n div 16 = d" "r < 16" by simp
    then show ?thesis using mult_div_mod_eq [of 16 n] by simp
  qed
  from this [of "length P + 32"] show ?thesis by (simp only: length_cbc_plain) simp
qed

lemma uint_byte_of_nat: "m < 256 \<Longrightarrow> uint (of_nat m :: u8) = int m"
  by (simp add: unsigned_of_nat take_bit_nat_eq_self)

lemma padding_value: "ucast (NOT (of_nat n) AND 15 :: u32) = (of_nat (16 - n mod 16 - 1) :: u8)"
proof -
  have "16 - n mod 16 - 1 < 256" by (rule le_less_trans [of _ 16]) simp_all
  then have "uint (of_nat (16 - n mod 16 - 1) :: u8) = int (16 - n mod 16 - 1)" by (rule uint_byte_of_nat)
  also have "\<dots> = 15 - int n mod 16" by (simp add: of_nat_diff zmod_int)
  finally show ?thesis using padding_byte [of n] by (simp add: word_uint_eq_iff)
qed

lemma split_pre_cbc:
  assumes "length pre = 24"
  obtains p h i where "pre = p @ h @ i" "length p = 3" "length h = 5" "length i = 16"
proof (rule that)
  show "pre = take 3 pre @ take 5 (drop 3 pre) @ drop 8 pre"
    using append_take_drop_id [of 3 pre] append_take_drop_id [of 5 "drop 3 pre"] by simp
qed (use assms in simp_all)

text \<open>The accesses of \<open>xwrite_encrypted_and_hmac_signed\<close> to its buffer, in pieces.\<close>

lemma cbc_buffer:
  fixes p h i P m mac g q iv pt ct :: "u8 list" and ty :: u8
  assumes "length p = 3" "length h = 5" "length i = 16" "length iv = 16" "length m = 32" "length mac = 32"
    "length ct = length pt"
  defines "hdr n \<equiv> [ty, 3, 3, len_hi n, len_lo n]"
  shows "store 3 (hdr n) (p @ h @ i @ P @ m @ g @ q) = Some (p @ hdr n @ i @ P @ m @ g @ q) \<and>
    load 3 5 (p @ hdr n @ i @ P @ m @ g @ q) = Some (hdr n) \<and>
    load 24 (length P) (p @ hdr n @ i @ P @ m @ g @ q) = Some P \<and>
    store (24 + length P) mac (p @ hdr n @ i @ P @ m @ g @ q) = Some (p @ hdr n @ i @ P @ mac @ g @ q) \<and>
    store 8 iv (p @ hdr n @ i @ P @ mac @ g @ q) = Some (p @ hdr n @ iv @ P @ mac @ g @ q) \<and>
    load 8 16 (p @ hdr n @ iv @ pt @ q) = Some iv \<and>
    load 24 (length ct) (p @ hdr n @ iv @ pt @ q) = Some pt \<and>
    store 24 ct (p @ hdr n @ iv @ pt @ q) = Some (p @ hdr n @ iv @ ct @ q) \<and>
    store 6 [len_hi k, len_lo k] (p @ hdr n @ iv @ ct @ q) = Some (p @ (hdr k @ iv @ ct) @ q) \<and>
    load 3 (5 + (length ct + 16)) (p @ (hdr k @ iv @ ct) @ q) = Some (hdr k @ iv @ ct)"
  unfolding hdr_def
  using assms(1-7) load_append [of 24 "p @ [ty, 3, 3, len_hi n, len_lo n] @ i" "length P" P "m @ g @ q"]
    store_append [of "24 + length P" "p @ [ty, 3, 3, len_hi n, len_lo n] @ i @ P" mac m "g @ q"]
    store_append [of 8 "p @ [ty, 3, 3, len_hi n, len_lo n]" iv i "P @ mac @ g @ q"]
    load_append [of 8 "p @ [ty, 3, 3, len_hi n, len_lo n]" 16 iv "pt @ q"]
    load_append [of 24 "p @ [ty, 3, 3, len_hi n, len_lo n] @ iv" "length ct" pt q]
    store_append [of 24 "p @ [ty, 3, 3, len_hi n, len_lo n] @ iv" ct pt q]
    store_append [of 6 "p @ [ty, 3, 3]" "[len_hi k, len_lo k]" "[len_hi n, len_lo n]" "iv @ ct @ q"]
    store_append [of 3 p "[ty, 3, 3, len_hi n, len_lo n]" h "i @ P @ m @ g @ q"]
    load_append [of 3 p 5 "[ty, 3, 3, len_hi n, len_lo n]" "i @ P @ m @ g @ q"]
    load_append [of 3 p "5 + (length ct + 16)" "[ty, 3, 3, len_hi k, len_lo k] @ iv @ ct" q]
  by simp

lemma cbc_write:
  fixes ty :: u8
  assumes a: "aes_ok (aes_encrypt tls)" and iv: "length iv = 16" and K: "32 \<le> length (client_write_MAC_key tls)"
    and buf: "outbuf tls = pre @ P @ post" "length pre = 24" "48 \<le> length post" and P: "length P < 2 ^ 29"
  defines "pt \<equiv> cbc_plain (take 32 (client_write_MAC_key tls)) (write_seq64_be tls) ty P"
  shows "\<exists>buf' ct. length ct = length pt \<and> aes_cbc_encrypt (aes_encrypt tls) iv pt = Some ct \<and>
    aes_cbc_decrypt (aes_encrypt tls) iv ct = Some pt \<and>
    xwrite_encrypted_and_hmac_signed iv tls (length P) ty =
      Some (tls\<lparr>outbuf := buf', write_seq64_be := next_seq (write_seq64_be tls),
        written := written tls @ [[ty, 3, 3, len_hi (length ct + 16), len_lo (length ct + 16)] @ iv @ ct]\<rparr>)"
proof -
  let ?n = "length P" and ?s = "le_bytes64 (write_seq64_be tls)" and ?K = "take 32 (client_write_MAC_key tls)"
  let ?h = "[ty, 3, 3, len_hi ?n, len_lo ?n]"
  let ?mac = "hmac_sha256 ?K (?s @ ?h @ P)" and ?k = "16 - (?n + 32) mod 16"
  let ?pad = "replicate ?k (of_nat (?k - 1)) :: u8 list"
  obtain p h i where pre: "pre = p @ h @ i" "length p = 3" "length h = 5" "length i = 16"
    using buf(2) by (rule split_pre_cbc)
  obtain m g q where post: "post = m @ g @ q" "length m = 32" "length g = ?k"
  proof (rule that)
    show "post = take 32 post @ take ?k (drop 32 post) @ drop ?k (drop 32 post)"
      by (simp only: append_take_drop_id)
  qed (use buf(3) in simp_all)
  have pt: "pt = P @ ?mac @ ?pad" by (simp add: pt_def cbc_plain_def Let_def)
  have lp: "length pt = 16 * (length pt div 16)"
    using length_cbc_plain_mod [of ?K "write_seq64_be tls" ty P] unfolding pt_def by (metis add.right_neutral mult_div_mod_eq)
  obtain ct where ct: "aes_cbc_encrypt (aes_encrypt tls) iv pt = Some ct" "length ct = length pt"
    "aes_cbc_decrypt (aes_encrypt tls) iv ct = Some pt"
    using aes_cbc.cbc_round_trip [OF a iv lp] iv by (auto simp: aes_cbc_encrypt_def aes_cbc_decrypt_def)
  have s4: "hmac ?K [?s, ?h, P] = Some ?mac"
    using hmac_correct [of ?K "[?s, ?h, P]"] K P by simp
  have s7: "padding_loop (ucast (NOT (of_nat (?n + 32)) AND 15 :: u32)) (?n + 32) (p @ ?h @ iv @ P @ ?mac @ g @ q) =
      Some (length ct, p @ ?h @ iv @ pt @ q)"
    using padding_loop_fills [of "p @ ?h @ iv @ P @ ?mac" "?n + 32" g "of_nat (?k - 1)" q] pre post iv ct(2)
    by (simp only: padding_value) (simp add: OUTBUF_PFX_def pt)
  let ?l = "[len_hi (length ct + 16), len_lo (length ct + 16)]"
  note s = cbc_buffer [OF pre(2-4) iv post(2) length_hmac_sha256 ct(2), where ty = ty and n = ?n and P = P and g = g and q = q]
  have "xwrite_encrypted_and_hmac_signed iv tls ?n ty = Some (tls\<lparr>outbuf := p @ ([ty, 3, 3] @ ?l @ iv @ ct) @ q,
      write_seq64_be := next_seq (write_seq64_be tls), written := written tls @ [[ty, 3, 3] @ ?l @ iv @ ct]\<rparr>)"
    unfolding xwrite_encrypted_and_hmac_signed_def Let_def OUTBUF_PFX_def RECHDR_LEN_def
    using s s4 s7 ct(1) pre(1) post(1) buf(1) by simp
  then show ?thesis using ct by (intro exI [of _ "p @ ([ty, 3, 3] @ ?l @ iv @ ct) @ q"] exI [of _ ct]) simp
qed

lemma cbc_read:
  assumes f: "flags tls AND ENCRYPTION_AESGCM = 0" "min_encrypted_len_on_read tls = 48"
    and b: "length hdr = 5" "length iv = 16" and d: "aes_cbc_decrypt (aes_decrypt tls) iv ct = Some (cbc_plain K seq ty P)"
    and ct: "length ct = length (cbc_plain K seq ty P)"
  shows "\<exists>w. decrypt_record tls (hdr @ iv @ ct @ rest) (int (length ct + 16)) = Some (hdr @ P @ w, int (length P))"
proof -
  let ?pt = "cbc_plain K seq ty P" and ?n = "length P"
  let ?k = "16 - (?n + 32) mod 16" and ?b = "hdr @ iv @ ct @ rest"
  let ?mac = "hmac_sha256 K (le_bytes64 seq @ [ty, 3, 3, len_hi ?n, len_lo ?n] @ P)"
  have "0 < ?k" by simp
  then obtain k where k: "?k = Suc k" using gr0_implies_Suc by blast
  then have k16: "k < 256" by linarith
  have pt: "?pt = (P @ ?mac @ replicate k (of_nat k)) @ [of_nat k]"
    by (simp only: cbc_plain_def Let_def k diff_Suc_1 replicate_Suc) (simp add: replicate_append_same)
  have l: "length ct = ?n + 32 + Suc k" using ct length_cbc_plain [of K seq ty P] k by simp
  have "length ct mod 16 = 0" using ct length_cbc_plain_mod by simp
  then have "int (length ct mod 16) = 0" by simp
  then have m: "int (length ct + 16) mod 16 = 0" by (simp add: zmod_int)
  have o: "?b = hdr @ take (length ct) (iv @ ct) @ drop (length ct) (iv @ ct) @ rest"
    using append_take_drop_id [of "length ct" "iv @ ct"] by simp
  let ?r = "drop (length ct) (iv @ ct) @ rest"
  have s1: "load 5 16 ?b = Some iv" using b by (intro load_append) simp_all
  have s2: "load 21 (length ct) ?b = Some ct" using load_append [of 21 "hdr @ iv" "length ct" ct rest] b by simp
  have s3: "store 5 ?pt ?b = Some (hdr @ ?pt @ ?r)" unfolding o using b ct by (intro store_append) simp_all
  have s4: "load (5 + (length ct - 1)) 1 (hdr @ ?pt @ ?r) = Some [of_nat k]"
    using load_append [of "5 + (length ct - 1)" "hdr @ P @ ?mac @ replicate k (of_nat k)" 1 "[of_nat k]" ?r] b l
    by (simp only: pt) simp
  have "uint (of_nat k :: u8) = int k" by (rule uint_byte_of_nat [OF k16])
  then have "decrypt_record tls ?b (int (length ct + 16)) = Some (hdr @ ?pt @ ?r, int ?n)"
    using f m s1 s2 d s3 s4 l by (simp add: decrypt_record_def RECHDR_LEN_def Let_def nat_add_distrib)
  then show ?thesis by (simp add: pt)
qed

section \<open>Properties\<close>

text \<open>The cipher that a key of the key schedule gives.\<close>

abbreviation aes_cipher :: "u8 list \<Rightarrow> u8 list \<Rightarrow> u8 list" where
  "aes_cipher kb \<equiv> ref_cipher (key_word (length kb div 4) kb) (6 + length kb div 4)"

lemma hash_key_cipher:
  "block_cipher a E \<Longrightarrow> aes_encrypt_one_block a (replicate 16 0) = Some H \<Longrightarrow> H = E (replicate 16 0)"
  using block_cipherD(1) [of a E "replicate 16 0"] by simp


text \<open>A state with the keys of 16 bytes 1 and a payload of three bytes.\<close>

definition sample_aes :: tls_aes where
  "sample_aes = the (aes_setkey blank_aes (replicate 16 1))"

definition sample_tls :: tls_state where
  "sample_tls = \<lparr>flags = 16, min_encrypted_len_on_read = 24, cipher_id = 0x9c, MAC_size = 0, key_size = 16,
     IV_size = 4, outbuf = replicate 24 0 @ replicate 3 7 @ replicate 48 0,
     ofs_to_buffered = 0, buffered_size = 0, inbuf = [], hsd = None, write_seq64_be = 0,
     client_write_IV = [5, 6, 7, 8], server_write_IV = [5, 6, 7, 8], client_write_MAC_key = replicate 136 9,
     aes_encrypt = sample_aes, aes_decrypt = sample_aes,
     gcm_H = the (aes_encrypt_one_block sample_aes (replicate 16 0)), written = [],
     incoming = [], reads = 0\<rparr>"

lemma sample_aes_key: "aes_setkey blank_aes (replicate 16 1) = Some sample_aes"
  using aes_setkey_ref [of "replicate 16 1" blank_aes] by (auto simp: sample_aes_def blank_aes_def)

lemma sample_key_length: "length (key sample_aes) = 60"
  using setkey_block_cipher(2) [OF _ _ sample_aes_key] by (simp add: blank_aes_def aes_ok_def)

lemma sample_hash_key: "aes_encrypt_one_block sample_aes (replicate 16 0) = Some (gcm_H sample_tls)"
  using block_cipherD(1) [OF setkey_block_cipher(1) [OF _ _ sample_aes_key], of "replicate 16 0"]
  by (simp add: sample_tls_def blank_aes_def)

lemma sample_mac_key: "take 32 (client_write_MAC_key sample_tls) = replicate 32 9" "write_seq64_be sample_tls = 0"
  by (simp_all add: sample_tls_def)

lemma sample_tls_fields:
  "aes_encrypt sample_tls = sample_aes" "aes_decrypt sample_tls = sample_aes"
  "outbuf sample_tls = replicate 24 0 @ replicate 3 7 @ replicate 48 0" "length (client_write_IV sample_tls) = 4"
  "server_write_IV sample_tls = client_write_IV sample_tls" "flags sample_tls AND ENCRYPTION_AESGCM \<noteq> 0"
  "min_encrypted_len_on_read sample_tls = 24" "length (key blank_aes) = 60" "length (client_write_MAC_key sample_tls) = 136"
  by (simp_all add: sample_tls_def ENCRYPTION_AESGCM_def blank_aes_def)


lemma take_whole: "m = length x \<Longrightarrow> take m (x @ y) = x"
  by simp

text \<open>
  C38. The reading side opens what the writing side sends, but does not authenticate it: a peer with the
  same key and IV recovers the payload of every AES-GCM record, and it does so whatever the 16 bytes of the
  tag are replaced by, since the comparison of the tag is commented out.
\<close>

theorem gcm_round_trip_any_tag:
  assumes "length kb \<in> {16, 24, 32}" "length (key aes) = 60" "aes_setkey aes kb = Some (aes_encrypt w)"
    "aes_encrypt_one_block (aes_encrypt w) (replicate 16 0) = Some (gcm_H w)" "length (client_write_IV w) = 4"
    "length P \<le> 2 ^ 14" "outbuf w = pre @ P @ post" "length pre = OUTBUF_PFX" "length post = OUTBUF_SFX"
    "aes_decrypt r = aes_encrypt w" "server_write_IV r = client_write_IV w"
    "flags r AND ENCRYPTION_AESGCM \<noteq> 0" "min_encrypted_len_on_read r = 24" "length tag = 16"
  shows "\<exists>w' rec ibuf. xwrite_encrypted_aesgcm w (length P) ty = Some w' \<and> written w' = written w @ [rec] \<and>
    length rec = 5 + 8 + length P + 16 \<and>
    decrypt_record r (take (5 + 8 + length P) rec @ tag @ rest) (int (length P + 24)) = Some (ibuf, int (length P)) \<and>
    take (length P) (drop 5 ibuf) = P"
proof -
  note E = setkey_block_cipher(1) [OF assms(1-3)]
  let ?E = "aes_cipher kb" and ?s = "le_bytes64 (write_seq64_be w)"
  let ?iv = "client_write_IV w @ ?s" and ?n = "length P"
  have P: "?n < 2 ^ 29" using assms(6) by simp
  have ivl: "length ?iv = 12" using assms(5) by simp
  have k: "length (?E (?iv @ be32 i)) = 16" for i using block_cipherD(2) [OF E length_counter_block [OF ivl]] .
  obtain buf' where w': "xwrite_encrypted_aesgcm w ?n ty = Some (w\<lparr>outbuf := buf', write_seq64_be := next_seq (write_seq64_be w),
      written := written w @ [gcm_record ?E (client_write_IV w) (write_seq64_be w) ty P]\<rparr>)"
    using gcm_write [OF E hash_key_cipher [OF E assms(4)] assms(5,7) _ _ P, of ty] assms(8,9)
    by (auto simp: OUTBUF_PFX_def OUTBUF_SFX_def)
  let ?C = "gctr ?E ?iv 2 P" and ?h = "[ty, 3, 3, len_hi (?n + 24), len_lo (?n + 24)]"
  obtain T where rec: "gcm_record ?E (client_write_IV w) (write_seq64_be w) ty P = (?h @ ?s @ ?C) @ T" "length T = 16"
    by (simp add: gcm_record_def gcm_ae_def Let_def unblk_def)
  have C: "length ?C = ?n" by (rule length_gctr) (rule k)
  have "take (5 + 8 + ?n) ((?h @ ?s @ ?C) @ T) = ?h @ ?s @ ?C" using C by (intro take_whole) simp
  moreover obtain u where "decrypt_record r (?h @ ?s @ ?C @ tag @ rest) (int (?n + 24)) =
      Some (?h @ gctr ?E ?iv 2 ?C @ u @ tag @ rest, int ?n)"
    using gcm_read [of r ?E ?s ?h tag ?C rest] E assms(5,10-14) C by auto
  moreover have "gctr ?E ?iv 2 ?C = P" by (rule gctr_gctr) (rule k)
  moreover have "take ?n (drop 5 (?h @ P @ u @ tag @ rest)) = P" by simp
  ultimately show ?thesis using w' rec C by (auto simp only: append_assoc tls_state.simps length_append) auto
qed

theorem gcm_round_trip_any_tag_witness:
  "\<exists>w' rec ibuf. xwrite_encrypted_aesgcm sample_tls 3 23 = Some w' \<and> written w' = written sample_tls @ [rec] \<and>
    length rec = 32 \<and> decrypt_record sample_tls (take 16 rec @ replicate 16 255) 27 = Some (ibuf, 3) \<and>
    take 3 (drop 5 ibuf) = replicate 3 7"
  using gcm_round_trip_any_tag [of "replicate 16 1" blank_aes sample_tls "replicate 3 7" "replicate 24 0" "replicate 48 0"
      sample_tls "replicate 16 255" 23 "[]"]
  by (simp only: sample_tls_fields sample_aes_key sample_hash_key OUTBUF_PFX_def OUTBUF_SFX_def length_replicate) simp

text \<open>
  C39. A record under AES-CBC: without the GCM flag \<^verbatim>\<open>xwrite_encrypted\<close> sends, without leaving its buffer, the
  header, the IV and the CBC encryption of the payload, its HMAC-SHA256 (RFC 5246, section 6.2.3.1: sequence number,
  type, version, length and payload) and 1 to 16 bytes of padding that all hold the padding's length
  less one; the reading side of a peer with the same key strips IV, padding and MAC and is left with the payload.
\<close>

theorem cbc_record_round_trip:
  assumes "length kb \<in> {16, 24, 32}" "length (key aes) = 60" "aes_setkey aes kb = Some (aes_encrypt w)"
    "length iv = 16" "32 \<le> length (client_write_MAC_key w)" "length P \<le> 2 ^ 14"
    "outbuf w = pre @ P @ post" "length pre = OUTBUF_PFX" "length post = OUTBUF_SFX"
    "flags w AND ENCRYPTION_AESGCM = 0" "flags r AND ENCRYPTION_AESGCM = 0" "min_encrypted_len_on_read r = 48"
    "aes_decrypt r = aes_encrypt w"
  shows "\<exists>w' ct ibuf. xwrite_encrypted iv w (length P) ty = Some w' \<and>
    aes_cbc_encrypt (aes_encrypt w) iv (cbc_plain (take 32 (client_write_MAC_key w)) (write_seq64_be w) ty P) = Some ct \<and>
    written w' = written w @ [[ty, 3, 3, len_hi (length ct + 16), len_lo (length ct + 16)] @ iv @ ct] \<and>
    write_seq64_be w' = next_seq (write_seq64_be w) \<and>
    decrypt_record r (last (written w') @ rest) (int (length ct + 16)) = Some (ibuf, int (length P)) \<and>
    take (length P) (drop 5 ibuf) = P"
proof -
  note a = setkey_block_cipher(2) [OF assms(1-3)]
  let ?pt = "cbc_plain (take 32 (client_write_MAC_key w)) (write_seq64_be w) ty P"
  have P: "length P < 2 ^ 29" using assms(6) by simp
  obtain buf' ct where w: "length ct = length ?pt" "aes_cbc_encrypt (aes_encrypt w) iv ?pt = Some ct"
    "aes_cbc_decrypt (aes_encrypt w) iv ct = Some ?pt" "xwrite_encrypted_and_hmac_signed iv w (length P) ty =
      Some (w\<lparr>outbuf := buf', write_seq64_be := next_seq (write_seq64_be w),
        written := written w @ [[ty, 3, 3, len_hi (length ct + 16), len_lo (length ct + 16)] @ iv @ ct]\<rparr>)"
    using cbc_write [OF a assms(4,5,7) _ _ P, of ty] assms(8,9) by (auto simp: OUTBUF_PFX_def OUTBUF_SFX_def)
  let ?h = "[ty, 3, 3, len_hi (length ct + 16), len_lo (length ct + 16)]"
  have h: "length ?h = 5" by simp
  have d: "aes_cbc_decrypt (aes_decrypt r) iv ct = Some ?pt" using w(3) assms(13) by simp
  obtain u where "decrypt_record r (?h @ iv @ ct @ rest) (int (length ct + 16)) = Some (?h @ P @ u, int (length P))"
    using cbc_read [OF assms(11,12) h assms(4) d w(1)] by blast
  moreover have "take (length P) (drop 5 (?h @ P @ u)) = P" by simp
  moreover have "xwrite_encrypted iv w (length P) ty = xwrite_encrypted_and_hmac_signed iv w (length P) ty"
    using assms(10) by (simp add: xwrite_encrypted_def)
  ultimately show ?thesis using w(2,4)
    by (auto simp only: append_assoc tls_state.simps last_snoc option.inject intro!: exI [of _ ct]) auto
qed

theorem cbc_record_round_trip_witness:
  "\<exists>w' ct ibuf. xwrite_encrypted (replicate 16 4) (sample_tls\<lparr>flags := 0\<rparr>) 3 23 = Some w' \<and>
    aes_cbc_encrypt sample_aes (replicate 16 4) (cbc_plain (replicate 32 9) 0 23 (replicate 3 7)) = Some ct \<and>
    decrypt_record (sample_tls\<lparr>flags := 0, min_encrypted_len_on_read := 48\<rparr>) (last (written w')) (int (length ct + 16)) =
      Some (ibuf, 3) \<and> take 3 (drop 5 ibuf) = replicate 3 7"
  using cbc_record_round_trip [of "replicate 16 1" blank_aes "sample_tls\<lparr>flags := 0\<rparr>" "replicate 16 4" "replicate 3 7"
      "replicate 24 0" "replicate 48 0" "sample_tls\<lparr>flags := 0, min_encrypted_len_on_read := 48\<rparr>" 23 "[]"]
  by (simp add: sample_tls_fields sample_aes_key OUTBUF_PFX_def OUTBUF_SFX_def sample_mac_key) blast

end
