(* ===== verification/RB_TlsRead.thy ===== *)
theory RB_TlsRead
  imports RB_TlsRecord
begin

text \<open>
  The receiving side of the record layer, \<^verbatim>\<open>src/networking/tls.rs\<close>: \<open>tls_xread_record\<close> collects a record in the
  input buffer, which it grows on demand and which may hold the beginning of the records that follow, decrypts it,
  answers alerts and feeds the hash of the handshake. How the bytes of the peer are cut into
  the answers of \<open>read\<close> is a parameter: call number \<open>k\<close> is answered with an error, or with one byte more than
  \<open>os k\<close> or as many as there are room and bytes for; no byte means the end of the stream. The bytes of a grown
  buffer are a parameter too. The ways in which the process ends are the values of \<open>tls_exit\<close>.
\<close>

section \<open>Operations\<close>

datatype tls_exit =
    Bad_record            \<comment> \<open>\<open>bad_record_die\<close>\<close>
  | Bad_encryption        \<comment> \<open>bad encrypted length, or encrypted data too short\<close>
  | Peer_alert u8         \<comment> \<open>fatal alert from the peer\<close>
  | Short_read nat        \<comment> \<open>end or error of the stream inside a record\<close>
  | Tls_error nat         \<comment> \<open>\<open>tls_error_die\<close> with its line\<close>
  | Die string            \<comment> \<open>another message, or none\<close>
  | Null_handshake        \<comment> \<open>the handshake data is used after it was freed\<close>
  | Fault                 \<comment> \<open>an access outside a buffer\<close>

definition MAX_INBUF :: nat where "MAX_INBUF = 18437"

definition safe_read :: "(nat \<Rightarrow> nat option) \<Rightarrow> tls_state \<Rightarrow> nat \<Rightarrow> u8 list option \<times> tls_state" where
  "safe_read os tls rem =
     (let t = tls\<lparr>reads := Suc (reads tls)\<rparr>
      in case os (reads tls) of
           None \<Rightarrow> (None, t)
         | Some k \<Rightarrow> let n = min rem (min (Suc k) (length (incoming tls)))
                     in (Some (take n (incoming tls)), t\<lparr>incoming := drop n (incoming tls)\<rparr>))"

definition hash_handshake :: "tls_state \<Rightarrow> u8 list \<Rightarrow> tls_exit + tls_state" where
  "hash_handshake tls buffer =
     (case hsd tls of
        None \<Rightarrow> Inl Null_handshake
      | Some h \<Rightarrow> do_res (expect Fault (md5_hash (handshake_hash_ctx h) buffer))
                     (\<lambda>ctx. Inr (tls\<lparr>hsd := Some (h\<lparr>handshake_hash_ctx := ctx\<rparr>)\<rparr>)))"

text \<open>The size of a record from its header, with its checks.\<close>

definition record_target :: "u8 list \<Rightarrow> tls_exit + nat" where
  "record_target buf =
     do_res (expect Fault (load 0 RECHDR_LEN buf)) (\<lambda>h.
       let target = RECHDR_LEN + (0x100 * unat (h ! 3) + unat (h ! 4))
       in if MAX_INBUF < target \<or> h ! 1 \<noteq> 3 \<or> h ! 2 \<noteq> 3 then Inl Bad_record else Inr target)"

definition grow_inbuf :: "(nat \<Rightarrow> u8) \<Rightarrow> nat \<Rightarrow> u8 list \<Rightarrow> u8 list" where
  "grow_inbuf fresh tot buf =
     (if length buf - tot = 0
      then let n = (if MAX_INBUF < length buf + MAX_INBUF div 8 then MAX_INBUF else length buf + MAX_INBUF div 8)
           in take n buf @ map fresh [length buf..<n]
      else buf)"

text \<open>The inner loop: no number is the end of the stream before the first byte of a record.\<close>

function (sequential) fill_record ::
  "(nat \<Rightarrow> nat option) \<Rightarrow> (nat \<Rightarrow> u8) \<Rightarrow> tls_state \<Rightarrow> nat \<Rightarrow> nat \<Rightarrow> tls_exit + (nat option \<times> tls_state)" where
  "fill_record os fresh tls tot target =
     do_res (if RECHDR_LEN \<le> tot \<and> target = MAX_INBUF then record_target (inbuf tls) else Inr target) (\<lambda>target.
       if target \<le> tot
       then Inr (Some (target - RECHDR_LEN), tls\<lparr>buffered_size := tot - target, ofs_to_buffered := target\<rparr>)
       else if length (inbuf tls) < tot then Inl Fault
       else let buf = grow_inbuf fresh tot (inbuf tls)
            in case safe_read os (tls\<lparr>inbuf := buf\<rparr>) (length buf - tot) of
                 (None, _) \<Rightarrow> Inl (Short_read tot)
               | (Some bs, t) \<Rightarrow>
                   if bs = [] then if tot = 0 then Inr (None, t\<lparr>buffered_size := 0\<rparr>) else Inl (Short_read tot)
                   else do_res (expect Fault (store tot bs buf)) (\<lambda>buf.
                          fill_record os fresh (t\<lparr>inbuf := buf\<rparr>) (tot + length bs) target))"
  by pat_completeness auto
termination
  by (relation "measure (\<lambda>(os, fresh, tls, tot, target). length (incoming tls))")
     (auto simp: safe_read_def Let_def expect_Inr split: option.splits)

declare fill_record.simps [simp del]

lemma safe_read_Some:
  assumes "safe_read os tls rem = (Some bs, t)"
  shows "incoming tls = bs @ incoming t" "length bs \<le> rem" "t = tls\<lparr>reads := Suc (reads tls), incoming := incoming t\<rparr>"
proof -
  obtain k where k: "os (reads tls) = Some k" using assms by (auto simp: safe_read_def Let_def split: option.splits)
  let ?n = "min rem (min (Suc k) (length (incoming tls)))"
  have b: "bs = take ?n (incoming tls)" and t: "t = tls\<lparr>reads := Suc (reads tls), incoming := drop ?n (incoming tls)\<rparr>"
    using assms k by (simp_all add: safe_read_def Let_def)
  have i: "incoming t = drop ?n (incoming tls)" unfolding t by simp
  show "incoming tls = bs @ incoming t" unfolding b i by (rule append_take_drop_id [symmetric])
  show "length bs \<le> rem" unfolding b by simp
  show "t = tls\<lparr>reads := Suc (reads tls), incoming := incoming t\<rparr>" unfolding i by (rule t)
qed

text \<open>No byte gets lost: what arrived beyond a record stays in the buffer.\<close>

lemma fill_record_conserves:
  "fill_record os fresh tls tot target = Inr (Some sz, t) \<Longrightarrow> RECHDR_LEN \<le> target \<Longrightarrow>
    buffered_size t + length (incoming t) + (sz + RECHDR_LEN) = tot + length (incoming tls)"
proof (induction os fresh tls tot target rule: fill_record.induct)
  case (1 os fresh tls tot target)
  obtain target' where t: "(if RECHDR_LEN \<le> tot \<and> target = MAX_INBUF then record_target (inbuf tls) else Inr target) = Inr target'"
    using "1.prems"(1) by (subst (asm) fill_record.simps) (auto simp: do_res_Inr)
  have t5: "RECHDR_LEN \<le> target'"
    using t "1.prems"(2) by (auto simp: record_target_def do_res_Inr Let_def split: if_splits)
  show ?case
  proof (cases "target' \<le> tot")
    case True
    then show ?thesis using "1.prems"(1) t t5 by (subst (asm) fill_record.simps) auto
  next
    case False
    let ?buf = "grow_inbuf fresh tot (inbuf tls)"
    obtain r t1 where r: "safe_read os (tls\<lparr>inbuf := ?buf\<rparr>) (length ?buf - tot) = (r, t1)" by fastforce
    have bs: "\<exists>bs buf. r = Some bs \<and> bs \<noteq> [] \<and> \<not> length (inbuf tls) < tot \<and> store tot bs ?buf = Some buf \<and>
        fill_record os fresh (t1\<lparr>inbuf := buf\<rparr>) (tot + length bs) target' = Inr (Some sz, t)"
      using "1.prems"(1) t False r
      by (subst (asm) fill_record.simps) (auto simp: Let_def do_res_Inr expect_Inr split: if_splits option.splits)
    then obtain bs buf where bs: "r = Some bs" "bs \<noteq> []" "\<not> length (inbuf tls) < tot" "store tot bs ?buf = Some buf"
      "fill_record os fresh (t1\<lparr>inbuf := buf\<rparr>) (tot + length bs) target' = Inr (Some sz, t)" by blast
    have "incoming tls = bs @ incoming t1" using safe_read_Some(1) [OF r [unfolded bs(1)]] by simp
    then show ?thesis
      using "1.IH" [OF t False bs(3) refl r [symmetric] bs(1,2) _ bs(5) t5] bs(4) by simp
  qed
qed

text \<open>The outer loop, one round per record: alerts that are only warnings are dropped.\<close>

definition shift_buffered :: "tls_state \<Rightarrow> u8 list option" where
  "shift_buffered tls =
     (if buffered_size tls \<noteq> 0
      then do_opt (load (ofs_to_buffered tls) (buffered_size tls) (inbuf tls)) (\<lambda>b. store 0 b (inbuf tls))
      else Some (inbuf tls))"

function (sequential) tls_xread_record ::
  "(nat \<Rightarrow> nat option) \<Rightarrow> (nat \<Rightarrow> u8) \<Rightarrow> tls_state \<Rightarrow> tls_exit + (nat \<times> tls_state)" where
  "tls_xread_record os fresh tls =
     do_res (expect Fault (shift_buffered tls)) (\<lambda>buf.
       case fill_record os fresh (tls\<lparr>inbuf := buf\<rparr>) (buffered_size tls) MAX_INBUF of
         Inl e \<Rightarrow> Inl e
       | Inr (None, t) \<Rightarrow> Inr (0, t)
       | Inr (Some sz, t) \<Rightarrow>
           (case decrypt_record t (inbuf t) (int sz) of
              None \<Rightarrow> Inl Bad_encryption
            | Some (buf, sz) \<Rightarrow>
                if buf ! 0 = 21 \<and> 2 \<le> sz then
                  if buf ! RECHDR_LEN = 2 then Inl (Peer_alert (buf ! (RECHDR_LEN + 1)))
                  else if buf ! RECHDR_LEN = 1 \<and> buf ! (RECHDR_LEN + 1) \<noteq> 0
                  then tls_xread_record os fresh (t\<lparr>inbuf := buf\<rparr>)
                  else Inr (0, t\<lparr>inbuf := buf\<rparr>)
                else if buf ! 0 = 22 then
                  do_res (expect Fault (load RECHDR_LEN (nat sz) buf)) (\<lambda>m.
                    do_res (hash_handshake (t\<lparr>inbuf := buf\<rparr>) m) (\<lambda>t. Inr (nat sz, t)))
                else Inr (nat sz, t\<lparr>inbuf := buf\<rparr>)))"
  by pat_completeness auto
termination
proof (relation "measure (\<lambda>(os, fresh, tls). buffered_size tls + length (incoming tls))", goal_cases)
  case (2 os fresh tls buf r p sz' t sz buf' n)
  then show ?case using fill_record_conserves [of os fresh "tls\<lparr>inbuf := buf\<rparr>" "buffered_size tls" MAX_INBUF]
    by (auto simp: RECHDR_LEN_def MAX_INBUF_def)
qed simp

declare tls_xread_record.simps [simp del]

section \<open>The reference: records of a byte stream\<close>

text \<open>The first record of a stream: its size with the header, or none at the end of the stream.\<close>

definition frame :: "u8 list \<Rightarrow> tls_exit + nat option" where
  "frame s =
     (if s = [] then Inr None
      else if length s < RECHDR_LEN then Inl (Short_read (length s))
      else do_res (record_target s) (\<lambda>n. if length s < n then Inl (Short_read (length s)) else Inr (Some n)))"

text \<open>What a connection with the keys of \<open>tls\<close> reads from a stream: the decrypted record and the length of its
  content, the hash of the handshake and the rest of the stream.\<close>

definition stream_hash :: "tls_handshake_data option \<Rightarrow> u8 list \<Rightarrow> tls_exit + tls_handshake_data option" where
  "stream_hash h m =
     (case h of None \<Rightarrow> Inl Null_handshake
      | Some d \<Rightarrow> do_res (expect Fault (md5_hash (handshake_hash_ctx d) m)) (\<lambda>ctx. Inr (Some (d\<lparr>handshake_hash_ctx := ctx\<rparr>))))"

function (sequential) stream_read ::
  "tls_state \<Rightarrow> u8 list \<Rightarrow> tls_exit + ((u8 list \<times> nat) option \<times> tls_handshake_data option \<times> u8 list)" where
  "stream_read tls s =
     (case frame s of
        Inl e \<Rightarrow> Inl e
      | Inr None \<Rightarrow> Inr (None, hsd tls, [])
      | Inr (Some n) \<Rightarrow>
          (case decrypt_record tls (take n s) (int (n - RECHDR_LEN)) of
             None \<Rightarrow> Inl Bad_encryption
           | Some (r, sz) \<Rightarrow>
               if r ! 0 = 21 \<and> 2 \<le> sz then
                 if r ! 5 = 2 then Inl (Peer_alert (r ! 6))
                 else if r ! 5 = 1 \<and> r ! 6 \<noteq> 0 then stream_read tls (drop n s)
                 else Inr (Some (r, 0), hsd tls, drop n s)
               else if r ! 0 = 22 then
                 do_res (stream_hash (hsd tls) (take (nat sz) (drop RECHDR_LEN r)))
                   (\<lambda>h. Inr (Some (r, nat sz), h, drop n s))
               else Inr (Some (r, nat sz), hsd tls, drop n s)))"
  by pat_completeness auto
termination
  by (relation "measure (\<lambda>(tls, s). length s)")
     (auto simp: frame_def record_target_def do_res_Inr Let_def RECHDR_LEN_def split: if_splits)

declare stream_read.simps [simp del]

section \<open>Filling the buffer\<close>

text \<open>What is not the input side of a connection stays as it is.\<close>

definition same_conn :: "tls_state \<Rightarrow> tls_state \<Rightarrow> bool" where
  "same_conn tls t \<longleftrightarrow> t = tls\<lparr>ofs_to_buffered := ofs_to_buffered t, buffered_size := buffered_size t,
     inbuf := inbuf t, hsd := hsd t, incoming := incoming t, reads := reads t\<rparr>"

lemma same_conn_refl [simp]: "same_conn tls tls"
  by (simp add: same_conn_def)

lemma same_conn_trans [trans]: "same_conn a b \<Longrightarrow> same_conn b c \<Longrightarrow> same_conn a c"
  unfolding same_conn_def by (cases a, cases b, cases c) simp

lemma same_conn_update [simp]:
  "same_conn tls (t\<lparr>inbuf := buf\<rparr>) = same_conn tls t" "same_conn tls (t\<lparr>hsd := h\<rparr>) = same_conn tls t"
  "same_conn tls (t\<lparr>buffered_size := n\<rparr>) = same_conn tls t" "same_conn tls (t\<lparr>ofs_to_buffered := n\<rparr>) = same_conn tls t"
  "same_conn tls (t\<lparr>incoming := i\<rparr>) = same_conn tls t" "same_conn tls (t\<lparr>reads := n\<rparr>) = same_conn tls t"
  unfolding same_conn_def by (cases tls, cases t, simp)+

lemma same_conn_fields:
  assumes "same_conn tls t"
  shows "flags t = flags tls" "min_encrypted_len_on_read t = min_encrypted_len_on_read tls"
    "aes_decrypt t = aes_decrypt tls" "server_write_IV t = server_write_IV tls"
  by (subst assms [unfolded same_conn_def], simp)+

lemma decrypt_record_same_conn: "same_conn tls t \<Longrightarrow> decrypt_record t = decrypt_record tls"
  by (intro ext) (simp add: decrypt_record_def tls_aesgcm_decrypt_def same_conn_fields)

lemma record_target_cong: "RECHDR_LEN \<le> length x \<Longrightarrow> record_target (x @ y) = record_target x"
  by (simp add: record_target_def load_def)

lemma length_grow_inbuf:
  assumes "tot \<le> length buf" "length buf \<le> MAX_INBUF" "tot < MAX_INBUF"
  shows "tot < length (grow_inbuf fresh tot buf)" "length (grow_inbuf fresh tot buf) \<le> MAX_INBUF"
    "take tot (grow_inbuf fresh tot buf) = take tot buf"
  using assms by (auto simp: grow_inbuf_def MAX_INBUF_def Let_def)

lemma safe_read_no_error:
  assumes "\<forall>k. os k \<noteq> None" "0 < rem"
  obtains bs t where "safe_read os tls rem = (Some bs, t)" "bs = [] \<longleftrightarrow> incoming tls = []"
proof -
  obtain k where "os (reads tls) = Some k" using assms(1) by blast
  then show ?thesis
    using assms(2) that by (auto simp: safe_read_def Let_def min_def split: if_splits)
qed

lemma frame_more:
  assumes "frame s = Inr (Some n)"
  shows "RECHDR_LEN \<le> n" "n \<le> length s" "n \<le> MAX_INBUF"
  using assms by (auto simp: frame_def record_target_def do_res_Inr Let_def split: if_splits)

definition filled :: "tls_state \<Rightarrow> u8 list \<Rightarrow> tls_exit + nat option \<Rightarrow> tls_exit + (nat option \<times> tls_state) \<Rightarrow> bool" where
  "filled tls s f r \<longleftrightarrow>
     (case f of
        Inl e \<Rightarrow> r = Inl e
      | Inr None \<Rightarrow> \<exists>t. r = Inr (None, t) \<and> same_conn tls t \<and> hsd t = hsd tls \<and> length (inbuf t) \<le> MAX_INBUF \<and>
          buffered_size t = 0 \<and> incoming t = []
      | Inr (Some n) \<Rightarrow> \<exists>t. r = Inr (Some (n - RECHDR_LEN), t) \<and> same_conn tls t \<and> hsd t = hsd tls \<and>
          length (inbuf t) \<le> MAX_INBUF \<and> ofs_to_buffered t = n \<and> n + buffered_size t \<le> length (inbuf t) \<and>
          take (n + buffered_size t) (inbuf t) @ incoming t = s)"

lemma filled_same: "filled t s f r \<Longrightarrow> same_conn tls t \<Longrightarrow> hsd t = hsd tls \<Longrightarrow> filled tls s f r"
  by (auto simp: filled_def split: sum.splits option.splits intro: same_conn_trans)

lemma fill_record_frame:
  assumes "\<forall>k. os k \<noteq> None" "tot \<le> length (inbuf tls)" "length (inbuf tls) \<le> MAX_INBUF"
    "target = MAX_INBUF \<or> RECHDR_LEN \<le> tot \<and> record_target (inbuf tls) = Inr target"
  shows "filled tls (take tot (inbuf tls) @ incoming tls) (frame (take tot (inbuf tls) @ incoming tls))
           (fill_record os fresh tls tot target)"
  using assms
proof (induction os fresh tls tot target rule: fill_record.induct)
  case (1 os fresh tls tot target)
  let ?s = "take tot (inbuf tls) @ incoming tls"
  have hd: "record_target ?s = record_target (inbuf tls)" if "RECHDR_LEN \<le> tot"
  proof -
    have "RECHDR_LEN \<le> length (take tot (inbuf tls))" using that "1.prems"(2) by simp
    then have "record_target ?s = record_target (take tot (inbuf tls))"
      "record_target (take tot (inbuf tls) @ drop tot (inbuf tls)) = record_target (take tot (inbuf tls))"
      by (simp_all only: record_target_cong)
    then show ?thesis by simp
  qed
  show ?case
  proof (cases "\<exists>e. RECHDR_LEN \<le> tot \<and> record_target (inbuf tls) = Inl e")
    case True
    then obtain e where e: "RECHDR_LEN \<le> tot" "record_target (inbuf tls) = Inl e" by blast
    have "fill_record os fresh tls tot target = Inl e"
      using e "1.prems"(4) by (subst fill_record.simps) auto
    moreover have "frame ?s = Inl e"
      using e hd "1.prems"(2) by (auto simp: frame_def RECHDR_LEN_def)
    ultimately show ?thesis by (simp add: filled_def)
  next
    case False
    then obtain target' where t: "(if RECHDR_LEN \<le> tot \<and> target = MAX_INBUF then record_target (inbuf tls) else Inr target) = Inr target'"
      by (metis obj_sumE)
    have t': "if RECHDR_LEN \<le> tot then record_target (inbuf tls) = Inr target' else target' = MAX_INBUF"
      using t "1.prems"(4) by (auto split: if_splits)
    have max: "target' \<le> MAX_INBUF"
      using t' by (auto simp: record_target_def do_res_Inr Let_def split: if_splits)
    show ?thesis
    proof (cases "target' \<le> tot")
      case True
      have 5: "RECHDR_LEN \<le> tot" using t' True by (auto simp: MAX_INBUF_def RECHDR_LEN_def split: if_splits)
      have "RECHDR_LEN \<le> target'" using t' 5 by (auto simp: record_target_def do_res_Inr Let_def split: if_splits)
      moreover have "frame ?s = Inr (Some target')"
        using 5 hd t' True "1.prems"(2) by (auto simp: frame_def RECHDR_LEN_def)
      moreover have "fill_record os fresh tls tot target =
          Inr (Some (target' - RECHDR_LEN), tls\<lparr>buffered_size := tot - target', ofs_to_buffered := target'\<rparr>)"
        using t True by (subst fill_record.simps) simp
      ultimately show ?thesis using True "1.prems"(2,3) by (simp add: filled_def)
    next
      case less: False
      let ?buf = "grow_inbuf fresh tot (inbuf tls)"
      have buf: "tot < length ?buf" "length ?buf \<le> MAX_INBUF" "take tot ?buf = take tot (inbuf tls)"
        using length_grow_inbuf [OF "1.prems"(2,3), of fresh] less max by auto
      obtain bs t1 where r: "safe_read os (tls\<lparr>inbuf := ?buf\<rparr>) (length ?buf - tot) = (Some bs, t1)"
        "bs = [] \<longleftrightarrow> incoming tls = []"
        using safe_read_no_error [OF "1.prems"(1), of "length ?buf - tot" "tls\<lparr>inbuf := ?buf\<rparr>"] buf(1) by auto
      note sr = safe_read_Some [OF r(1)]
      have t1: "same_conn tls t1" "hsd t1 = hsd tls" "inbuf t1 = ?buf"
        by (subst sr(3), simp)+
      have nf: "\<not> length (inbuf tls) < tot" using "1.prems"(2) by simp
      show ?thesis
      proof (cases "bs = []")
        case True
        have "fill_record os fresh tls tot target =
            (if tot = 0 then Inr (None, t1\<lparr>buffered_size := 0\<rparr>) else Inl (Short_read tot))"
          using t less nf r(1) True by (subst fill_record.simps) (simp add: Let_def)
        moreover have "frame ?s = (if tot = 0 then Inr None else Inl (Short_read tot))"
          using True r(2) t' less hd "1.prems"(2) by (auto simp: frame_def RECHDR_LEN_def split: if_splits)
        moreover have "incoming t1 = []" using sr(1) True r(2) by simp
        ultimately show ?thesis using t1 buf(2) by (cases "tot = 0") (simp_all add: filled_def)
      next
        case False
        have st: "store tot bs ?buf = Some (blit tot bs ?buf)"
          using sr(2) buf(1) by (auto simp: store_def)
        let ?t = "t1\<lparr>inbuf := blit tot bs ?buf\<rparr>"
        have l: "tot + length bs \<le> length ?buf" using sr(2) buf(1) by simp
        have rec: "fill_record os fresh tls tot target = fill_record os fresh ?t (tot + length bs) target'"
          using t less nf r(1) False st by (subst fill_record.simps) (simp add: Let_def)
        have tk: "take (tot + length bs) (blit tot bs ?buf) = take tot (inbuf tls) @ bs"
          using take_blit [OF l] buf(3) by simp
        have str: "take (tot + length bs) (inbuf ?t) @ incoming ?t = ?s"
          using sr(1) tk by simp
        have known: "target' = MAX_INBUF \<or> RECHDR_LEN \<le> tot + length bs \<and> record_target (inbuf ?t) = Inr target'"
        proof (cases "RECHDR_LEN \<le> tot")
          case True
          have "RECHDR_LEN \<le> length (take tot (inbuf tls))" using True "1.prems"(2) by simp
          then have "record_target (take tot (inbuf tls) @ bs @ drop (tot + length bs) ?buf) = record_target ?s"
            by (simp only: record_target_cong append_assoc)
          then show ?thesis using True hd t' buf(3) by (simp add: blit_def)
        qed (use t' in simp)
        have "filled ?t ?s (frame ?s) (fill_record os fresh ?t (tot + length bs) target')"
          using "1.IH" [OF t less nf refl r(1) [symmetric] refl False, of "blit tot bs ?buf"] "1.prems"(1) st l known buf(2)
          unfolding str by simp
        then show ?thesis unfolding rec by (rule filled_same) (use t1 in simp_all)
      qed
    qed
  qed
qed

section \<open>Decryption touches only the record\<close>

definition read_mode :: "tls_state \<Rightarrow> bool" where
  "read_mode tls \<longleftrightarrow> min_encrypted_len_on_read tls = 0 \<or>
     min_encrypted_len_on_read tls = (if flags tls AND ENCRYPTION_AESGCM \<noteq> 0 then 24 else 48)"

lemma load_prefix: "off + n \<le> length x \<Longrightarrow> load off n (x @ y) = load off n x"
  by (simp add: load_def)

lemma store_prefix: "off + length b \<le> length x \<Longrightarrow> store off b (x @ y) = map_option (\<lambda>x. x @ y) (store off b x)"
  by (simp add: store_def blit_def)

lemma length_store: "store off b x = Some x' \<Longrightarrow> length x' = length x"
  by (auto simp: store_def split: if_splits)

lemma length_load: "load off n x = Some b \<Longrightarrow> length b = n \<and> off + n \<le> length x"
  by (auto simp: load_def split: if_splits)

lemma decrypt_loop_append:
  "off + remaining + 8 \<le> length buf \<Longrightarrow>
   aesgcm_decrypt_loop aes nonce cnt off remaining (buf @ y) =
     map_option (\<lambda>b. b @ y) (aesgcm_decrypt_loop aes nonce cnt off remaining buf)"
proof (induction aes nonce cnt off remaining buf rule: aesgcm_decrypt_loop.induct)
  case (1 aes nonce cnt off remaining buf)
  let ?n = "if 16 < remaining then 16 else remaining"
  have n: "off + ?n \<le> length buf" "off + 8 + ?n \<le> length buf" using "1.prems" by auto
  show ?case
  proof (cases "remaining = 0")
    case False
    have step: "do_opt (store off (xorbuf3 d scratch s ?n) (buf @ y)) (\<lambda>b. aesgcm_decrypt_loop aes nonce (cnt + 1) (off + ?n) (remaining - ?n) b) =
      map_option (\<lambda>b. b @ y) (do_opt (store off (xorbuf3 d scratch s ?n) buf) (\<lambda>b. aesgcm_decrypt_loop aes nonce (cnt + 1) (off + ?n) (remaining - ?n) b))"
      if "aes_encrypt_one_block aes (set_counter nonce (cnt + 1)) = Some scratch" "load off ?n buf = Some d" "load (off + 8) ?n buf = Some s" for d scratch s
    proof (cases "store off (xorbuf3 d scratch s ?n) buf")
      case None
      then show ?thesis using that n length_load [OF that(2)]
        by (auto simp: store_def xorbuf3_def split: if_splits)
    next
      case (Some b)
      have "length b = length buf" using length_store [OF Some] .
      moreover have "off + length (xorbuf3 d scratch s ?n) \<le> length buf" using Some by (auto simp: store_def split: if_splits)
      ultimately show ?thesis
        using "1.IH" [OF False refl refl that Some] "1.prems" Some by (auto simp: store_prefix)
    qed
    show ?thesis
      unfolding aesgcm_decrypt_loop.simps [of aes nonce cnt off remaining] Let_def if_not_P [OF False]
        load_prefix [OF n(1)] load_prefix [OF n(2)] map_option_bind comp_def
      by (rule Option.bind_cong [OF refl], rule Option.bind_cong [OF refl], rule Option.bind_cong [OF refl])
        (rule step [unfolded map_option_bind comp_def])
  qed (simp add: aesgcm_decrypt_loop.simps [of aes nonce cnt off 0])
qed

lemma length_cbc_decrypt:
  "cbc_decrypt_loop aes iv ct = Some pt \<Longrightarrow> length iv \<le> 16 \<Longrightarrow> length pt \<le> length ct"
proof (induction aes iv ct arbitrary: pt rule: cbc_decrypt_loop.induct)
  case (1 aes iv ct)
  show ?case
  proof (cases "ct = []")
    case True
    then show ?thesis using "1.prems"(1) by (simp add: cbc_decrypt_loop.simps)
  next
    case False
    obtain st rest where l: "\<not> length ct < 16" and st: "aes_decrypt_1 aes (map ucast (take 16 ct)) = Some st"
      and r: "cbc_decrypt_loop aes (take 16 ct) (drop 16 ct) = Some rest"
      and pt: "pt = map2 (\<lambda>s v. ucast (s XOR ucast v)) st iv @ rest"
      using "1.prems"(1) False by (auto simp: cbc_decrypt_loop.simps [of aes iv] Let_def bind_eq_Some_conv split: if_splits)
    have "length rest \<le> length ct - 16" using "1.IH" [OF False l refl st r] by simp
    then show ?thesis using l "1.prems"(2) by (simp add: pt)
  qed
qed

lemma decrypt_gcm_append:
  assumes "p + sz + 8 \<le> length r"
  shows "tls_aesgcm_decrypt tls p sz (r @ y) = map_option (\<lambda>b. b @ y) (tls_aesgcm_decrypt tls p sz r)"
  using assms unfolding tls_aesgcm_decrypt_def
  by (simp add: load_prefix decrypt_loop_append map_option_bind comp_def)

lemma decrypt_record_append:
  assumes "read_mode tls" "RECHDR_LEN \<le> length r"
  shows "decrypt_record tls (r @ y) (int (length r - RECHDR_LEN)) =
    map_option (\<lambda>(b, n). (b @ y, n)) (decrypt_record tls r (int (length r - RECHDR_LEN)))"
proof -
  define n where "n = length r - RECHDR_LEN"
  have n: "length r = RECHDR_LEN + n" using assms(2) by (simp add: n_def)
  consider "min_encrypted_len_on_read tls = 0"
    | "min_encrypted_len_on_read tls = 24" "flags tls AND ENCRYPTION_AESGCM \<noteq> 0"
    | "min_encrypted_len_on_read tls = 48" "flags tls AND ENCRYPTION_AESGCM = 0"
    using assms(1) by (auto simp: read_mode_def split: if_splits)
  then show ?thesis
  proof cases
    case 1
    then show ?thesis by (simp add: decrypt_record_def)
  next
    case 2
    show ?thesis
    proof (cases "n < 24")
      case True
      then show ?thesis using 2 by (simp add: decrypt_record_def n_def [symmetric])
    next
      case False
      then have "RECHDR_LEN + nat (int n - 24) + 8 \<le> length r" by (simp add: n RECHDR_LEN_def)
      then show ?thesis using False 2
        by (cases "tls_aesgcm_decrypt tls RECHDR_LEN (nat (int n - 24)) r")
          (simp_all add: decrypt_record_def n_def [symmetric] Let_def decrypt_gcm_append)
    qed
  next
    case 3
    show ?thesis
    proof (cases "n < 48 \<or> int n mod 16 \<noteq> 0")
      case True
      then show ?thesis using 3 by (auto simp: decrypt_record_def n_def [symmetric])
    next
      case False
      have l: "load RECHDR_LEN 16 (r @ y) = load RECHDR_LEN 16 r"
        "load (RECHDR_LEN + 16) (nat (int n - 16)) (r @ y) = load (RECHDR_LEN + 16) (nat (int n - 16)) r"
        using False by (auto simp: n intro!: load_prefix)
      have st: "store RECHDR_LEN pt (r @ y) = map_option (\<lambda>b. b @ y) (store RECHDR_LEN pt r)"
        if "load (RECHDR_LEN + 16) (nat (int n - 16)) r = Some ct" "aes_cbc_decrypt (aes_decrypt tls) iv ct = Some pt" for iv ct pt
        using that length_cbc_decrypt [of "aes_decrypt tls" "take 16 iv" ct pt] length_load [OF that(1)] False
        by (intro store_prefix) (auto simp: aes_cbc_decrypt_def n)
      have pd: "load (RECHDR_LEN + nat (int n - 16 - 1)) 1 (b @ y) = load (RECHDR_LEN + nat (int n - 16 - 1)) 1 b"
        if "store RECHDR_LEN pt r = Some b" for b pt
        using length_store [OF that] False by (auto simp: n intro!: load_prefix)
      show ?thesis using False 3 l st pd
        by (auto simp: decrypt_record_def n_def [symmetric] Let_def map_option_bind comp_def split: bind_splits)
    qed
  qed
qed

lemma length_decrypt_loop: "aesgcm_decrypt_loop aes nonce cnt off remaining buf = Some b \<Longrightarrow> length b = length buf"
proof (induction aes nonce cnt off remaining buf rule: aesgcm_decrypt_loop.induct)
  case (1 aes nonce cnt off remaining buf)
  show ?case
  proof (cases "remaining = 0")
    case False
    then show ?thesis
      using "1.prems" "1.IH" [OF False refl refl]
      by (auto simp: aesgcm_decrypt_loop.simps [of aes nonce cnt off remaining] Let_def bind_eq_Some_conv length_store)
  qed (use "1.prems" in \<open>simp add: aesgcm_decrypt_loop.simps\<close>)
qed

lemma decrypt_record_Some:
  assumes "read_mode tls" "RECHDR_LEN \<le> length r" "decrypt_record tls r (int (length r - RECHDR_LEN)) = Some (b, n)"
  shows "length b = length r" "0 \<le> n" "RECHDR_LEN + nat n \<le> length b"
proof -
  define m where "m = length r - RECHDR_LEN"
  have m: "length r = RECHDR_LEN + m" using assms(2) by (simp add: m_def)
  note d = assms(3) [folded m_def, unfolded decrypt_record_def Let_def]
  show "0 \<le> n" using d by (auto simp: bind_eq_Some_conv split: if_splits)
  have pad: "- uint w \<le> 49" for w :: u8 by (rule order_trans [of _ 0]) simp_all
  have "length b = length r \<and> n \<le> int m"
    using d assms(1) pad unfolding tls_aesgcm_decrypt_def read_mode_def
    by (auto simp: bind_eq_Some_conv length_decrypt_loop length_store split: if_splits)
  then show "length b = length r" "RECHDR_LEN + nat n \<le> length b" by (auto simp: m)
qed

section \<open>Reading refines the reference\<close>

definition inbuf_ok :: "tls_state \<Rightarrow> bool" where
  "inbuf_ok tls \<longleftrightarrow> length (inbuf tls) \<le> MAX_INBUF \<and>
     (buffered_size tls \<noteq> 0 \<longrightarrow> ofs_to_buffered tls + buffered_size tls \<le> length (inbuf tls))"

text \<open>The bytes that no record was made of yet.\<close>

definition pending :: "tls_state \<Rightarrow> u8 list" where
  "pending tls = take (buffered_size tls) (drop (ofs_to_buffered tls) (inbuf tls)) @ incoming tls"

definition read_as ::
  "tls_state \<Rightarrow> tls_exit + ((u8 list \<times> nat) option \<times> tls_handshake_data option \<times> u8 list) \<Rightarrow>
    tls_exit + (nat \<times> tls_state) \<Rightarrow> bool" where
  "read_as tls a r \<longleftrightarrow>
     (case a of
        Inl e \<Rightarrow> r = Inl e
      | Inr (out, h, rest) \<Rightarrow>
          \<exists>sz t. r = Inr (sz, t) \<and> same_conn tls t \<and> inbuf_ok t \<and> hsd t = h \<and> pending t = rest \<and>
            (case out of None \<Rightarrow> sz = 0
             | Some (rec, n) \<Rightarrow> sz = n \<and> RECHDR_LEN + n \<le> length rec \<and> (\<exists>more. inbuf t = rec @ more)))"

lemma read_as_same: "read_as t a r \<Longrightarrow> same_conn tls t \<Longrightarrow> read_as tls a r"
  by (auto simp: read_as_def split: sum.splits intro: same_conn_trans)

lemma shift_buffered_ok:
  assumes "inbuf_ok tls"
  obtains buf where "shift_buffered tls = Some buf" "buffered_size tls \<le> length buf" "length buf \<le> MAX_INBUF"
    "take (buffered_size tls) buf @ incoming tls = pending tls"
proof (cases "buffered_size tls = 0")
  case True
  then show ?thesis using that [of "inbuf tls"] assms by (simp add: shift_buffered_def inbuf_ok_def pending_def)
next
  case False
  let ?b = "take (buffered_size tls) (drop (ofs_to_buffered tls) (inbuf tls))"
  have l: "ofs_to_buffered tls + buffered_size tls \<le> length (inbuf tls)" using False assms by (simp add: inbuf_ok_def)
  then have "shift_buffered tls = Some (blit 0 ?b (inbuf tls))"
    using False by (simp add: shift_buffered_def load_def store_def)
  then show ?thesis
    using that l assms by (simp add: inbuf_ok_def pending_def blit_def)
qed

lemma stream_hash_handshake:
  "hash_handshake t m = (case stream_hash (hsd t) m of Inl e \<Rightarrow> Inl e | Inr h \<Rightarrow> Inr (t\<lparr>hsd := h\<rparr>))"
  by (auto simp: hash_handshake_def stream_hash_def split: option.splits sum.splits)

lemma stream_read_same_conn: "same_conn tls t \<Longrightarrow> hsd t = hsd tls \<Longrightarrow> stream_read t s = stream_read tls s"
proof (induction s rule: length_induct)
  case (1 s)
  have "stream_read t (drop n s) = stream_read tls (drop n s)" if "frame s = Inr (Some n)" for n
    using 1 frame_more [OF that] by (auto simp: RECHDR_LEN_def)
  then show ?case
    using 1(2,3) decrypt_record_same_conn [OF 1(2)]
    by (subst (1 2) stream_read.simps) (auto split: sum.splits option.splits)
qed

lemma read_mode_same_conn: "same_conn tls t \<Longrightarrow> read_mode t = read_mode tls"
  by (simp add: read_mode_def same_conn_fields)

lemma complete_record:
  assumes "read_mode tls" "frame s = Inr (Some n)" "same_conn tls t" "length (inbuf t) \<le> MAX_INBUF"
    "ofs_to_buffered t = n" "n + buffered_size t \<le> length (inbuf t)" "take (n + buffered_size t) (inbuf t) @ incoming t = s"
  shows "decrypt_record t (inbuf t) (int (n - RECHDR_LEN)) =
      map_option (\<lambda>(b, m). (b @ drop n (inbuf t), m)) (decrypt_record tls (take n s) (int (n - RECHDR_LEN)))"
    and "decrypt_record tls (take n s) (int (n - RECHDR_LEN)) = Some (b, m) \<Longrightarrow>
      length b = n \<and> 0 \<le> m \<and> RECHDR_LEN + nat m \<le> n \<and> inbuf_ok (t\<lparr>inbuf := b @ drop n (inbuf t)\<rparr>) \<and>
      pending (t\<lparr>inbuf := b @ drop n (inbuf t)\<rparr>) = drop n s"
proof -
  note n = frame_more [OF assms(2)]
  have R: "take n s = take n (inbuf t)" using assms(6) by (simp add: assms(7) [symmetric])
  have l: "length (take n s) = n" using n(2) by simp
  have "inbuf t = take n s @ drop n (inbuf t)" unfolding R by simp
  then show "decrypt_record t (inbuf t) (int (n - RECHDR_LEN)) =
      map_option (\<lambda>(b, m). (b @ drop n (inbuf t), m)) (decrypt_record tls (take n s) (int (n - RECHDR_LEN)))"
    using decrypt_record_append [OF assms(1), of "take n s" "drop n (inbuf t)"] n(1) l
    unfolding decrypt_record_same_conn [OF assms(3)] by (metis length_take)
  assume d: "decrypt_record tls (take n s) (int (n - RECHDR_LEN)) = Some (b, m)"
  note b = decrypt_record_Some [OF assms(1), of "take n s" b m, unfolded l, OF n(1) d]
  have "drop n s = take (buffered_size t) (drop n (inbuf t)) @ incoming t"
    using assms(6) by (simp add: assms(7) [symmetric] drop_take)
  then show "length b = n \<and> 0 \<le> m \<and> RECHDR_LEN + nat m \<le> n \<and> inbuf_ok (t\<lparr>inbuf := b @ drop n (inbuf t)\<rparr>) \<and>
      pending (t\<lparr>inbuf := b @ drop n (inbuf t)\<rparr>) = drop n s"
    using b assms(4-6) by (simp add: inbuf_ok_def pending_def)
qed

lemma xread_refines:
  assumes "\<forall>k. os k \<noteq> None" "inbuf_ok tls" "read_mode tls"
  shows "read_as tls (stream_read tls (pending tls)) (tls_xread_record os fresh tls)"
  using assms
proof (induction os fresh tls rule: tls_xread_record.induct)
  case (1 os fresh tls)
  let ?s = "pending tls"
  obtain buf where buf: "shift_buffered tls = Some buf" "buffered_size tls \<le> length buf" "length buf \<le> MAX_INBUF"
    "take (buffered_size tls) buf @ incoming tls = ?s"
    using shift_buffered_ok [OF "1.prems"(2)] .
  define r where "r = fill_record os fresh (tls\<lparr>inbuf := buf\<rparr>) (buffered_size tls) MAX_INBUF"
  have fl: "filled tls ?s (frame ?s) r"
    using fill_record_frame [OF "1.prems"(1), of "buffered_size tls" "tls\<lparr>inbuf := buf\<rparr>" MAX_INBUF fresh] buf
      filled_same [of "tls\<lparr>inbuf := buf\<rparr>" ?s "frame ?s" r tls]
    by (simp add: r_def)
  note step = tls_xread_record.simps [of os fresh tls, unfolded buf(1) expect_simps sum.case r_def [symmetric]]
  show ?case
  proof (cases "frame ?s")
    case (Inl e)
    then show ?thesis using fl by (simp add: step stream_read.simps [of tls ?s] filled_def read_as_def)
  next
    case (Inr o_n)
    show ?thesis
    proof (cases o_n)
      case None
      then obtain t where "r = Inr (None, t)" "same_conn tls t" "hsd t = hsd tls" "length (inbuf t) \<le> MAX_INBUF"
        "buffered_size t = 0" "incoming t = []"
        using fl Inr by (auto simp: filled_def)
      moreover from this have "pending t = []" "inbuf_ok t" by (simp_all add: pending_def inbuf_ok_def)
      ultimately show ?thesis
        using Inr None by (simp add: step stream_read.simps [of tls ?s] read_as_def)
    next
      case (Some n)
      then have fr: "frame ?s = Inr (Some n)" using Inr by simp
      obtain t where r: "r = Inr (Some (n - RECHDR_LEN), t)" and t: "same_conn tls t" "hsd t = hsd tls"
        "length (inbuf t) \<le> MAX_INBUF" "ofs_to_buffered t = n" "n + buffered_size t \<le> length (inbuf t)"
        "take (n + buffered_size t) (inbuf t) @ incoming t = ?s"
        using fl fr by (auto simp: filled_def)
      note cr = complete_record [OF "1.prems"(3) fr t(1,3-6)]
      show ?thesis
      proof (cases "decrypt_record tls (take n ?s) (int (n - RECHDR_LEN))")
        case None
        then show ?thesis using cr(1) fr by (simp add: step r stream_read.simps [of tls ?s] read_as_def)
      next
        case (Some bm)
        then obtain b m where d: "decrypt_record tls (take n ?s) (int (n - RECHDR_LEN)) = Some (b, m)" by fastforce
        let ?b = "b @ drop n (inbuf t)" let ?t = "t\<lparr>inbuf := b @ drop n (inbuf t)\<rparr>"
        note b = cr(2) [OF d]
        have d': "decrypt_record t (inbuf t) (int (n - RECHDR_LEN)) = Some (?b, m)" using cr(1) d by simp
        have nth: "?b ! 0 = b ! 0" "2 \<le> m \<Longrightarrow> ?b ! RECHDR_LEN = b ! 5" "2 \<le> m \<Longrightarrow> ?b ! (RECHDR_LEN + 1) = b ! 6"
          using b by (auto simp: nth_append RECHDR_LEN_def)
        have ld: "load RECHDR_LEN (nat m) ?b = Some (take (nat m) (drop RECHDR_LEN b))"
          using b by (simp add: load_def)
        have t': "same_conn tls ?t" "inbuf_ok ?t" "pending ?t = drop n ?s" "read_mode ?t"
          using t b "1.prems"(3) read_mode_same_conn [of tls ?t] by simp_all
        show ?thesis
        proof (cases "b ! 0 = 21 \<and> 2 \<le> m \<and> b ! 5 = 1 \<and> b ! 6 \<noteq> 0")
          case True
          have "tls_xread_record os fresh tls = tls_xread_record os fresh ?t"
            using True nth by (simp add: step r d')
          moreover have "stream_read tls ?s = stream_read ?t (pending ?t)"
            using True fr d stream_read_same_conn [OF t'(1)] t(2) t'(3)
            by (simp add: stream_read.simps [of tls ?s])
          moreover have "read_as ?t (stream_read ?t (pending ?t)) (tls_xread_record os fresh ?t)"
            using True nth t' "1.prems"(1) r [unfolded r_def] by (intro "1.IH" [OF _ _ _ _ d']) (auto simp: buf(1))
          ultimately show ?thesis using read_as_same [OF _ t'(1)] by simp
        next
          case False
          then consider (fatal) "b ! 0 = 21" "2 \<le> m" "b ! 5 = 2"
            | (closing) "b ! 0 = 21" "2 \<le> m" "b ! 5 \<noteq> 2" "\<not> (b ! 5 = 1 \<and> b ! 6 \<noteq> 0)"
            | (handshake) "b ! 0 = 22" | (other) "\<not> (b ! 0 = 21 \<and> 2 \<le> m)" "b ! 0 \<noteq> 22"
            by blast
          then show ?thesis
          proof cases
            case fatal
            then show ?thesis using nth by (simp add: step r d' stream_read.simps [of tls ?s] fr d read_as_def)
          next
            case closing
            then have "tls_xread_record os fresh tls = Inr (0, ?t)" "stream_read tls ?s = Inr (Some (b, 0), hsd tls, drop n ?s)"
              using nth by (auto simp: step r d' stream_read.simps [of tls ?s] fr d)
            then show ?thesis using t' b t(2) by (simp add: read_as_def)
          next
            case handshake
            then have "tls_xread_record os fresh tls = do_res (hash_handshake ?t (take (nat m) (drop RECHDR_LEN b))) (\<lambda>t. Inr (nat m, t))"
              "stream_read tls ?s = do_res (stream_hash (hsd tls) (take (nat m) (drop RECHDR_LEN b))) (\<lambda>h. Inr (Some (b, nat m), h, drop n ?s))"
              using nth(1) by (simp_all add: step r d' ld stream_read.simps [of tls ?s] fr d)
            then show ?thesis using t' b t(2)
              by (cases "stream_hash (hsd tls) (take (nat m) (drop RECHDR_LEN b))")
                (simp_all add: stream_hash_handshake read_as_def inbuf_ok_def pending_def)
          next
            case other
            then have "tls_xread_record os fresh tls = Inr (nat m, ?t)" "stream_read tls ?s = Inr (Some (b, nat m), hsd tls, drop n ?s)"
              using nth(1) by (auto simp: step r d' stream_read.simps [of tls ?s] fr d)
            then show ?thesis using t' b t(2) by (simp add: read_as_def)
          qed
        qed
      qed
    qed
  qed
qed

section \<open>Properties\<close>

text \<open>
  C18. Reading is independent of how the network cuts the stream: for every schedule of read sizes (without read errors),
  every state of the buffer and every content of fresh memory, \<^verbatim>\<open>tls_xread_record\<close> does what the reference reading of
  the pending bytes says: it ends the process for the same reason, or returns the length of the same
  decrypted record at the front of the buffer, with the same hash of the handshake, leaves exactly the bytes after
  that record pending, and never leaves the buffer, which stays within its maximal size.
\<close>

theorem tls_read_refines:
  assumes "\<forall>k. os k \<noteq> None" "inbuf_ok tls" "read_mode tls"
  shows "read_as tls (stream_read tls (pending tls)) (tls_xread_record os fresh tls)"
  using assms by (rule xread_refines)

definition sample_in :: tls_state where
  "sample_in = sample_tls\<lparr>min_encrypted_len_on_read := 0, incoming := [23, 3, 3, 0, 1, 65]\<rparr>"

theorem tls_read_refines_witness:
  "\<exists>t more. tls_xread_record (\<lambda>k. Some 0) (\<lambda>_. 0) sample_in = Inr (1, t) \<and> inbuf t = [23, 3, 3, 0, 1, 65] @ more \<and>
    pending t = []"
proof -
  have f: "inbuf_ok sample_in" "read_mode sample_in" "pending sample_in = [23, 3, 3, 0, 1, 65]"
    "min_encrypted_len_on_read sample_in = 0"
    by (simp_all add: sample_in_def sample_tls_def inbuf_ok_def read_mode_def pending_def)
  have "frame [23, 3, 3, 0, 1, 65] = Inr (Some 6)"
    by (simp add: frame_def record_target_def load_def RECHDR_LEN_def MAX_INBUF_def)
  then have "stream_read sample_in (pending sample_in) = Inr (Some ([23, 3, 3, 0, 1, 65], 1), hsd sample_in, [])"
    by (simp add: stream_read.simps [of sample_in "[23, 3, 3, 0, 1, 65]"] f decrypt_record_def RECHDR_LEN_def)
  then show ?thesis
    using tls_read_refines [OF _ f(1,2), of "\<lambda>k. Some 0" "\<lambda>_. 0"] by (auto simp: read_as_def)
qed

text \<open>
  C12. A handshake message after the handshake, such as the hello request with which a server may ask for renegotiation at any
  time, ends the process with an access through a null pointer: \<^verbatim>\<open>tls_xread_record\<close> feeds every record that
  decrypts to type 22 to the hash of the handshake, which \<^verbatim>\<open>tls_handshake\<close> has freed and set to null.
\<close>

theorem late_handshake_record_crashes:
  assumes "\<forall>k. os k \<noteq> None" "inbuf_ok tls" "read_mode tls" "hsd tls = None" "frame (pending tls) = Inr (Some n)"
    "decrypt_record tls (take n (pending tls)) (int (n - RECHDR_LEN)) = Some (r, sz)" "r ! 0 = 22"
  shows "tls_xread_record os fresh tls = Inl Null_handshake"
proof -
  have "stream_read tls (pending tls) = Inl Null_handshake"
    using assms(4-7) by (subst stream_read.simps) (simp add: stream_hash_def)
  then show ?thesis using xread_refines [OF assms(1-3), of fresh] by (simp add: read_as_def)
qed

text \<open>A hello request in the clear.\<close>

theorem late_handshake_record_crashes_witness:
  "tls_xread_record (\<lambda>k. Some 0) (\<lambda>_. 0) (sample_in\<lparr>incoming := [22, 3, 3, 0, 4, 0, 0, 0, 0]\<rparr>) = Inl Null_handshake"
proof -
  let ?r = "[22, 3, 3, 0, 4, 0, 0, 0, 0] :: u8 list" and ?t = "sample_in\<lparr>incoming := [22, 3, 3, 0, 4, 0, 0, 0, 0]\<rparr>"
  have f: "inbuf_ok ?t" "read_mode ?t" "hsd ?t = None" "pending ?t = ?r" "min_encrypted_len_on_read ?t = 0"
    by (simp_all add: sample_in_def sample_tls_def inbuf_ok_def read_mode_def pending_def)
  have "frame (pending ?t) = Inr (Some 9)"
    unfolding f by (simp add: frame_def record_target_def load_def RECHDR_LEN_def MAX_INBUF_def)
  moreover have "decrypt_record ?t (take 9 (pending ?t)) (int (9 - RECHDR_LEN)) = Some (?r, 4)"
    unfolding f by (simp add: decrypt_record_def f RECHDR_LEN_def)
  ultimately show ?thesis
    using late_handshake_record_crashes [of "\<lambda>k. Some 0", OF _ f(1-3)] by simp
qed

end
