(* ===== verification/RB_Rsa.thy ===== *)
theory RB_Rsa
  imports RB_PstmExp RB_TlsRead
begin

text \<open>
  RSA encryption, \<^verbatim>\<open>src/networking/tls_rsa.rs\<close>, and the conversion of a number to big-endian bytes of
  \<^verbatim>\<open>tls_pstm.rs\<close>. The output buffer is a list of bytes; the answer of \<open>tls_get_random\<close> is an argument. The operation
  that \<open>type_0\<close> of \<open>psRsaCrypt\<close> selects is an argument too: \<open>rsa_public\<close> or \<open>rsa_private\<close>.
\<close>

section \<open>Numbers as bytes\<close>

function reverse_loop :: "nat \<Rightarrow> nat \<Rightarrow> 'a list \<Rightarrow> 'a list" where
  "reverse_loop ix iy s =
     (if ix < iy then let t = s ! ix; s = s[ix := s ! iy]; s = s[iy := t] in reverse_loop (ix + 1) (iy - 1) s else s)"
  by auto
termination
  by (relation "measure (\<lambda>(ix, iy, s). iy - ix)") auto

declare reverse_loop.simps [simp del]

definition pstm_reverse :: "'a list \<Rightarrow> 'a list" where
  "pstm_reverse s = (if s = [] then s else reverse_loop 0 (length s - 1) s)"

text \<open>The bytes of \<open>t\<close>, least significant first; each round divides by \<open>256\<close>.\<close>

primrec bin_loop :: "nat \<Rightarrow> pstm_int \<Rightarrow> pstm_fail + u8 list" where
  "bin_loop 0 t = (if used t = 0 then Inr [] else Inl Not_ended)"
| "bin_loop (Suc n) t =
     (if used t = 0 then Inr []
      else do_res (bin_loop n (pstm_div_2d t 8 t)) (\<lambda>bs. Inr (ucast (dp t ! 0 AND 255) # bs)))"

definition pstm_to_unsigned_bin :: "pstm_int \<Rightarrow> pstm_fail + u8 list" where
  "pstm_to_unsigned_bin a = do_res (bin_loop (4 * used a) (pstm_init_copy a False)) (\<lambda>bs. Inr (pstm_reverse bs))"

section \<open>Padding and encryption\<close>

definition tls_get_random :: "u8 list \<Rightarrow> nat \<Rightarrow> tls_exit + u8 list" where
  "tls_get_random answer len = (if length answer = len then Inr answer else Inl (Die ''''))"

definition pkcs1Pad :: "u8 list \<Rightarrow> u8 list \<Rightarrow> nat \<Rightarrow> nat \<Rightarrow> tls_exit + u8 list" where
  "pkcs1Pad answer inp outlen cryptType =
     (let randomLen = sint (of_nat outlen - 3 - of_nat (length inp) :: u32)
      in if randomLen < 8 then Inl (Die ''pkcs1Pad failure'')
         else do_res (if cryptType = 1 then Inr (replicate (nat randomLen) 0xff)
                      else do_res (tls_get_random answer (nat randomLen)) (\<lambda>r. Inr (map (\<lambda>c. if c = 0 then 1 else c) r)))
                (\<lambda>r. Inr (0 # of_nat cryptType # r @ 0 # inp)))"

record psRsaPrivate = psRsaKey +
  rsa_d :: pstm_int
  rsa_qP :: pstm_int
  rsa_dP :: pstm_int
  rsa_dQ :: pstm_int
  rsa_p :: pstm_int
  rsa_q :: pstm_int
  optimized :: bool

text \<open>A failing operation ends the process with its message; an access outside a number is a fault.\<close>

primrec rsa_exit :: "string \<Rightarrow> pstm_fail \<Rightarrow> tls_exit" where
  "rsa_exit msg PS_LIMIT_FAIL = Die msg"
| "rsa_exit msg Bad_access = Fault"
| "rsa_exit msg Not_ended = Fault"
| "rsa_exit msg (Rsa_die s) = Die s"

definition or_die :: "string \<Rightarrow> pstm_fail + 'a \<Rightarrow> tls_exit + 'a" where
  "or_die msg x = case_sum (\<lambda>e. Inl (rsa_exit msg e)) Inr x"

definition rsa_public :: "'b psRsaKey_scheme \<Rightarrow> pstm_int \<Rightarrow> tls_exit + pstm_int" where
  "rsa_public k tmp = or_die ''psRsaCrypt error: pstm_exptmod'' (pstm_exptmod tmp (rsa_e k) (rsa_N k) tmp)"

definition rsa_private :: "psRsaPrivate \<Rightarrow> pstm_int \<Rightarrow> tls_exit + pstm_int" where
  "rsa_private k tmp =
     (if optimized k
      then do_res (or_die ''decrypt error: pstm_exptmod dP, p''
             (pstm_exptmod tmp (rsa_dP k) (rsa_p k) (pstm_init_size (length (dp (rsa_p k)))))) (\<lambda>tmpa.
           do_res (or_die ''decrypt error: pstm_exptmod dQ, q''
             (pstm_exptmod tmp (rsa_dQ k) (rsa_q k) (pstm_init_size (length (dp (rsa_q k)))))) (\<lambda>tmpb.
           do_res (or_die ''decrypt error: sub tmpb, tmp'' (pstm_sub False tmpa tmpb tmp)) (\<lambda>tmp.
           do_res (or_die ''decrypt error: pstm_mulmod qP, p'' (pstm_mulmod True tmp (rsa_qP k) (rsa_p k) tmp)) (\<lambda>tmp.
           let tmp = pstm_mul_comba tmp (rsa_q k) tmp
           in or_die ''decrypt error: pstm_add tmp '' (pstm_add True tmp tmpb tmp)))))
      else or_die ''psRsaCrypt error: pstm_exptmod'' (pstm_exptmod tmp (rsa_d k) (rsa_N k) tmp))"

text \<open>The result is the new buffer and the length in it, or nothing where the code returns \<open>-9\<close>. When the modulus is
  shorter than the key, \<open>out\<close> has moved behind the zeros by the time the buffer is cleared and filled.\<close>

definition psRsaCrypt ::
  "(pstm_int \<Rightarrow> tls_exit + pstm_int) \<Rightarrow> 'b psRsaKey_scheme \<Rightarrow> u8 list \<Rightarrow> nat \<Rightarrow> u8 list \<Rightarrow> tls_exit + (u8 list \<times> nat) option" where
  "psRsaCrypt op k inp outlen out =
     (let tmp = pstm_read_unsigned_bin (pstm_init_for_read_unsigned_bin (length inp + 4)) inp
      in if pstm_cmp (rsa_N k) tmp = -1 then Inr None
         else do_res (op tmp) (\<lambda>tmp.
              let x = pstm_unsigned_bin_size (rsa_N k)
              in if outlen < x then Inl (Die ''psRsaCrypt error: pstm_unsigned_bin_size'')
                 else let pad = rsa_size k - x; x = x + pad; n = pstm_unsigned_bin_size tmp
                      in do_res (expect Fault (store 0 (replicate pad 0) out)) (\<lambda>out.
                         do_res (expect Fault (store pad (replicate x 0) out)) (\<lambda>out.
                         do_res (or_die ''psRsaCrypt error: pstm_to_unsigned_bin'' (pstm_to_unsigned_bin tmp)) (\<lambda>bs.
                         if x < n then Inl Fault
                         else do_res (expect Fault (store (pad + (x - n)) bs out)) (\<lambda>out. Inr (Some (out, x))))))))"

definition psRsaEncryptPub ::
  "u8 list \<Rightarrow> 'b psRsaKey_scheme \<Rightarrow> u8 list \<Rightarrow> u8 list \<Rightarrow> tls_exit + nat \<times> u8 list" where
  "psRsaEncryptPub answer k inp out =
     (let sz = rsa_size k; outlen = length out
      in if outlen < sz then Inl (Die ''RSA crypt outlen:%d < size:%d'')
         else do_res (pkcs1Pad answer inp sz 2) (\<lambda>em.
              do_res (expect Fault (store 0 em out)) (\<lambda>out.
              do_res (psRsaCrypt (rsa_public k) k (take sz out) outlen out) (\<lambda>r.
              case r of
                None \<Rightarrow> Inl (Die ''Error performing psRsaEncryptPub'')
              | Some (out, outlen) \<Rightarrow>
                  if outlen \<noteq> sz then Inl (Die ''Encrypted size error in psRsaEncryptPub'') else Inr (sz, out)))))"

section \<open>Reversal and bytes\<close>

lemma reverse_loop_nth:
  "iy < length s \<Longrightarrow> length (reverse_loop ix iy s) = length s \<and>
    (\<forall>i < length s. reverse_loop ix iy s ! i = (if ix \<le> i \<and> i \<le> iy then s ! (ix + iy - i) else s ! i))"
proof (induction ix iy s rule: reverse_loop.induct)
  case (1 ix iy s)
  let ?s = "s[ix := s ! iy, iy := s ! ix]"
  show ?case
  proof (cases "ix < iy")
    case True
    have r: "reverse_loop ix iy s = reverse_loop (ix + 1) (iy - 1) ?s"
      using True by (subst reverse_loop.simps) (simp add: Let_def)
    have IH: "length (reverse_loop (ix + 1) (iy - 1) ?s) = length s"
      "i < length s \<Longrightarrow> reverse_loop (ix + 1) (iy - 1) ?s ! i = (if ix + 1 \<le> i \<and> i \<le> iy - 1 then ?s ! (ix + 1 + (iy - 1) - i) else ?s ! i)" for i
      using "1.IH" [OF True refl refl refl] "1.prems" by simp_all
    have "reverse_loop ix iy s ! i = (if ix \<le> i \<and> i \<le> iy then s ! (ix + iy - i) else s ! i)" if i: "i < length s" for i
    proof (cases "i = ix \<or> i = iy")
      case True
      then show ?thesis using IH(2) [OF i] \<open>ix < iy\<close> "1.prems" unfolding r by auto
    next
      case False
      have "ix + 1 + (iy - 1) - i = ix + iy - i" using \<open>ix < iy\<close> by simp
      moreover have "ix + iy - i \<noteq> ix \<and> ix + iy - i \<noteq> iy" if "ix + 1 \<le> i \<and> i \<le> iy - 1" using that by auto
      moreover have "(ix + 1 \<le> i \<and> i \<le> iy - 1) = (ix \<le> i \<and> i \<le> iy)" using False by auto
      ultimately show ?thesis using IH(2) [OF i] False unfolding r by auto
    qed
    then show ?thesis using IH(1) r by simp
  next
    case False
    then have "ix + iy - i = i" if "ix \<le> i" "i \<le> iy" for i using that by simp
    then show ?thesis using False by (subst (1 2) reverse_loop.simps) auto
  qed
qed

lemma pstm_reverse_rev: "pstm_reverse s = rev s"
proof (cases "s = []")
  case False
  then have "length s - 1 < length s" by simp
  then show ?thesis
    using reverse_loop_nth [of "length s - 1" s 0] False unfolding pstm_reverse_def
    by (intro nth_equalityI) (auto simp: rev_nth)
qed (simp add: pstm_reverse_def)

lemma bits_in_div: "bits_in (v div 2 ^ k) = bits_in v - k"
proof -
  have "bits_in (v div 2 ^ k) \<le> m \<longleftrightarrow> bits_in v - k \<le> m" for m
    unfolding le_diff_conv bits_in_le by (simp add: div_less_iff_less_mult power_add)
  then show ?thesis by (meson dual_order.eq_iff)
qed

lemma bytes_of_bits: "n div 8 + (if n mod 8 \<noteq> 0 then 1 else 0) = (n + 7) div (8 :: nat)"
proof -
  define q r where "q = n div 8" and "r = n mod 8"
  have n: "n = 8 * q + r" "r < 8" by (simp_all add: q_def r_def)
  then have "(n + 7) div 8 = q + (r + 7) div 8" by simp
  moreover have "(r + 7) div 8 = (if r \<noteq> 0 then 1 else 0)" using n(2) by (simp add: div_nat_eqI)
  ultimately show ?thesis unfolding q_def r_def by simp
qed

lemma bin_size: "pstm_ok a \<Longrightarrow> pstm_unsigned_bin_size a = (bits_in (pstm_nat a) + 7) div 8"
  unfolding pstm_unsigned_bin_size_def Let_def bytes_of_bits by (simp only: pstm_count_bits_val)

lemma low_byte:
  assumes "pstm_ok t" "0 < used t"
  shows "unat (ucast (dp t ! 0 AND 255) :: u8) = pstm_nat t mod 256"
proof -
  obtain d ds where d: "dp t = d # ds" using assms by (cases "dp t") (auto simp: pstm_ok_def)
  have "pstm_nat t = unat d + 2 ^ 32 * dval ds" using pstm_nat_wf [OF pstm_ok_wf [OF assms(1)]] d by simp
  also have "\<dots> mod 256 = unat d mod 256"
    by (simp add: mod_add_right_eq [of "unat d", symmetric] mod_mult_left_eq [of "2 ^ 32" 256, symmetric])
  finally have n: "pstm_nat t mod 256 = unat d mod 256" .
  have mask: "(255 :: u32) = mask 8" by (simp add: mask_eq_exp_minus_1)
  have "ucast (d AND 255) = (ucast d :: u8)" 
    unfolding mask by (rule bit_word_eqI) (auto simp: bit_simps)
  then show ?thesis unfolding n by (simp add: d unsigned_ucast_eq take_bit_eq_mod)
qed

lemma bin_loop_val:
  "pstm_ok t \<Longrightarrow> sign t = 0 \<Longrightarrow> pstm_nat t < 256 ^ n \<Longrightarrow>
    \<exists>bs. bin_loop n t = Inr bs \<and> bval bs = pstm_nat t \<and> length bs = (bits_in (pstm_nat t) + 7) div 8"
proof (induction n arbitrary: t)
  case 0
  then show ?case using used_zero [of t] by simp
next
  case (Suc n)
  show ?case
  proof (cases "used t = 0")
    case False
    let ?t = "pstm_div_2d t 8 t"
    have t: "pstm_ok ?t" "sign ?t = 0" "pstm_nat ?t = pstm_nat t div 256"
      using pstm_div_2d_val [OF Suc.prems(1,2) pstm_ok_wf [OF Suc.prems(1)], of 8] by simp_all
    obtain bs where bs: "bin_loop n ?t = Inr bs" "bval bs = pstm_nat t div 256" "length bs = (bits_in (pstm_nat t div 256) + 7) div 8"
      using Suc.IH [OF t(1,2)] Suc.prems(3) unfolding t(3) by (auto simp: less_mult_imp_div_less mult.commute)
    have "0 < pstm_nat t" using False used_zero [OF Suc.prems(1)] by simp
    then have "(bits_in (pstm_nat t) + 7) div 8 = Suc ((bits_in (pstm_nat t) - 8 + 7) div 8)"
      using bits_in_bounds(1) [of "pstm_nat t"] by (cases "bits_in (pstm_nat t) \<le> 8") (auto simp: le_div_geq)
    then have "length (ucast (dp t ! 0 AND 255) # bs) = (bits_in (pstm_nat t) + 7) div 8"
      using bs(3) bits_in_div [of "pstm_nat t" 8] by simp
    moreover have "bval (ucast (dp t ! 0 AND 255) # bs) = pstm_nat t"
      using low_byte [OF Suc.prems(1)] False bs(2) by simp
    ultimately show ?thesis using bs(1) False by (simp del: bval.simps length_Cons)
  qed (use used_zero [OF Suc.prems(1)] in simp)
qed

lemma pstm_to_unsigned_bin_val:
  assumes "pstm_ok a" "sign a = 0"
  shows "\<exists>bs. pstm_to_unsigned_bin a = Inr bs \<and> bval (rev bs) = pstm_nat a \<and> length bs = pstm_unsigned_bin_size a"
proof -
  have "pstm_nat a < 256 ^ (4 * used a)" using ok_bounds(1) [OF assms(1)] by (simp add: power_mult)
  then show ?thesis
    using bin_loop_val [of "pstm_init_copy a False" "4 * used a"] pstm_init_copy_val [OF pstm_ok_wf [OF assms(1)], of False]
      assms bin_size [OF assms(1)]
    by (auto simp: pstm_to_unsigned_bin_def pstm_reverse_rev)
qed

section \<open>Encryption\<close>

abbreviation nonzero_bytes :: "u8 list \<Rightarrow> u8 list" where
  "nonzero_bytes \<equiv> map (\<lambda>c. if c = 0 then 1 else c)"

definition pkcs1_message :: "u8 list \<Rightarrow> u8 list \<Rightarrow> u8 list" where
  "pkcs1_message r m = 0 # 2 # nonzero_bytes r @ 0 # m"

lemma length_pkcs1_message [simp]: "length (pkcs1_message r m) = length r + length m + 3"
  by (simp add: pkcs1_message_def)

lemma random_length:
  assumes "n \<le> outlen" "outlen < 2 ^ 31"
  shows "sint (of_nat outlen - 3 - of_nat n :: u32) = int outlen - 3 - int n"
proof -
  have "(of_nat outlen - 3 - of_nat n :: u32) = word_of_int (int outlen - 3 - int n)" by simp
  then have "sint (of_nat outlen - 3 - of_nat n :: u32) = signed_take_bit 31 (int outlen - 3 - int n)"
    by (simp only: signed_of_int) simp
  also have "\<dots> = int outlen - 3 - int n" using assms by (intro signed_take_bit_int_eq_self) auto
  finally show ?thesis .
qed

lemma pkcs1Pad_pub:
  assumes "length m + 11 \<le> outlen" "outlen < 2 ^ 31" "length r + length m + 3 = outlen"
  shows "pkcs1Pad r m outlen 2 = Inr (pkcs1_message r m)"
proof -
  have "sint (of_nat outlen - 3 - of_nat (length m) :: u32) = int (length r)"
    using random_length [of "length m" outlen] assms by simp
  then show ?thesis using assms by (simp add: pkcs1Pad_def pkcs1_message_def Let_def tls_get_random_def)
qed

lemma psRsaCrypt_val:
  assumes N: "pstm_ok (rsa_N k)" "sign (rsa_N k) = 0" "rsa_size k = pstm_unsigned_bin_size (rsa_N k)"
    and inp: "length inp \<le> 16384" "bval (rev inp) \<le> pstm_nat (rsa_N k)"
    and out: "rsa_size k \<le> outlen" "rsa_size k \<le> length out"
    and op: "\<And>t. pstm_ok t \<Longrightarrow> sign t = 0 \<Longrightarrow> pstm_nat t = bval (rev inp) \<Longrightarrow>
      \<exists>r. op t = Inr r \<and> pstm_ok r \<and> sign r = 0 \<and> pstm_nat r = v" and v: "v < pstm_nat (rsa_N k)"
  shows "\<exists>c. psRsaCrypt op k inp outlen out = Inr (Some (c @ drop (rsa_size k) out, rsa_size k)) \<and>
    length c = rsa_size k \<and> bval (rev c) = v"
proof -
  define t where "t = pstm_read_unsigned_bin (pstm_init_for_read_unsigned_bin (length inp + 4)) inp"
  have t: "pstm_ok t" "sign t = 0" "pstm_nat t = bval (rev inp)"
    using pstm_read_unsigned_bin_nat [OF inp(1)] by (simp_all add: t_def)
  obtain r where r: "op t = Inr r" "pstm_ok r" "sign r = 0" "pstm_nat r = v" using op [OF t] by blast
  obtain bs where bs: "pstm_to_unsigned_bin r = Inr bs" "bval (rev bs) = v" "length bs = pstm_unsigned_bin_size r"
    using pstm_to_unsigned_bin_val [OF r(2,3)] r(4) by blast
  have "bits_in v \<le> bits_in (pstm_nat (rsa_N k))"
    using bits_in_le [of v] bits_in_le [of "pstm_nat (rsa_N k)"] v by (meson dual_order.refl less_trans)
  then have n: "length bs \<le> rsa_size k"
    unfolding bs(3) N(3) bin_size [OF r(2)] bin_size [OF N(1)] r(4) by (intro div_le_mono) simp
  let ?c = "replicate (rsa_size k - length bs) 0 @ bs"
  have "pstm_cmp (rsa_N k) t \<noteq> -1" using pstm_cmp_mag_val [OF N(1) t(1)] N(2) t inp(2) by (simp add: pstm_cmp_def)
  moreover have "store 0 [] out = Some out" by (simp add: store_def blit_def)
  moreover have "store 0 (replicate (rsa_size k) 0) out = Some (replicate (rsa_size k) 0 @ drop (rsa_size k) out)"
    using out(2) by (simp add: store_def blit_def)
  moreover have "store (rsa_size k - length bs) bs (replicate (rsa_size k) 0 @ drop (rsa_size k) out) =
      Some (?c @ drop (rsa_size k) out)"
    using n out(2) by (simp add: store_def blit_def)
  ultimately have "psRsaCrypt op k inp outlen out = Inr (Some (?c @ drop (rsa_size k) out, rsa_size k))"
    using r(1) bs(1,3) n out(1) unfolding psRsaCrypt_def Let_def t_def [symmetric] N(3) [symmetric] by (simp add: or_die_def)
  moreover have "length ?c = rsa_size k" "bval (rev ?c) = v" using n bs(2) by (simp_all add: bval_append)
  ultimately show ?thesis by blast
qed

text \<open>A public key as the client reads it from a certificate, with an odd modulus of at most 4096 bytes.\<close>

definition rsa_key_ok :: "'b psRsaKey_scheme \<Rightarrow> bool" where
  "rsa_key_ok k \<longleftrightarrow> pstm_ok (rsa_N k) \<and> sign (rsa_N k) = 0 \<and> odd (pstm_nat (rsa_N k)) \<and> 1 < pstm_nat (rsa_N k) \<and>
     rsa_size k = pstm_unsigned_bin_size (rsa_N k) \<and> rsa_size k \<le> 4096"

lemma rsa_key_size:
  assumes "rsa_key_ok k"
  shows "used (rsa_N k) < 2000" "256 ^ (rsa_size k - 1) \<le> pstm_nat (rsa_N k)"
proof -
  let ?N = "pstm_nat (rsa_N k)"
  have N: "pstm_ok (rsa_N k)" "0 < ?N" and size: "rsa_size k = (bits_in ?N + 7) div 8" "rsa_size k \<le> 4096"
    using assms bin_size [of "rsa_N k"] by (auto simp: rsa_key_ok_def)
  then have "bits_in ?N \<le> 32 * 1024" by linarith
  then have "used (rsa_N k) \<le> 1024" unfolding bits_in_le by (rule used_less [OF _ N(1)])
  then show "used (rsa_N k) < 2000" by simp
  note b = bits_in_bounds [OF N(2)]
  have "(256 :: nat) ^ (rsa_size k - 1) = 2 ^ (8 * (rsa_size k - 1))" by (simp add: power_mult)
  also have "\<dots> \<le> 2 ^ (bits_in ?N - 1)" using b(1) size(1) by (intro power_increasing) auto
  also have "\<dots> \<le> ?N" by (rule b(2))
  finally show "256 ^ (rsa_size k - 1) \<le> ?N" .
qed

lemma rsa_exptmod:
  assumes k: "rsa_key_ok k" and t: "pstm_ok t" "sign t = 0" "pstm_nat t < pstm_nat (rsa_N k)"
    and safe: "exptmod_safe (pstm_nat t) (rsa_N k)"
  shows "\<exists>r. or_die msg (pstm_exptmod t x (rsa_N k) t) = Inr r \<and> pstm_ok r \<and> sign r = 0 \<and>
    pstm_nat r = pstm_nat t ^ pstm_nat x mod pstm_nat (rsa_N k)"
  using pstm_exptmod_val [OF t _ _ _ _ _ pstm_ok_wf [OF t(1)] safe, of x] k rsa_key_size(1) [OF k]
  by (auto simp: rsa_key_ok_def or_die_def)

lemma pkcs1_message_less:
  assumes "rsa_key_ok k" "length r + length m + 3 = rsa_size k"
  shows "bval (rev (pkcs1_message r m)) < pstm_nat (rsa_N k)"
proof -
  have l: "rsa_size k - 1 = Suc (Suc (length m + length r))" using assms(2) by simp
  have "bval (rev (pkcs1_message r m)) = bval (rev (2 # nonzero_bytes r @ 0 # m))" by (simp add: pkcs1_message_def bval_append)
  also have "\<dots> < 256 ^ (rsa_size k - 1)" unfolding l using bval_bound [of "rev (2 # nonzero_bytes r @ 0 # m)"] by simp
  finally show ?thesis using rsa_key_size(2) [OF assms(1)] by linarith
qed

lemma psRsaEncryptPub_val:
  assumes k: "rsa_key_ok k" and m: "length m + 11 \<le> rsa_size k" "length r + length m + 3 = rsa_size k"
    and out: "rsa_size k \<le> length out"
    and safe: "exptmod_safe (bval (rev (pkcs1_message r m))) (rsa_N k)"
  shows "\<exists>c. psRsaEncryptPub r k m out = Inr (rsa_size k, c @ drop (rsa_size k) out) \<and> length c = rsa_size k \<and>
    bval (rev c) = bval (rev (pkcs1_message r m)) ^ pstm_nat (rsa_e k) mod pstm_nat (rsa_N k)"
proof -
  let ?em = "pkcs1_message r m" and ?N = "pstm_nat (rsa_N k)"
  let ?out = "?em @ drop (rsa_size k) out"
  note N = k [unfolded rsa_key_ok_def]
  have l: "length ?em = rsa_size k" "take (rsa_size k) ?out = ?em" "length ?out = length out" using m(2) out by simp_all
  note less = pkcs1_message_less [OF k m(2)]
  have "\<exists>c. psRsaCrypt (rsa_public k) k ?em (length out) ?out = Inr (Some (c @ drop (rsa_size k) ?out, rsa_size k)) \<and>
      length c = rsa_size k \<and> bval (rev c) = bval (rev ?em) ^ pstm_nat (rsa_e k) mod ?N"
  proof (rule psRsaCrypt_val)
    show "\<exists>x. rsa_public k t = Inr x \<and> pstm_ok x \<and> sign x = 0 \<and> pstm_nat x = bval (rev ?em) ^ pstm_nat (rsa_e k) mod ?N"
      if "pstm_ok t" "sign t = 0" "pstm_nat t = bval (rev ?em)" for t
      using rsa_exptmod [OF k that(1,2)] less safe unfolding rsa_public_def that(3) by blast
  qed (use N out l less in auto)
  moreover have "drop (rsa_size k) ?out = drop (rsa_size k) out" using l(1) by simp
  ultimately obtain c where c: "psRsaCrypt (rsa_public k) k ?em (length out) ?out = Inr (Some (c @ drop (rsa_size k) out, rsa_size k))"
    "length c = rsa_size k" "bval (rev c) = bval (rev ?em) ^ pstm_nat (rsa_e k) mod ?N" by auto
  have "store 0 ?em out = Some ?out" using l(1) out by (simp add: store_def blit_def)
  moreover have "pkcs1Pad r m (rsa_size k) 2 = Inr ?em" using N m by (intro pkcs1Pad_pub) auto
  ultimately have "psRsaEncryptPub r k m out = Inr (rsa_size k, c @ drop (rsa_size k) out)"
    using c(1) l(2,3) out unfolding psRsaEncryptPub_def Let_def by (simp del: append_Cons)
  then show ?thesis using c by blast
qed

text \<open>The same with the plain private exponent.\<close>

lemma psRsaCrypt_private:
  assumes k: "rsa_key_ok k" "\<not> optimized k" and c: "length c = rsa_size k" "bval (rev c) < pstm_nat (rsa_N k)"
    and out: "rsa_size k \<le> outlen" "rsa_size k \<le> length out" and safe: "exptmod_safe (bval (rev c)) (rsa_N k)"
  shows "\<exists>m. psRsaCrypt (rsa_private k) k c outlen out = Inr (Some (m @ drop (rsa_size k) out, rsa_size k)) \<and>
    length m = rsa_size k \<and> bval (rev m) = bval (rev c) ^ pstm_nat (rsa_d k) mod pstm_nat (rsa_N k)"
proof (rule psRsaCrypt_val)
  show "\<exists>x. rsa_private k t = Inr x \<and> pstm_ok x \<and> sign x = 0 \<and>
      pstm_nat x = bval (rev c) ^ pstm_nat (rsa_d k) mod pstm_nat (rsa_N k)"
    if "pstm_ok t" "sign t = 0" "pstm_nat t = bval (rev c)" for t
    using rsa_exptmod [OF k(1) that(1,2)] c(2) safe k(2) unfolding rsa_private_def that(3) by auto
qed (use k(1) [unfolded rsa_key_ok_def] c out in auto)

end
