(* ===== verification/RB_TlsKeys.thy ===== *)
theory RB_TlsKeys
  imports RB_TlsRecord
begin

text \<open>
  From the negotiated cipher to the keys of the record layer, \<^verbatim>\<open>src/networking/tls.rs\<close>: the cipher suites
  the client offers, the sizes \<open>get_server_hello\<close> derives from the server's choice, and the key
  derivation at the end of \<open>send_client_key_exchange\<close>, which writes the key block over the key and IV arrays of
  \<^verbatim>\<open>tls_state\<close> and points into it. \<^const>\<open>None\<close> is a write past these 136 bytes or the end of the process.
\<close>

section \<open>Operations\<close>

definition NEED_EC_KEY :: u32 where "NEED_EC_KEY = 1"

text \<open>The static array of the client hello: a length, the suites with a marker first, the compression methods.\<close>

definition ciphers :: "u8 list" where
  "ciphers =
     [0, 2 + (7 + 6 * 0 + 0) * 2,
      0, 0xff, 0xc0, 0x23, 0xc0, 0x27, 0xc0, 0x2b, 0xc0, 0x2f, 0, 0x3c, 0, 0x3d, 0, 0x9c,
      1, 0]"

definition set_cipher :: "u8 \<Rightarrow> u8 \<Rightarrow> tls_state \<Rightarrow> tls_state" where
  "set_cipher cipherid0 cipherid1 tls =
     (let tls = tls\<lparr>cipher_id := 0x100 * ucast cipherid0 + ucast cipherid1, key_size := 32, MAC_size := 32\<rparr>
      in if cipherid0 = 0xc0 then
           let tls = tls\<lparr>flags := flags tls OR NEED_EC_KEY\<rparr>;
               tls = (if cipherid1 AND 1 \<noteq> 0 then tls\<lparr>key_size := 16\<rparr> else tls)
           in if 0x2b \<le> cipherid1 \<and> cipherid1 \<le> 0x30
              then tls\<lparr>flags := flags tls OR ENCRYPTION_AESGCM, MAC_size := 0, IV_size := 4\<rparr> else tls
         else
           let tls = (if cipherid1 = 0x3c \<or> cipherid1 = 0x9c then tls\<lparr>key_size := 16\<rparr> else tls)
           in if cipherid1 = 0x9c
              then tls\<lparr>flags := flags tls OR ENCRYPTION_AESGCM, MAC_size := 0, IV_size := 4\<rparr> else tls)"

definition label_bytes :: "string \<Rightarrow> u8 list" where
  "label_bytes s = map of_char s"

definition derive_keys :: "u8 list \<Rightarrow> u8 list \<Rightarrow> tls_state \<Rightarrow> (u8 list \<times> tls_state) option" where
  "derive_keys premaster rand64 tls =
     do_opt (prf_hmac_sha256 48 premaster (label_bytes ''master secret'') rand64) (\<lambda>secret.
     let tmp64 = take 32 (drop 32 rand64) @ take 32 rand64
     in do_opt (prf_hmac_sha256 (unat (2 * (MAC_size tls + key_size tls + IV_size tls))) secret
                  (label_bytes ''key expansion'') tmp64) (\<lambda>key_block.
        do_opt (store 0 key_block (client_write_MAC_key tls)) (\<lambda>area.
        let client_key = unat (2 * MAC_size tls);
            server_key = client_key + unat (key_size tls);
            client_IV = server_key + unat (key_size tls);
            server_IV = client_IV + unat (IV_size tls)
        in do_opt (load server_key (unat (key_size tls)) area) (\<lambda>sk.
           do_opt (aes_setkey (aes_decrypt tls) sk) (\<lambda>dec.
           do_opt (load client_key (unat (key_size tls)) area) (\<lambda>ck.
           do_opt (aes_setkey (aes_encrypt tls) ck) (\<lambda>enc.
           do_opt (aes_encrypt_one_block enc (replicate 16 0)) (\<lambda>H.
             Some (secret, tls\<lparr>client_write_MAC_key := area,
               client_write_IV := take 4 (drop client_IV area), server_write_IV := take 4 (drop server_IV area),
               aes_decrypt := dec, aes_encrypt := enc, gcm_H := H\<rparr>)))))))))"

section \<open>The suites the client offers\<close>

datatype suite_mode = CBC_SHA256 | GCM_SHA256

text \<open>RFC 5246, 5288 and 5289: whether the key exchange is ECDHE, the length of the AES key and the mode.\<close>

fun suite :: "u8 \<times> u8 \<Rightarrow> (bool \<times> nat \<times> suite_mode) option" where
  "suite (hi, lo) =
     map_of [((0xc0, 0x23), (True, 16, CBC_SHA256)), ((0xc0, 0x27), (True, 16, CBC_SHA256)),
             ((0xc0, 0x2b), (True, 16, GCM_SHA256)), ((0xc0, 0x2f), (True, 16, GCM_SHA256)),
             ((0, 0x3c), (False, 16, CBC_SHA256)), ((0, 0x3d), (False, 32, CBC_SHA256)),
             ((0, 0x9c), (False, 16, GCM_SHA256))] (hi, lo)"

fun mode_sizes :: "suite_mode \<Rightarrow> nat \<times> nat" where
  "mode_sizes CBC_SHA256 = (32, 0)"
| "mode_sizes GCM_SHA256 = (0, 4)"

text \<open>The suites listed in the client hello, after the length and the renegotiation marker.\<close>

definition offered :: "(u8 \<times> u8) list" where
  "offered = map (\<lambda>i. (ciphers ! (4 + 2 * i), ciphers ! (5 + 2 * i))) [0..<7]"

lemma offered_eq: "offered = [(0xc0, 0x23), (0xc0, 0x27), (0xc0, 0x2b), (0xc0, 0x2f), (0, 0x3c), (0, 0x3d), (0, 0x9c)]"
  by (simp add: offered_def ciphers_def upt_rec)

lemma set_cipher_offered:
  assumes "(hi, lo) \<in> set offered" "flags tls = 0" "IV_size tls = 0"
  shows "\<exists>ec k mode m i. suite (hi, lo) = Some (ec, k, mode) \<and> mode_sizes mode = (m, i) \<and> k \<in> {16, 32} \<and>
    (flags (set_cipher hi lo tls) AND NEED_EC_KEY \<noteq> 0 \<longleftrightarrow> ec) \<and>
    (flags (set_cipher hi lo tls) AND ENCRYPTION_AESGCM \<noteq> 0 \<longleftrightarrow> mode = GCM_SHA256) \<and>
    unat (MAC_size (set_cipher hi lo tls)) = m \<and> unat (key_size (set_cipher hi lo tls)) = k \<and>
    unat (IV_size (set_cipher hi lo tls)) = i \<and>
    unat (2 * MAC_size (set_cipher hi lo tls)) = 2 * m \<and>
    unat (2 * (MAC_size (set_cipher hi lo tls) + key_size (set_cipher hi lo tls) + IV_size (set_cipher hi lo tls)))
      = 2 * (m + k + i)"
  using assms unfolding offered_eq
  by (auto simp: set_cipher_def Let_def NEED_EC_KEY_def ENCRYPTION_AESGCM_def)

lemma set_cipher_frame [simp]:
  "client_write_MAC_key (set_cipher hi lo tls) = client_write_MAC_key tls"
  "aes_encrypt (set_cipher hi lo tls) = aes_encrypt tls" "aes_decrypt (set_cipher hi lo tls) = aes_decrypt tls"
  by (simp_all add: set_cipher_def Let_def)

section \<open>The key block\<close>

lemma length_P_sha256: "length (P_sha256 secret seed n) = n"
proof -
  have "length (concat (map (\<lambda>i. hmac_sha256 secret (prf_A secret seed (Suc i) @ seed)) [0..<Suc (n div 32)])) = 32 * Suc (n div 32)"
    by (simp add: length_concat comp_def sum_list_triv)
  moreover have "n \<le> 32 * Suc (n div 32)" using mult_div_mod_eq [of 32 n] mod_less_divisor [of 32 n] by simp
  ultimately show ?thesis by (simp only: P_sha256_def length_take min.absorb2)
qed

lemma load_inside: "off + n \<le> length x \<Longrightarrow> load off n (x @ y) = Some (take n (drop off x))"
  by (simp add: load_def)

lemma derive_keys_block:
  fixes tls premaster cr sr
  defines "master \<equiv> P_sha256 premaster (label_bytes ''master secret'' @ cr @ sr) 48"
  assumes "length premaster \<le> 64" "length cr = 32" "length sr = 32" "length (client_write_MAC_key tls) = 136"
    and k: "length (key (aes_encrypt tls)) = 60" "length (key (aes_decrypt tls)) = 60" "unat (key_size tls) = k" "k \<in> {16, 32}"
    and m: "unat (2 * MAC_size tls) = 2 * m" "unat (IV_size tls) = i" "m + k + i \<le> 68"
      "unat (2 * (MAC_size tls + key_size tls + IV_size tls)) = 2 * (m + k + i)"
  defines "kb \<equiv> P_sha256 master (label_bytes ''key expansion'' @ sr @ cr) (2 * (m + k + i))"
  shows "\<exists>enc dec H. aes_setkey (aes_encrypt tls) (take k (drop (2 * m) kb)) = Some enc \<and>
    aes_setkey (aes_decrypt tls) (take k (drop (2 * m + k) kb)) = Some dec \<and>
    aes_encrypt_one_block enc (replicate 16 0) = Some H \<and>
    derive_keys premaster (cr @ sr) tls = Some (master, tls\<lparr>
      client_write_MAC_key := kb @ drop (2 * (m + k + i)) (client_write_MAC_key tls),
      client_write_IV := take 4 (drop (2 * m + k + k) (kb @ drop (2 * (m + k + i)) (client_write_MAC_key tls))),
      server_write_IV := take 4 (drop (2 * m + k + k + i) (kb @ drop (2 * (m + k + i)) (client_write_MAC_key tls))),
      aes_decrypt := dec, aes_encrypt := enc, gcm_H := H\<rparr>)"
proof -
  let ?area = "kb @ drop (2 * (m + k + i)) (client_write_MAC_key tls)"
  have kb: "length kb = 2 * (m + k + i)" by (simp add: kb_def length_P_sha256)
  let ?ck = "take k (drop (2 * m) kb)" and ?sk = "take k (drop (2 * m + k) kb)"
  have lk: "length ?ck \<in> {16, 24, 32}" "length ?sk \<in> {16, 24, 32}" using k(4) kb by auto
  obtain enc where enc: "aes_setkey (aes_encrypt tls) ?ck = Some enc" using aes_setkey_ref [OF lk(1) k(1)] by blast
  obtain dec where dec: "aes_setkey (aes_decrypt tls) ?sk = Some dec" using aes_setkey_ref [OF lk(2) k(2)] by blast
  obtain H where H: "aes_encrypt_one_block enc (replicate 16 0) = Some H"
    using block_cipherD(1) [OF setkey_block_cipher(1) [OF lk(1) k(1) enc], of "replicate 16 0"] by simp
  have p1: "prf_hmac_sha256 48 premaster (label_bytes ''master secret'') (cr @ sr) = Some master"
    using assms(2-4) by (simp add: master_def prf_hmac_sha256_correct label_bytes_def)
  have p2: "prf_hmac_sha256 (2 * (m + k + i)) master (label_bytes ''key expansion'') (sr @ cr) = Some kb"
    using assms(3,4) by (simp add: kb_def prf_hmac_sha256_correct label_bytes_def length_P_sha256 master_def)
  have s: "store 0 kb (client_write_MAC_key tls) = Some ?area"
    using assms(5) m(3) kb by (simp add: store_def blit_def)
  have l: "load (2 * m + k) k ?area = Some ?sk" "load (2 * m) k ?area = Some ?ck"
    using kb by (simp_all add: load_inside)
  have "derive_keys premaster (cr @ sr) tls = Some (master, tls\<lparr>client_write_MAC_key := ?area,
      client_write_IV := take 4 (drop (2 * m + k + k) ?area), server_write_IV := take 4 (drop (2 * m + k + k + i) ?area),
      aes_decrypt := dec, aes_encrypt := enc, gcm_H := H\<rparr>)"
    using p1 p2 s l enc dec H assms(3,4) k(3) m
    by (simp only: derive_keys_def Let_def) simp
  then show ?thesis using enc dec H by blast
qed

section \<open>Property\<close>

lemma take_drop_inside: "i \<le> j \<Longrightarrow> off + i \<le> length x \<Longrightarrow> take i (take j (drop off (x @ y))) = take i (drop off x)"
  by (simp add: take_drop min_def)

text \<open>
  C40. For every suite the client offers, the state after \<^verbatim>\<open>get_server_hello\<close> and the key derivation is the one the RFCs
  prescribe: key exchange, key length and mode of the suite, a master secret of 48 bytes, a key
  block that fits into the key area and is cut into the MAC keys, the AES keys and the IVs in the order of
  RFC 5246, section 6.3, and the GCM hash key. These are the assumptions of the record layer's properties.
\<close>

theorem key_schedule:
  fixes tls premaster cr sr
  defines "master \<equiv> P_sha256 premaster (label_bytes ''master secret'' @ cr @ sr) 48"
  assumes "(hi, lo) \<in> set offered" "flags tls = 0" "IV_size tls = 0" "length (client_write_MAC_key tls) = 136"
    "length (key (aes_encrypt tls)) = 60" "length (key (aes_decrypt tls)) = 60"
    "length premaster \<le> 64" "length cr = 32" "length sr = 32"
  shows "\<exists>ec k mode m i tls' kb. suite (hi, lo) = Some (ec, k, mode) \<and> mode_sizes mode = (m, i) \<and>
    (flags (set_cipher hi lo tls) AND NEED_EC_KEY \<noteq> 0 \<longleftrightarrow> ec) \<and>
    (flags (set_cipher hi lo tls) AND ENCRYPTION_AESGCM \<noteq> 0 \<longleftrightarrow> mode = GCM_SHA256) \<and>
    derive_keys premaster (cr @ sr) (set_cipher hi lo tls) = Some (master, tls') \<and>
    kb = P_sha256 master (label_bytes ''key expansion'' @ sr @ cr) (2 * (m + k + i)) \<and>
    take (2 * m) (client_write_MAC_key tls') = take (2 * m) kb \<and>
    aes_setkey (aes_encrypt tls) (take k (drop (2 * m) kb)) = Some (aes_encrypt tls') \<and>
    aes_setkey (aes_decrypt tls) (take k (drop (2 * m + k) kb)) = Some (aes_decrypt tls') \<and>
    take i (client_write_IV tls') = take i (drop (2 * m + 2 * k) kb) \<and>
    take i (server_write_IV tls') = take i (drop (2 * m + 2 * k + i) kb) \<and>
    aes_encrypt_one_block (aes_encrypt tls') (replicate 16 0) = Some (gcm_H tls')"
proof -
  obtain ec k mode m i where c: "suite (hi, lo) = Some (ec, k, mode)" "mode_sizes mode = (m, i)" "k \<in> {16, 32}"
    "flags (set_cipher hi lo tls) AND NEED_EC_KEY \<noteq> 0 \<longleftrightarrow> ec"
    "flags (set_cipher hi lo tls) AND ENCRYPTION_AESGCM \<noteq> 0 \<longleftrightarrow> mode = GCM_SHA256"
    and u: "unat (key_size (set_cipher hi lo tls)) = k" "unat (2 * MAC_size (set_cipher hi lo tls)) = 2 * m"
    "unat (IV_size (set_cipher hi lo tls)) = i"
    "unat (2 * (MAC_size (set_cipher hi lo tls) + key_size (set_cipher hi lo tls) + IV_size (set_cipher hi lo tls)))
      = 2 * (m + k + i)"
    using set_cipher_offered [OF assms(2-4)] by blast
  have i4: "i \<le> 4" "m + k + i \<le> 68" using c(2,3) by (cases mode; auto)+
  let ?t = "set_cipher hi lo tls"
  let ?kb = "P_sha256 master (label_bytes ''key expansion'' @ sr @ cr) (2 * (m + k + i))"
  let ?area = "?kb @ drop (2 * (m + k + i)) (client_write_MAC_key tls)"
  have kb: "length ?kb = 2 * (m + k + i)" by (rule length_P_sha256)
  obtain enc dec H where d: "aes_setkey (aes_encrypt tls) (take k (drop (2 * m) ?kb)) = Some enc"
    "aes_setkey (aes_decrypt tls) (take k (drop (2 * m + k) ?kb)) = Some dec"
    "aes_encrypt_one_block enc (replicate 16 0) = Some H"
    "derive_keys premaster (cr @ sr) ?t = Some (master, ?t\<lparr>client_write_MAC_key := ?area,
      client_write_IV := take 4 (drop (2 * m + k + k) ?area), server_write_IV := take 4 (drop (2 * m + k + k + i) ?area),
      aes_decrypt := dec, aes_encrypt := enc, gcm_H := H\<rparr>)"
    using derive_keys_block [of premaster cr sr ?t k m i] assms(5-10) c(3) u i4 unfolding master_def by auto
  define t' where "t' = ?t\<lparr>client_write_MAC_key := ?area,
      client_write_IV := take 4 (drop (2 * m + k + k) ?area), server_write_IV := take 4 (drop (2 * m + k + k + i) ?area),
      aes_decrypt := dec, aes_encrypt := enc, gcm_H := H\<rparr>"
  have t': "client_write_MAC_key t' = ?area" "client_write_IV t' = take 4 (drop (2 * m + k + k) ?area)"
    "server_write_IV t' = take 4 (drop (2 * m + k + k + i) ?area)" "aes_decrypt t' = dec" "aes_encrypt t' = enc" "gcm_H t' = H"
    by (simp_all add: t'_def)
  have "take (2 * m) ?area = take (2 * m) ?kb" using kb by simp
  moreover have "take i (take 4 (drop (2 * m + k + k) ?area)) = take i (drop (2 * m + 2 * k) ?kb)"
    "take i (take 4 (drop (2 * m + k + k + i) ?area)) = take i (drop (2 * m + 2 * k + i) ?kb)"
  proof -
    have o: "2 * m + k + k = 2 * m + 2 * k" by simp
    show "take i (take 4 (drop (2 * m + k + k) ?area)) = take i (drop (2 * m + 2 * k) ?kb)"
      unfolding o by (rule take_drop_inside [OF i4(1)]) (simp only: kb, simp)
    show "take i (take 4 (drop (2 * m + k + k + i) ?area)) = take i (drop (2 * m + 2 * k + i) ?kb)"
      unfolding o by (rule take_drop_inside [OF i4(1)]) (simp only: kb, simp)
  qed
  ultimately show ?thesis using c d(1-3) d(4) [folded t'_def]
    by (intro exI [of _ ec] exI [of _ k] exI [of _ mode] exI [of _ m] exI [of _ i] exI [of _ t'] exI [of _ ?kb] conjI)
      (simp_all only: t')
qed

theorem key_schedule_witness:
  "\<exists>ec k mode m i tls' kb. suite (0xc0, 0x2f) = Some (ec, k, mode) \<and> mode_sizes mode = (m, i) \<and>
    derive_keys (replicate 32 1) (replicate 32 2 @ replicate 32 3) (set_cipher 0xc0 0x2f (sample_tls\<lparr>flags := 0, IV_size := 0\<rparr>)) =
      Some (P_sha256 (replicate 32 1) (label_bytes ''master secret'' @ replicate 32 2 @ replicate 32 3) 48, tls') \<and>
    aes_setkey sample_aes (take k (drop (2 * m) kb)) = Some (aes_encrypt tls')"
  using key_schedule [of "0xc0" "0x2f" "sample_tls\<lparr>flags := 0, IV_size := 0\<rparr>" "replicate 32 1" "replicate 32 2" "replicate 32 3"]
    sample_key_length
  by (auto simp: sample_tls_fields offered_eq)

end
