(* ===== verification/RB_TlsDer.thy ===== *)
theory RB_TlsDer
  imports RB_TlsRead
begin

text \<open>
  The server's certificate, \<^verbatim>\<open>src/networking/tls.rs\<close>: the DER scanner and the search for the RSA key. A pointer into the
  input buffer is an offset; reading outside the buffer is \<^const>\<open>Fault\<close>.
\<close>

section \<open>Operations\<close>

definition peek :: "u8 list \<Rightarrow> nat \<Rightarrow> tls_exit + u8" where
  "peek buf i = (if i < length buf then Inr (buf ! i) else Inl Fault)"

definition get24be :: "u8 list \<Rightarrow> nat \<Rightarrow> tls_exit + nat" where
  "get24be buf p =
     do_res (peek buf p) (\<lambda>b0. do_res (peek buf (p + 1)) (\<lambda>b1. do_res (peek buf (p + 2)) (\<lambda>b2.
       Inr (0x100 * (0x100 * unat b0 + unat b1) + unat b2))))"

definition binary_to_pstm :: "u8 list \<Rightarrow> pstm_int" where
  "binary_to_pstm b = pstm_read_unsigned_bin (pstm_init_for_read_unsigned_bin (length b)) b"

text \<open>The offset and the length of the body of the item at \<open>der\<close>.\<close>

definition get_der_len :: "u8 list \<Rightarrow> nat \<Rightarrow> nat \<Rightarrow> tls_exit + nat \<times> nat" where
  "get_der_len buf der lim =
     (if int lim - int der < 2 then Inl (Die '''')
      else do_res (peek buf (der + 1)) (\<lambda>b.
        let len = unat b
        in do_res
             (if 0x80 \<le> len then
                if len = 0x80 \<or> int lim - int der < int len - 0x7e then Inl (Die '''')
                else do_res (peek buf (der + 2)) (\<lambda>l1.
                  if 0x82 < len then Inl (Die '''')
                  else if len = 0x82
                  then do_res (peek buf (der + 3)) (\<lambda>l2. Inr (der + 1 + 1, 0x100 * unat l1 + unat l2))
                  else Inr (der + 1, unat l1))
              else Inr (der, len))
             (\<lambda>(der, len).
                let der = der + 2
                in if int lim - int der < int len then Inl (Die '''') else Inr (der, len))))"

definition enter_der_item :: "u8 list \<Rightarrow> nat \<Rightarrow> nat \<Rightarrow> tls_exit + nat \<times> nat" where
  "enter_der_item buf der lim = do_res (get_der_len buf der lim) (\<lambda>(new_der, len). Inr (new_der, new_der + len))"

definition skip_der_item :: "u8 list \<Rightarrow> nat \<Rightarrow> nat \<Rightarrow> tls_exit + nat" where
  "skip_der_item buf der lim = do_res (get_der_len buf der lim) (\<lambda>(new_der, len). Inr (new_der + len))"

definition der_binary_to_pstm :: "u8 list \<Rightarrow> nat \<Rightarrow> nat \<Rightarrow> tls_exit + pstm_int" where
  "der_binary_to_pstm buf der lim =
     do_res (get_der_len buf der lim) (\<lambda>(bin_ptr, len).
       do_res (expect Fault (load bin_ptr len buf)) (\<lambda>b. Inr (binary_to_pstm b)))"

definition GOT_CERT_RSA_KEY_ALG :: u32 where "GOT_CERT_RSA_KEY_ALG = 2"

definition OID_RSA_KEY_ALG :: "u8 list" where
  "OID_RSA_KEY_ALG = [0x30, 0x0d, 0x06, 0x09, 0x2a, 0x86, 0x48, 0x86, 0xf7, 0x0d, 0x01, 0x01, 0x01]"

definition OID_ECDSA_KEY_ALG :: "u8 list" where
  "OID_ECDSA_KEY_ALG = [0x30, 0x13, 0x06, 0x07, 0x2a, 0x86, 0x48, 0xce, 0x3d, 0x02, 0x01]"

text \<open>The steps from the certificate to the content of \<open>subjectPublicKeyInfo\<close>.\<close>

definition find_key_info :: "u8 list \<Rightarrow> nat \<Rightarrow> nat \<Rightarrow> tls_exit + nat \<times> nat" where
  "find_key_info buf der len =
     do_res (enter_der_item buf der (der + len)) (\<lambda>(der, lim).
     do_res (enter_der_item buf der lim) (\<lambda>(der, lim).
     do_res (peek buf der) (\<lambda>b.
     do_res (if b = 0xa0 then skip_der_item buf der lim else Inr der) (\<lambda>der.
     do_res (skip_der_item buf der lim) (\<lambda>der.
     do_res (skip_der_item buf der lim) (\<lambda>der.
     do_res (skip_der_item buf der lim) (\<lambda>der.
     do_res (skip_der_item buf der lim) (\<lambda>der.
     do_res (skip_der_item buf der lim) (\<lambda>der.
       enter_der_item buf der lim)))))))))"

definition read_rsa_key :: "u8 list \<Rightarrow> nat \<Rightarrow> nat \<Rightarrow> tls_exit + psRsaKey" where
  "read_rsa_key buf der lim =
     do_res (skip_der_item buf der lim) (\<lambda>der.
     do_res (enter_der_item buf der lim) (\<lambda>(der, lim).
       if int lim - int der < 14 then Inl (Die '''')
       else do_res (peek buf der) (\<lambda>b.
         if b \<noteq> 0 then Inl (Die '''')
         else do_res (enter_der_item buf (der + 1) lim) (\<lambda>(der, lim).
              do_res (der_binary_to_pstm buf der lim) (\<lambda>N.
              do_res (skip_der_item buf der lim) (\<lambda>der.
              do_res (der_binary_to_pstm buf der lim) (\<lambda>e.
                Inr \<lparr>rsa_e = e, rsa_N = N, rsa_size = pstm_unsigned_bin_size N\<rparr>)))))))"

definition find_key_in_der_cert :: "tls_state \<Rightarrow> nat \<Rightarrow> nat \<Rightarrow> tls_exit + tls_state" where
  "find_key_in_der_cert tls der len =
     do_res (find_key_info (inbuf tls) der len) (\<lambda>(der, lim).
     do_res (expect Fault (load der (length OID_RSA_KEY_ALG) (inbuf tls))) (\<lambda>alg.
     do_res
       (if alg = OID_RSA_KEY_ALG then Inr (tls\<lparr>flags := flags tls OR GOT_CERT_RSA_KEY_ALG\<rparr>)
        else if take (length OID_ECDSA_KEY_ALG) alg = OID_ECDSA_KEY_ALG then Inr tls
        else Inl (Die ''not RSA or ECDSA cert'')) (\<lambda>tls.
       if flags tls AND GOT_CERT_RSA_KEY_ALG \<noteq> 0
       then do_res (read_rsa_key (inbuf tls) der lim) (\<lambda>k.
              case hsd tls of
                None \<Rightarrow> Inl Null_handshake
              | Some h \<Rightarrow> Inr (tls\<lparr>hsd := Some (h\<lparr>server_rsa_pub_key := k\<rparr>)\<rparr>))
       else Inr tls)))"

text \<open>The handshake data as \<open>xzalloc\<close> returns it.\<close>

definition zero_hsd :: tls_handshake_data where
  "zero_hsd = \<lparr>handshake_hash_ctx = hashed_key_xor_ipad zero_hmac_precomputed, client_and_server_rand32 = replicate 64 0,
     master_secret = replicate 48 0, server_rsa_pub_key = \<lparr>rsa_e = pstm_init_size 0, rsa_N = pstm_init_size 0, rsa_size = 0\<rparr>,
     ecc_pub_key32 = replicate 32 0\<rparr>"

section \<open>The reference: DER\<close>

definition der_length :: "nat \<Rightarrow> u8 list" where
  "der_length n =
     (if n < 0x80 then [of_nat n] else if n < 0x100 then [0x81, of_nat n]
      else [0x82, of_nat (n div 0x100), of_nat (n mod 0x100)])"

definition der_item :: "u8 \<Rightarrow> u8 list \<Rightarrow> u8 list" where
  "der_item tag body = tag # der_length (length body) @ body"

text \<open>A certificate with an RSA key: the fields before and after the key are arbitrary items.\<close>

definition rsa_key_body :: "u8 list \<Rightarrow> u8 list \<Rightarrow> u8 list" where
  "rsa_key_body N e =
     OID_RSA_KEY_ALG @ [0x05, 0x00] @ der_item 0x03 (0 # der_item 0x30 (der_item 0x02 N @ der_item 0x02 e))"

definition rsa_key_info :: "u8 list \<Rightarrow> u8 list \<Rightarrow> u8 list" where
  "rsa_key_info N e = der_item 0x30 (rsa_key_body N e)"

definition items :: "(u8 \<times> u8 list) list \<Rightarrow> u8 list" where
  "items its = concat (map (\<lambda>(tag, body). der_item tag body) its)"

definition certificate :: "u8 list option \<Rightarrow> (u8 \<times> u8 list) list \<Rightarrow> u8 list \<Rightarrow> u8 list \<Rightarrow> u8 list \<Rightarrow> u8 list" where
  "certificate version its info extensions signature =
     der_item 0x30 (der_item 0x30
       ((case version of None \<Rightarrow> [] | Some v \<Rightarrow> der_item 0xa0 v) @ items its @ info @ extensions) @ signature)"

section \<open>The scanner\<close>

lemma unat_small_byte: "n < 256 \<Longrightarrow> unat (of_nat n :: u8) = n"
  by (simp add: unat_of_nat)

lemma get_der_len_item:
  assumes "length body < 0x10000" "length x + length (der_item tag body) \<le> e"
  shows "get_der_len (x @ der_item tag body @ y) (length x) e =
    Inr (length x + (length (der_item tag body) - length body), length body)"
proof -
  let ?n = "length body"
  have d: "?n div 256 < 256" using assms(1) by simp
  consider "?n < 0x80" | "0x80 \<le> ?n" "?n < 0x100" | "0x100 \<le> ?n" by linarith
  then show ?thesis
    using assms d
    by cases (auto simp: get_der_len_def peek_def nth_append der_item_def der_length_def unat_small_byte Let_def)
qed

lemma get_der_len_bounds:
  assumes "lim \<le> length buf"
  shows "get_der_len buf der lim \<noteq> Inl Fault"
    "get_der_len buf der lim = Inr (b, n) \<Longrightarrow> der + 2 \<le> b \<and> b + n \<le> lim"
  using assms by (auto simp: get_der_len_def peek_def Let_def do_res_Inr simp del: of_nat_unat split: if_splits)

lemma length_der_item: "length (der_item tag body) = Suc (length (der_length (length body)) + length body)"
  by (simp add: der_item_def)

lemma der_item_not_Nil [simp]: "der_item tag body \<noteq> []"
  by (simp add: der_item_def)

lemma skip_item:
  assumes "length (der_item tag body) < 0x10000" "length x + length (der_item tag body) \<le> lim"
  shows "skip_der_item (x @ der_item tag body @ y) (length x) lim = Inr (length x + length (der_item tag body))"
  using get_der_len_item [of body x tag lim y] assms by (simp add: skip_der_item_def length_der_item)

lemma enter_item:
  assumes "length (der_item tag body) < 0x10000" "length x + length (der_item tag body) \<le> lim"
  shows "enter_der_item (x @ der_item tag body @ y) (length x) lim =
    Inr (length (x @ tag # der_length (length body)), length (x @ tag # der_length (length body)) + length body)"
  using get_der_len_item [of body x tag lim y] assms by (simp add: enter_der_item_def length_der_item)

lemma der_item_body: "x @ der_item tag body @ y = (x @ tag # der_length (length body)) @ body @ y"
  by (simp add: der_item_def)

lemma read_integer:
  assumes "length (der_item tag body) < 0x10000" "length x + length (der_item tag body) \<le> lim"
  shows "der_binary_to_pstm (x @ der_item tag body @ y) (length x) lim = Inr (binary_to_pstm body)"
proof -
  let ?x = "x @ tag # der_length (length body)"
  have "get_der_len (x @ der_item tag body @ y) (length x) lim = Inr (length ?x, length body)"
    using get_der_len_item [of body x tag lim y] assms by (simp add: length_der_item)
  moreover have "load (length ?x) (length body) (x @ der_item tag body @ y) = Some body"
    unfolding der_item_body by (simp add: load_def)
  ultimately show ?thesis by (simp add: der_binary_to_pstm_def)
qed

text \<open>The five fields between the version and the key.\<close>

primrec skip_many :: "nat \<Rightarrow> u8 list \<Rightarrow> nat \<Rightarrow> nat \<Rightarrow> tls_exit + nat" where
  "skip_many 0 buf der lim = Inr der"
| "skip_many (Suc n) buf der lim = do_res (skip_der_item buf der lim) (\<lambda>der. skip_many n buf der lim)"

lemma skip_many_items:
  "length x + length (items its) \<le> lim \<Longrightarrow> length (items its) < 0x10000 \<Longrightarrow>
   skip_many (length its) (x @ items its @ y) (length x) lim = Inr (length x + length (items its))"
proof (induction its arbitrary: x)
  case (Cons it its)
  obtain tag body where it: "it = (tag, body)" by fastforce
  have "items (it # its) = der_item tag body @ items its" by (simp add: items_def it)
  then show ?case
    using Cons.prems skip_item [of tag body x lim "items its @ y"] Cons.IH [of "x @ der_item tag body"] by simp
qed (simp add: items_def)

lemma find_key_info_skip:
  "find_key_info buf der len =
     do_res (enter_der_item buf der (der + len)) (\<lambda>(der, lim).
     do_res (enter_der_item buf der lim) (\<lambda>(der, lim).
     do_res (peek buf der) (\<lambda>b.
     do_res (if b = 0xa0 then skip_der_item buf der lim else Inr der) (\<lambda>der.
     do_res (skip_many 5 buf der lim) (\<lambda>der. enter_der_item buf der lim)))))"
proof -
  have "do_res (skip_many 5 buf der lim) f =
     do_res (skip_der_item buf der lim) (\<lambda>der. do_res (skip_der_item buf der lim) (\<lambda>der.
     do_res (skip_der_item buf der lim) (\<lambda>der. do_res (skip_der_item buf der lim) (\<lambda>der.
     do_res (skip_der_item buf der lim) f))))" for der lim and f :: "nat \<Rightarrow> tls_exit + nat \<times> nat"
    by (auto simp: numeral_eq_Suc split: sum.splits)
  then show ?thesis unfolding find_key_info_def by (simp only:)
qed

lemma find_key_info_certificate:
  fixes pre post key ext sig version its
  defines "info \<equiv> der_item 0x30 key"
  defines "cert \<equiv> certificate version its info ext sig"
  assumes "length cert < 0x10000" "length its = 5" "version = None \<Longrightarrow> fst (hd its) \<noteq> 0xa0"
  shows "\<exists>x y. pre @ cert @ post = x @ key @ y \<and> length key < 0x10000 \<and>
    find_key_info (pre @ cert @ post) (length pre) (length cert) = Inr (length x, length x + length key)"
proof -
  let ?v = "case version of None \<Rightarrow> [] | Some v \<Rightarrow> der_item 0xa0 v"
  let ?tbs = "?v @ items its @ info @ ext"
  let ?b1 = "der_item 0x30 ?tbs @ sig"
  have info: "info = der_item 0x30 key" by (simp add: info_def)
  have cert: "cert = der_item 0x30 ?b1" by (simp add: cert_def certificate_def)
  have l: "length (der_item 0x30 ?b1) < 0x10000" using assms(3) by (simp add: cert)
  have l2: "length (der_item 0x30 ?tbs) < 0x10000" using l by (simp add: length_der_item [of _ ?b1])
  have l3: "length ?v + length (items its) + length info + length ext < 0x10000"
    using l2 by (simp add: length_der_item [of _ ?tbs])
  define x1 where "x1 = pre @ 0x30 # der_length (length ?b1)"
  define x2 where "x2 = x1 @ 0x30 # der_length (length ?tbs)"
  define lim where "lim = length x2 + length ?tbs"
  have buf1: "pre @ cert @ post = x1 @ der_item 0x30 ?tbs @ sig @ post"
    by (simp add: cert x1_def der_item_def [of _ ?b1])
  have buf2: "pre @ cert @ post = x2 @ ?tbs @ sig @ post" by (simp add: buf1 x2_def der_item_def [of _ ?tbs])
  have e1: "enter_der_item (pre @ cert @ post) (length pre) (length pre + length cert) = Inr (length x1, length x1 + length ?b1)"
    using enter_item [OF l, of pre _ post] unfolding cert x1_def by simp
  have e2: "enter_der_item (pre @ cert @ post) (length x1) (length x1 + length ?b1) = Inr (length x2, lim)"
    using enter_item [OF l2, of x1 _ "sig @ post"] unfolding buf1 x2_def lim_def by simp
  obtain it its' where its: "its = it # its'" using assms(4) by (cases its) auto
  have first: "do_res (peek (pre @ cert @ post) (length x2)) (\<lambda>b. do_res (if b = 0xa0 then skip_der_item (pre @ cert @ post) (length x2) lim
      else Inr (length x2)) f) = f (length (x2 @ ?v))" for f :: "nat \<Rightarrow> tls_exit + nat \<times> nat"
  proof (cases version)
    case None
    then have "(x2 @ ?tbs @ sig @ post) ! length x2 \<noteq> 0xa0"
      using assms(5) by (cases it) (simp add: its items_def der_item_def nth_append)
    then show ?thesis using None unfolding buf2 by (simp add: peek_def its items_def length_der_item split: prod.splits)
  next
    case (Some v)
    have "skip_der_item (x2 @ der_item 0xa0 v @ items its @ info @ ext @ sig @ post) (length x2) lim = Inr (length x2 + length (der_item 0xa0 v))"
      by (rule skip_item) (use Some l3 in \<open>simp_all add: lim_def\<close>)
    then show ?thesis using Some unfolding buf2 by (simp add: peek_def nth_append der_item_def)
  qed
  have mid: "skip_many 5 (pre @ cert @ post) (length (x2 @ ?v)) lim = Inr (length (x2 @ ?v @ items its))"
    using skip_many_items [of "x2 @ ?v" its lim "info @ ext @ sig @ post"] l3 assms(4) unfolding buf2 by (simp add: lim_def)
  define x3 where "x3 = (x2 @ ?v @ items its) @ 0x30 # der_length (length key)"
  have last: "enter_der_item (pre @ cert @ post) (length (x2 @ ?v @ items its)) lim = Inr (length x3, length x3 + length key)"
    using enter_item [of "0x30" key "x2 @ ?v @ items its" lim "ext @ sig @ post"] l3 unfolding buf2 info x3_def
    by (simp add: lim_def info)
  have "find_key_info (pre @ cert @ post) (length pre) (length cert) = Inr (length x3, length x3 + length key)"
    unfolding find_key_info_skip e1 sum.case prod.case e2 by (simp only: first mid last sum.case)
  moreover have "pre @ cert @ post = x3 @ key @ ext @ sig @ post"
    unfolding buf2 x3_def by (simp add: info der_item_def [of _ key])
  moreover have "length key < 0x10000" using l3 by (simp add: info length_der_item [of _ key])
  ultimately show ?thesis by blast
qed

lemma read_rsa_key_info:
  fixes N e x y
  defines "seq \<equiv> der_item 0x02 N @ der_item 0x02 e"
  defines "bits \<equiv> 0 # der_item 0x30 seq"
  defines "k \<equiv> rsa_key_body N e"
  assumes "length k < 0x10000" "7 \<le> length N + length e"
  shows "read_rsa_key (x @ k @ y) (length x) (length x + length k) =
    Inr \<lparr>rsa_e = binary_to_pstm e, rsa_N = binary_to_pstm N, rsa_size = pstm_unsigned_bin_size (binary_to_pstm N)\<rparr>"
proof -
  define ab :: "u8 list" where "ab = [0x06, 0x09, 0x2a, 0x86, 0x48, 0x86, 0xf7, 0x0d, 0x01, 0x01, 0x01, 0x05, 0x00]"
  define alg where "alg = der_item 0x30 ab"
  have alg: "OID_RSA_KEY_ALG @ [0x05, 0x00] = alg" by (simp add: alg_def ab_def OID_RSA_KEY_ALG_def der_item_def der_length_def)
  have k: "k = alg @ der_item 0x03 bits" by (simp add: k_def rsa_key_body_def bits_def seq_def alg [symmetric])
  have lb: "length (der_item 0x03 bits) < 0x10000" "length (der_item 0x30 seq) < 0x10000" "length seq < 0x10000"
    using assms(4) by (simp_all add: k bits_def length_der_item [of 3] length_der_item [of 48])
  have li: "length (der_item 0x02 N) < 0x10000" "length (der_item 0x02 e) < 0x10000" using lb(3) by (simp_all add: seq_def)
  define x1 where "x1 = (x @ alg) @ 0x03 # der_length (length bits)"
  define x2 where "x2 = (x1 @ [0]) @ 0x30 # der_length (length seq)"
  have s1: "skip_der_item (x @ k @ y) (length x) (length x + length k) = Inr (length (x @ alg))"
    using skip_item [of "0x30" ab x "length x + length k" "der_item 0x03 bits @ y", folded alg_def] assms(4) by (simp add: k)
  have b1: "x @ k @ y = x1 @ bits @ y" by (simp add: k x1_def der_item_def [of _ bits])
  have e1: "enter_der_item (x @ k @ y) (length (x @ alg)) (length x + length k) = Inr (length x1, length x1 + length bits)"
    using enter_item [OF lb(1), of "x @ alg" "length x + length k" y] by (simp add: k x1_def)
  have big: "14 \<le> length bits" using assms(5) by (simp add: bits_def seq_def length_der_item der_length_def)
  have b2: "x @ k @ y = (x1 @ [0]) @ der_item 0x30 seq @ y" by (simp add: b1 bits_def)
  have z: "peek (x @ k @ y) (length x1) = Inr 0" by (simp add: b2 peek_def nth_append)
  have e2: "enter_der_item (x @ k @ y) (length x1 + 1) (length x1 + length bits) = Inr (length x2, length x2 + length seq)"
    using enter_item [OF lb(2), of "x1 @ [0]" "length x1 + length bits" y] by (simp add: b2 x2_def) (simp add: bits_def)
  have b3: "x @ k @ y = x2 @ der_item 0x02 N @ der_item 0x02 e @ y"
    unfolding b2 x2_def der_item_def [of _ seq] by (simp add: seq_def)
  have n: "der_binary_to_pstm (x @ k @ y) (length x2) (length x2 + length seq) = Inr (binary_to_pstm N)"
    "skip_der_item (x @ k @ y) (length x2) (length x2 + length seq) = Inr (length (x2 @ der_item 0x02 N))"
    unfolding b3 using read_integer [OF li(1)] skip_item [OF li(1)] by (simp_all add: seq_def)
  have e: "der_binary_to_pstm (x @ k @ y) (length (x2 @ der_item 0x02 N)) (length x2 + length seq) = Inr (binary_to_pstm e)"
    using read_integer [OF li(2), of "x2 @ der_item 0x02 N" "length x2 + length seq" y] unfolding b3 by (simp add: seq_def)
  show ?thesis unfolding read_rsa_key_def s1 sum.case e1 prod.case z e2 n e using big by simp
qed

lemma certificate_rsa_key_found:
  fixes N e version its ext sig
  defines "cert \<equiv> certificate version its (der_item 0x30 (rsa_key_body N e)) ext sig"
  assumes "inbuf tls = pre @ cert @ post" "length cert < 0x10000" "length its = 5" "version = None \<longrightarrow> fst (hd its) \<noteq> 0xa0"
    "hsd tls = Some h" "7 \<le> length N + length e"
  shows "find_key_in_der_cert tls (length pre) (length cert) =
    Inr (tls\<lparr>flags := flags tls OR GOT_CERT_RSA_KEY_ALG, hsd := Some (h\<lparr>server_rsa_pub_key :=
      \<lparr>rsa_e = binary_to_pstm e, rsa_N = binary_to_pstm N, rsa_size = pstm_unsigned_bin_size (binary_to_pstm N)\<rparr>\<rparr>)\<rparr>)"
proof -
  let ?k = "rsa_key_body N e"
  obtain x y where buf: "inbuf tls = x @ ?k @ y" and l: "length ?k < 0x10000"
    and f: "find_key_info (inbuf tls) (length pre) (length cert) = Inr (length x, length x + length ?k)"
    using find_key_info_certificate [OF assms(3) [unfolded cert_def] assms(4), of pre post] assms(2,5)
    by (auto simp: cert_def)
  have alg: "load (length x) (length OID_RSA_KEY_ALG) (inbuf tls) = Some OID_RSA_KEY_ALG"
    by (simp add: buf load_def rsa_key_body_def)
  have "(flags tls OR GOT_CERT_RSA_KEY_ALG) AND GOT_CERT_RSA_KEY_ALG \<noteq> 0"
    by (simp add: GOT_CERT_RSA_KEY_ALG_def bit.conj_disj_distrib2)
  then show ?thesis
    using read_rsa_key_info [OF l assms(7), of x y] assms(6) by (simp add: find_key_in_der_cert_def f alg buf [symmetric])
qed

text \<open>A key for signatures with elliptic curves is accepted and not looked at.\<close>

lemma certificate_ecdsa_key:
  fixes key version its ext sig
  defines "cert \<equiv> certificate version its (der_item 0x30 key) ext sig"
  assumes "inbuf tls = pre @ cert @ post" "length cert < 0x10000" "length its = 5" "version = None \<longrightarrow> fst (hd its) \<noteq> 0xa0"
    "take 11 key = OID_ECDSA_KEY_ALG" "13 \<le> length key" "flags tls AND GOT_CERT_RSA_KEY_ALG = 0"
  shows "find_key_in_der_cert tls (length pre) (length cert) = Inr tls"
proof -
  obtain x y where buf: "inbuf tls = x @ key @ y"
    and f: "find_key_info (inbuf tls) (length pre) (length cert) = Inr (length x, length x + length key)"
    using find_key_info_certificate [OF assms(3) [unfolded cert_def] assms(4), of pre post] assms(2,5)
    by (auto simp: cert_def)
  have alg: "load (length x) (length OID_RSA_KEY_ALG) (inbuf tls) = Some (take 13 key)"
    using assms(7) by (simp add: buf load_def OID_RSA_KEY_ALG_def eval_nat_numeral)
  have e: "take (length OID_ECDSA_KEY_ALG) (take 13 key) = OID_ECDSA_KEY_ALG"
    using assms(6) by (simp add: OID_ECDSA_KEY_ALG_def eval_nat_numeral)
  have "take 13 key \<noteq> OID_RSA_KEY_ALG"
  proof
    assume "take 13 key = OID_RSA_KEY_ALG"
    then show False using e by (simp add: OID_RSA_KEY_ALG_def OID_ECDSA_KEY_ALG_def)
  qed
  then show ?thesis using e assms(8) by (simp add: find_key_in_der_cert_def f alg)
qed

section \<open>Properties\<close>


text \<open>A certificate with fields of one byte each and a key of eight bytes.\<close>

definition sample_cert :: "u8 list" where
  "sample_cert = certificate None (replicate 5 (2, [1])) (rsa_key_info (replicate 7 255) [3]) [] []"


end
