(* ===== verification/RB_TlsHandshake.thy ===== *)
theory RB_TlsHandshake
  imports RB_TlsDer RB_TlsKeys RB_Fe RB_Rsa
begin

text \<open>
  The handshake of the TLS client, \<^verbatim>\<open>src/networking/tls.rs\<close>: every message it sends and reads, from the client hello to
  the server's Finished, over the record layer of \<open>RB_TlsRecord\<close> and \<open>RB_TlsRead\<close>, the certificate of \<open>RB_TlsDer\<close>,
  the key schedule of \<open>RB_TlsKeys\<close> and the key exchanges of \<open>RB_Fe\<close> and \<open>RB_Rsa\<close>. Parameters are the environment of a connection: the
  schedule of the reads and the content of fresh memory, and the answers of \<open>tls_get_random\<close> (which ends the process
  unless it gets as many bytes as asked for): \<open>pad_random\<close> is the one for the padding of the RSA encryption. Messages that are only printed are left out.
\<close>

section \<open>The environment\<close>

record tls_env =
  recv :: "nat \<Rightarrow> nat option"
  fresh_in :: "nat \<Rightarrow> u8"
  fresh_out :: "nat \<Rightarrow> u8"
  hello_random :: "u8 list"
  key_random :: "u8 list"
  iv_random :: "u8 list"
  pad_random :: "u8 list"

section \<open>Sending handshake messages\<close>

definition ENCRYPT_ON_WRITE :: u32 where "ENCRYPT_ON_WRITE = 32"

definition grow_outbuf :: "tls_env \<Rightarrow> tls_state \<Rightarrow> nat \<Rightarrow> tls_exit + tls_state" where
  "grow_outbuf env tls len =
     expect (Die '''') (tls_get_outbuf (map (fresh_out env) [0..<2 ^ 14 + OUTBUF_PFX + OUTBUF_SFX]) tls len)"

definition put :: "nat \<Rightarrow> u8 list \<Rightarrow> tls_state \<Rightarrow> tls_exit + tls_state" where
  "put off bs tls = do_res (expect Fault (store (OUTBUF_PFX + off) bs (outbuf tls))) (\<lambda>b. Inr (tls\<lparr>outbuf := b\<rparr>))"

definition tls_get_zeroed_outbuf :: "tls_env \<Rightarrow> tls_state \<Rightarrow> nat \<Rightarrow> tls_exit + tls_state" where
  "tls_get_zeroed_outbuf env tls len = do_res (grow_outbuf env tls len) (put 0 (replicate len 0))"

definition xwrite_handshake_record :: "tls_state \<Rightarrow> nat \<Rightarrow> tls_exit + tls_state" where
  "xwrite_handshake_record tls sz =
     (let xhdr = OUTBUF_PFX - RECHDR_LEN
      in do_res (expect Fault (store xhdr [22, 3, 3, len_hi sz, len_lo sz] (outbuf tls))) (\<lambda>buf.
         do_res (expect Fault (load xhdr (RECHDR_LEN + sz) buf)) (\<lambda>out.
           Inr (tls\<lparr>outbuf := buf, written := written tls @ [out]\<rparr>))))"

definition xwrite_and_update_handshake_hash :: "tls_env \<Rightarrow> tls_state \<Rightarrow> nat \<Rightarrow> tls_exit + tls_state" where
  "xwrite_and_update_handshake_hash env tls sz =
     (if flags tls AND ENCRYPT_ON_WRITE = 0
      then do_res (xwrite_handshake_record tls sz) (\<lambda>tls.
           do_res (expect Fault (load OUTBUF_PFX sz (outbuf tls))) (\<lambda>m. hash_handshake tls m))
      else expect Fault (xwrite_encrypted (iv_random env) tls sz 22))"

definition handshake_record_hdr :: "u8 \<Rightarrow> nat \<Rightarrow> u8 list" where
  "handshake_record_hdr ty len =
     (let len = of_nat len - 4 :: u32
      in [ty, ucast (drop_bit 16 len), ucast (drop_bit 8 len), ucast (len AND 0xff)])"

definition supported_groups :: "u8 list" where
  "supported_groups = [0, 0x0a, 0, 0x04, 0, 0x02, 0, 0x1d]"

text \<open>The extensions of the client hello: their length, the server name if there is one, the groups.\<close>

definition put_extensions :: "u8 list \<Rightarrow> nat \<Rightarrow> nat \<Rightarrow> tls_state \<Rightarrow> tls_exit + tls_state" where
  "put_extensions sni sni_len ext_len tls =
     (let ptr = 59 + 2
      in do_res (put 59 [ucast (drop_bit 8 (of_nat ext_len :: u32)), of_nat ext_len] tls) (\<lambda>tls.
         if sni_len \<noteq> 0
         then do_res (put (ptr + 3) [of_nat (sni_len + 5)] tls) (\<lambda>tls.
              do_res (put (ptr + 5) [of_nat (sni_len + 3)] tls) (\<lambda>tls.
              do_res (put (ptr + 8) [of_nat sni_len] tls) (\<lambda>tls.
              do_res (put (ptr + 9) (take sni_len sni) tls) (put (ptr + 9 + sni_len) supported_groups))))
         else put ptr supported_groups tls))"

definition send_client_hello_and_alloc_hsd :: "tls_env \<Rightarrow> u8 list option \<Rightarrow> tls_state \<Rightarrow> tls_exit + tls_state" where
  "send_client_hello_and_alloc_hsd env sni tls =
     (let sni_len = (case sni of None \<Rightarrow> 0 | Some s \<Rightarrow> min (length s) (127 - 5));
          ext_len = 0 + 8;
          ext_len = (if sni_len \<noteq> 0 then ext_len + (9 + sni_len) else ext_len);
          len = 59 + 2 + ext_len
      in do_res (tls_get_zeroed_outbuf env tls len) (\<lambda>tls.
         do_res (put 0 (handshake_record_hdr 1 len) tls) (\<lambda>tls.
         do_res (put 4 [3, 3] tls) (\<lambda>tls.
         do_res (tls_get_random (hello_random env) 32) (\<lambda>rand32.
         do_res (put 6 rand32 tls) (\<lambda>tls.
         do_res (put 39 ciphers tls) (\<lambda>tls.
         do_res (put_extensions (case sni of None \<Rightarrow> [] | Some s \<Rightarrow> s) sni_len ext_len tls) (\<lambda>tls.
         let h = zero_hsd\<lparr>client_and_server_rand32 := rand32 @ drop 32 (client_and_server_rand32 zero_hsd)\<rparr>;
             tls = tls\<lparr>hsd := Some (h\<lparr>handshake_hash_ctx := sha256_begin (handshake_hash_ctx h)\<rparr>)\<rparr>
         in xwrite_and_update_handshake_hash env tls len))))))))"

section \<open>Reading handshake messages\<close>

definition tls_xread_handshake_block :: "tls_env \<Rightarrow> tls_state \<Rightarrow> nat \<Rightarrow> tls_exit + nat \<times> tls_state" where
  "tls_xread_handshake_block env tls min_len =
     do_res (tls_xread_record (recv env) (fresh_in env) tls) (\<lambda>(len, tls).
       if len < min_len then Inl Bad_record
       else do_res (peek (inbuf tls) 0) (\<lambda>ty. if ty \<noteq> 22 then Inl Bad_record else Inr (len, tls)))"

definition get_server_hello :: "tls_env \<Rightarrow> tls_state \<Rightarrow> tls_exit + tls_state" where
  "get_server_hello env tls =
     do_res (tls_xread_handshake_block env tls (74 - 32)) (\<lambda>(len, tls).
     do_res (expect Fault (load 0 44 (inbuf tls))) (\<lambda>hp.
       if hp ! 5 \<noteq> 2 \<or> hp ! 6 \<noteq> 0 \<or> hp ! 7 \<noteq> 0 \<or> hp ! 9 \<noteq> 3 \<or> hp ! 10 \<noteq> 3 then Inl Bad_record
       else do_res
              (if hp ! 43 \<noteq> 32 then if hp ! 43 \<noteq> 0 then Inl Bad_record else Inr (76 - 32, unat (hp ! 8) + 32)
               else Inr (76, unat (hp ! 8))) (\<lambda>(cipherid, len24).
              if len24 < 70 then Inl Bad_record
              else case hsd tls of
                     None \<Rightarrow> Inl Null_handshake
                   | Some h \<Rightarrow>
                       let h = h\<lparr>client_and_server_rand32 :=
                                 take 32 (client_and_server_rand32 h) @ take 32 (drop 11 hp)\<rparr>
                       in do_res (peek (inbuf tls) cipherid) (\<lambda>c0. do_res (peek (inbuf tls) (cipherid + 1)) (\<lambda>c1.
                            Inr (set_cipher c0 c1 (tls\<lparr>hsd := Some h\<rparr>)))))))"

definition get_server_cert :: "tls_env \<Rightarrow> tls_state \<Rightarrow> tls_exit + tls_state" where
  "get_server_cert env tls =
     do_res (tls_xread_handshake_block env tls 10) (\<lambda>(len, tls).
     let certbuf = RECHDR_LEN
     in do_res (peek (inbuf tls) certbuf) (\<lambda>ty.
        if ty \<noteq> 11 then Inl Bad_record
        else do_res (get24be (inbuf tls) (certbuf + 1)) (\<lambda>len1.
          if int len - 4 < int len1 then Inl (Tls_error 1817)
          else do_res (get24be (inbuf tls) (certbuf + 4)) (\<lambda>len2.
            if int len1 - 3 < int len2 then Inl (Tls_error 1820)
            else do_res (get24be (inbuf tls) (certbuf + 7)) (\<lambda>len3.
              if int len2 - 3 < int len3 then Inl (Tls_error 1823)
              else if len3 \<noteq> 0 then find_key_in_der_cert tls (certbuf + 10) len3 else Inr tls)))))"

definition GOT_EC_KEY :: u32 where "GOT_EC_KEY = 8"

definition process_server_key :: "tls_state \<Rightarrow> nat \<Rightarrow> tls_exit + tls_state" where
  "process_server_key tls len =
     (let keybuf = RECHDR_LEN
      in do_res (get24be (inbuf tls) (keybuf + 1)) (\<lambda>len1.
         if int len - 4 < int len1 then Inl (Tls_error 1877)
         else if len1 < 1 + 2 + 1 + 32 then Inl (Tls_error 1879)
         else do_res (expect Fault (load (keybuf + 4) 4 (inbuf tls))) (\<lambda>t32.
           if read_u32 t32 0 \<noteq> swap_bytes32 0x3001d20 then Inl (Die ''elliptic curve is not x25519'')
           else do_res (expect Fault (load (keybuf + 4 + 4) 32 (inbuf tls))) (\<lambda>k.
             case hsd tls of
               None \<Rightarrow> Inl Null_handshake
             | Some h \<Rightarrow> Inr (tls\<lparr>hsd := Some (h\<lparr>ecc_pub_key32 := k\<rparr>), flags := flags tls OR GOT_EC_KEY\<rparr>)))))"

section \<open>The client's answer\<close>

definition send_empty_client_cert :: "tls_env \<Rightarrow> tls_state \<Rightarrow> tls_exit + tls_state" where
  "send_empty_client_cert env tls =
     do_res (tls_get_zeroed_outbuf env tls 7) (\<lambda>tls.
     do_res (put 0 [11] tls) (\<lambda>tls.
     do_res (put 3 [3] tls) (\<lambda>tls. xwrite_and_update_handshake_hash env tls 7)))"

definition basepoint9 :: "u8 list" where "basepoint9 = 9 # replicate 31 0"

definition clamp_key :: "u8 list \<Rightarrow> u8 list" where
  "clamp_key k = (let k = k[0 := k ! 0 AND 0xf8] in k[31 := k ! 31 AND 0x7f OR 0x40])"

text \<open>The premaster secret and the key part of the message.\<close>

definition premaster_secret :: "tls_env \<Rightarrow> tls_state \<Rightarrow> tls_handshake_data \<Rightarrow> tls_exit + u8 list \<times> u8 list" where
  "premaster_secret env tls h =
     (if flags tls AND NEED_EC_KEY = 0
      then do_res (tls_get_random (key_random env) 48) (\<lambda>r.
           let rsa_premaster = r[0 := 3, 1 := 3]
           in do_res (psRsaEncryptPub (pad_random env) (server_rsa_pub_key h) rsa_premaster (replicate (4098 - 2) 0)) (\<lambda>(len, key).
                Inr (rsa_premaster, len_hi len # len_lo len # take len key)))
      else do_res (tls_get_random (key_random env) 32) (\<lambda>r.
           let privkey = clamp_key r
           in Inr (curve25519 privkey (ecc_pub_key32 h), 32 # curve25519 privkey basepoint9)))"

definition send_client_key_exchange :: "tls_env \<Rightarrow> tls_state \<Rightarrow> tls_exit + tls_state" where
  "send_client_key_exchange env tls =
     do_res (tls_get_zeroed_outbuf env tls (4 + 4098)) (\<lambda>tls.
     case hsd tls of
       None \<Rightarrow> Inl Null_handshake
     | Some h \<Rightarrow>
         do_res (premaster_secret env tls h) (\<lambda>(premaster, k).
         do_res (put 4 k tls) (\<lambda>tls.
         do_res (put 0 [16] tls) (\<lambda>tls.
         do_res (put 2 [len_hi (length k), len_lo (length k)] tls) (\<lambda>tls.
         do_res (xwrite_and_update_handshake_hash env tls (length k + 4)) (\<lambda>tls.
         case hsd tls of
           None \<Rightarrow> Inl Null_handshake
         | Some h \<Rightarrow>
             do_res (expect Fault (derive_keys premaster (client_and_server_rand32 h) tls)) (\<lambda>(secret, tls).
               Inr (tls\<lparr>hsd := Some (h\<lparr>master_secret := secret\<rparr>)\<rparr>))))))))"

definition rec_CHANGE_CIPHER_SPEC :: "u8 list" where
  "rec_CHANGE_CIPHER_SPEC = [20, 3, 3, 0, 1, 1]"

definition send_change_cipher_spec :: "tls_state \<Rightarrow> tls_state" where
  "send_change_cipher_spec tls = tls\<lparr>written := written tls @ [rec_CHANGE_CIPHER_SPEC]\<rparr>"

definition send_client_finished :: "tls_env \<Rightarrow> tls_state \<Rightarrow> tls_exit + tls_state" where
  "send_client_finished env tls =
     do_res (grow_outbuf env tls 16) (\<lambda>tls.
     do_res (put 0 (handshake_record_hdr 20 16) tls) (\<lambda>tls.
     case hsd tls of
       None \<Rightarrow> Inl Null_handshake
     | Some h \<Rightarrow>
         do_res (expect Fault (sha1_end (handshake_hash_ctx h))) (\<lambda>(ctx, handshake_hash).
         let tls = tls\<lparr>hsd := Some (h\<lparr>handshake_hash_ctx := ctx\<rparr>)\<rparr>
         in do_res (expect Fault (prf_hmac_sha256 12 (master_secret h) (label_bytes ''client finished'') handshake_hash)) (\<lambda>v.
            do_res (put 4 v tls) (\<lambda>tls. expect Fault (xwrite_encrypted (iv_random env) tls 16 22))))))"

section \<open>The handshake\<close>

definition min_encrypted :: "tls_state \<Rightarrow> u32" where
  "min_encrypted tls = (if flags tls AND ENCRYPTION_AESGCM = 0 then 16 + (32 + 16 - 1) div 16 * 16 else 8 + 16)"

text \<open>From the server hello to the end of its messages: whether a certificate was asked for.\<close>

definition server_hello_done :: "tls_env \<Rightarrow> tls_state \<Rightarrow> tls_exit + bool \<times> tls_state" where
  "server_hello_done env tls =
     do_res (peek (inbuf tls) RECHDR_LEN) (\<lambda>ty.
     let got_cert_req = (ty = 13)
     in do_res (if got_cert_req then map_sum id snd (tls_xread_handshake_block env tls 4) else Inr tls) (\<lambda>tls.
        do_res (peek (inbuf tls) RECHDR_LEN) (\<lambda>ty.
          if ty \<noteq> 14 then Inl Bad_record else Inr (got_cert_req, tls))))"

definition server_messages :: "tls_env \<Rightarrow> tls_state \<Rightarrow> tls_exit + bool \<times> tls_state" where
  "server_messages env tls =
     do_res (get_server_hello env tls) (\<lambda>tls.
     do_res (get_server_cert env tls) (\<lambda>tls.
     do_res (tls_xread_handshake_block env tls 4) (\<lambda>(len, tls).
     do_res (peek (inbuf tls) RECHDR_LEN) (\<lambda>ty.
     do_res (if ty = 12
             then do_res (if flags tls AND NEED_EC_KEY \<noteq> 0 then process_server_key tls len else Inr tls)
                    (\<lambda>tls. map_sum id snd (tls_xread_handshake_block env tls 4))
             else Inr tls) (\<lambda>tls. server_hello_done env tls)))))"

definition server_finish :: "tls_env \<Rightarrow> tls_state \<Rightarrow> tls_exit + tls_state" where
  "server_finish env tls =
     do_res (tls_xread_record (recv env) (fresh_in env) tls) (\<lambda>(len, tls).
       if len \<noteq> 1 \<or> take 6 (inbuf tls) \<noteq> rec_CHANGE_CIPHER_SPEC then Inl Bad_record
       else let tls = tls\<lparr>min_encrypted_len_on_read := min_encrypted tls\<rparr>
            in do_res (tls_xread_record (recv env) (fresh_in env) tls) (\<lambda>(len, tls).
                 if len < 4 then Inl Bad_record
                 else do_res (peek (inbuf tls) RECHDR_LEN) (\<lambda>ty.
                   if ty \<noteq> 20 then Inl Bad_record else Inr (tls\<lparr>hsd := None\<rparr>))))"

definition tls_handshake :: "tls_env \<Rightarrow> u8 list option \<Rightarrow> tls_state \<Rightarrow> tls_exit + tls_state" where
  "tls_handshake env sni tls =
     do_res (send_client_hello_and_alloc_hsd env sni tls) (\<lambda>tls.
     do_res (server_messages env tls) (\<lambda>(got_cert_req, tls).
     do_res (if got_cert_req then send_empty_client_cert env tls else Inr tls) (\<lambda>tls.
     do_res (send_client_key_exchange env tls) (\<lambda>tls.
     let tls = send_change_cipher_spec tls;
         tls = tls\<lparr>flags := flags tls OR ENCRYPT_ON_WRITE\<rparr>
     in do_res (send_client_finished env tls) (\<lambda>tls. server_finish env tls)))))"

section \<open>The RSA key exchange\<close>

text \<open>With a key of 59 to 4096 bytes and an odd modulus, the secret is the offered version and 46 random bytes, and the client sends the
  length and the number \<open>M ^ e mod N\<close> in as many bytes as the modulus has, where \<open>M\<close> is the big-endian number of 0, 2, random
  bytes none of which is 0, 0 and the secret.\<close>

lemma premaster_secret_rsa:
  assumes r: "length (key_random env) = 48" and k: "rsa_key_ok k" "59 \<le> rsa_size k" and pad: "length (pad_random env) + 51 = rsa_size k"
    and safe: "exptmod_safe (bval (rev (pkcs1_message (pad_random env) (3 # 3 # drop 2 (key_random env))))) (rsa_N k)"
  obtains c where "length c = rsa_size k"
    "bval (rev c) = bval (rev (pkcs1_message (pad_random env) (3 # 3 # drop 2 (key_random env)))) ^ pstm_nat (rsa_e k) mod pstm_nat (rsa_N k)"
    "\<And>tls h. flags tls AND NEED_EC_KEY = 0 \<Longrightarrow> server_rsa_pub_key h = k \<Longrightarrow> premaster_secret env tls h =
      Inr (3 # 3 # drop 2 (key_random env), len_hi (rsa_size k) # len_lo (rsa_size k) # c)"
proof -
  let ?m = "3 # 3 # drop 2 (key_random env)"
  have m: "(key_random env)[0 := 3, 1 := 3] = ?m"
    using r by (cases "key_random env"; cases "tl (key_random env)") auto
  have "length ?m = 48" using r by simp
  then obtain c where c: "psRsaEncryptPub (pad_random env) k ?m (replicate 4096 0) = Inr (rsa_size k, c @ drop (rsa_size k) (replicate 4096 0))"
    "length c = rsa_size k" "bval (rev c) = bval (rev (pkcs1_message (pad_random env) ?m)) ^ pstm_nat (rsa_e k) mod pstm_nat (rsa_N k)"
    using psRsaEncryptPub_val [OF k(1) _ _ _ safe, of "replicate 4096 0"] k pad by (auto simp: rsa_key_ok_def)
  then have "premaster_secret env tls h = Inr (?m, len_hi (rsa_size k) # len_lo (rsa_size k) # c)"
    if "flags tls AND NEED_EC_KEY = 0" "server_rsa_pub_key h = k" for tls h
    using that r m by (simp add: premaster_secret_def tls_get_random_def Let_def)
  then show ?thesis using that c(2,3) by blast
qed

end
