(* ===== verification/RB_TlsSession.thy ===== *)
theory RB_TlsSession
  imports RB_TlsHandshake
begin

text \<open>
  A whole handshake over a byte stream: the messages of RFC 5246 as the reference, one lemma per message sent or
  read, and their composition under AES-GCM for every way to agree on a secret, with X25519 as the first.
\<close>

section \<open>The reference: records and messages\<close>

definition tls_record :: "u8 \<Rightarrow> u8 list \<Rightarrow> u8 list" where
  "tls_record ty m = [ty, 3, 3, len_hi (length m), len_lo (length m)] @ m"

definition be24 :: "nat \<Rightarrow> u8 list" where
  "be24 n = [of_nat (n div 0x10000), of_nat (n div 0x100), of_nat n]"

definition hs_msg :: "u8 \<Rightarrow> u8 list \<Rightarrow> u8 list" where
  "hs_msg ty body = ty # be24 (length body) @ body"

lemma length_tls_record [simp]: "length (tls_record ty m) = 5 + length m"
  by (simp add: tls_record_def)

lemma tls_record_parts [simp]:
  "tls_record ty m ! 0 = ty" "drop 5 (tls_record ty m) = m" "tls_record ty m \<noteq> []"
  by (simp_all add: tls_record_def)

lemma length_hs_msg [simp]: "length (hs_msg ty body) = 4 + length body"
  by (simp add: hs_msg_def be24_def)

lemma len_bytes:
  assumes "n < 0x10000"
  shows "unat (len_hi n) = n div 0x100" "unat (len_lo n) = n mod 0x100" "len_hi n = of_nat (n div 0x100)" "len_lo n = of_nat n"
proof -
  have "n div 0x100 = drop_bit 8 n" by (simp add: drop_bit_eq_div)
  then show "len_hi n = of_nat (n div 0x100)"
    unfolding len_hi_def by (auto simp: bit_simps intro: bit_word_eqI)
  then show "unat (len_hi n) = n div 0x100" using assms by (simp add: unat_of_nat)
  have "of_nat n AND (0xff :: u32) = take_bit 8 (of_nat n)" by (simp add: take_bit_eq_mask mask_eq_exp_minus_1)
  then show "len_lo n = of_nat n" unfolding len_lo_def by (auto simp: bit_simps intro: bit_word_eqI)
  then show "unat (len_lo n) = n mod 0x100" by (simp add: unat_of_nat)
qed

lemma frame_tls_record:
  assumes "length m \<le> 18432"
  shows "frame (tls_record ty m @ rest) = Inr (Some (5 + length m))"
proof -
  have "record_target (tls_record ty m @ rest) = Inr (5 + length m)"
    using assms len_bytes(1,2) [of "length m"] mult_div_mod_eq [of "0x100" "length m"]
    by (simp add: record_target_def load_def tls_record_def RECHDR_LEN_def MAX_INBUF_def)
  then show ?thesis by (simp add: frame_def RECHDR_LEN_def)
qed

section \<open>The state between two messages\<close>

text \<open>The hash context has absorbed the messages so far.\<close>

definition hashed :: "u8 list list \<Rightarrow> md5_ctx \<Rightarrow> bool" where
  "hashed T c \<longleftrightarrow> (\<forall>m \<in> set T. length m < 2 ^ 64) \<and> absorb md5_hash (sha256_begin blank_ctx) T = Some c"

lemma absorb_snoc: "absorb f h (T @ [m]) = do_opt (absorb f h T) (\<lambda>h. f h m)"
  by (induction T arbitrary: h) (auto split: bind_splits)

lemma hashed_snoc:
  assumes "hashed T c" "length m < 2 ^ 64"
  obtains c' where "md5_hash c m = Some c'" "hashed (T @ [m]) c'"
proof -
  have "\<forall>d \<in> set (T @ [m]). length d < 2 ^ 64" using assms by (auto simp: hashed_def)
  then show ?thesis using absorb_sha256 [of "T @ [m]"] assms(1) that
    by (auto simp: hashed_def absorb_snoc)
qed

lemma hashed_end: "hashed T c \<Longrightarrow> \<exists>c'. sha1_end c = Some (c', sha256_reference (concat T))"
  using absorb_sha256 [of T] by (auto simp: hashed_def)

text \<open>Two states with the same keys and flags: everything but the buffers, the streams and the handshake data.\<close>

definition same_link :: "tls_state \<Rightarrow> tls_state \<Rightarrow> bool" where
  "same_link tls t \<longleftrightarrow> t = tls\<lparr>outbuf := outbuf t, ofs_to_buffered := ofs_to_buffered t, buffered_size := buffered_size t,
     inbuf := inbuf t, hsd := hsd t, written := written t, incoming := incoming t, reads := reads t\<rparr>"

lemma same_link_refl [simp]: "same_link tls tls"
  by (simp add: same_link_def)

lemma same_link_trans: "same_link a b \<Longrightarrow> same_link b c \<Longrightarrow> same_link a c"
  unfolding same_link_def by (cases a, cases b, cases c) simp

lemma same_link_conn: "same_conn tls t \<Longrightarrow> same_link tls t"
  unfolding same_link_def same_conn_def by (cases tls, cases t) simp

lemma same_link_update [simp]:
  "same_link tls (t\<lparr>outbuf := b\<rparr>) = same_link tls t" "same_link tls (t\<lparr>written := w\<rparr>) = same_link tls t"
  "same_link tls (t\<lparr>hsd := h\<rparr>) = same_link tls t"
  unfolding same_link_def by (cases tls, cases t, simp)+

lemma same_link_fields:
  assumes "same_link tls t"
  shows "flags t = flags tls" "min_encrypted_len_on_read t = min_encrypted_len_on_read tls" "MAC_size t = MAC_size tls"
    "key_size t = key_size tls" "IV_size t = IV_size tls" "write_seq64_be t = write_seq64_be tls"
    "client_write_IV t = client_write_IV tls" "server_write_IV t = server_write_IV tls"
    "client_write_MAC_key t = client_write_MAC_key tls" "aes_encrypt t = aes_encrypt tls" "aes_decrypt t = aes_decrypt tls"
    "gcm_H t = gcm_H tls"
  by (subst assms [unfolded same_link_def], simp)+

lemma same_link_flags: "same_link tls t \<Longrightarrow> same_link (tls\<lparr>flags := f\<rparr>) (t\<lparr>flags := f\<rparr>)"
  unfolding same_link_def by (cases tls, cases t) simp

lemma same_link_cipher: "same_link tls t \<Longrightarrow> same_link (set_cipher a b tls) (set_cipher a b t)"
  unfolding same_link_def by (cases tls, cases t) (simp add: set_cipher_def Let_def)

text \<open>The invariant of a handshake: the messages \<open>T\<close> are hashed, \<open>w\<close> is written, the bytes \<open>p\<close> are pending,
  and the handshake data is \<open>h\<close> up to the hash context.\<close>

definition hs_at :: "tls_state \<Rightarrow> u8 list list \<Rightarrow> u8 list list \<Rightarrow> tls_handshake_data \<Rightarrow> u8 list \<Rightarrow> tls_state \<Rightarrow> bool" where
  "hs_at tls w T h p t \<longleftrightarrow> same_link tls t \<and> inbuf_ok t \<and> written t = w \<and> pending t = p \<and>
     (\<exists>c. hsd t = Some (h\<lparr>handshake_hash_ctx := c\<rparr>) \<and> hashed T c)"

lemma hs_at_update [simp]:
  "hs_at tls w T h p (t\<lparr>outbuf := b\<rparr>) = hs_at tls w T h p t"
  by (simp add: hs_at_def inbuf_ok_def pending_def)

section \<open>Reading a message\<close>

lemma read_plain:
  assumes os: "\<forall>k. recv env k \<noteq> None" and at: "hs_at tls w T h (tls_record 22 m @ rest) t"
    and m: "length m \<le> 18432" and plain: "min_encrypted_len_on_read tls = 0"
  obtains t' more where "tls_xread_record (recv env) (fresh_in env) t = Inr (length m, t')"
    "hs_at tls w (T @ [m]) h rest t'" "inbuf t' = tls_record 22 m @ more"
proof -
  obtain c where t: "same_link tls t" "inbuf_ok t" "pending t = tls_record 22 m @ rest" "written t = w"
    and c: "hsd t = Some (h\<lparr>handshake_hash_ctx := c\<rparr>)" "hashed T c"
    using at by (auto simp: hs_at_def)
  obtain c' where c': "md5_hash c m = Some c'" "hashed (T @ [m]) c'" using hashed_snoc [OF c(2), of m] m by auto
  let ?r = "tls_record 22 m" and ?h = "h\<lparr>handshake_hash_ctx := c'\<rparr>"
  have z: "min_encrypted_len_on_read t = 0" using plain same_link_fields(2) [OF t(1)] by simp
  then have "read_mode t" by (simp add: read_mode_def)
  moreover have "stream_read t (pending t) = Inr (Some (?r, length m), Some ?h, rest)"
    unfolding t(3) using frame_tls_record [OF m, of 22 rest] z c c'
    by (subst stream_read.simps)
      (simp add: decrypt_record_def RECHDR_LEN_def stream_hash_def)
  ultimately have "read_as t (Inr (Some (?r, length m), Some ?h, rest)) (tls_xread_record (recv env) (fresh_in env) t)"
    using xread_refines [OF os t(2), of "fresh_in env"] by simp
  then obtain t' more where r: "tls_xread_record (recv env) (fresh_in env) t = Inr (length m, t')" "same_conn t t'" "inbuf_ok t'"
    "hsd t' = Some ?h" "pending t' = rest" "inbuf t' = ?r @ more"
    by (auto simp: read_as_def)
  have "written t' = w" using t(4) by (subst r(2) [unfolded same_conn_def]) simp
  then have "hs_at tls w (T @ [m]) h rest t'"
    unfolding hs_at_def using r c'(2) same_link_trans [OF t(1) same_link_conn [OF r(2)]] by auto
  then show ?thesis using that r(1,6) by blast
qed

lemma read_block:
  assumes "\<forall>k. recv env k \<noteq> None" "hs_at tls w T h (tls_record 22 m @ rest) t"
    "n \<le> length m" "length m \<le> 18432" "min_encrypted_len_on_read tls = 0"
  obtains t' more where "tls_xread_handshake_block env t n = Inr (length m, t')"
    "hs_at tls w (T @ [m]) h rest t'" "inbuf t' = tls_record 22 m @ more"
proof -
  obtain t' more where t': "tls_xread_record (recv env) (fresh_in env) t = Inr (length m, t')"
    "hs_at tls w (T @ [m]) h rest t'" "inbuf t' = tls_record 22 m @ more"
    using read_plain [OF assms(1,2,4,5)] by blast
  then have "tls_xread_handshake_block env t n = Inr (length m, t')"
    using assms(3) by (simp add: tls_xread_handshake_block_def peek_def nth_append)
  then show ?thesis using that t' by blast
qed

text \<open>The server hello: its random bytes, a session id of no or 32 bytes, the suite, the compression method and
  the extensions.\<close>

definition server_hello :: "u8 list \<Rightarrow> u8 list \<Rightarrow> u8 \<times> u8 \<Rightarrow> u8 list \<Rightarrow> u8 list" where
  "server_hello sr sid cs ext =
     hs_msg 2 ([3, 3] @ sr @ [of_nat (length sid)] @ sid @ [fst cs, snd cs] @ ext)"

lemma hs_at_cipher:
  assumes "hs_at tls w T h p t"
  shows "hs_at (set_cipher a b tls) w T h p (set_cipher a b t)"
proof -
  have "inbuf (set_cipher a b t) = inbuf t" "buffered_size (set_cipher a b t) = buffered_size t"
    "ofs_to_buffered (set_cipher a b t) = ofs_to_buffered t" "incoming (set_cipher a b t) = incoming t"
    "written (set_cipher a b t) = written t" "hsd (set_cipher a b t) = hsd t"
    by (simp_all add: set_cipher_def Let_def)
  then show ?thesis using assms same_link_cipher by (simp add: hs_at_def inbuf_ok_def pending_def)
qed

lemma ctx_last [simp]:
  "h\<lparr>handshake_hash_ctx := c, client_and_server_rand32 := r\<rparr> = h\<lparr>client_and_server_rand32 := r, handshake_hash_ctx := c\<rparr>"
  "h\<lparr>handshake_hash_ctx := c, server_rsa_pub_key := k\<rparr> = h\<lparr>server_rsa_pub_key := k, handshake_hash_ctx := c\<rparr>"
  "h\<lparr>handshake_hash_ctx := c, ecc_pub_key32 := e\<rparr> = h\<lparr>ecc_pub_key32 := e, handshake_hash_ctx := c\<rparr>"
  "h\<lparr>handshake_hash_ctx := c, master_secret := s\<rparr> = h\<lparr>master_secret := s, handshake_hash_ctx := c\<rparr>"
  by (cases h, simp)+

lemma hs_at_hsd:
  assumes "hs_at tls w T h p t"
  obtains c where "hsd t = Some (h\<lparr>handshake_hash_ctx := c\<rparr>)"
    "\<And>h'. hs_at tls w T h' p (t\<lparr>hsd := Some (h'\<lparr>handshake_hash_ctx := c\<rparr>)\<rparr>)"
  using assms by (auto simp: hs_at_def inbuf_ok_def pending_def)

lemma get_server_hello_step:
  fixes sr sid hi lo ext
  defines "m \<equiv> server_hello sr sid (hi, lo) ext"
  assumes "\<forall>k. recv env k \<noteq> None" "hs_at tls w T h (tls_record 22 m @ rest) t" "min_encrypted_len_on_read tls = 0"
    and l: "length sr = 32" "length sid \<in> {0, 32}" "ext \<noteq> []" "length m < 260"
  shows "\<exists>t'. get_server_hello env t = Inr t' \<and> hs_at (set_cipher hi lo tls) w (T @ [m])
    (h\<lparr>client_and_server_rand32 := take 32 (client_and_server_rand32 h) @ sr\<rparr>) rest t'"
proof -
  have lm: "length m = 41 + length sid + length ext" using l by (simp add: m_def server_hello_def)
  have x: "1 \<le> length ext" using l(3) by (simp add: Suc_leI)
  have "42 \<le> length m" "length m \<le> 18432" using lm x l(4) by auto
  then obtain t' more where t': "tls_xread_handshake_block env t 42 = Inr (length m, t')"
    "hs_at tls w (T @ [m]) h rest t'" "inbuf t' = tls_record 22 m @ more"
    using read_block [OF assms(2,3) _ _ assms(4)] by blast
  obtain c where c: "hsd t' = Some (h\<lparr>handshake_hash_ctx := c\<rparr>)"
    "\<And>h'. hs_at tls w (T @ [m]) h' rest (t'\<lparr>hsd := Some (h'\<lparr>handshake_hash_ctx := c\<rparr>)\<rparr>)"
    using hs_at_hsd [OF t'(2)] by blast
  let ?n = "37 + length sid + length ext"
  have n: "?n < 256" using lm l(4) by simp
  define a b where "a = len_hi (length m)" and "b = len_lo (length m)"
  have buf: "inbuf t' = [22, 3, 3, a, b, 2, 0, 0, of_nat ?n, 3, 3] @ sr @ [of_nat (length sid)] @ sid @ [hi, lo] @ ext @ more"
    using n l by (simp add: t'(3) tls_record_def m_def [symmetric] a_def b_def)
      (simp add: m_def server_hello_def hs_msg_def be24_def)
  have hp: "load 0 44 (inbuf t') = Some ([22, 3, 3, a, b, 2, 0, 0, of_nat ?n, 3, 3] @ sr @ [of_nat (length sid)])"
    using l(1) by (simp add: buf load_def)
  have r: "unat (of_nat ?n :: u8) = ?n" using n by (intro unat_small_byte) simp
  have s: "(of_nat (length sid) :: u8) = 0 \<and> sid = [] \<or> (of_nat (length sid) :: u8) = 32 \<and> length sid = 32"
    using l(2) by auto
  have pk: "peek (inbuf t') (44 + length sid) = Inr hi" "peek (inbuf t') (44 + length sid + 1) = Inr lo"
    using l(1) by (simp_all add: buf peek_def nth_append)
  let ?h = "h\<lparr>client_and_server_rand32 := take 32 (client_and_server_rand32 h) @ sr\<rparr>"
  let ?t = "set_cipher hi lo (t'\<lparr>hsd := Some (?h\<lparr>handshake_hash_ctx := c\<rparr>)\<rparr>)"
  have "get_server_hello env t = Inr ?t"
    using t'(1) hp pk s l(1) x r c(1) by (auto simp: get_server_hello_def Let_def nth_append)
  then show ?thesis using hs_at_cipher [OF c(2) [of ?h]] by blast
qed

text \<open>The certificate message, and the certificates in it that the client knows: with an RSA key, or with a
  key for signatures with elliptic curves.\<close>

definition cert_msg :: "u8 list \<Rightarrow> u8 list \<Rightarrow> u8 list" where
  "cert_msg cert chain =
     hs_msg 11 (be24 (3 + length cert + length chain) @ be24 (length cert) @ cert @ chain)"

definition known_key :: "u8 list \<Rightarrow> bool" where
  "known_key k \<longleftrightarrow> (\<exists>N e. k = rsa_key_body N e \<and> 7 \<le> length N + length e) \<or>
     take 11 k = OID_ECDSA_KEY_ALG \<and> 13 \<le> length k"

definition known_cert :: "u8 list \<Rightarrow> bool" where
  "known_cert cert \<longleftrightarrow> (\<exists>version its key ext sig. cert = certificate version its (der_item 0x30 key) ext sig \<and>
     length its = 5 \<and> (version = None \<longrightarrow> fst (hd its) \<noteq> 0xa0) \<and> known_key key)"

lemma be24_value:
  assumes "n < 0x1000000"
  shows "get24be (pre @ be24 n @ post) (length pre) = Inr n"
proof -
  have "unat (of_nat (n div 0x10000) :: u8) = n div 0x10000" "unat (of_nat (n div 0x100) :: u8) = n div 0x100 mod 0x100"
    "unat (of_nat n :: u8) = n mod 0x100"
    using assms by (simp_all add: unat_of_nat)
  moreover have "0x100 * (0x100 * (n div 0x10000) + n div 0x100 mod 0x100) + n mod 0x100 = n"
  proof -
    have "n div 0x10000 = n div 0x100 div 0x100" by (simp add: div_mult2_eq [symmetric])
    then show ?thesis by simp
  qed
  ultimately show ?thesis by (simp add: get24be_def peek_def be24_def nth_append)
qed

text \<open>What reading a certificate does: it sets the flags \<open>f\<close> and replaces the key \<open>k0\<close> by \<open>k\<close>.\<close>

definition cert_yields :: "u8 list \<Rightarrow> psRsaKey \<Rightarrow> u32 \<Rightarrow> psRsaKey \<Rightarrow> bool" where
  "cert_yields cert k0 f k \<longleftrightarrow> cert \<noteq> [] \<and> f \<in> {0, GOT_CERT_RSA_KEY_ALG} \<and>
     (\<forall>t pre post h. inbuf t = pre @ cert @ post \<longrightarrow> hsd t = Some h \<longrightarrow> server_rsa_pub_key h = k0 \<longrightarrow>
        flags t AND GOT_CERT_RSA_KEY_ALG = 0 \<longrightarrow> find_key_in_der_cert t (length pre) (length cert) =
          Inr (t\<lparr>flags := flags t OR f, hsd := Some (h\<lparr>server_rsa_pub_key := k\<rparr>)\<rparr>))"

lemma certificate_not_empty [simp]: "certificate version its ki ext sig \<noteq> []"
  by (simp add: certificate_def)

lemma rsa_cert_yields:
  assumes "length (certificate version its (der_item 0x30 (rsa_key_body N e)) ext sig) < 0x10000" "length its = 5"
    "version = None \<longrightarrow> fst (hd its) \<noteq> 0xa0" "7 \<le> length N + length e"
  shows "cert_yields (certificate version its (der_item 0x30 (rsa_key_body N e)) ext sig) k0 GOT_CERT_RSA_KEY_ALG
    \<lparr>rsa_e = binary_to_pstm e, rsa_N = binary_to_pstm N, rsa_size = pstm_unsigned_bin_size (binary_to_pstm N)\<rparr>"
  unfolding cert_yields_def using certificate_rsa_key_found [OF _ assms(1-3) _ assms(4)] by simp

lemma ecdsa_cert_yields:
  assumes "length (certificate version its (der_item 0x30 ki) ext sig) < 0x10000" "length its = 5"
    "version = None \<longrightarrow> fst (hd its) \<noteq> 0xa0" "take 11 ki = OID_ECDSA_KEY_ALG" "13 \<le> length ki"
  shows "cert_yields (certificate version its (der_item 0x30 ki) ext sig) k0 0 k0"
proof -
  have "t = t\<lparr>flags := flags t OR 0, hsd := Some (h\<lparr>server_rsa_pub_key := server_rsa_pub_key h\<rparr>)\<rparr>" if "hsd t = Some h" for t h
    using that by (cases t) simp
  then show ?thesis unfolding cert_yields_def using certificate_ecdsa_key [OF _ assms(1-5)] by auto
qed

lemma known_cert_yields:
  assumes "known_cert cert" "length cert < 0x10000"
  shows "\<exists>f k. cert_yields cert k0 f k"
proof -
  obtain version its key ext sig where c: "cert = certificate version its (der_item 0x30 key) ext sig" "length its = 5"
    "version = None \<longrightarrow> fst (hd its) \<noteq> 0xa0" and k: "known_key key"
    using assms(1) by (auto simp: known_cert_def)
  show ?thesis
    using k rsa_cert_yields [OF _ c(2,3)] ecdsa_cert_yields [OF _ c(2,3)] assms(2) unfolding known_key_def c(1) by blast
qed

lemma hsd_last [simp]: "t\<lparr>hsd := x, flags := f\<rparr> = t\<lparr>flags := f, hsd := x\<rparr>"
  by (cases t) simp

lemma hs_at_flags: "hs_at tls w T h p t \<Longrightarrow> hs_at (tls\<lparr>flags := f\<rparr>) w T h p (t\<lparr>flags := f\<rparr>)"
  using same_link_flags by (simp add: hs_at_def inbuf_ok_def pending_def)

lemma get_server_cert_step:
  fixes cert chain
  defines "m \<equiv> cert_msg cert chain"
  assumes "\<forall>k. recv env k \<noteq> None" "hs_at tls w T h (tls_record 22 m @ rest) t" "min_encrypted_len_on_read tls = 0"
    and l: "length m \<le> 18432" "cert_yields cert (server_rsa_pub_key h) f k" "flags tls AND GOT_CERT_RSA_KEY_ALG = 0"
  shows "\<exists>t'. get_server_cert env t = Inr t' \<and>
    hs_at (tls\<lparr>flags := flags tls OR f\<rparr>) w (T @ [m]) (h\<lparr>server_rsa_pub_key := k\<rparr>) rest t'"
proof -
  let ?c = "3 + length cert + length chain"
  have lm: "length m = 10 + length cert + length chain" by (simp add: m_def cert_msg_def be24_def)
  obtain t' post where t': "tls_xread_handshake_block env t 10 = Inr (length m, t')"
    "hs_at tls w (T @ [m]) h rest t'" "inbuf t' = tls_record 22 m @ post"
    using read_block [OF assms(2,3) _ l(1) assms(4), of 10] lm by auto
  define hd where "hd = [22, 3, 3, len_hi (length m), len_lo (length m)]"
  have buf: "inbuf t' = hd @ 11 # be24 (3 + ?c) @ be24 ?c @ be24 (length cert) @ cert @ chain @ post"
    unfolding t'(3) hd_def tls_record_def by (simp add: m_def cert_msg_def hs_msg_def be24_def)
  have hd: "length hd = 5" by (simp add: hd_def)
  have g1: "get24be (inbuf t') 6 = Inr (3 + ?c)"
    using be24_value [of "3 + ?c" "hd @ [11]"] lm l(1) hd by (simp add: buf)
  have g2: "get24be (inbuf t') 9 = Inr ?c"
    using be24_value [of ?c "hd @ 11 # be24 (3 + ?c)"] lm l(1) hd by (simp add: buf be24_def)
  have g3: "get24be (inbuf t') 12 = Inr (length cert)"
    using be24_value [of "length cert" "hd @ 11 # be24 (3 + ?c) @ be24 ?c"] lm l(1) hd by (simp add: buf be24_def)
  define pre where "pre = hd @ 11 # be24 (3 + ?c) @ be24 ?c @ be24 (length cert)"
  have pre: "length pre = 15" "inbuf t' = pre @ cert @ chain @ post" using hd by (simp_all add: pre_def buf be24_def)
  obtain c where c: "hsd t' = Some (h\<lparr>handshake_hash_ctx := c\<rparr>)"
    "\<And>h'. hs_at tls w (T @ [m]) h' rest (t'\<lparr>hsd := Some (h'\<lparr>handshake_hash_ctx := c\<rparr>)\<rparr>)"
    using hs_at_hsd [OF t'(2)] by blast
  have fl: "flags t' = flags tls" using t'(2) same_link_fields(1) by (auto simp: hs_at_def)
  have k: "find_key_in_der_cert t' (length pre) (length cert) =
    Inr (t'\<lparr>flags := flags t' OR f, hsd := Some (h\<lparr>server_rsa_pub_key := k, handshake_hash_ctx := c\<rparr>)\<rparr>)"
    using l(2,3) pre(2) c(1) fl by (simp add: cert_yields_def)
  have "cert \<noteq> []" using l(2) by (simp add: cert_yields_def)
  then have "get_server_cert env t = Inr (t'\<lparr>flags := flags t' OR f, hsd := Some (h\<lparr>server_rsa_pub_key := k, handshake_hash_ctx := c\<rparr>)\<rparr>)"
    using t'(1) g1 g2 g3 k lm pre(1) hd by (simp add: get_server_cert_def RECHDR_LEN_def peek_def) (simp add: buf nth_append)
  moreover have "hs_at (tls\<lparr>flags := flags tls OR f\<rparr>) w (T @ [m]) (h\<lparr>server_rsa_pub_key := k\<rparr>) rest
      (t'\<lparr>flags := flags t' OR f, hsd := Some (h\<lparr>server_rsa_pub_key := k, handshake_hash_ctx := c\<rparr>)\<rparr>)"
    using hs_at_flags [OF c(2) [of "h\<lparr>server_rsa_pub_key := k\<rparr>"], of "flags tls OR f"] fl by simp
  ultimately show ?thesis by blast
qed

text \<open>The public key of the server, its signature left unread; the request for a certificate and the end of the flight.\<close>

definition key_exchange_msg :: "u8 list \<times> u8 list \<Rightarrow> u8 list" where
  "key_exchange_msg ks = hs_msg 12 ([3, 0, 0x1d, 32] @ fst ks @ snd ks)"

lemma peek_msg: "inbuf t = tls_record 22 (hs_msg ty b) @ post \<Longrightarrow> peek (inbuf t) RECHDR_LEN = Inr ty"
  by (simp add: peek_def RECHDR_LEN_def tls_record_def hs_msg_def)

lemma process_server_key_step:
  fixes pub sig
  defines "m \<equiv> key_exchange_msg (pub, sig)"
  assumes "hs_at tls w T h p t" "inbuf t = tls_record 22 m @ post" "length pub = 32" "length m \<le> 18432"
  shows "\<exists>t'. process_server_key t (length m) = Inr t' \<and>
    hs_at (tls\<lparr>flags := flags tls OR GOT_EC_KEY\<rparr>) w T (h\<lparr>ecc_pub_key32 := pub\<rparr>) p t'"
proof -
  have lm: "length m = 40 + length sig" using assms(4) by (simp add: m_def key_exchange_msg_def)
  let ?n = "36 + length sig"
  define hd where "hd = [22, 3, 3, len_hi (length m), len_lo (length m)]"
  have buf: "inbuf t = hd @ 12 # be24 ?n @ [3, 0, 0x1d, 32] @ pub @ sig @ post"
    unfolding assms(3) hd_def tls_record_def using assms(4) by (simp add: m_def key_exchange_msg_def hs_msg_def)
  have hd: "length hd = 5" by (simp add: hd_def)
  have g: "get24be (inbuf t) 6 = Inr ?n"
    using be24_value [of ?n "hd @ [12]"] lm assms(5) hd by (simp add: buf)
  have l: "load 9 4 (inbuf t) = Some [3, 0, 0x1d, 32]" "load 13 32 (inbuf t) = Some pub"
    using hd assms(4) by (simp_all add: buf be24_def load_def)
  have k: "read_u32 [3, 0, 0x1d, 32] 0 = swap_bytes32 0x3001d20" by code_simp
  obtain c where c: "hsd t = Some (h\<lparr>handshake_hash_ctx := c\<rparr>)"
    "\<And>h'. hs_at tls w T h' p (t\<lparr>hsd := Some (h'\<lparr>handshake_hash_ctx := c\<rparr>)\<rparr>)"
    using hs_at_hsd [OF assms(2)] by blast
  have fl: "flags t = flags tls" using assms(2) same_link_fields(1) by (auto simp: hs_at_def)
  let ?t = "t\<lparr>flags := flags tls OR GOT_EC_KEY, hsd := Some (h\<lparr>ecc_pub_key32 := pub, handshake_hash_ctx := c\<rparr>)\<rparr>"
  have "process_server_key t (length m) = Inr ?t"
    using g l k c(1) fl lm by (simp add: process_server_key_def RECHDR_LEN_def)
  moreover have "hs_at (tls\<lparr>flags := flags tls OR GOT_EC_KEY\<rparr>) w T (h\<lparr>ecc_pub_key32 := pub\<rparr>) p ?t"
    using hs_at_flags [OF c(2) [of "h\<lparr>ecc_pub_key32 := pub\<rparr>"], of "flags tls OR GOT_EC_KEY"] by simp
  ultimately show ?thesis by blast
qed

abbreviation records :: "u8 list list \<Rightarrow> u8 list" where
  "records ms \<equiv> concat (map (tls_record 22) ms)"

definition flight_end :: "u8 list option \<Rightarrow> u8 list list" where
  "flight_end creq = (case creq of None \<Rightarrow> [] | Some b \<Rightarrow> [hs_msg 13 b]) @ [hs_msg 14 []]"

definition server_flight :: "u8 list \<Rightarrow> u8 list \<Rightarrow> (u8 list \<times> u8 list) option \<Rightarrow> u8 list option \<Rightarrow> u8 list list" where
  "server_flight hello cert ske creq =
     hello # cert # (case ske of None \<Rightarrow> [] | Some ks \<Rightarrow> [key_exchange_msg ks]) @ flight_end creq"

lemma flight_end_ty: "hd (flight_end creq) = hs_msg (if creq = None then 14 else 13) (case creq of None \<Rightarrow> [] | Some b \<Rightarrow> b)"
  by (simp add: flight_end_def split: option.splits)

lemma server_end_step:
  fixes creq
  defines "L \<equiv> flight_end creq"
  assumes "\<forall>k. recv env k \<noteq> None" "hs_at tls w T h (records L @ rest) t" "length (hd L) \<le> 18432"
    "min_encrypted_len_on_read tls = 0"
  obtains n t1 t' where "tls_xread_handshake_block env t 4 = Inr (n, t1)"
    "peek (inbuf t1) RECHDR_LEN = Inr (if creq = None then 14 else 13)"
    "server_hello_done env t1 = Inr (creq \<noteq> None, t')" "hs_at tls w (T @ L) h rest t'"
proof -
  have L: "L = hd L # tl L" by (simp add: L_def flight_end_def split: option.splits)
  have "records L = tls_record 22 (hd L) @ records (tl L)" by (subst L) simp
  then have at: "hs_at tls w T h (tls_record 22 (hd L) @ (records (tl L) @ rest)) t" using assms(3) by simp
  obtain t1 post where t1: "tls_xread_handshake_block env t 4 = Inr (length (hd L), t1)"
    "hs_at tls w (T @ [hd L]) h (records (tl L) @ rest) t1" "inbuf t1 = tls_record 22 (hd L) @ post"
    using read_block [OF assms(2) at _ assms(4,5), of 4] by (auto simp: L_def flight_end_ty)
  have p: "peek (inbuf t1) RECHDR_LEN = Inr (if creq = None then 14 else 13)"
    using peek_msg [OF t1(3) [unfolded L_def flight_end_ty]] .
  have "\<exists>t'. server_hello_done env t1 = Inr (creq \<noteq> None, t') \<and> hs_at tls w (T @ L) h rest t'"
  proof (cases creq)
    case None
    then show ?thesis using t1(2) p by (simp add: L_def flight_end_def server_hello_done_def)
  next
    case (Some b)
    have at: "hs_at tls w (T @ [hs_msg 13 b]) h (tls_record 22 (hs_msg 14 []) @ rest) t1"
      using t1(2) Some by (simp add: L_def flight_end_def)
    obtain t' post' where t': "tls_xread_handshake_block env t1 4 = Inr (4, t')"
      "hs_at tls w ((T @ [hs_msg 13 b]) @ [hs_msg 14 []]) h rest t'" "inbuf t' = tls_record 22 (hs_msg 14 []) @ post'"
      using read_block [OF assms(2) at _ _ assms(5), of 4] by auto
    then show ?thesis using Some p peek_msg [OF t'(3)] by (simp add: L_def flight_end_def server_hello_done_def)
  qed
  then show ?thesis using that t1(1) p by blast
qed

lemma server_messages_step:
  fixes sr sid hi lo ext cert chain ske creq
  defines "F \<equiv> server_flight (server_hello sr sid (hi, lo) ext) (cert_msg cert chain) ske creq"
  assumes os: "\<forall>k. recv env k \<noteq> None" and at: "hs_at tls w T h (records F @ rest) t"
    and tls: "min_encrypted_len_on_read tls = 0" "ske \<noteq> None \<longrightarrow> flags (set_cipher hi lo tls) AND NEED_EC_KEY \<noteq> 0"
      "flags (set_cipher hi lo tls) AND GOT_CERT_RSA_KEY_ALG = 0"
    and l: "length sr = 32" "length sid \<in> {0, 32}" "ext \<noteq> []" "length sid + length ext < 219"
      "cert_yields cert (server_rsa_pub_key h) g k" "\<forall>ks. ske = Some ks \<longrightarrow> length (fst ks) = 32" "\<forall>m \<in> set F. length m \<le> 18432"
  shows "\<exists>t' f. server_messages env t = Inr (creq \<noteq> None, t') \<and> f AND NOT (GOT_CERT_RSA_KEY_ALG OR GOT_EC_KEY) = 0 \<and>
    hs_at ((set_cipher hi lo tls)\<lparr>flags := flags (set_cipher hi lo tls) OR f\<rparr>) w (T @ F)
      (h\<lparr>client_and_server_rand32 := take 32 (client_and_server_rand32 h) @ sr, server_rsa_pub_key := k,
        ecc_pub_key32 := (case ske of None \<Rightarrow> ecc_pub_key32 h | Some ks \<Rightarrow> fst ks)\<rparr>) rest t'"
proof -
  let ?sh = "server_hello sr sid (hi, lo) ext" and ?cm = "cert_msg cert chain" and ?E = "flight_end creq"
  let ?h = "h\<lparr>client_and_server_rand32 := take 32 (client_and_server_rand32 h) @ sr\<rparr>"
  define K where "K = (case ske of None \<Rightarrow> [] | Some ks \<Rightarrow> [key_exchange_msg ks])"
  have F: "F = ?sh # ?cm # K @ ?E" by (simp add: F_def K_def server_flight_def)
  have len: "\<And>m. m \<in> set (?cm # K @ ?E) \<Longrightarrow> length m \<le> 18432" using l(7) by (auto simp: F)
  have "hd ?E \<in> set ?E" by (simp add: flight_end_def split: option.splits)
  then have lE: "length (hd ?E) \<le> 18432" using len by simp
  have lsh: "length ?sh < 260" using l(1,4) by (simp add: server_hello_def)
  have at1: "hs_at tls w T h (tls_record 22 ?sh @ (tls_record 22 ?cm @ records (K @ ?E) @ rest)) t" using at by (simp add: F)
  obtain t1 where t1: "get_server_hello env t = Inr t1"
    "hs_at (set_cipher hi lo tls) w (T @ [?sh]) ?h (tls_record 22 ?cm @ records (K @ ?E) @ rest) t1"
    using get_server_hello_step [OF os at1 tls(1) l(1-3) lsh] by blast
  let ?c = "set_cipher hi lo tls"
  have c0: "min_encrypted_len_on_read ?c = 0" using tls(1) by (simp add: set_cipher_def Let_def)
  obtain t2 where t2: "get_server_cert env t1 = Inr t2"
    "hs_at (?c\<lparr>flags := flags ?c OR g\<rparr>) w ((T @ [?sh]) @ [?cm]) (?h\<lparr>server_rsa_pub_key := k\<rparr>) (records (K @ ?E) @ rest) t2"
    using get_server_cert_step [OF os t1(2) c0 _ _ tls(3)] l(5) len [of ?cm] by auto
  let ?c2 = "?c\<lparr>flags := flags ?c OR g\<rparr>" and ?h2 = "?h\<lparr>server_rsa_pub_key := k\<rparr>"
  have c2: "min_encrypted_len_on_read ?c2 = 0" using c0 by simp
  have f0: "g AND NOT (GOT_CERT_RSA_KEY_ALG OR GOT_EC_KEY) = 0" "(g OR GOT_EC_KEY) AND NOT (GOT_CERT_RSA_KEY_ALG OR GOT_EC_KEY) = 0"
    using l(5) by (auto simp: cert_yields_def GOT_CERT_RSA_KEY_ALG_def GOT_EC_KEY_def)
  show ?thesis
  proof (cases ske)
    case None
    have at3: "hs_at ?c2 w (T @ [?sh, ?cm]) ?h2 (records ?E @ rest) t2" using t2(2) None by (simp add: K_def)
    obtain n t3 t4 where t4: "tls_xread_handshake_block env t2 4 = Inr (n, t3)"
      "peek (inbuf t3) RECHDR_LEN = Inr (if creq = None then 14 else 13)"
      "server_hello_done env t3 = Inr (creq \<noteq> None, t4)" "hs_at ?c2 w ((T @ [?sh, ?cm]) @ ?E) ?h2 rest t4"
      by (rule server_end_step [OF os at3 lE c2])
    then have "server_messages env t = Inr (creq \<noteq> None, t4)"
      unfolding server_messages_def by (simp add: t1(1) t2(1))
    then show ?thesis using t4(4) f0(1) None by (auto simp: F K_def)
  next
    case (Some ks)
    obtain pub sig where ks: "ks = (pub, sig)" by fastforce
    let ?k = "key_exchange_msg (pub, sig)"
    have lk: "4 \<le> length ?k" "length ?k \<le> 18432" "length pub = 32"
      using len [of ?k] l(6) Some by (auto simp: K_def ks key_exchange_msg_def)
    have at3: "hs_at ?c2 w (T @ [?sh, ?cm]) ?h2 (tls_record 22 ?k @ (records ?E @ rest)) t2"
      using t2(2) Some by (simp add: K_def ks)
    obtain t3 post where t3: "tls_xread_handshake_block env t2 4 = Inr (length ?k, t3)"
      "hs_at ?c2 w ((T @ [?sh, ?cm]) @ [?k]) ?h2 (records ?E @ rest) t3" "inbuf t3 = tls_record 22 ?k @ post"
      using read_block [OF os at3 lk(1,2) c2] by blast
    have ty: "peek (inbuf t3) RECHDR_LEN = Inr 12" using peek_msg [OF t3(3) [unfolded key_exchange_msg_def]] .
    let ?c3 = "?c\<lparr>flags := flags ?c OR (g OR GOT_EC_KEY)\<rparr>"
    obtain t3' where t3': "process_server_key t3 (length ?k) = Inr t3'"
      "hs_at ?c3 w ((T @ [?sh, ?cm]) @ [?k]) (?h2\<lparr>ecc_pub_key32 := pub\<rparr>) (records ?E @ rest) t3'"
      using process_server_key_step [OF t3(2,3) lk(3,2)] by (auto simp: or.assoc)
    have c3: "min_encrypted_len_on_read ?c3 = 0" using c0 by simp
    obtain n t4 t5 where t5: "tls_xread_handshake_block env t3' 4 = Inr (n, t4)"
      "server_hello_done env t4 = Inr (creq \<noteq> None, t5)"
      "hs_at ?c3 w (((T @ [?sh, ?cm]) @ [?k]) @ ?E) (?h2\<lparr>ecc_pub_key32 := pub\<rparr>) rest t5"
      using server_end_step [OF os t3'(2) lE c3] by blast
    have "flags ?c2 AND NEED_EC_KEY \<noteq> 0" using tls(2) Some by (simp add: bit.conj_disj_distrib2 or_eq_0_iff)
    then have "flags t3 AND NEED_EC_KEY \<noteq> 0" using t3(2) same_link_fields(1) by (auto simp: hs_at_def)
    then have "server_messages env t = Inr (creq \<noteq> None, t5)"
      unfolding server_messages_def by (simp add: t1(1) t2(1) t3(1) ty t3'(1) t5)
    then show ?thesis using t5(3) f0(2) Some by (auto simp: F K_def ks)
  qed
qed

section \<open>Sending a message\<close>

lemma grow_outbuf_ok:
  assumes "len \<le> 2 ^ 14"
  obtains buf where "grow_outbuf env t len = Inr (t\<lparr>outbuf := buf\<rparr>)" "len + 72 \<le> length buf"
proof (cases "length (outbuf t) < len + 72")
  case True
  let ?f = "map (fresh_out env) [0..<2 ^ 14 + OUTBUF_PFX + OUTBUF_SFX]"
  have "grow_outbuf env t len = Inr (t\<lparr>outbuf := take (len + 72) (outbuf t @ ?f)\<rparr>)"
    using assms True by (simp add: grow_outbuf_def tls_get_outbuf_def OUTBUF_PFX_def OUTBUF_SFX_def Let_def add.commute)
  then show ?thesis by (rule that) (use assms in \<open>simp add: OUTBUF_PFX_def OUTBUF_SFX_def\<close>)
next
  case False
  then have "grow_outbuf env t len = Inr (t\<lparr>outbuf := outbuf t\<rparr>)"
    using assms by (simp add: grow_outbuf_def tls_get_outbuf_def OUTBUF_PFX_def OUTBUF_SFX_def Let_def)
  then show ?thesis by (rule that) (use False in simp)
qed

lemma put_body:
  "length pre = 24 \<Longrightarrow> off + length bs \<le> length m \<Longrightarrow>
    put off bs (t\<lparr>outbuf := pre @ m @ post\<rparr>) = Inr (t\<lparr>outbuf := pre @ blit off bs m @ post\<rparr>)"
  by (simp add: put_def store_def blit_def OUTBUF_PFX_def)

lemma outbuf_pieces:
  fixes buf :: "u8 list"
  assumes "len + 72 \<le> length buf"
  obtains pre m post where "buf = pre @ m @ post" "length pre = 24" "length m = len" "48 \<le> length post"
proof (rule that [of "take 24 buf" "take len (drop 24 buf)" "drop len (drop 24 buf)"])
  show "buf = take 24 buf @ take len (drop 24 buf) @ drop len (drop 24 buf)" by (simp only: append_take_drop_id)
qed (use assms in simp_all)

lemma zeroed_outbuf:
  assumes "len \<le> 2 ^ 14"
  obtains pre post where "tls_get_zeroed_outbuf env t len = Inr (t\<lparr>outbuf := pre @ replicate len 0 @ post\<rparr>)"
    "length pre = 24" "48 \<le> length post"
proof -
  obtain buf where b: "grow_outbuf env t len = Inr (t\<lparr>outbuf := buf\<rparr>)" "len + 72 \<le> length buf"
    using grow_outbuf_ok [OF assms] by blast
  obtain pre m post where p: "buf = pre @ m @ post" "length pre = 24" "length m = len" "48 \<le> length post"
    using outbuf_pieces [OF b(2)] by blast
  have "tls_get_zeroed_outbuf env t len = Inr (t\<lparr>outbuf := pre @ replicate len 0 @ post\<rparr>)"
    using put_body [OF p(2), of 0 "replicate len 0" m post t] b(1) p(1,3)
    by (simp add: tls_get_zeroed_outbuf_def blit_def)
  then show ?thesis using that p(2,4) by blast
qed

lemma send_plain:
  assumes at: "hs_at tls w T h p t" and b: "outbuf t = pre @ m @ post" "length pre = 24" and m: "length m < 2 ^ 64"
    and f: "flags tls AND ENCRYPT_ON_WRITE = 0" and n: "n = length m"
  shows "\<exists>t'. xwrite_and_update_handshake_hash env t n = Inr t' \<and> hs_at tls (w @ [tls_record 22 m]) (T @ [m]) h p t'"
proof -
  obtain c where t: "same_link tls t" "inbuf_ok t" "pending t = p" "written t = w"
    and c: "hsd t = Some (h\<lparr>handshake_hash_ctx := c\<rparr>)" "hashed T c"
    using at by (auto simp: hs_at_def)
  obtain c' where c': "md5_hash c m = Some c'" "hashed (T @ [m]) c'" using hashed_snoc [OF c(2) m] by blast
  let ?hd = "[22, 3, 3, len_hi n, len_lo n]"
  let ?b = "take 19 pre @ ?hd @ m @ post"
  have pre: "pre = take 19 pre @ drop 19 pre" "length (drop 19 pre) = 5" using b(2) by simp_all
  have "store 19 ?hd (outbuf t) = Some ?b"
    using b by (simp add: store_def blit_def)
  moreover have "load 19 (5 + n) ?b = Some (?hd @ m)"
    using load_append [of 19 "take 19 pre" "5 + n" "?hd @ m" post] b n by simp
  moreover have "load 24 n ?b = Some m"
    using b n by (simp add: load_def)
  moreover have "flags t AND ENCRYPT_ON_WRITE = 0" using f same_link_fields(1) [OF t(1)] by simp
  ultimately have "xwrite_and_update_handshake_hash env t n =
      Inr (t\<lparr>outbuf := ?b, written := w @ [tls_record 22 m], hsd := Some (h\<lparr>handshake_hash_ctx := c'\<rparr>)\<rparr>)"
    using c(1) c'(1) t(4) n
    by (simp add: xwrite_and_update_handshake_hash_def xwrite_handshake_record_def hash_handshake_def OUTBUF_PFX_def
      RECHDR_LEN_def tls_record_def)
  moreover have "hs_at tls (w @ [tls_record 22 m]) (T @ [m]) h p
      (t\<lparr>outbuf := ?b, written := w @ [tls_record 22 m], hsd := Some (h\<lparr>handshake_hash_ctx := c'\<rparr>)\<rparr>)"
    using t c'(2) by (auto simp: hs_at_def inbuf_ok_def pending_def)
  ultimately show ?thesis by blast
qed

lemma handshake_record_hdr_be24: "handshake_record_hdr ty (4 + n) = ty # be24 n" if "n < 0x1000000"
proof -
  have "n div 0x10000 = drop_bit 16 n" "n div 0x100 = drop_bit 8 n" by (simp_all add: drop_bit_eq_div)
  moreover have "of_nat n AND (0xff :: u32) = take_bit 8 (of_nat n)" by (simp add: take_bit_eq_mask mask_eq_exp_minus_1)
  ultimately show ?thesis by (auto simp: handshake_record_hdr_def be24_def bit_simps Let_def intro!: bit_word_eqI)
qed

lemma send_empty_client_cert_step:
  assumes at: "hs_at tls w T h p t" and f: "flags tls AND ENCRYPT_ON_WRITE = 0"
  shows "\<exists>t'. send_empty_client_cert env t = Inr t' \<and>
    hs_at tls (w @ [tls_record 22 (hs_msg 11 [0, 0, 0])]) (T @ [hs_msg 11 [0, 0, 0]]) h p t'"
proof -
  obtain pre post where z: "tls_get_zeroed_outbuf env t 7 = Inr (t\<lparr>outbuf := pre @ replicate 7 0 @ post\<rparr>)" "length pre = 24" "48 \<le> length post"
    by (rule zeroed_outbuf [of 7]) simp_all
  have m: "blit 3 [3] (blit 0 [11] (replicate 7 0)) = hs_msg 11 [0, 0, 0]"
  proof -
    have "replicate 7 0 = [0, 0, 0, 0, 0, 0, 0 :: u8]" by (simp add: numeral_eq_Suc)
    then show ?thesis by (simp add: blit_def hs_msg_def be24_def)
  qed
  let ?t = "t\<lparr>outbuf := pre @ hs_msg 11 [0, 0, 0] @ post\<rparr>"
  have "hs_at tls w T h p ?t" using at by simp
  then obtain t' where "xwrite_and_update_handshake_hash env ?t 7 = Inr t'"
    "hs_at tls (w @ [tls_record 22 (hs_msg 11 [0, 0, 0])]) (T @ [hs_msg 11 [0, 0, 0]]) h p t'"
    using send_plain [OF _ _ z(2) _ f, of w T h p ?t _ post 7 env] by auto
  moreover have "send_empty_client_cert env t = xwrite_and_update_handshake_hash env ?t 7"
    using z m by (simp add: send_empty_client_cert_def put_body)
  ultimately show ?thesis by simp
qed

text \<open>The client hello: 32 random bytes, no session, the suites, the server name if there is one, X25519 as the only group.\<close>

definition hello_extensions :: "u8 list \<Rightarrow> u8 list" where
  "hello_extensions name =
     (if name = [] then []
      else [0, 0, 0, of_nat (length name + 5), 0, of_nat (length name + 3), 0, 0, of_nat (length name)] @ name) @ supported_groups"

definition client_hello :: "u8 list \<Rightarrow> u8 list \<Rightarrow> u8 list" where
  "client_hello rand32 name =
     (let ext = hello_extensions name
      in hs_msg 1 ([3, 3] @ rand32 @ [0] @ ciphers @ [of_nat (length ext div 0x100), of_nat (length ext)] @ ext))"

lemma length_ciphers [simp]: "length ciphers = 20"
  by (simp add: ciphers_def)

lemma length_supported_groups [simp]: "length supported_groups = 8"
  by (simp add: supported_groups_def)

lemma length_hello_extensions: "length (hello_extensions name) = (if name = [] then 8 else 17 + length name)"
  by (simp add: hello_extensions_def)

lemma blit_append: "off = length x \<Longrightarrow> n = length src \<Longrightarrow> blit off src (x @ replicate (n + k) 0) = (x @ src) @ replicate k 0"
  by (simp add: blit_def)

lemma hello_prefix:
  assumes "length hdr = 4" "length r = 32"
  shows "blit 39 ciphers (blit 6 r (blit 4 [3, 3] (blit 0 hdr (replicate (59 + k) 0)))) =
    (hdr @ [3, 3] @ r @ [0] @ ciphers) @ replicate k 0"
proof -
  have "replicate (59 + k) (0 :: u8) = replicate 4 0 @ replicate 2 0 @ replicate 32 0 @ replicate 1 0 @ replicate 20 0 @ replicate k 0"
    by (simp only: replicate_add [symmetric]) simp
  then show ?thesis using assms by (simp add: blit_def)
qed

lemma put_extensions_eq:
  fixes name
  defines "n \<equiv> length name"
  assumes "length pre = 24" "length x = 59" "n \<le> 122" "take n sni = name"
    "ext_len = length (hello_extensions name)"
  shows "put_extensions sni n ext_len (t\<lparr>outbuf := pre @ (x @ replicate (2 + ext_len) 0) @ post\<rparr>) =
    Inr (t\<lparr>outbuf := pre @ (x @ [of_nat (ext_len div 0x100), of_nat ext_len] @ hello_extensions name) @ post\<rparr>)"
proof -
  have e: "ext_len < 0x10000" using assms(4,6) by (simp add: length_hello_extensions n_def)
  have hi: "ucast (drop_bit 8 (of_nat ext_len :: u32)) = (of_nat (ext_len div 0x100) :: u8)"
    using len_bytes(3) [OF e] by (simp add: len_hi_def)
  define m where "m = x @ replicate (2 + ext_len) 0"
  have m: "length m = 61 + ext_len" using assms(3) by (simp add: m_def)
  show ?thesis
  proof (cases "name = []")
    case True
    then have n: "n = 0" "ext_len = 8" using assms(6) by (simp_all add: n_def length_hello_extensions)
    have b: "blit 61 supported_groups (blit 59 [0, 8] m) = x @ [0, 8] @ supported_groups"
      using assms(3) by (simp add: blit_def m_def n)
    show ?thesis unfolding m_def [symmetric] using True n assms(2) hi b m
      by (simp add: put_extensions_def put_body hello_extensions_def)
  next
    case False
    then have n: "0 < n" "ext_len = 17 + n" using assms(6) by (simp_all add: n_def length_hello_extensions)
    let ?k = "[of_nat (ext_len div 0x100), of_nat ext_len] :: u8 list"
    have "replicate (2 + ext_len) (0 :: u8) = replicate 11 0 @ replicate n 0 @ replicate 8 0"
      unfolding n by (simp only: replicate_add [symmetric]) simp
    moreover have "replicate 11 (0 :: u8) = [0, 0, 0, 0, 0, 0, 0, 0, 0, 0, 0]" by (simp add: numeral_eq_Suc)
    ultimately have r: "replicate (2 + ext_len) (0 :: u8) = [0, 0, 0, 0, 0, 0, 0, 0, 0, 0, 0] @ replicate n 0 @ replicate 8 0" by simp
    have b: "blit (70 + n) supported_groups (blit 70 name (blit 69 [of_nat n] (blit 66 [of_nat (n + 3)] (blit 64 [of_nat (n + 5)]
        (blit 59 ?k m))))) = x @ ?k @ hello_extensions name"
    proof -
      have e: "11 + k = Suc (Suc (Suc (Suc (Suc (Suc (Suc (Suc (Suc (Suc (Suc k))))))))))" for k by simp
      show ?thesis unfolding m_def r using assms(3) n_def False
        by (simp add: blit_def hello_extensions_def) (simp only: e take_Suc_Cons drop_Suc_Cons, simp)
    qed
    show ?thesis unfolding m_def [symmetric] using n assms(2,5) hi b m
      by (simp add: put_extensions_def put_body n_def)
  qed
qed

definition server_name :: "u8 list option \<Rightarrow> u8 list" where
  "server_name sni = (case sni of None \<Rightarrow> [] | Some s \<Rightarrow> take 122 s)"

lemma send_client_hello_step:
  fixes env sni
  defines "m \<equiv> client_hello (hello_random env) (server_name sni)"
  assumes r: "length (hello_random env) = 32" and f: "flags tls AND ENCRYPT_ON_WRITE = 0" and i: "inbuf_ok tls"
  shows "\<exists>t. send_client_hello_and_alloc_hsd env sni tls = Inr t \<and>
    hs_at tls (written tls @ [tls_record 22 m]) [m]
      (zero_hsd\<lparr>client_and_server_rand32 := hello_random env @ replicate 32 0\<rparr>) (pending tls) t"
proof -
  let ?name = "server_name sni" and ?r = "hello_random env"
  let ?n = "length ?name" and ?s = "case sni of None \<Rightarrow> [] | Some s \<Rightarrow> s"
  define e where "e = length (hello_extensions ?name)"
  have n: "(case sni of None \<Rightarrow> 0 | Some s \<Rightarrow> min (length s) (127 - 5)) = ?n" "?n \<le> 122" "take ?n ?s = ?name"
    by (auto simp: server_name_def min_def split: option.splits)
  have e: "e = (if ?n \<noteq> 0 then 0 + 8 + (9 + ?n) else 0 + 8)" by (simp add: e_def length_hello_extensions)
  have lm: "length m = 61 + e" using r by (simp add: m_def client_hello_def Let_def e_def)
  have e14: "61 + e \<le> 2 ^ 14" using n(2) by (simp add: e)
  obtain pre post where z: "tls_get_zeroed_outbuf env tls (61 + e) = Inr (tls\<lparr>outbuf := pre @ replicate (61 + e) 0 @ post\<rparr>)"
    "length pre = 24" "48 \<le> length post" by (rule zeroed_outbuf [OF e14])
  define z0 where "z0 = replicate (61 + e) (0 :: u8)"
  have lz: "length z0 = 61 + e" by (simp add: z0_def)
  let ?hdr = "handshake_record_hdr 1 (61 + e)"
  have hdr: "?hdr = 1 # be24 (57 + e)" using handshake_record_hdr_be24 [of "57 + e" 1] e14 by simp
  have lh: "length ?hdr = 4" by (simp add: hdr be24_def)
  have p: "blit 39 ciphers (blit 6 ?r (blit 4 [3, 3] (blit 0 ?hdr z0))) =
      (?hdr @ [3, 3] @ ?r @ [0] @ ciphers) @ replicate (2 + e) 0"
    using hello_prefix [OF lh r, of "2 + e"] by (simp add: z0_def)
  have x: "length (?hdr @ [3, 3] @ ?r @ [0] @ ciphers) = 59" using lh r by simp
  have m: "(?hdr @ [3, 3] @ ?r @ [0] @ ciphers) @ [of_nat (e div 0x100), of_nat e] @ hello_extensions ?name = m"
    using r by (simp add: m_def client_hello_def hs_msg_def Let_def e_def [symmetric] hdr)
  note pe = put_extensions_eq [OF z(2) x n(2,3) e_def, of post tls, unfolded m, folded p]
  let ?h = "zero_hsd\<lparr>client_and_server_rand32 := ?r @ replicate 32 0\<rparr>"
  let ?t = "tls\<lparr>outbuf := pre @ m @ post, hsd := Some (?h\<lparr>handshake_hash_ctx := sha256_begin (handshake_hash_ctx zero_hsd)\<rparr>)\<rparr>"
  have send: "send_client_hello_and_alloc_hsd env sni tls = xwrite_and_update_handshake_hash env ?t (61 + e)"
    unfolding send_client_hello_and_alloc_hsd_def n(1) Let_def e [symmetric]
    using z(1,2) r lz lh by (simp add: z0_def [symmetric] put_body tls_get_random_def pe) (simp add: zero_hsd_def)
  have "hs_at tls (written tls) [] ?h (pending tls) ?t"
  proof -
    have "handshake_hash_ctx zero_hsd = blank_ctx" by (simp add: zero_hsd_def zero_hmac_precomputed_def)
    then have "hashed [] (sha256_begin (handshake_hash_ctx zero_hsd))" by (simp add: hashed_def)
    moreover have "same_link tls ?t" "inbuf_ok ?t" "pending ?t = pending tls" using i by (simp_all add: inbuf_ok_def pending_def)
    ultimately show ?thesis unfolding hs_at_def
      by (intro conjI exI [of _ "sha256_begin (handshake_hash_ctx zero_hsd)"]) simp_all
  qed
  then have "\<exists>t. xwrite_and_update_handshake_hash env ?t (61 + e) = Inr t \<and>
      hs_at tls (written tls @ [tls_record 22 m]) ([] @ [m]) ?h (pending tls) t"
    by (rule send_plain [OF _ _ z(2) _ f]) (use lm e14 in simp_all)
  then show ?thesis unfolding append_Nil send .
qed

text \<open>The keys of a suite with AES-128 in GCM, section 6.3 of RFC 5246 and RFC 5288: two keys and two IVs.\<close>

definition master_of :: "u8 list \<Rightarrow> u8 list \<Rightarrow> u8 list \<Rightarrow> u8 list" where
  "master_of premaster cr sr = P_sha256 premaster (label_bytes ''master secret'' @ cr @ sr) 48"

definition key_block :: "u8 list \<Rightarrow> u8 list \<Rightarrow> u8 list \<Rightarrow> u8 list" where
  "key_block master cr sr = P_sha256 master (label_bytes ''key expansion'' @ sr @ cr) 40"

definition client_cipher :: "u8 list \<Rightarrow> u8 list \<Rightarrow> u8 list" where
  "client_cipher kb = aes_cipher (take 16 kb)"

definition server_cipher :: "u8 list \<Rightarrow> u8 list \<Rightarrow> u8 list" where
  "server_cipher kb = aes_cipher (take 16 (drop 16 kb))"

definition gcm_keys :: "u8 list \<Rightarrow> tls_state \<Rightarrow> bool" where
  "gcm_keys kb t \<longleftrightarrow>
     block_cipher (aes_encrypt t) (client_cipher kb) \<and> gcm_H t = client_cipher kb (replicate 16 0) \<and>
     block_cipher (aes_decrypt t) (server_cipher kb) \<and>
     client_write_IV t = take 4 (drop 32 kb) \<and> server_write_IV t = drop 36 kb \<and> length kb = 40"

lemma derive_gcm_keys:
  fixes premaster cr sr tls
  defines "master \<equiv> master_of premaster cr sr"
  defines "kb \<equiv> key_block master cr sr"
  assumes "length premaster \<le> 64" "length cr = 32" "length sr = 32" "length (client_write_MAC_key tls) = 136"
    "length (key (aes_encrypt tls)) = 60" "length (key (aes_decrypt tls)) = 60" "MAC_size tls = 0" "key_size tls = 16" "IV_size tls = 4"
  shows "\<exists>area enc dec H. (\<forall>t. same_link tls t \<longrightarrow> derive_keys premaster (cr @ sr) t =
      Some (master, t\<lparr>client_write_MAC_key := area, client_write_IV := take 4 (drop 32 kb), server_write_IV := drop 36 kb,
        aes_decrypt := dec, aes_encrypt := enc, gcm_H := H\<rparr>)) \<and>
    block_cipher enc (client_cipher kb) \<and> H = client_cipher kb (replicate 16 0) \<and>
    block_cipher dec (server_cipher kb) \<and> length kb = 40"
proof -
  have lkb: "length kb = 40" by (simp add: kb_def key_block_def length_P_sha256)
  let ?area = "kb @ drop 40 (client_write_MAC_key tls)"
  have iv: "take 4 (drop 32 ?area) = take 4 (drop 32 kb)" "take 4 (drop 36 ?area) = drop 36 kb" using lkb by simp_all
  have ck: "length (take 16 kb) \<in> {16, 24, 32}" "length (take 16 (drop 16 kb)) \<in> {16, 24, 32}" using lkb by simp_all
  obtain enc where enc: "aes_setkey (aes_encrypt tls) (take 16 kb) = Some enc" using aes_setkey_ref [OF ck(1) assms(7)] by blast
  obtain dec where dec: "aes_setkey (aes_decrypt tls) (take 16 (drop 16 kb)) = Some dec" using aes_setkey_ref [OF ck(2) assms(8)] by blast
  note E = setkey_block_cipher(1) [OF ck(1) assms(7) enc, folded client_cipher_def]
    setkey_block_cipher(1) [OF ck(2) assms(8) dec, folded server_cipher_def]
  obtain H where H: "aes_encrypt_one_block enc (replicate 16 0) = Some H" using block_cipherD(1) [OF E(1)] by simp
  have "derive_keys premaster (cr @ sr) t = Some (master, t\<lparr>client_write_MAC_key := ?area, client_write_IV := take 4 (drop 32 kb),
      server_write_IV := drop 36 kb, aes_decrypt := dec, aes_encrypt := enc, gcm_H := H\<rparr>)" if l: "same_link tls t" for t
  proof -
    note f = same_link_fields [OF l]
    have u: "unat (key_size t) = 16" "(16 :: nat) \<in> {16, 32}" "unat (2 * MAC_size t) = 2 * 0" "unat (IV_size t) = 4"
      "0 + 16 + 4 \<le> (68 :: nat)" "unat (2 * (MAC_size t + key_size t + IV_size t)) = 2 * (0 + 16 + 4)"
      using assms(9-11) by (simp_all add: f)
    have k: "P_sha256 (P_sha256 premaster (label_bytes ''master secret'' @ cr @ sr) 48) (label_bytes ''key expansion'' @ sr @ cr)
        (2 * (0 + 16 + 4)) = kb" by (simp add: kb_def key_block_def master_def master_of_def)
    have l: "length (client_write_MAC_key t) = 136" "length (key (aes_encrypt t)) = 60" "length (key (aes_decrypt t)) = 60"
      using assms(6-8) by (simp_all only: f)
    note d = derive_keys_block [OF assms(3-5) l u, unfolded k f]
    have "2 * 0 + 16 + 16 = (32 :: nat)" "2 * 0 + 16 + 16 + 4 = (36 :: nat)" "2 * (0 + 16 + 4) = (40 :: nat)" "drop (2 * 0) kb = kb"
      "2 * 0 + 16 = (16 :: nat)" by simp_all
    note d = d [unfolded this iv enc dec option.inject]
    show ?thesis using d H lkb by (auto simp: master_def master_of_def)
  qed
  then show ?thesis using E hash_key_cipher [OF E(1) H] lkb by blast
qed

definition install_keys :: "u8 list \<Rightarrow> tls_aes \<Rightarrow> tls_aes \<Rightarrow> u8 list \<Rightarrow> u8 list \<Rightarrow> u8 list \<Rightarrow> tls_state \<Rightarrow> tls_state" where
  "install_keys area enc dec H civ siv t = t\<lparr>client_write_MAC_key := area, client_write_IV := civ, server_write_IV := siv,
     aes_decrypt := dec, aes_encrypt := enc, gcm_H := H\<rparr>"

lemma hs_at_keys: "hs_at tls w T h p t \<Longrightarrow> hs_at (install_keys a e d H ci si tls) w T h p (install_keys a e d H ci si t)"
proof -
  assume at: "hs_at tls w T h p t"
  then have "same_link (install_keys a e d H ci si tls) (install_keys a e d H ci si t)"
    by (cases tls, cases t) (simp add: hs_at_def same_link_def install_keys_def)
  then show ?thesis using at by (simp add: hs_at_def install_keys_def inbuf_ok_def pending_def)
qed

definition client_key :: "u8 list \<Rightarrow> u8 list" where
  "client_key priv = hs_msg 16 (32 # curve25519 priv basepoint9)"

lemma length_clamp_key [simp]: "length (clamp_key k) = length k"
  by (simp add: clamp_key_def Let_def)

lemma key_message:
  assumes "length k = n" "n < 0x10000" "n + 4 \<le> l"
  shows "blit 2 [len_hi n, len_lo n] (blit 0 [16] (blit 4 k (replicate l 0))) = hs_msg 16 k @ replicate (l - (n + 4)) 0"
proof -
  have "replicate l (0 :: u8) = replicate 4 0 @ replicate n 0 @ replicate (l - (n + 4)) 0"
    using assms(3) by (simp only: replicate_add [symmetric]) simp
  moreover have "replicate 4 (0 :: u8) = [0, 0, 0, 0]" by (simp add: numeral_eq_Suc)
  ultimately have r: "replicate l (0 :: u8) = [0, 0, 0, 0] @ replicate n 0 @ replicate (l - (n + 4)) 0" by simp
  have e: "4 + n = Suc (Suc (Suc (Suc n)))" by simp
  show ?thesis unfolding r hs_msg_def be24_def using assms len_bytes(3,4) [OF assms(2)]
    by (simp add: blit_def) (simp only: e drop_Suc_Cons, simp)
qed

text \<open>The key exchange message with the key part \<open>k\<close>, whatever way the premaster secret was agreed.\<close>

lemma send_key_step:
  fixes env h cr sr tls premaster k
  defines "m \<equiv> hs_msg 16 k"
  defines "master \<equiv> master_of premaster cr sr"
  defines "kb \<equiv> key_block master cr sr"
  assumes at: "hs_at tls w T h p t" and f: "flags tls AND ENCRYPT_ON_WRITE = 0"
    and pm: "\<And>t c. flags t = flags tls \<Longrightarrow> premaster_secret env t (h\<lparr>handshake_hash_ctx := c\<rparr>) = Inr (premaster, k)"
      "length premaster \<le> 64" "length k \<le> 4098"
    and l: "client_and_server_rand32 h = cr @ sr" "length cr = 32" "length sr = 32"
    and k: "length (client_write_MAC_key tls) = 136" "length (key (aes_encrypt tls)) = 60" "length (key (aes_decrypt tls)) = 60"
      "MAC_size tls = 0" "key_size tls = 16" "IV_size tls = 4"
  shows "\<exists>t' area enc dec H. send_client_key_exchange env t = Inr t' \<and>
    (let c = install_keys area enc dec H (take 4 (drop 32 kb)) (drop 36 kb) tls
     in gcm_keys kb c \<and> hs_at c (w @ [tls_record 22 m]) (T @ [m]) (h\<lparr>master_secret := master\<rparr>) p t')"
proof -
  let ?n = "length k" and ?l = "[len_hi (length k), len_lo (length k)]"
  obtain pre post where z: "tls_get_zeroed_outbuf env t (4 + 4098) = Inr (t\<lparr>outbuf := pre @ replicate (4 + 4098) 0 @ post\<rparr>)"
    "length pre = 24" "48 \<le> length post" by (rule zeroed_outbuf [of "4 + 4098"]) simp_all
  define z0 where "z0 = replicate (4 + 4098) (0 :: u8)"
  have lz: "length z0 = 4102" by (simp add: z0_def)
  have b: "blit 2 ?l (blit 0 [16] (blit 4 k z0)) = m @ replicate (4102 - (?n + 4)) 0"
    using key_message [of k ?n 4102] pm(3) by (simp add: z0_def m_def)
  obtain c where c: "hsd t = Some (h\<lparr>handshake_hash_ctx := c\<rparr>)" using hs_at_hsd [OF at] by blast
  have fl: "flags t = flags tls" using at same_link_fields(1) by (auto simp: hs_at_def)
  let ?t = "t\<lparr>outbuf := pre @ m @ (replicate (4102 - (?n + 4)) 0 @ post)\<rparr>"
  have "hs_at tls w T h p ?t" using at by simp
  then have "\<exists>t'. xwrite_and_update_handshake_hash env ?t (?n + 4) = Inr t' \<and> hs_at tls (w @ [tls_record 22 m]) (T @ [m]) h p t'"
    by (rule send_plain [OF _ _ z(2) _ f]) (use pm(3) in \<open>simp_all add: m_def\<close>)
  then obtain t1 where t1: "xwrite_and_update_handshake_hash env ?t (?n + 4) = Inr t1"
    "hs_at tls (w @ [tls_record 22 m]) (T @ [m]) h p t1" by blast
  obtain c1 where c1: "hsd t1 = Some (h\<lparr>handshake_hash_ctx := c1\<rparr>)"
    "\<And>h'. hs_at tls (w @ [tls_record 22 m]) (T @ [m]) h' p (t1\<lparr>hsd := Some (h'\<lparr>handshake_hash_ctx := c1\<rparr>)\<rparr>)"
    using hs_at_hsd [OF t1(2)] by blast
  obtain area enc dec H where d: "\<And>t. same_link tls t \<Longrightarrow> derive_keys premaster (cr @ sr) t =
      Some (master, install_keys area enc dec H (take 4 (drop 32 kb)) (drop 36 kb) t)"
    "gcm_keys kb (install_keys area enc dec H (take 4 (drop 32 kb)) (drop 36 kb) tls)"
    using derive_gcm_keys [OF pm(2) l(2,3) k]
    unfolding master_def kb_def install_keys_def gcm_keys_def by auto
  let ?i = "install_keys area enc dec H (take 4 (drop 32 kb)) (drop 36 kb)"
  have d1: "derive_keys premaster (cr @ sr) t1 = Some (master, ?i t1)" using d(1) t1(2) by (simp add: hs_at_def)
  have p4: "put 4 k (t\<lparr>outbuf := pre @ z0 @ post\<rparr>) = Inr (t\<lparr>outbuf := pre @ blit 4 k z0 @ post\<rparr>)"
    using z(2) lz pm(3) by (intro put_body) simp_all
  have p0: "put 0 [16] (t\<lparr>outbuf := pre @ blit 4 k z0 @ post\<rparr>) = Inr (t\<lparr>outbuf := pre @ blit 0 [16] (blit 4 k z0) @ post\<rparr>)"
    using z(2) lz pm(3) by (intro put_body) simp_all
  have p2: "put 2 ?l (t\<lparr>outbuf := pre @ blit 0 [16] (blit 4 k z0) @ post\<rparr>) = Inr ?t"
    using put_body [OF z(2), of 2 ?l "blit 0 [16] (blit 4 k z0)" post t] lz pm(3) unfolding b by simp
  have p: "premaster_secret env (t\<lparr>outbuf := pre @ z0 @ post\<rparr>) (h\<lparr>handshake_hash_ctx := c\<rparr>) = Inr (premaster, k)"
    using fl by (intro pm(1)) simp
  let ?t' = "(?i t1)\<lparr>hsd := Some (h\<lparr>master_secret := master, handshake_hash_ctx := c1\<rparr>)\<rparr>"
  have "send_client_key_exchange env t = Inr ?t'"
    unfolding send_client_key_exchange_def z(1) z0_def [symmetric]
    using c p4 p0 p2 p t1(1) c1(1) d1 l(1) by simp
  moreover have "?t' = ?i (t1\<lparr>hsd := Some (h\<lparr>master_secret := master, handshake_hash_ctx := c1\<rparr>)\<rparr>)"
    by (cases t1) (simp add: install_keys_def)
  ultimately show ?thesis using hs_at_keys [OF c1(2) [of "h\<lparr>master_secret := master\<rparr>"]] d(2) unfolding Let_def by metis
qed

text \<open>The hash context is used again after its digest was taken: its block function never fails.\<close>

lemma sha256_loop_total:
  "process_block c = Some sha256_block \<Longrightarrow> \<exists>c'. common64_loop c p d = Some c' \<and> process_block c' = Some sha256_block"
proof (induction c p d rule: common64_loop.induct)
  case (1 c p d)
  let ?n = "min (64 - p) (length d)"
  let ?c = "c\<lparr>wbuffer := blit p (take ?n d) (wbuffer c)\<rparr>"
  have c: "call_block ?c = Some (sha256_process_block64 ?c)" "process_block (sha256_process_block64 ?c) = Some sha256_block"
    using "1.prems" by (simp_all add: call_block_def process_block_frame)
  show ?case
  proof (cases "p + ?n = 64")
    case True
    then show ?thesis using "1.IH" [OF refl refl _ _ c(2)] c(1) by (subst common64_loop.simps) (simp add: Let_def)
  next
    case False
    then show ?thesis using "1.prems" by (subst common64_loop.simps) (simp add: Let_def)
  qed
qed

lemma sha256_hash_total:
  "process_block c = Some sha256_block \<Longrightarrow> \<exists>c'. md5_hash c d = Some c' \<and> process_block c' = Some sha256_block"
  unfolding md5_hash_def common64_hash_def Let_def by (rule sha256_loop_total) simp

lemma sha256_end_loop:
  "process_block c = Some sha256_block \<Longrightarrow> common64_end_loop s c p = Some c' \<Longrightarrow> process_block c' = Some sha256_block"
proof (induction s c p rule: common64_end_loop.induct)
  case (1 s c p)
  show ?case using "1.prems" "1.IH" [OF refl refl refl]
    by (subst (asm) common64_end_loop.simps)
      (auto simp: Let_def bind_eq_Some_conv call_block_def process_block_frame split: if_splits)
qed

lemma sha256_absorb_block:
  "process_block c = Some sha256_block \<Longrightarrow> absorb md5_hash c T = Some c' \<Longrightarrow> process_block c' = Some sha256_block"
proof (induction T arbitrary: c)
  case (Cons m T)
  then show ?case using sha256_hash_total [OF Cons.prems(1), of m] by (auto simp: bind_eq_Some_conv)
qed simp

lemma hashed_block: "hashed T c \<Longrightarrow> process_block c = Some sha256_block"
  using sha256_absorb_block [of "sha256_begin blank_ctx" T c] unfolding hashed_def by (simp add: sha256_begin_def)

lemma hashed_ended:
  assumes "hashed T c"
  obtains c' where "sha1_end c = Some (c', sha256_reference (concat T))" "process_block c' = Some sha256_block"
proof -
  obtain c' where c': "sha1_end c = Some (c', sha256_reference (concat T))" using hashed_end [OF assms] by blast
  then obtain c2 where "common64_end True c = Some c2" "process_block c' = process_block c2"
    by (auto simp: sha1_end_def bind_eq_Some_conv Let_def)
  then have "process_block c' = Some sha256_block"
    using sha256_end_loop [of "c\<lparr>wbuffer := blit (unat (total64 c AND 63)) [0x80] (wbuffer c)\<rparr>" True _ c2]
      hashed_block [OF assms] unfolding common64_end_def Let_def by simp
  then show ?thesis using that c' by blast
qed

section \<open>The end of the handshake\<close>

text \<open>After the Finished message of the client the hash is only kept going.\<close>

definition sent :: "tls_state \<Rightarrow> u8 list list \<Rightarrow> u8 list \<Rightarrow> tls_state \<Rightarrow> bool" where
  "sent tls w p t \<longleftrightarrow> same_link tls t \<and> inbuf_ok t \<and> written t = w \<and> pending t = p \<and>
     (\<exists>h. hsd t = Some h \<and> process_block (handshake_hash_ctx h) = Some sha256_block)"

definition client_finished :: "u8 list \<Rightarrow> u8 list list \<Rightarrow> u8 list" where
  "client_finished master T = hs_msg 20 (P_sha256 master (label_bytes ''client finished'' @ sha256_reference (concat T)) 12)"

lemma send_client_finished_step:
  fixes kb
  defines "E \<equiv> client_cipher kb"
  assumes at: "hs_at tls w T h p t" and g: "gcm_keys kb tls" "flags tls AND ENCRYPTION_AESGCM \<noteq> 0" "length (master_secret h) \<le> 64"
  shows "\<exists>t'. send_client_finished env t = Inr t' \<and> sent (tls\<lparr>write_seq64_be := next_seq (write_seq64_be tls)\<rparr>)
    (w @ [gcm_record E (client_write_IV tls) (write_seq64_be tls) 22 (client_finished (master_secret h) T)]) p t'"
proof -
  obtain c where t: "same_link tls t" "inbuf_ok t" "pending t = p" "written t = w"
    and c: "hsd t = Some (h\<lparr>handshake_hash_ctx := c\<rparr>)" "hashed T c"
    using at by (auto simp: hs_at_def)
  obtain c' where c': "sha1_end c = Some (c', sha256_reference (concat T))" "process_block c' = Some sha256_block"
    by (rule hashed_ended [OF c(2)])
  define v where "v = P_sha256 (master_secret h) (label_bytes ''client finished'' @ sha256_reference (concat T)) 12"
  have v: "length v = 12" by (simp add: v_def length_P_sha256)
  have pr: "prf_hmac_sha256 12 (master_secret h) (label_bytes ''client finished'') (sha256_reference (concat T)) = Some v"
    using g(3) by (simp add: v_def prf_hmac_sha256_correct label_bytes_def)
  obtain buf where b: "grow_outbuf env t 16 = Inr (t\<lparr>outbuf := buf\<rparr>)" "16 + 72 \<le> length buf"
    by (rule grow_outbuf_ok [of 16]) simp_all
  obtain pre m post where pm: "buf = pre @ m @ post" "length pre = 24" "length m = 16" "48 \<le> length post"
    using outbuf_pieces [OF b(2)] by blast
  let ?hdr = "handshake_record_hdr 20 16" and ?P = "client_finished (master_secret h) T"
  have hdr: "?hdr = 20 # be24 12" using handshake_record_hdr_be24 [of 12 20] by simp
  have P: "blit 4 v (blit 0 ?hdr m) = ?P" "length ?P = 16"
    using pm(3) v by (simp_all add: hdr be24_def blit_def client_finished_def hs_msg_def v_def [symmetric])
  let ?h = "h\<lparr>handshake_hash_ctx := c'\<rparr>"
  let ?t = "t\<lparr>hsd := Some ?h, outbuf := pre @ ?P @ post\<rparr>"
  have p0: "put 0 ?hdr (t\<lparr>outbuf := buf\<rparr>) = Inr (t\<lparr>outbuf := pre @ blit 0 ?hdr m @ post\<rparr>)"
    unfolding pm(1) by (rule put_body [OF pm(2)]) (simp add: hdr be24_def pm(3))
  have "t\<lparr>outbuf := pre @ blit 0 ?hdr m @ post, hsd := Some ?h\<rparr> = t\<lparr>hsd := Some ?h, outbuf := pre @ blit 0 ?hdr m @ post\<rparr>"
    by (cases t) simp
  moreover have "put 4 v (t\<lparr>hsd := Some ?h, outbuf := pre @ blit 0 ?hdr m @ post\<rparr>) = Inr ?t"
    unfolding P(1) [symmetric] by (rule put_body [OF pm(2)]) (simp add: hdr be24_def pm(3) v)
  ultimately have p4: "put 4 v (t\<lparr>outbuf := pre @ blit 0 ?hdr m @ post, hsd := Some ?h\<rparr>) = Inr ?t" by (simp only:)
  note f = same_link_fields [OF t(1)]
  have k: "block_cipher (aes_encrypt ?t) E" "gcm_H ?t = E (replicate 16 0)" "length (client_write_IV ?t) = 4"
    "outbuf ?t = pre @ ?P @ post" "16 \<le> length post" "length ?P < 2 ^ 29"
    using g(1) f pm(4) P(2) by (simp_all add: gcm_keys_def E_def)
  let ?r = "gcm_record E (client_write_IV tls) (write_seq64_be tls) 22 ?P"
  obtain buf' where w: "xwrite_encrypted_aesgcm ?t (length ?P) 22 =
      Some (?t\<lparr>outbuf := buf', write_seq64_be := next_seq (write_seq64_be tls), written := w @ [?r]\<rparr>)"
    using gcm_write [OF k(1-4) pm(2) k(5,6), of 22] f t(4) by auto
  have fl: "flags ?t AND ENCRYPTION_AESGCM \<noteq> 0" using g(2) f by simp
  have "send_client_finished env t = Inr (?t\<lparr>outbuf := buf', write_seq64_be := next_seq (write_seq64_be tls), written := w @ [?r]\<rparr>)"
    unfolding send_client_finished_def using b(1) p0 p4 c(1) c'(1) pr w fl P(2)
    by (simp add: xwrite_encrypted_def)
  moreover have "sent (tls\<lparr>write_seq64_be := next_seq (write_seq64_be tls)\<rparr>) (w @ [?r]) p
      (?t\<lparr>outbuf := buf', write_seq64_be := next_seq (write_seq64_be tls), written := w @ [?r]\<rparr>)"
  proof -
    have "same_link (tls\<lparr>write_seq64_be := s\<rparr>) (?t\<lparr>outbuf := buf', write_seq64_be := s, written := w @ [?r]\<rparr>)" for s
      using t(1) unfolding same_link_def by (cases t, cases tls) simp
    then show ?thesis using t(2,3) c'(2) by (simp add: sent_def inbuf_ok_def pending_def)
  qed
  ultimately show ?thesis by blast
qed

text \<open>A content under the server's keys: an explicit nonce, the ciphertext, any tag. The server's Finished is any
  content of at least four bytes whose first byte is 20.\<close>

definition sealed :: "u8 list \<Rightarrow> u8 list \<Rightarrow> u8 list \<Rightarrow> u8 list \<Rightarrow> u8 list" where
  "sealed kb e P tag = e @ gctr (server_cipher kb) (drop 36 kb @ e) 2 P @ tag"

definition finished_record :: "u8 list \<Rightarrow> u8 list \<Rightarrow> u8 list \<Rightarrow> u8 list \<Rightarrow> u8 list" where
  "finished_record kb e v tag = tls_record 22 (sealed kb e (20 # v) tag)"

lemma open_sealed:
  assumes g: "gcm_keys kb t" "flags t AND ENCRYPTION_AESGCM \<noteq> 0" "min_encrypted_len_on_read t = 24"
    and l: "length e = 8" "length tag = 16"
  obtains hdr w where "length hdr = 5" "hdr ! 0 = ty" "length (sealed kb e P tag) = length P + 24"
    "decrypt_record t (tls_record ty (sealed kb e P tag)) (int (length (sealed kb e P tag))) = Some (hdr @ P @ w, int (length P))"
proof -
  let ?E = "server_cipher kb" and ?iv = "drop 36 kb @ e"
  have k: "block_cipher (aes_decrypt t) ?E" "length (server_write_IV t) = 4" "server_write_IV t = drop 36 kb"
    using g by (simp_all add: gcm_keys_def)
  have E: "length (?E (?iv @ be32 n)) = 16" for n using block_cipherD(2) [OF k(1)] k(2,3) l(1) by (simp add: be32_def)
  define C where "C = gctr ?E ?iv 2 P"
  have C: "length C = length P" "gctr ?E ?iv 2 C = P"
    using length_gctr [of ?E ?iv 2 P] gctr_gctr [of ?E ?iv 2 P] E by (simp_all add: C_def)
  let ?m = "sealed kb e P tag" let ?hdr = "[ty, 3, 3, len_hi (length ?m), len_lo (length ?m)]"
  have m: "?m = e @ C @ tag" "length ?m = length C + 24" using l by (simp_all add: sealed_def C_def [symmetric])
  have hd: "tls_record ty ?m = ?hdr @ e @ C @ tag @ []" by (simp add: tls_record_def m(1))
  obtain w where "decrypt_record t (tls_record ty ?m) (int (length ?m)) = Some (?hdr @ P @ w @ tag, int (length P))"
    using gcm_read [OF k(1,2) l(1) g(2,3), of ?hdr tag C "[]"] l(2) C unfolding hd m(2) k(3) by auto
  then show ?thesis using that [of ?hdr "w @ tag"] m(2) C(1) by simp
qed

lemma read_as_Some:
  assumes "\<forall>k. recv env k \<noteq> None" "inbuf_ok t" "read_mode t" "stream_read t (pending t) = Inr (Some (r, n), h, rest)"
  obtains t' post where "tls_xread_record (recv env) (fresh_in env) t = Inr (n, t')" "same_conn t t'" "inbuf_ok t'"
    "hsd t' = h" "pending t' = rest" "inbuf t' = r @ post"
  using xread_refines [OF assms(1-3), of "fresh_in env"] assms(4) that by (auto simp: read_as_def)

lemma read_change_cipher_spec:
  assumes "\<forall>k. recv env k \<noteq> None" "sent tls w (rec_CHANGE_CIPHER_SPEC @ rest) t" "min_encrypted_len_on_read tls = 0"
  obtains t' post where "tls_xread_record (recv env) (fresh_in env) t = Inr (1, t')" "sent tls w rest t'"
    "inbuf t' = rec_CHANGE_CIPHER_SPEC @ post"
proof -
  obtain h where t: "same_link tls t" "inbuf_ok t" "written t = w" "pending t = rec_CHANGE_CIPHER_SPEC @ rest"
    "hsd t = Some h" "process_block (handshake_hash_ctx h) = Some sha256_block" using assms(2) by (auto simp: sent_def)
  have z: "min_encrypted_len_on_read t = 0" using assms(3) same_link_fields(2) [OF t(1)] by simp
  have r: "rec_CHANGE_CIPHER_SPEC = tls_record 20 [1]"
    using len_bytes(3,4) [of 1] by (simp add: tls_record_def rec_CHANGE_CIPHER_SPEC_def)
  have "stream_read t (pending t) = Inr (Some (rec_CHANGE_CIPHER_SPEC, 1), Some h, rest)"
    unfolding t(4) r using frame_tls_record [of "[1]" 20 rest] z t(5)
    by (subst stream_read.simps) (simp add: decrypt_record_def RECHDR_LEN_def)
  then obtain t' post where t': "tls_xread_record (recv env) (fresh_in env) t = Inr (1, t')" "same_conn t t'" "inbuf_ok t'"
    "hsd t' = Some h" "pending t' = rest" "inbuf t' = rec_CHANGE_CIPHER_SPEC @ post"
    using read_as_Some [OF assms(1) t(2)] z by (auto simp: read_mode_def)
  have "written t' = w" using t(3) by (subst t'(2) [unfolded same_conn_def]) simp
  then have "sent tls w rest t'"
    using t' t(6) same_link_trans [OF t(1) same_link_conn [OF t'(2)]] by (simp add: sent_def)
  then show ?thesis using that t'(1,6) by blast
qed

lemma read_finished:
  assumes "\<forall>k. recv env k \<noteq> None" "sent tls w (finished_record kb e v tag @ rest) t"
    and g: "gcm_keys kb tls" "flags tls AND ENCRYPTION_AESGCM \<noteq> 0" "min_encrypted_len_on_read tls = 24"
    and l: "length e = 8" "length tag = 16" "length v \<le> 16384"
  obtains t' post where "tls_xread_record (recv env) (fresh_in env) t = Inr (Suc (length v), t')" "sent tls w rest t'"
    "inbuf t' ! RECHDR_LEN = 20" "RECHDR_LEN < length (inbuf t')"
proof -
  obtain h where t: "same_link tls t" "inbuf_ok t" "written t = w" "pending t = finished_record kb e v tag @ rest"
    "hsd t = Some h" "process_block (handshake_hash_ctx h) = Some sha256_block" using assms(2) by (auto simp: sent_def)
  have k: "gcm_keys kb t" "flags t AND ENCRYPTION_AESGCM \<noteq> 0" "min_encrypted_len_on_read t = 24"
    using g same_link_fields [OF t(1)] by (simp_all add: gcm_keys_def)
  let ?m = "sealed kb e (20 # v) tag"
  obtain hdr wd where d: "length hdr = 5" "hdr ! 0 = 22" "length ?m = length (20 # v) + 24"
    "decrypt_record t (tls_record 22 ?m) (int (length ?m)) = Some (hdr @ (20 # v) @ wd, int (length (20 # v)))"
    by (rule open_sealed [OF k l(1,2)])
  obtain c' where c': "md5_hash (handshake_hash_ctx h) (20 # v) = Some c'" "process_block c' = Some sha256_block"
    using sha256_hash_total [OF t(6)] by blast
  let ?h = "h\<lparr>handshake_hash_ctx := c'\<rparr>"
  have "frame (pending t) = Inr (Some (5 + length ?m))"
    unfolding t(4) finished_record_def by (rule frame_tls_record) (use l(3) d(3) in simp)
  moreover have "take (5 + length ?m) (pending t) = tls_record 22 ?m" "drop (5 + length ?m) (pending t) = rest"
    unfolding t(4) finished_record_def by simp_all
  moreover have "(hdr @ x) ! 0 = 22" for x using d(1,2) by (simp add: nth_append)
  ultimately have sr: "stream_read t (pending t) = Inr (Some (hdr @ (20 # v) @ wd, Suc (length v)), Some ?h, rest)"
    using d(1,4) t(5) c'(1) by (subst stream_read.simps) (simp add: RECHDR_LEN_def stream_hash_def nat_add_distrib)
  have rm: "read_mode t" using k(2,3) by (simp add: read_mode_def)
  obtain t' post where t': "tls_xread_record (recv env) (fresh_in env) t = Inr (Suc (length v), t')" "same_conn t t'"
    "inbuf_ok t'" "hsd t' = Some ?h" "pending t' = rest" "inbuf t' = (hdr @ (20 # v) @ wd) @ post"
    by (rule read_as_Some [OF assms(1) t(2) rm sr])
  have "written t' = w" using t(3) by (subst t'(2) [unfolded same_conn_def]) simp
  then have "sent tls w rest t'"
    using t' c'(2) same_link_trans [OF t(1) same_link_conn [OF t'(2)]] by (simp add: sent_def)
  then show ?thesis using that t'(1,6) d(1) by (simp add: RECHDR_LEN_def nth_append)
qed

lemma server_finish_step:
  assumes os: "\<forall>k. recv env k \<noteq> None" and s: "sent tls w (rec_CHANGE_CIPHER_SPEC @ finished_record kb e v tag @ rest) t"
    and g: "gcm_keys kb tls" "flags tls AND ENCRYPTION_AESGCM \<noteq> 0" "min_encrypted_len_on_read tls = 0"
    and l: "length e = 8" "length tag = 16" "3 \<le> length v" "length v \<le> 16384"
  shows "\<exists>t'. server_finish env t = Inr t' \<and> same_link (tls\<lparr>min_encrypted_len_on_read := 24\<rparr>) t' \<and> inbuf_ok t' \<and>
    written t' = w \<and> pending t' = rest \<and> hsd t' = None"
proof -
  obtain t1 post where t1: "tls_xread_record (recv env) (fresh_in env) t = Inr (1, t1)"
    "sent tls w (finished_record kb e v tag @ rest) t1" "inbuf t1 = rec_CHANGE_CIPHER_SPEC @ post"
    by (rule read_change_cipher_spec [OF os s g(3)])
  let ?tls = "tls\<lparr>min_encrypted_len_on_read := 24\<rparr>" and ?t1 = "t1\<lparr>min_encrypted_len_on_read := 24\<rparr>"
  have me: "min_encrypted t1 = 24"
    using t1(2) g(2) same_link_fields(1) by (auto simp: sent_def min_encrypted_def)
  have "same_link ?tls ?t1" using t1(2) unfolding sent_def same_link_def by (cases tls, cases t1) simp
  then have s1: "sent ?tls w (finished_record kb e v tag @ rest) ?t1"
    using t1(2) by (simp add: sent_def inbuf_ok_def pending_def)
  have g1: "gcm_keys kb ?tls" "flags ?tls AND ENCRYPTION_AESGCM \<noteq> 0" "min_encrypted_len_on_read ?tls = 24"
    using g by (simp_all add: gcm_keys_def)
  obtain t2 where t2: "tls_xread_record (recv env) (fresh_in env) ?t1 = Inr (Suc (length v), t2)" "sent ?tls w rest t2"
    "inbuf t2 ! RECHDR_LEN = 20" "RECHDR_LEN < length (inbuf t2)"
    by (rule read_finished [OF os s1 g1 l(1,2,4)])
  have "take 6 (inbuf t1) = rec_CHANGE_CIPHER_SPEC" by (simp add: t1(3) rec_CHANGE_CIPHER_SPEC_def)
  then have "server_finish env t = Inr (t2\<lparr>hsd := None\<rparr>)"
    using t1(1) t2 l(3) me by (simp add: server_finish_def peek_def)
  then show ?thesis using t2(2) by (simp add: sent_def inbuf_ok_def pending_def)
qed

section \<open>The whole handshake\<close>

text \<open>A connection as \<open>new_tls_state\<close> makes it, with any buffers.\<close>

definition fresh_conn :: "tls_state \<Rightarrow> bool" where
  "fresh_conn tls \<longleftrightarrow> flags tls = 0 \<and> min_encrypted_len_on_read tls = 0 \<and> IV_size tls = 0 \<and> inbuf_ok tls \<and>
     length (client_write_MAC_key tls) = 136 \<and> length (key (aes_encrypt tls)) = 60 \<and> length (key (aes_decrypt tls)) = 60"

text \<open>What a server may send for the suite \<open>cs\<close> with the certificate \<open>cert\<close>: perhaps a key and a request for a
  certificate, in messages that fit into one record each.\<close>

definition suite_flight :: "u8 list \<Rightarrow> u8 \<times> u8 \<Rightarrow> u8 list \<Rightarrow> (u8 list \<times> u8 list) option \<Rightarrow> u8 list option \<Rightarrow> u8 list list \<Rightarrow> bool" where
  "suite_flight sr cs cert ske creq F \<longleftrightarrow> (\<exists>sid ext chain.
     F = server_flight (server_hello sr sid cs ext) (cert_msg cert chain) ske creq \<and>
     length sr = 32 \<and> length sid \<in> {0, 32} \<and> ext \<noteq> [] \<and> length sid + length ext < 219 \<and>
     (\<forall>ks. ske = Some ks \<longrightarrow> length (fst ks) = 32) \<and> (\<forall>m \<in> set F. length m \<le> 18432))"

text \<open>The flights for the two suites with ECDHE and AES-GCM, with a known certificate.\<close>

definition ec_flight :: "u8 list \<Rightarrow> (u8 list \<times> u8 list) option \<Rightarrow> u8 list option \<Rightarrow> u8 list list \<Rightarrow> bool" where
  "ec_flight sr ske creq F \<longleftrightarrow>
     (\<exists>lo cert. lo \<in> {0x2b, 0x2f} \<and> known_cert cert \<and> suite_flight sr (0xc0, lo) cert ske creq F)"

lemma suite_flight_cert: "suite_flight sr cs cert ske creq F \<Longrightarrow> length cert < 0x10000"
  by (auto simp: suite_flight_def server_flight_def cert_msg_def)

definition client_answer :: "u8 list option \<Rightarrow> u8 list \<Rightarrow> u8 list list" where
  "client_answer creq m = (if creq = None then [] else [hs_msg 11 [0, 0, 0]]) @ [m]"

lemma hs_at_ccs: "hs_at tls w T h p t \<Longrightarrow> hs_at tls (w @ [rec_CHANGE_CIPHER_SPEC]) T h p (send_change_cipher_spec t)"
  by (simp add: hs_at_def send_change_cipher_spec_def inbuf_ok_def pending_def)

lemma other_flags:
  assumes "f AND NOT (GOT_CERT_RSA_KEY_ALG OR GOT_EC_KEY) = 0"
  shows "f AND NEED_EC_KEY = 0" "f AND ENCRYPT_ON_WRITE = 0" "f AND ENCRYPTION_AESGCM = 0"
proof -
  have f: "f AND x = 0" if "NOT (GOT_CERT_RSA_KEY_ALG OR GOT_EC_KEY) AND x = x" for x
    by (metis and.assoc assms that and_zero_eq zero_and_eq)
  show "f AND NEED_EC_KEY = 0" "f AND ENCRYPT_ON_WRITE = 0" "f AND ENCRYPTION_AESGCM = 0"
    by (rule f, simp add: NEED_EC_KEY_def ENCRYPTION_AESGCM_def ENCRYPT_ON_WRITE_def GOT_CERT_RSA_KEY_ALG_def GOT_EC_KEY_def)+
qed

definition gcm_suite :: "tls_state \<Rightarrow> bool" where
  "gcm_suite c \<longleftrightarrow> flags c AND ENCRYPT_ON_WRITE = 0 \<and> flags c AND ENCRYPTION_AESGCM \<noteq> 0 \<and>
     MAC_size c = 0 \<and> key_size c = 16 \<and> IV_size c = 4 \<and> min_encrypted_len_on_read c = 0 \<and>
     length (client_write_MAC_key c) = 136 \<and> length (key (aes_encrypt c)) = 60 \<and> length (key (aes_decrypt c)) = 60"

definition agreed_hsd :: "u8 list \<Rightarrow> u8 list \<Rightarrow> (u8 list \<times> u8 list) option \<Rightarrow> psRsaKey \<Rightarrow> tls_handshake_data" where
  "agreed_hsd cr sr ske k = zero_hsd\<lparr>client_and_server_rand32 := cr @ sr, server_rsa_pub_key := k,
     ecc_pub_key32 := (case ske of None \<Rightarrow> replicate 32 0 | Some ks \<Rightarrow> fst ks)\<rparr>"

lemma negotiated:
  fixes env sni cs
  defines "hello \<equiv> client_hello (hello_random env) (server_name sni)"
  assumes os: "\<forall>k. recv env k \<noteq> None" and tls: "fresh_conn tls" and F: "suite_flight sr cs cert ske creq F"
    and cs: "cs \<in> {(0xc0, 0x2b), (0xc0, 0x2f), (0, 0x9c)}" "ske \<noteq> None \<longrightarrow> fst cs = 0xc0"
    and cert: "cert_yields cert (server_rsa_pub_key zero_hsd) g k"
    and p: "pending tls = records F @ rest" and r: "length (hello_random env) = 32"
  obtains t1 t2 c where "send_client_hello_and_alloc_hsd env sni tls = Inr t1" "server_messages env t1 = Inr (creq \<noteq> None, t2)"
    "gcm_suite c" "flags c AND NEED_EC_KEY \<noteq> 0 \<longleftrightarrow> fst cs = 0xc0" "write_seq64_be c = write_seq64_be tls"
    "hs_at c (written tls @ [tls_record 22 hello]) ([hello] @ F) (agreed_hsd (hello_random env) sr ske k) rest t2"
proof -
  let ?r = "hello_random env"
  let ?h = "zero_hsd\<lparr>client_and_server_rand32 := ?r @ replicate 32 0\<rparr>"
  obtain hi lo where hl: "cs = (hi, lo)" by fastforce
  obtain sid ext chain where Fl: "F = server_flight (server_hello sr sid (hi, lo) ext) (cert_msg cert chain) ske creq"
    and s: "length sr = 32" "length sid \<in> {0, 32}" "ext \<noteq> []" "length sid + length ext < 219"
      "\<forall>ks. ske = Some ks \<longrightarrow> length (fst ks) = 32" "\<forall>m \<in> set F. length m \<le> 18432"
    using F unfolding suite_flight_def hl by blast
  have fr: "flags tls = 0" "min_encrypted_len_on_read tls = 0" "inbuf_ok tls"
    "length (client_write_MAC_key tls) = 136" "length (key (aes_encrypt tls)) = 60" "length (key (aes_decrypt tls)) = 60"
    using tls by (simp_all add: fresh_conn_def)
  obtain t1 where t1: "send_client_hello_and_alloc_hsd env sni tls = Inr t1"
    "hs_at tls (written tls @ [tls_record 22 hello]) [hello] ?h (records F @ rest) t1"
    using send_client_hello_step [OF r _ fr(3), of sni] fr(1) p by (auto simp: hello_def)
  let ?c = "set_cipher hi lo tls"
  have c: "flags ?c = (if hi = 0xc0 then NEED_EC_KEY else 0) OR ENCRYPTION_AESGCM" "MAC_size ?c = 0" "key_size ?c = 16" "IV_size ?c = 4"
    "min_encrypted_len_on_read ?c = 0" "write_seq64_be ?c = write_seq64_be tls"
    using cs(1) fr(1,2) by (auto simp: hl set_cipher_def Let_def)
  have fl: "flags ?c AND NEED_EC_KEY \<noteq> 0 \<longleftrightarrow> hi = 0xc0" "flags ?c AND GOT_CERT_RSA_KEY_ALG = 0" "flags ?c AND ENCRYPT_ON_WRITE = 0"
    "flags ?c AND ENCRYPTION_AESGCM \<noteq> 0"
    by (simp_all add: c NEED_EC_KEY_def ENCRYPTION_AESGCM_def GOT_CERT_RSA_KEY_ALG_def ENCRYPT_ON_WRITE_def)
  have h: "ecc_pub_key32 ?h = replicate 32 0" "take 32 (client_and_server_rand32 ?h) = ?r" "server_rsa_pub_key ?h = server_rsa_pub_key zero_hsd"
    using r by (simp_all add: zero_hsd_def)
  have need: "ske \<noteq> None \<longrightarrow> flags ?c AND NEED_EC_KEY \<noteq> 0" using cs(2) fl(1) unfolding hl fst_conv by blast
  obtain t2 f where t2: "server_messages env t1 = Inr (creq \<noteq> None, t2)" "f AND NOT (GOT_CERT_RSA_KEY_ALG OR GOT_EC_KEY) = 0"
    "hs_at (?c\<lparr>flags := flags ?c OR f\<rparr>) (written tls @ [tls_record 22 hello]) ([hello] @ F)
      (?h\<lparr>client_and_server_rand32 := ?r @ sr, server_rsa_pub_key := k,
        ecc_pub_key32 := (case ske of None \<Rightarrow> replicate 32 0 | Some ks \<Rightarrow> fst ks)\<rparr>) rest t2"
    using server_messages_step [OF os t1(2) [unfolded Fl] fr(2) need fl(2) s(1-4) cert [folded h(3)] s(5) s(6) [unfolded Fl], folded Fl]
    unfolding h by blast
  let ?c' = "?c\<lparr>flags := flags ?c OR f\<rparr>"
  note o = other_flags [OF t2(2)]
  have "gcm_suite ?c'" using fl(3,4) fr o c by (simp add: gcm_suite_def bit.conj_disj_distrib2 or_eq_0_iff)
  moreover have "flags ?c' AND NEED_EC_KEY \<noteq> 0 \<longleftrightarrow> fst cs = 0xc0" using fl(1) o(1) by (simp add: hl bit.conj_disj_distrib2)
  ultimately show ?thesis using that [OF t1(1) t2(1), of ?c'] t2(3) c(6) by (simp add: agreed_hsd_def)
qed

lemma answered:
  fixes env sr h cr premaster k
  defines "master \<equiv> master_of premaster cr sr"
  defines "kb \<equiv> key_block master cr sr"
  assumes c: "gcm_suite c" and at: "hs_at c w T h p t"
    and pm: "\<And>t x. flags t = flags c \<Longrightarrow> premaster_secret env t (h\<lparr>handshake_hash_ctx := x\<rparr>) = Inr (premaster, k)"
      "length premaster \<le> 64" "length k \<le> 4098"
    and l: "client_and_server_rand32 h = cr @ sr" "length cr = 32" "length sr = 32"
  obtains t3 t4 c3 where "(if creq \<noteq> None then send_empty_client_cert env t else Inr t) = Inr t3"
    "send_client_key_exchange env t3 = Inr t4" "gcm_keys kb c3"
    "hs_at c3 (w @ map (tls_record 22) (client_answer creq (hs_msg 16 k))) (T @ client_answer creq (hs_msg 16 k))
      (h\<lparr>master_secret := master\<rparr>) p t4"
    "flags c3 = flags c" "min_encrypted_len_on_read c3 = 0" "write_seq64_be c3 = write_seq64_be c"
    "client_write_IV c3 = take 4 (drop 32 kb)"
proof -
  let ?A = "client_answer creq (hs_msg 16 k)"
  have f: "flags c AND ENCRYPT_ON_WRITE = 0" "min_encrypted_len_on_read c = 0"
    and kl: "length (client_write_MAC_key c) = 136" "length (key (aes_encrypt c)) = 60" "length (key (aes_decrypt c)) = 60"
      "MAC_size c = 0" "key_size c = 16" "IV_size c = 4" using c by (simp_all add: gcm_suite_def)
  obtain t3 where t3: "(if creq \<noteq> None then send_empty_client_cert env t else Inr t) = Inr t3"
    "hs_at c (w @ map (tls_record 22) (butlast ?A)) (T @ butlast ?A) h p t3"
    using at send_empty_client_cert_step [OF at f(1), of env] by (cases creq) (auto simp: client_answer_def)
  have A: "(w @ map (tls_record 22) (butlast ?A)) @ [tls_record 22 (hs_msg 16 k)] = w @ map (tls_record 22) ?A"
    "(T @ butlast ?A) @ [hs_msg 16 k] = T @ ?A" by (simp_all add: client_answer_def)
  obtain t4 area enc dec H where t4: "send_client_key_exchange env t3 = Inr t4"
    "gcm_keys kb (install_keys area enc dec H (take 4 (drop 32 kb)) (drop 36 kb) c)"
    "hs_at (install_keys area enc dec H (take 4 (drop 32 kb)) (drop 36 kb) c)
      (w @ map (tls_record 22) ?A) (T @ ?A) (h\<lparr>master_secret := master\<rparr>) p t4"
    using send_key_step [OF t3(2) f(1) pm l kl] unfolding master_def [symmetric] kb_def [symmetric] A Let_def
    by blast
  show ?thesis by (rule that [OF t3(1) t4]) (simp_all add: install_keys_def f(2))
qed

lemma gcm_finished:
  fixes kb
  assumes os: "\<forall>k. recv env k \<noteq> None"
    and at: "hs_at c w T h (rec_CHANGE_CIPHER_SPEC @ finished_record kb e v tag @ rest) t"
    and g: "gcm_keys kb c" "flags c AND ENCRYPTION_AESGCM \<noteq> 0" "min_encrypted_len_on_read c = 0" "length (master_secret h) \<le> 64"
    and l: "length e = 8" "length tag = 16" "3 \<le> length v" "length v \<le> 16384"
  obtains t5 t' where
    "send_client_finished env ((send_change_cipher_spec t)\<lparr>flags := flags (send_change_cipher_spec t) OR ENCRYPT_ON_WRITE\<rparr>) = Inr t5"
    "server_finish env t5 = Inr t'"
    "written t' = w @ [rec_CHANGE_CIPHER_SPEC, gcm_record (client_cipher kb) (client_write_IV c) (write_seq64_be c) 22
       (client_finished (master_secret h) T)]"
    "pending t' = rest" "gcm_keys kb t'" "hsd t' = None" "inbuf_ok t'" "min_encrypted_len_on_read t' = 24"
    "flags t' AND ENCRYPTION_AESGCM \<noteq> 0" "write_seq64_be t' = next_seq (write_seq64_be c)"
proof -
  let ?z = "rec_CHANGE_CIPHER_SPEC @ finished_record kb e v tag @ rest"
  let ?t = "(send_change_cipher_spec t)\<lparr>flags := flags c OR ENCRYPT_ON_WRITE\<rparr>" and ?w = "w @ [rec_CHANGE_CIPHER_SPEC]"
  let ?c = "c\<lparr>flags := flags c OR ENCRYPT_ON_WRITE\<rparr>"
  have t: "hs_at ?c ?w T h ?z ?t" using hs_at_flags [OF hs_at_ccs [OF at]] .
  have ft: "flags (send_change_cipher_spec t) = flags c"
    using at same_link_fields(1) by (auto simp: hs_at_def send_change_cipher_spec_def)
  have c: "gcm_keys kb ?c" "flags ?c AND ENCRYPTION_AESGCM \<noteq> 0"
    using g(1,2) by (auto simp: gcm_keys_def bit.conj_disj_distrib2 or_eq_0_iff)
  let ?r = "gcm_record (client_cipher kb) (client_write_IV c) (write_seq64_be c) 22 (client_finished (master_secret h) T)"
  let ?c5 = "?c\<lparr>write_seq64_be := next_seq (write_seq64_be c)\<rparr>"
  obtain t5 where t5: "send_client_finished env ?t = Inr t5" "sent ?c5 (?w @ [?r]) ?z t5"
    using send_client_finished_step [OF t c g(4), of env] by auto
  have c5: "gcm_keys kb ?c5" "flags ?c5 AND ENCRYPTION_AESGCM \<noteq> 0" "min_encrypted_len_on_read ?c5 = 0"
    using c g(3) by (simp_all add: gcm_keys_def)
  obtain t' where t': "server_finish env t5 = Inr t'" "same_link (?c5\<lparr>min_encrypted_len_on_read := 24\<rparr>) t'" "inbuf_ok t'"
    "written t' = ?w @ [?r]" "pending t' = rest" "hsd t' = None"
    using server_finish_step [OF os t5(2) c5 l] by blast
  have "gcm_keys kb t'" "flags t' AND ENCRYPTION_AESGCM \<noteq> 0" "min_encrypted_len_on_read t' = 24"
    "write_seq64_be t' = next_seq (write_seq64_be c)"
    using same_link_fields [OF t'(2)] c5 by (simp_all add: gcm_keys_def)
  then show ?thesis using that [OF _ t'(1)] t5(1) ft t'(3-6) by simp
qed

text \<open>What the client sends in a handshake, up to its Finished.\<close>

definition client_sends :: "u8 list \<Rightarrow> u8 list \<Rightarrow> u64 \<Rightarrow> u8 list \<Rightarrow> u8 list list \<Rightarrow> u8 list list \<Rightarrow> u8 list list" where
  "client_sends kb master seq hello F A =
     map (tls_record 22) (hello # A) @ [rec_CHANGE_CIPHER_SPEC,
       gcm_record (client_cipher kb) (take 4 (drop 32 kb)) seq 22 (client_finished master (hello # F @ A))]"

text \<open>A connection that is ready for data under AES-GCM.\<close>

definition gcm_ready :: "u8 list \<Rightarrow> tls_state \<Rightarrow> bool" where
  "gcm_ready kb t \<longleftrightarrow> gcm_keys kb t \<and> hsd t = None \<and> inbuf_ok t \<and> min_encrypted_len_on_read t = 24 \<and>
     flags t AND ENCRYPTION_AESGCM \<noteq> 0"

text \<open>A handshake under AES-GCM, for every way to agree on the premaster secret.\<close>

lemma gcm_handshake:
  fixes env tls sr ske creq F sni premaster k
  defines "master \<equiv> master_of premaster (hello_random env) sr"
  defines "kb \<equiv> key_block master (hello_random env) sr"
  assumes os: "\<forall>k. recv env k \<noteq> None" and tls: "fresh_conn tls" and F: "suite_flight sr cs cert ske creq F"
    and cs: "cs \<in> {(0xc0, 0x2b), (0xc0, 0x2f), (0, 0x9c)}" "ske \<noteq> None \<longrightarrow> fst cs = 0xc0"
    and cert: "cert_yields cert (server_rsa_pub_key zero_hsd) g rk"
    and pm: "\<And>t x. (flags t AND NEED_EC_KEY \<noteq> 0 \<longleftrightarrow> fst cs = 0xc0) \<Longrightarrow>
        premaster_secret env t ((agreed_hsd (hello_random env) sr ske rk)\<lparr>handshake_hash_ctx := x\<rparr>) = Inr (premaster, k)"
      "length premaster \<le> 64" "length k \<le> 4098"
    and p: "pending tls = records F @ rec_CHANGE_CIPHER_SPEC @ finished_record kb e v tag @ rest"
    and r: "length (hello_random env) = 32"
    and l: "length e = 8" "length tag = 16" "3 \<le> length v" "length v \<le> 16384"
  shows "\<exists>t. tls_handshake env sni tls = Inr t \<and> gcm_ready kb t \<and> pending t = rest \<and>
    written t = written tls @ client_sends kb master (write_seq64_be tls)
      (client_hello (hello_random env) (server_name sni)) F (client_answer creq (hs_msg 16 k)) \<and>
    write_seq64_be t = next_seq (write_seq64_be tls)"
proof -
  let ?r = "hello_random env" and ?z = "rec_CHANGE_CIPHER_SPEC @ finished_record kb e v tag @ rest"
  let ?hello = "client_hello ?r (server_name sni)" and ?A = "client_answer creq (hs_msg 16 k)"
  let ?h = "agreed_hsd ?r sr ske rk"
  obtain t1 t2 c where t: "send_client_hello_and_alloc_hsd env sni tls = Inr t1" "server_messages env t1 = Inr (creq \<noteq> None, t2)"
    and c: "gcm_suite c" "flags c AND NEED_EC_KEY \<noteq> 0 \<longleftrightarrow> fst cs = 0xc0" "write_seq64_be c = write_seq64_be tls"
      "hs_at c (written tls @ [tls_record 22 ?hello]) ([?hello] @ F) ?h ?z t2"
    by (rule negotiated [OF os tls F cs cert p r])
  have h: "client_and_server_rand32 ?h = ?r @ sr" by (simp add: agreed_hsd_def)
  have s: "length sr = 32" using F by (auto simp: suite_flight_def)
  have pm': "premaster_secret env t (?h\<lparr>handshake_hash_ctx := x\<rparr>) = Inr (premaster, k)" if "flags t = flags c" for t x
    using c(2) that by (intro pm(1)) simp
  obtain t3 t4 c3 where t': "(if creq \<noteq> None then send_empty_client_cert env t2 else Inr t2) = Inr t3"
      "send_client_key_exchange env t3 = Inr t4"
    and c3: "gcm_keys kb c3" "hs_at c3 ((written tls @ [tls_record 22 ?hello]) @ map (tls_record 22) ?A) (([?hello] @ F) @ ?A)
        (?h\<lparr>master_secret := master\<rparr>) ?z t4"
      "flags c3 = flags c" "min_encrypted_len_on_read c3 = 0" "write_seq64_be c3 = write_seq64_be c"
      "client_write_IV c3 = take 4 (drop 32 kb)"
    by (rule answered [OF c(1,4) pm' pm(2,3) h r s, folded master_def, folded kb_def])
  have g: "flags c3 AND ENCRYPTION_AESGCM \<noteq> 0" "length (master_secret (?h\<lparr>master_secret := master\<rparr>)) \<le> 64"
    using c(1) c3(3) by (simp_all add: gcm_suite_def master_def master_of_def length_P_sha256)
  obtain t5 t6 where e: "send_client_finished env ((send_change_cipher_spec t4)\<lparr>flags := flags (send_change_cipher_spec t4) OR ENCRYPT_ON_WRITE\<rparr>) = Inr t5"
      "server_finish env t5 = Inr t6"
    and w: "written t6 = ((written tls @ [tls_record 22 ?hello]) @ map (tls_record 22) ?A) @ [rec_CHANGE_CIPHER_SPEC,
        gcm_record (client_cipher kb) (client_write_IV c3) (write_seq64_be c3) 22 (client_finished
          (master_secret (?h\<lparr>master_secret := master\<rparr>)) (([?hello] @ F) @ ?A))]"
    and t6: "pending t6 = rest" "gcm_keys kb t6" "hsd t6 = None" "inbuf_ok t6" "min_encrypted_len_on_read t6 = 24"
      "flags t6 AND ENCRYPTION_AESGCM \<noteq> 0" "write_seq64_be t6 = next_seq (write_seq64_be c3)"
    by (rule gcm_finished [OF os c3(2,1) g(1) c3(4) g(2) l])
  have "tls_handshake env sni tls = Inr t6"
    unfolding tls_handshake_def t(1) sum.case t(2) prod.case t' Let_def e ..
  then show ?thesis using w t6 c(3) c3(5,6) by (intro exI [of _ t6]) (simp add: client_sends_def gcm_ready_def)
qed

lemma premaster_secret_ec:
  assumes "flags t AND NEED_EC_KEY \<noteq> 0" "length (key_random env) = 32"
  shows "premaster_secret env t h = Inr (curve25519 (clamp_key (key_random env)) (ecc_pub_key32 h),
    32 # curve25519 (clamp_key (key_random env)) basepoint9)"
  using assms by (simp add: premaster_secret_def tls_get_random_def Let_def)

lemma ec_handshake:
  fixes env tls sr ske creq F sni
  defines "priv \<equiv> clamp_key (key_random env)"
  defines "pub \<equiv> (case ske of None \<Rightarrow> replicate 32 0 | Some ks \<Rightarrow> fst ks)"
  defines "master \<equiv> master_of (curve25519 priv pub) (hello_random env) sr"
  defines "kb \<equiv> key_block master (hello_random env) sr"
  assumes os: "\<forall>k. recv env k \<noteq> None" and tls: "fresh_conn tls" and F: "ec_flight sr ske creq F"
    and p: "pending tls = records F @ rec_CHANGE_CIPHER_SPEC @ finished_record kb e v tag @ rest"
    and r: "length (hello_random env) = 32" "length (key_random env) = 32"
    and l: "length e = 8" "length tag = 16" "3 \<le> length v" "length v \<le> 16384"
  shows "\<exists>t. tls_handshake env sni tls = Inr t \<and> gcm_ready kb t \<and> pending t = rest \<and>
    written t = written tls @ client_sends kb master (write_seq64_be tls)
      (client_hello (hello_random env) (server_name sni)) F (client_answer creq (client_key priv)) \<and>
    write_seq64_be t = next_seq (write_seq64_be tls)"
proof -
  obtain lo cert where lo: "lo \<in> {0x2b, 0x2f}" and cert: "known_cert cert" and S: "suite_flight sr (0xc0, lo) cert ske creq F"
    using F by (auto simp: ec_flight_def)
  obtain g k where k: "cert_yields cert (server_rsa_pub_key zero_hsd) g k"
    using known_cert_yields [OF cert suite_flight_cert [OF S]] by blast
  have "length priv = 32" "length basepoint9 = 32" "length pub = 32"
    using r(2) S by (auto simp: priv_def pub_def basepoint9_def suite_flight_def split: option.splits)
  then have len: "length (curve25519 priv pub) \<le> 64" "length (32 # curve25519 priv basepoint9) \<le> 4098"
    using curve25519_field(1) [of priv] by simp_all
  have cs: "(0xc0, lo) \<in> {(0xc0, 0x2b), (0xc0, 0x2f), (0, 0x9c)}" "ske \<noteq> None \<longrightarrow> fst (0xc0 :: u8, lo) = 0xc0" using lo by auto
  have pm: "premaster_secret env t ((agreed_hsd (hello_random env) sr ske k)\<lparr>handshake_hash_ctx := x\<rparr>) =
      Inr (curve25519 priv pub, 32 # curve25519 priv basepoint9)" if "flags t AND NEED_EC_KEY \<noteq> 0 \<longleftrightarrow> fst (0xc0 :: u8, lo) = 0xc0" for t x
    using premaster_secret_ec [OF _ r(2)] that by (simp add: agreed_hsd_def pub_def priv_def)
  show ?thesis
    using gcm_handshake [OF os tls S cs k pm len p [unfolded kb_def master_def] r(1) l]
    unfolding kb_def master_def client_key_def .
qed

section \<open>The point of order two\<close>

lemma mont_mult_zero: "fst (fst (mont_mult 0 m)) = 0 \<or> snd (fst (mont_mult 0 m)) = 0"
proof (induction m rule: less_induct)
  case (less m)
  show ?case
  proof (cases "m \<le> 1")
    case True
    then show ?thesis by (simp add: mont_mult.simps)
  next
    case False
    then obtain x z q where p: "mont_mult 0 (m div 2) = ((x, z), q)" "x = 0 \<or> z = 0"
      using less.IH [of "m div 2"] by (cases "mont_mult 0 (m div 2)") auto
    obtain x' z' where q: "q = (x', z')" by fastforce
    show ?thesis using False p(2) by (subst (1 2) mont_mult.simps) (auto simp: p(1) q Let_def)
  qed
qed

lemma bval_zero: "bval x = 0 \<Longrightarrow> x = replicate (length x) 0"
  by (induction x) (auto simp: unat_eq_0)

lemma curve25519_zero:
  assumes "length e = 32"
  shows "curve25519 e (replicate 32 0) = replicate 32 0"
proof -
  note c = curve25519_field [OF assms, of "replicate 32 0"]
  have "x25519_spec k 0 = 0" for k
    using mont_mult_zero [of k] by (cases "fst (mont_mult 0 k)") (auto simp: x25519_spec_def power_0_left)
  moreover have "fval (replicate 32 0) = 0"
  proof -
    have "bval (replicate n 0) = 0" for n by (induction n) simp_all
    then show ?thesis by (simp add: fval_def)
  qed
  ultimately have "int (bval (curve25519 e (replicate 32 0))) = 0" using c(2) by simp
  then show ?thesis using bval_zero [of "curve25519 e (replicate 32 0)"] c(1) by simp
qed

section \<open>Properties\<close>


text \<open>A server with a suite for ECDSA, the certificate of \<open>RB_TlsDer\<close> and a public key.\<close>

definition sample_env :: tls_env where
  "sample_env = \<lparr>recv = (\<lambda>_. Some 0), fresh_in = (\<lambda>_. 0), fresh_out = (\<lambda>_. 0), hello_random = replicate 32 1,
     key_random = replicate 32 2, iv_random = replicate 16 3, pad_random = []\<rparr>"

definition sample_flight :: "(u8 list \<times> u8 list) option \<Rightarrow> u8 list list" where
  "sample_flight ske = server_flight (server_hello (replicate 32 4) [] (0xc0, 0x2b) [0]) (cert_msg sample_cert []) ske None"

definition sample_conn :: "u8 list \<Rightarrow> tls_state" where
  "sample_conn stream = sample_tls\<lparr>flags := 0, min_encrypted_len_on_read := 0, IV_size := 0, incoming := stream\<rparr>"

lemma sample_conn: "fresh_conn (sample_conn s)" "pending (sample_conn s) = s"
  using sample_key_length
  by (simp_all add: sample_conn_def sample_tls_def fresh_conn_def pending_def inbuf_ok_def)

lemma sample_flight: "\<forall>ks. ske = Some ks \<longrightarrow> length (fst ks) = 32 \<and> length (snd ks) = 4 \<Longrightarrow> ec_flight (replicate 32 4) ske None (sample_flight ske)"
proof -
  assume k: "\<forall>ks. ske = Some ks \<longrightarrow> length (fst ks) = 32 \<and> length (snd ks) = 4"
  have l: "length sample_cert < 0x4000"
    by (simp add: sample_cert_def certificate_def items_def rsa_key_info_def rsa_key_body_def length_der_item der_length_def
      OID_RSA_KEY_ALG_def length_concat sum_list_replicate)
  have "7 \<le> length (replicate 7 (255 :: u8)) + length [3 :: u8]" by simp
  then have "known_key (rsa_key_body (replicate 7 255) [3])" unfolding known_key_def by blast
  moreover have "sample_cert = certificate None (replicate 5 (2, [1])) (der_item 0x30 (rsa_key_body (replicate 7 255) [3])) [] []"
    by (simp add: sample_cert_def rsa_key_info_def)
  moreover have "length (replicate 5 (2 :: u8, [1 :: u8])) = 5" "fst (hd (replicate 5 (2 :: u8, [1 :: u8]))) \<noteq> 0xa0" by simp_all
  ultimately have c: "known_cert sample_cert" unfolding known_cert_def by blast
  have "\<forall>m \<in> set (sample_flight ske). length m \<le> 18432"
    using k l by (auto simp: sample_flight_def server_flight_def flight_end_def server_hello_def cert_msg_def be24_def
      key_exchange_msg_def split: option.splits)
  then have "suite_flight (replicate 32 4) (0xc0, 0x2b) sample_cert ske None (sample_flight ske)"
    unfolding suite_flight_def using k by (intro exI [of _ "[]"] exI [of _ "[0]"]) (simp add: sample_flight_def)
  then show ?thesis unfolding ec_flight_def using c by blast
qed

definition sample_kb :: "u8 list \<Rightarrow> u8 list" where
  "sample_kb secret = key_block (master_of secret (replicate 32 1) (replicate 32 4)) (replicate 32 1) (replicate 32 4)"

definition sample_stream :: "(u8 list \<times> u8 list) option \<Rightarrow> u8 list \<Rightarrow> u8 list" where
  "sample_stream ske secret = records (sample_flight ske) @ rec_CHANGE_CIPHER_SPEC @
     finished_record (sample_kb secret) (replicate 8 0) [0, 0, 0] (replicate 16 0)"


text \<open>
  C33. A server that chooses an ECDHE suite and leaves out its key exchange message completes the handshake all the same:
  \<^verbatim>\<open>send_client_key_exchange\<close> only prints that there is no key and goes on with the public key 0, so that the secret is 32 zero
  bytes for every private key, and all keys of the connection are a function of the two random values that were sent in the clear.
\<close>

theorem missing_server_key_known_secret:
  fixes env tls sr F
  defines "master \<equiv> master_of (replicate 32 0) (hello_random env) sr"
  defines "kb \<equiv> key_block master (hello_random env) sr"
  assumes "\<forall>k. recv env k \<noteq> None" "fresh_conn tls" "ec_flight sr None creq F"
    "pending tls = records F @ rec_CHANGE_CIPHER_SPEC @ finished_record kb e v tag @ rest"
    "length (hello_random env) = 32" "length (key_random env) = 32"
    "length e = 8" "length tag = 16" "3 \<le> length v" "length v \<le> 16384"
  shows "\<exists>t. tls_handshake env sni tls = Inr t \<and> gcm_ready kb t \<and> pending t = rest"
proof -
  have z: "curve25519 (clamp_key (key_random env)) (case None of None \<Rightarrow> replicate 32 0 | Some ks \<Rightarrow> fst ks) = replicate 32 0"
    using curve25519_zero [of "clamp_key (key_random env)"] assms(8) by simp
  show ?thesis using ec_handshake [OF assms(3-5), of e v tag rest sni, unfolded z] assms(6-) unfolding kb_def master_def by blast
qed

theorem missing_server_key_known_secret_witness:
  "\<exists>t. tls_handshake sample_env None (sample_conn (sample_stream None (replicate 32 0))) = Inr t \<and>
    gcm_ready (sample_kb (replicate 32 0)) t \<and> pending t = []"
proof -
  have f: "ec_flight (replicate 32 4) None None (sample_flight None)" by (rule sample_flight) simp
  show ?thesis
    using missing_server_key_known_secret [OF _ sample_conn(1) f, of sample_env _ "replicate 8 0" "[0, 0, 0]" "replicate 16 0" "[]" None]
    by (simp add: sample_conn sample_env_def sample_stream_def sample_kb_def)
qed

end
