(* ===== verification/RB_TlsRsaSession.thy ===== *)
theory RB_TlsRsaSession
  imports RB_TlsSession
begin

text \<open>
  The handshake with the key exchange of RSA: the certificate gives the key, the client sends the encrypted secret, and the keys
  of the connection come from that secret.
\<close>

section \<open>The flight of the server and the message of the client\<close>

text \<open>The suite with RSA and AES-GCM, and a certificate with the modulus \<open>N\<close> and the exponent \<open>e\<close>.\<close>

definition rsa_flight :: "u8 list \<Rightarrow> u8 list \<Rightarrow> u8 list \<Rightarrow> u8 list option \<Rightarrow> u8 list list \<Rightarrow> bool" where
  "rsa_flight sr N e creq F \<longleftrightarrow> (\<exists>version its ext sig.
     suite_flight sr (0, 0x9c) (certificate version its (rsa_key_info N e) ext sig) None creq F \<and>
     length its = 5 \<and> (version = None \<longrightarrow> fst (hd its) \<noteq> 0xa0) \<and>
     7 \<le> length N + length e \<and> length N \<le> 16384 \<and> length e \<le> 16384)"

definition rsa_client_key :: "u8 list \<Rightarrow> u8 list" where
  "rsa_client_key c = hs_msg 16 (len_hi (length c) # len_lo (length c) # c)"

definition cert_key :: "u8 list \<Rightarrow> u8 list \<Rightarrow> psRsaKey" where
  "cert_key N e = \<lparr>rsa_e = binary_to_pstm e, rsa_N = binary_to_pstm N, rsa_size = pstm_unsigned_bin_size (binary_to_pstm N)\<rparr>"

lemma binary_to_pstm_nat:
  assumes "length b \<le> 16384"
  shows "pstm_nat (binary_to_pstm b) = bval (rev b)" "pstm_ok (binary_to_pstm b)" "sign (binary_to_pstm b) = 0"
  using pstm_read_unsigned_bin_nat [OF assms] by (simp_all add: binary_to_pstm_def)

text \<open>A modulus of a certificate for which the key exchange is defined: odd, of 59 to 4096 bytes.\<close>

definition modulus_ok :: "u8 list \<Rightarrow> nat \<Rightarrow> bool" where
  "modulus_ok N n \<longleftrightarrow> odd (bval (rev N)) \<and> n = (bits_in (bval (rev N)) + 7) div 8 \<and> 59 \<le> n \<and> n \<le> 4096"

lemma cert_key_ok:
  assumes "modulus_ok N n" "length N \<le> 16384" "length e \<le> 16384"
  shows "rsa_key_ok (cert_key N e)" "rsa_size (cert_key N e) = n" "pstm_nat (rsa_N (cert_key N e)) = bval (rev N)"
    "pstm_nat (rsa_e (cert_key N e)) = bval (rev e)"
proof -
  note n = assms(1) [unfolded modulus_ok_def]
  show s: "rsa_size (cert_key N e) = n" "pstm_nat (rsa_N (cert_key N e)) = bval (rev N)" "pstm_nat (rsa_e (cert_key N e)) = bval (rev e)"
    using n bin_size [OF binary_to_pstm_nat(2) [OF assms(2)]] binary_to_pstm_nat(1) [OF assms(2)] binary_to_pstm_nat(1) [OF assms(3)]
    by (simp_all add: cert_key_def)
  have "bval (rev N) \<noteq> 1"
  proof
    assume "bval (rev N) = 1"
    moreover have "bits_in 1 = 1" using bits_in_unique [of 0 1] by simp
    ultimately show False using n by auto
  qed
  moreover have "bval (rev N) \<noteq> 0" using n by (metis dvd_0_right)
  ultimately show "rsa_key_ok (cert_key N e)"
    using n s(1) binary_to_pstm_nat [OF assms(2)] unfolding rsa_key_ok_def by (simp add: cert_key_def)
qed

lemma rsa_flight_cert:
  assumes "rsa_flight sr N e creq F"
  obtains cert where "suite_flight sr (0, 0x9c) cert None creq F" "cert_yields cert k0 GOT_CERT_RSA_KEY_ALG (cert_key N e)"
  using assms rsa_cert_yields suite_flight_cert unfolding rsa_flight_def rsa_key_info_def cert_key_def by metis

section \<open>Properties\<close>


text \<open>A server with the modulus \<open>2 ^ 472 - 1\<close> and the exponent 3.\<close>

abbreviation sample_N :: "u8 list" where "sample_N \<equiv> replicate 59 255"

definition sample_rsa_env :: tls_env where
  "sample_rsa_env = \<lparr>recv = (\<lambda>_. Some 0), fresh_in = (\<lambda>_. 0), fresh_out = (\<lambda>_. 0), hello_random = replicate 32 1,
     key_random = replicate 48 0, iv_random = replicate 16 3, pad_random = [1, 1, 1, 1, 1, 1, 1, 1]\<rparr>"

definition sample_rsa_cert :: "u8 list" where
  "sample_rsa_cert = certificate None (replicate 5 (2, [1])) (rsa_key_info sample_N [3]) [] []"

definition sample_rsa_flight :: "u8 list list" where
  "sample_rsa_flight = server_flight (server_hello (replicate 32 4) [] (0, 0x9c) [0]) (cert_msg sample_rsa_cert []) None None"

definition sample_M :: nat where
  "sample_M = 256 ^ 46 * 620183686347871882817045251"

definition sample_secret :: "u8 list" where
  "sample_secret = 3 # 3 # replicate 46 0"

lemma sample_rsa_flight: "rsa_flight (replicate 32 4) sample_N [3] None sample_rsa_flight"
proof -
  have "length sample_rsa_cert < 0x4000"
    by (simp add: sample_rsa_cert_def certificate_def items_def rsa_key_info_def rsa_key_body_def length_der_item der_length_def
      OID_RSA_KEY_ALG_def length_concat sum_list_replicate)
  then have "\<forall>m \<in> set sample_rsa_flight. length m \<le> 18432"
    by (auto simp: sample_rsa_flight_def server_flight_def flight_end_def server_hello_def cert_msg_def be24_def)
  then have "suite_flight (replicate 32 4) (0, 0x9c) sample_rsa_cert None None sample_rsa_flight"
    unfolding suite_flight_def by (intro exI [of _ "[]"] exI [of _ "[0]"]) (simp add: sample_rsa_flight_def)
  then show ?thesis unfolding rsa_flight_def
    by (intro exI [of _ None] exI [of _ "replicate 5 (2, [1])"] exI [of _ "[]"]) (simp add: sample_rsa_cert_def)
qed

lemma sample_N: "bval (rev sample_N) = 2 ^ 472 - 1"
proof -
  have "bval (replicate n 255) + 1 = 256 ^ n" for n by (induction n) simp_all
  from this [of 59] have "bval (rev sample_N) + 1 = 2 ^ 472" unfolding rev_replicate by simp
  then show ?thesis by linarith
qed

lemma sample_modulus: "modulus_ok sample_N 59"
proof -
  have "bits_in (2 ^ 472 - 1) = 472" using bits_in_unique [of 471 "2 ^ 472 - 1"] by simp
  then show ?thesis unfolding modulus_ok_def sample_N by simp
qed

lemma sample_message: "bval (rev (pkcs1_message [1, 1, 1, 1, 1, 1, 1, 1] sample_secret)) = sample_M"
proof -
  have "rev (pkcs1_message [1, 1, 1, 1, 1, 1, 1, 1] sample_secret) = replicate 46 0 @ [3, 3, 0, 1, 1, 1, 1, 1, 1, 1, 1, 2, 0]"
    by (simp add: pkcs1_message_def sample_secret_def)
  then show ?thesis by (simp add: bval_append sample_M_def)
qed

lemma sample_safe: "exptmod_safe sample_M (binary_to_pstm sample_N)"
proof -
  define N where "N = (2 :: nat) ^ 472 - 1"
  have b: "bits_in N = 472" using bits_in_unique [of 471 N] by (simp add: N_def)
  have "sample_M * 256 + 2 ^ 409 \<le> N" "2 ^ 384 \<le> sample_M * 256" by (simp_all add: N_def sample_M_def)
  then have safe: "2 ^ 384 \<le> sample_M * 256" "div_safe (sample_M * 256) N" "sample_M * 256 < N" using div_safe_small [of N] b by simp_all
  have "(2 :: nat) ^ 480 = 256 + 256 * N" by (simp add: N_def)
  then have R: "(2 :: nat) ^ 480 mod N = 256" by (simp only: mod_mult_self1) (simp add: N_def)
  have "sample_M * 2 ^ 480 mod N = sample_M * 256 mod N"
    using mod_mult_right_eq [of "sample_M" "2 ^ 480" N] unfolding R by simp
  also have "\<dots> = sample_M * 256" by (rule mod_less [OF safe(3)])
  finally have m: "sample_M * 2 ^ 480 mod N = sample_M * 256" .
  have P: "pstm_nat (binary_to_pstm sample_N) = N" "pstm_ok (binary_to_pstm sample_N)"
    using binary_to_pstm_nat [of sample_N] sample_N unfolding N_def by simp_all
  have "(2 ^ 32) ^ 14 \<le> N" "N < (2 ^ 32) ^ 15" by (simp_all add: N_def)
  then have u: "used (binary_to_pstm sample_N) = 15"
    using used_gt [OF P(2), of 14] used_le [OF P(2), of 15] unfolding P(1) by linarith
  show ?thesis unfolding exptmod_safe_def u P(1) using safe(1,2) m R by simp
qed


end
