(* ===== verification/RB_TlsCopy.thy ===== *)
theory RB_TlsCopy
  imports RB_TlsSession
begin

text \<open>
  The copy loop of an established connection, \<^verbatim>\<open>src/networking/tls.rs\<close>: \<open>tls_run_copy_loop\<close> sends what it reads from
  standard input in records of growing size and writes the content of the records it receives to standard output.
  The answers of \<open>poll\<close> are a list (no answer is an error, otherwise whether each of the two descriptors is ready; a descriptor that was set
  to \<open>-1\<close> is never ready); when the list ends, the loop waits in \<open>poll\<close>. The sizes in which standard input delivers its bytes are
  a function of the number of the call, as in \<open>RB_TlsRead\<close>.
\<close>

section \<open>Operations\<close>

definition tls_free_outbuf :: "tls_state \<Rightarrow> tls_state" where
  "tls_free_outbuf tls = tls\<lparr>outbuf := []\<rparr>"

definition tls_xwrite :: "u8 list \<Rightarrow> tls_state \<Rightarrow> nat \<Rightarrow> tls_state option" where
  "tls_xwrite iv tls len = xwrite_encrypted iv tls len 23"

definition tls_has_buffered_record :: "tls_state \<Rightarrow> tls_exit + nat" where
  "tls_has_buffered_record tls =
     (let buffered = buffered_size tls
      in if buffered < RECHDR_LEN then Inr 0
         else do_res (expect Fault (load (ofs_to_buffered tls) RECHDR_LEN (inbuf tls))) (\<lambda>xhdr.
           let rec_size = RECHDR_LEN + (0x100 * unat (xhdr ! 3) + unat (xhdr ! 4))
           in if buffered < rec_size then Inr 0 else Inr rec_size))"

record copy_state =
  conn :: tls_state
  fd0_open :: bool
  inbuf_step_size :: nat
  stdin_left :: "u8 list"
  stdin_calls :: nat
  stdout :: "u8 list list"

definition INBUF_STEP :: nat where "INBUF_STEP = 4 * 1024"

definition read_stdin :: "(nat \<Rightarrow> nat option) \<Rightarrow> copy_state \<Rightarrow> nat \<Rightarrow> u8 list option \<times> copy_state" where
  "read_stdin os s count =
     (let s' = s\<lparr>stdin_calls := Suc (stdin_calls s)\<rparr>
      in case os (stdin_calls s) of
           None \<Rightarrow> (None, s')
         | Some k \<Rightarrow> let n = min count (min (Suc k) (length (stdin_left s)))
                     in (Some (take n (stdin_left s)), s'\<lparr>stdin_left := drop n (stdin_left s)\<rparr>))"

definition grow_step :: "nat \<Rightarrow> nat \<Rightarrow> nat" where
  "grow_step nread n =
     (if nread = n then let n = n + INBUF_STEP in if 2 ^ 14 < n then 2 ^ 14 else n else n)"

text \<open>Standard input is ready: the flag says that the loop ends.\<close>

definition copy_stdin :: "tls_env \<Rightarrow> (nat \<Rightarrow> nat option) \<Rightarrow> u32 \<Rightarrow> copy_state \<Rightarrow> tls_exit + bool \<times> copy_state" where
  "copy_stdin env os flgs s =
     do_res (grow_outbuf env (conn s) (inbuf_step_size s)) (\<lambda>tls.
       case read_stdin os s (inbuf_step_size s) of
         (r, s) \<Rightarrow>
           (case r of
              None \<Rightarrow> Inr (flgs AND 1 \<noteq> 0, s\<lparr>conn := tls_free_outbuf tls, fd0_open := False\<rparr>)
            | Some bs \<Rightarrow>
                if length bs < 1 then Inr (flgs AND 1 \<noteq> 0, s\<lparr>conn := tls_free_outbuf tls, fd0_open := False\<rparr>)
                else do_res (put 0 bs tls) (\<lambda>tls.
                     do_res (expect Fault (tls_xwrite (iv_random env) tls (length bs))) (\<lambda>tls.
                       Inr (False, s\<lparr>conn := tls, inbuf_step_size := grow_step (length bs) (inbuf_step_size s)\<rparr>)))))"

text \<open>Every record that is returned shortens what is left to read.\<close>

lemma hash_handshake_frame:
  "hash_handshake t m = Inr t' \<Longrightarrow> buffered_size t' = buffered_size t \<and> incoming t' = incoming t"
  by (auto simp: hash_handshake_def do_res_Inr split: option.splits)

lemma xread_shortens:
  "tls_xread_record os fresh tls = Inr (n, t) \<Longrightarrow> 0 < n \<Longrightarrow>
    buffered_size t + length (incoming t) < buffered_size tls + length (incoming tls)"
proof (induction os fresh tls rule: tls_xread_record.induct)
  case (1 os fresh tls)
  obtain buf where buf: "shift_buffered tls = Some buf"
    using "1.prems"(1) by (subst (asm) tls_xread_record.simps) (auto simp: do_res_Inr expect_Inr)
  let ?f = "fill_record os fresh (tls\<lparr>inbuf := buf\<rparr>) (buffered_size tls) MAX_INBUF"
  obtain sz t1 where f: "?f = Inr (Some sz, t1)"
    using "1.prems" buf by (subst (asm) tls_xread_record.simps) (auto split: sum.splits option.splits)
  have less: "buffered_size t1 + length (incoming t1) < buffered_size tls + length (incoming tls)"
    using fill_record_conserves [OF f] by (simp add: RECHDR_LEN_def MAX_INBUF_def)
  obtain b m where d: "decrypt_record t1 (inbuf t1) (int sz) = Some (b, m)"
    using "1.prems" buf f by (subst (asm) tls_xread_record.simps) (auto split: option.splits)
  let ?t1 = "t1\<lparr>inbuf := b\<rparr>"
  show ?case
  proof (cases "b ! 0 = 21 \<and> 2 \<le> m \<and> b ! RECHDR_LEN = 1 \<and> b ! (RECHDR_LEN + 1) \<noteq> 0")
    case True
    then have r: "tls_xread_record os fresh ?t1 = Inr (n, t)"
      using "1.prems"(1) buf f d by (subst (asm) tls_xread_record.simps) simp
    have "buffered_size t + length (incoming t) < buffered_size ?t1 + length (incoming ?t1)"
      by (rule "1.IH" [OF _ f _ _ d _ _ _ _ r "1.prems"(2)]) (use True buf in auto)
    then show ?thesis using less by simp
  next
    case False
    then show ?thesis using "1.prems" buf f d less
      by (subst (asm) tls_xread_record.simps) (auto simp: do_res_Inr split: if_splits dest: hash_handshake_frame)
  qed
qed

text \<open>The network is ready: records are written out until no complete one is buffered.\<close>

function copy_network :: "tls_env \<Rightarrow> copy_state \<Rightarrow> tls_exit + bool \<times> copy_state" where
  "copy_network env s =
     (case tls_xread_record (recv env) (fresh_in env) (conn s) of
        Inl e \<Rightarrow> Inl e
      | Inr (nread, tls) \<Rightarrow>
          if nread < 1 then Inr (True, s\<lparr>conn := tls\<rparr>)
          else do_res (peek (inbuf tls) 0) (\<lambda>ty.
            if ty \<noteq> 23 then Inl Bad_record
            else do_res (expect Fault (load RECHDR_LEN nread (inbuf tls))) (\<lambda>data.
                 do_res (tls_has_buffered_record tls) (\<lambda>n.
                   if n \<noteq> 0 then copy_network env (s\<lparr>conn := tls, stdout := stdout s @ [data]\<rparr>)
                   else Inr (False, s\<lparr>conn := tls, stdout := stdout s @ [data]\<rparr>)))))"
  by pat_completeness auto
termination
  by (relation "measure (\<lambda>(env, s). buffered_size (conn s) + length (incoming (conn s)))") (auto dest: xread_shortens)

declare copy_network.simps [simp del]

fun copy_loop ::
  "tls_env \<Rightarrow> (nat \<Rightarrow> nat option) \<Rightarrow> u32 \<Rightarrow> (bool \<times> bool) option list \<Rightarrow> copy_state \<Rightarrow> tls_exit + bool \<times> copy_state" where
  "copy_loop env os flgs [] s = Inr (False, s)"
| "copy_loop env os flgs (None # polls) s = Inl (Die ''poll'')"
| "copy_loop env os flgs (Some (revents0, revents1) # polls) s =
     do_res (if revents0 \<and> fd0_open s then copy_stdin env os flgs s else Inr (False, s)) (\<lambda>(fin, s).
       if fin then Inr (True, s)
       else if \<not> revents1 then copy_loop env os flgs polls s
       else do_res (copy_network env s) (\<lambda>(fin, s).
         if fin then Inr (True, s) else copy_loop env os flgs polls s))"

definition tls_run_copy_loop ::
  "tls_env \<Rightarrow> (nat \<Rightarrow> nat option) \<Rightarrow> u32 \<Rightarrow> (bool \<times> bool) option list \<Rightarrow> tls_state \<Rightarrow> u8 list \<Rightarrow> tls_exit + bool \<times> copy_state" where
  "tls_run_copy_loop env os flgs polls tls input =
     copy_loop env os flgs polls \<lparr>conn = tls, fd0_open = True, inbuf_step_size = INBUF_STEP, stdin_left = input,
       stdin_calls = 0, stdout = []\<rparr>"

section \<open>The reference: data in both directions\<close>

type_synonym server_data = "u8 list \<times> u8 list \<times> u8 list"

fun payload :: "server_data \<Rightarrow> u8 list" where
  "payload (e, P, tag) = P"

fun data_ok :: "server_data \<Rightarrow> bool" where
  "data_ok (e, P, tag) \<longleftrightarrow> length e = 8 \<and> length tag = 16 \<and> length P \<le> 2 ^ 14"

fun data_record :: "u8 list \<Rightarrow> server_data \<Rightarrow> u8 list" where
  "data_record kb (e, P, tag) = tls_record 23 (sealed kb e P tag)"

primrec client_records :: "u8 list \<Rightarrow> u64 \<Rightarrow> u8 list list \<Rightarrow> u8 list list" where
  "client_records kb seq [] = []"
| "client_records kb seq (c # cs) =
     gcm_record (client_cipher kb) (take 4 (drop 32 kb)) seq 23 c # client_records kb (next_seq seq) cs"

section \<open>Receiving\<close>

lemma gcm_ready_same:
  assumes "gcm_ready kb t" "same_conn t t'" "inbuf_ok t'" "hsd t' = None"
  shows "gcm_ready kb t'"
  using assms same_link_fields [OF same_link_conn [OF assms(2)]] by (simp add: gcm_ready_def gcm_keys_def)

lemma read_data:
  assumes "\<forall>k. recv env k \<noteq> None" "gcm_ready kb t" "pending t = data_record kb d @ rest" "data_ok d"
  obtains t' hdr post where "tls_xread_record (recv env) (fresh_in env) t = Inr (length (payload d), t')" "same_conn t t'"
    "gcm_ready kb t'" "pending t' = rest" "inbuf t' = hdr @ payload d @ post" "length hdr = 5" "hdr ! 0 = 23"
proof -
  obtain e P tag where d: "d = (e, P, tag)" by (cases d)
  have l: "length e = 8" "length tag = 16" "length P \<le> 2 ^ 14" using assms(4) by (simp_all add: d)
  have k: "gcm_keys kb t" "flags t AND ENCRYPTION_AESGCM \<noteq> 0" "min_encrypted_len_on_read t = 24" "inbuf_ok t" "hsd t = None"
    using assms(2) by (simp_all add: gcm_ready_def)
  let ?m = "sealed kb e P tag"
  obtain hdr w where o: "length hdr = 5" "hdr ! 0 = 23" "length ?m = length P + 24"
    "decrypt_record t (tls_record 23 ?m) (int (length ?m)) = Some (hdr @ P @ w, int (length P))"
    by (rule open_sealed [OF k(1-3) l(1,2)])
  have p: "pending t = tls_record 23 ?m @ rest" by (simp add: assms(3) d)
  have "frame (pending t) = Inr (Some (5 + length ?m))" unfolding p by (rule frame_tls_record) (use l(3) o(3) in simp)
  moreover have "take (5 + length ?m) (pending t) = tls_record 23 ?m" "drop (5 + length ?m) (pending t) = rest"
    unfolding p by simp_all
  moreover have "(hdr @ x) ! 0 = 23" for x using o(1,2) by (simp add: nth_append)
  ultimately have sr: "stream_read t (pending t) = Inr (Some (hdr @ P @ w, length P), None, rest)"
    using o(4) k(5) by (subst stream_read.simps) (simp add: RECHDR_LEN_def)
  have rm: "read_mode t" using k(2,3) by (simp add: read_mode_def)
  obtain t' post where t': "tls_xread_record (recv env) (fresh_in env) t = Inr (length P, t')" "same_conn t t'"
    "inbuf_ok t'" "hsd t' = None" "pending t' = rest" "inbuf t' = (hdr @ P @ w) @ post"
    by (rule read_as_Some [OF assms(1) k(4) rm sr])
  show ?thesis
    by (rule that [of t' hdr "w @ post"]) (use t' o(1,2) gcm_ready_same [OF assms(2) t'(2-4)] in \<open>simp_all add: d\<close>)
qed

lemma read_end:
  assumes "\<forall>k. recv env k \<noteq> None" "gcm_ready kb t" "pending t = []"
  obtains t' where "tls_xread_record (recv env) (fresh_in env) t = Inr (0, t')" "same_conn t t'" "gcm_ready kb t'" "pending t' = []"
proof -
  have k: "inbuf_ok t" "read_mode t" "hsd t = None" using assms(2) by (simp_all add: gcm_ready_def read_mode_def)
  have "stream_read t (pending t) = Inr (None, None, [])"
    using assms(3) k(3) by (subst stream_read.simps) (simp add: frame_def)
  then show ?thesis
    using xread_refines [OF assms(1) k(1,2), of "fresh_in env"] that gcm_ready_same [OF assms(2)] by (auto simp: read_as_def)
qed

lemma has_buffered_total: "inbuf_ok t \<Longrightarrow> \<exists>n. tls_has_buffered_record t = Inr n"
  by (auto simp: tls_has_buffered_record_def inbuf_ok_def load_def RECHDR_LEN_def Let_def)

abbreviation server_stream :: "u8 list \<Rightarrow> server_data list \<Rightarrow> u8 list" where
  "server_stream kb ds \<equiv> concat (map (data_record kb) ds)"

lemma copy_network_step:
  assumes "\<forall>k. recv env k \<noteq> None" "gcm_ready kb (conn s)" "pending (conn s) = server_stream kb ds"
    "\<forall>d \<in> set ds. data_ok d \<and> payload d \<noteq> []"
  shows "\<exists>fin s' ds1 ds2. copy_network env s = Inr (fin, s') \<and> ds = ds1 @ ds2 \<and>
    s' = s\<lparr>conn := conn s', stdout := stdout s @ map payload ds1\<rparr> \<and> same_conn (conn s) (conn s') \<and> gcm_ready kb (conn s') \<and>
    pending (conn s') = server_stream kb ds2 \<and> (if fin then ds2 = [] else ds1 \<noteq> [])"
  using assms(2-4)
proof (induction ds arbitrary: s)
  case Nil
  obtain t where "tls_xread_record (recv env) (fresh_in env) (conn s) = Inr (0, t)" "same_conn (conn s) t" "gcm_ready kb t" "pending t = []"
    using read_end [OF assms(1) Nil.prems(1)] Nil.prems(2) by auto
  then show ?case by (intro exI [of _ True] exI [of _ "s\<lparr>conn := t\<rparr>"]) (simp add: copy_network.simps)
next
  case (Cons d ds)
  have p: "pending (conn s) = data_record kb d @ server_stream kb ds" "data_ok d" "payload d \<noteq> []" using Cons.prems by simp_all
  obtain t hdr post where t: "tls_xread_record (recv env) (fresh_in env) (conn s) = Inr (length (payload d), t)" "same_conn (conn s) t"
    "gcm_ready kb t" "pending t = server_stream kb ds" "inbuf t = hdr @ payload d @ post" "length hdr = 5" "hdr ! 0 = 23"
    by (rule read_data [OF assms(1) Cons.prems(1) p(1,2)])
  have b: "peek (inbuf t) 0 = Inr 23" "load RECHDR_LEN (length (payload d)) (inbuf t) = Some (payload d)"
    using t(5-7) by (simp_all add: peek_def nth_append load_def RECHDR_LEN_def)
  obtain n where n: "tls_has_buffered_record t = Inr n" using has_buffered_total t(3) by (auto simp: gcm_ready_def)
  let ?s = "s\<lparr>conn := t, stdout := stdout s @ [payload d]\<rparr>"
  have step: "copy_network env s = (if n \<noteq> 0 then copy_network env ?s else Inr (False, ?s))"
    using t(1) b n p(3) by (subst copy_network.simps) (simp add: Suc_le_eq)
  show ?case
  proof (cases "n = 0")
    case True
    then show ?thesis using step t by (intro exI [of _ False] exI [of _ ?s] exI [of _ "[d]"] exI [of _ ds]) simp
  next
    case False
    have "gcm_ready kb (conn ?s)" "pending (conn ?s) = server_stream kb ds" "\<forall>d \<in> set ds. data_ok d \<and> payload d \<noteq> []"
      using t Cons.prems(3) by simp_all
    then obtain fin s' ds1 ds2 where r: "copy_network env ?s = Inr (fin, s')" "ds = ds1 @ ds2"
      "s' = ?s\<lparr>conn := conn s', stdout := stdout ?s @ map payload ds1\<rparr>" "same_conn (conn ?s) (conn s')" "gcm_ready kb (conn s')"
      "pending (conn s') = server_stream kb ds2" "if fin then ds2 = [] else ds1 \<noteq> []"
      using Cons.IH [of ?s] by blast
    have "s' = s\<lparr>conn := conn s', stdout := stdout s @ map payload (d # ds1)\<rparr>" by (subst r(3)) simp
    moreover have "same_conn (conn s) (conn s')" using same_conn_trans [OF t(2)] r(4) by simp
    ultimately show ?thesis using step False r(1,2,5-7)
      by (intro exI [of _ fin] exI [of _ s'] exI [of _ "d # ds1"] exI [of _ ds2]) auto
  qed
qed

section \<open>Sending\<close>

lemma read_stdin_split:
  "read_stdin os s n = (r, s') \<Longrightarrow> \<exists>bs. stdin_left s = bs @ stdin_left s' \<and> length bs \<le> n \<and> r \<in> {None, Some bs} \<and>
    (r = None \<longrightarrow> bs = []) \<and> s' = s\<lparr>stdin_calls := stdin_calls s', stdin_left := stdin_left s'\<rparr>"
proof (cases "os (stdin_calls s)")
  case (Some k)
  let ?n = "min n (min (Suc k) (length (stdin_left s)))"
  assume "read_stdin os s n = (r, s')"
  then have "r = Some (take ?n (stdin_left s))" "s' = s\<lparr>stdin_calls := Suc (stdin_calls s), stdin_left := drop ?n (stdin_left s)\<rparr>"
    using Some by (auto simp: read_stdin_def Let_def)
  then show ?thesis by (intro exI [of _ "take ?n (stdin_left s)"]) simp
qed (auto simp: read_stdin_def Let_def)

lemma gcm_ready_out:
  "gcm_ready kb (t\<lparr>outbuf := b\<rparr>) = gcm_ready kb t" "gcm_ready kb (t\<lparr>write_seq64_be := q\<rparr>) = gcm_ready kb t"
  "gcm_ready kb (t\<lparr>written := w\<rparr>) = gcm_ready kb t"
  "pending (t\<lparr>outbuf := b\<rparr>) = pending t" "pending (t\<lparr>write_seq64_be := q\<rparr>) = pending t" "pending (t\<lparr>written := w\<rparr>) = pending t"
  by (simp_all add: gcm_ready_def gcm_keys_def inbuf_ok_def pending_def)

lemma send_data:
  assumes g: "gcm_ready kb t" and l: "length c \<le> n" "n \<le> 2 ^ 14" and b: "n + 72 \<le> length (outbuf t)"
  obtains buf where "do_res (put 0 c t) (\<lambda>t. expect Fault (tls_xwrite iv t (length c))) =
    Inr (t\<lparr>outbuf := buf, write_seq64_be := next_seq (write_seq64_be t),
      written := written t @ [gcm_record (client_cipher kb) (take 4 (drop 32 kb)) (write_seq64_be t) 23 c]\<rparr>)"
proof -
  have "length c + 72 \<le> length (outbuf t)" using l(1) b by simp
  then obtain pre m post where o: "outbuf t = pre @ m @ post" "length pre = 24" "length m = length c" "48 \<le> length post"
    using outbuf_pieces by blast
  have "t = t\<lparr>outbuf := pre @ m @ post\<rparr>" by (simp add: o(1) [symmetric])
  then have p: "put 0 c t = Inr (t\<lparr>outbuf := pre @ c @ post\<rparr>)"
    using put_body [OF o(2), of 0 c m post t] o(3) by (simp add: blit_def)
  let ?t = "t\<lparr>outbuf := pre @ c @ post\<rparr>"
  have k: "block_cipher (aes_encrypt ?t) (client_cipher kb)" "gcm_H ?t = client_cipher kb (replicate 16 0)"
    "length (client_write_IV ?t) = 4" "outbuf ?t = pre @ c @ post" "16 \<le> length post" "length c < 2 ^ 29"
    "flags ?t AND ENCRYPTION_AESGCM \<noteq> 0" "client_write_IV ?t = take 4 (drop 32 kb)"
    using g o(4) l by (simp_all add: gcm_ready_def gcm_keys_def)
  obtain buf where "xwrite_encrypted_aesgcm ?t (length c) 23 = Some (?t\<lparr>outbuf := buf, write_seq64_be := next_seq (write_seq64_be ?t),
      written := written ?t @ [gcm_record (client_cipher kb) (client_write_IV ?t) (write_seq64_be ?t) 23 c]\<rparr>)"
    using gcm_write [OF k(1-4) o(2) k(5,6), of 23] by blast
  then show ?thesis using that [of buf] p k(7,8) by (simp add: tls_xwrite_def xwrite_encrypted_def)
qed

text \<open>One round of standard input: a chunk \<open>c\<close>, or its end.\<close>

definition chunk_records :: "u8 list \<Rightarrow> u64 \<Rightarrow> u8 list \<Rightarrow> u8 list list" where
  "chunk_records kb q c = (if c = [] then [] else client_records kb q [c])"

lemma copy_stdin_step:
  assumes g: "gcm_ready kb (conn s)" and n: "inbuf_step_size s \<le> 2 ^ 14"
  obtains fin s' c where "copy_stdin env os flgs s = Inr (fin, s')" "stdin_left s = c @ stdin_left s'" "length c \<le> 2 ^ 14"
    "written (conn s') = written (conn s) @ chunk_records kb (write_seq64_be (conn s)) c"
    "write_seq64_be (conn s') = (if c = [] then write_seq64_be (conn s) else next_seq (write_seq64_be (conn s)))"
    "gcm_ready kb (conn s')" "pending (conn s') = pending (conn s)" "stdout s' = stdout s" "inbuf_step_size s' \<le> 2 ^ 14"
    "fin \<longrightarrow> flgs AND 1 \<noteq> 0"
proof -
  obtain buf where b: "grow_outbuf env (conn s) (inbuf_step_size s) = Inr ((conn s)\<lparr>outbuf := buf\<rparr>)" "inbuf_step_size s + 72 \<le> length buf"
    using grow_outbuf_ok [OF n] by blast
  obtain r s1 where r: "read_stdin os s (inbuf_step_size s) = (r, s1)" by fastforce
  obtain c where c: "stdin_left s = c @ stdin_left s1" "length c \<le> inbuf_step_size s" "r \<in> {None, Some c}" "r = None \<longrightarrow> c = []"
    "s1 = s\<lparr>stdin_calls := stdin_calls s1, stdin_left := stdin_left s1\<rparr>"
    using read_stdin_split [OF r] by blast
  have s1: "stdout s1 = stdout s" "inbuf_step_size s1 = inbuf_step_size s" "conn s1 = conn s" by (subst c(5), simp)+
  let ?t = "(conn s)\<lparr>outbuf := buf\<rparr>"
  show ?thesis
  proof (cases "c = []")
    case True
    let ?s' = "s1\<lparr>conn := tls_free_outbuf ?t, fd0_open := False\<rparr>"
    have "copy_stdin env os flgs s = Inr (flgs AND 1 \<noteq> 0, ?s')"
      using b(1) r c(3) True by (auto simp: copy_stdin_def)
    then show ?thesis
      by (rule that [of _ ?s' "[]"])
        (use True c(1) s1 g n in \<open>simp_all add: chunk_records_def tls_free_outbuf_def gcm_ready_out\<close>)
  next
    case False
    obtain buf' where w: "do_res (put 0 c ?t) (\<lambda>t. expect Fault (tls_xwrite (iv_random env) t (length c))) =
        Inr (?t\<lparr>outbuf := buf', write_seq64_be := next_seq (write_seq64_be ?t),
          written := written ?t @ [gcm_record (client_cipher kb) (take 4 (drop 32 kb)) (write_seq64_be ?t) 23 c]\<rparr>)"
      using send_data [of kb ?t c "inbuf_step_size s" "iv_random env"] g c(2) n b(2) by (auto simp: gcm_ready_out)
    let ?t' = "?t\<lparr>outbuf := buf', write_seq64_be := next_seq (write_seq64_be ?t),
          written := written ?t @ [gcm_record (client_cipher kb) (take 4 (drop 32 kb)) (write_seq64_be ?t) 23 c]\<rparr>"
    let ?s' = "s1\<lparr>conn := ?t', inbuf_step_size := grow_step (length c) (inbuf_step_size s1)\<rparr>"
    have "grow_step (length c) (inbuf_step_size s1) \<le> 2 ^ 14" using n s1(2) by (simp add: grow_step_def Let_def)
    moreover obtain t1 where "put 0 c ?t = Inr t1" "tls_xwrite (iv_random env) t1 (length c) = Some ?t'"
      using w by (auto simp: do_res_Inr expect_Inr)
    then have "copy_stdin env os flgs s = Inr (False, ?s')"
      using b(1) r c(3,4) False by (auto simp: copy_stdin_def Suc_le_eq)
    ultimately show ?thesis
      by (intro that [of False ?s' c])
        (use False c(1,2) s1 g n in \<open>simp_all add: chunk_records_def gcm_ready_out\<close>)
  qed
qed

section \<open>The loop\<close>

lemma client_records_append:
  "client_records kb q (cs @ cs') = client_records kb q cs @ client_records kb ((next_seq ^^ length cs) q) cs'"
  by (induction cs arbitrary: q) (simp_all add: funpow_swap1)

text \<open>From \<open>s\<close> to \<open>s'\<close> the chunks \<open>cs\<close> were sent and the data \<open>ds1\<close> delivered, \<open>ds2\<close> is still to come.\<close>

definition copied :: "u8 list \<Rightarrow> copy_state \<Rightarrow> copy_state \<Rightarrow> u8 list list \<Rightarrow> server_data list \<Rightarrow> server_data list \<Rightarrow> bool" where
  "copied kb s s' cs ds1 ds2 \<longleftrightarrow>
     stdin_left s = concat cs @ stdin_left s' \<and> (\<forall>c \<in> set cs. c \<noteq> [] \<and> length c \<le> 2 ^ 14) \<and>
     written (conn s') = written (conn s) @ client_records kb (write_seq64_be (conn s)) cs \<and>
     write_seq64_be (conn s') = (next_seq ^^ length cs) (write_seq64_be (conn s)) \<and>
     stdout s' = stdout s @ map payload ds1 \<and> pending (conn s') = server_stream kb ds2 \<and>
     gcm_ready kb (conn s') \<and> inbuf_step_size s' \<le> 2 ^ 14"

lemma copied_trans:
  "copied kb s s1 cs ds1 ds2 \<Longrightarrow> copied kb s1 s2 cs' ds1' ds2' \<Longrightarrow> copied kb s s2 (cs @ cs') (ds1 @ ds1') ds2'"
proof -
  have "(next_seq ^^ length cs') ((next_seq ^^ length cs) q) = (next_seq ^^ (length cs + length cs')) q" for q
    using funpow_add [of "length cs'" "length cs" next_seq] by (simp add: add.commute)
  then show "copied kb s s1 cs ds1 ds2 \<Longrightarrow> copied kb s1 s2 cs' ds1' ds2' \<Longrightarrow> copied kb s s2 (cs @ cs') (ds1 @ ds1') ds2'"
    by (auto simp: copied_def client_records_append)
qed

definition server_ready :: "(bool \<times> bool) option list \<Rightarrow> nat" where
  "server_ready polls = length (filter (\<lambda>p. case p of Some (_, True) \<Rightarrow> True | _ \<Rightarrow> False) polls)"

lemma copy_stdin_copied:
  assumes "gcm_ready kb (conn s)" "inbuf_step_size s \<le> 2 ^ 14" "pending (conn s) = server_stream kb ds"
  obtains fin s' cs where "(if ready then copy_stdin env os flgs s else Inr (False, s)) = Inr (fin, s')" "copied kb s s' cs [] ds"
    "fin \<longrightarrow> flgs AND 1 \<noteq> 0"
proof (cases ready)
  case True
  obtain fin s' c where c: "copy_stdin env os flgs s = Inr (fin, s')" "stdin_left s = c @ stdin_left s'" "length c \<le> 2 ^ 14"
    "written (conn s') = written (conn s) @ chunk_records kb (write_seq64_be (conn s)) c"
    "write_seq64_be (conn s') = (if c = [] then write_seq64_be (conn s) else next_seq (write_seq64_be (conn s)))"
    "gcm_ready kb (conn s')" "pending (conn s') = pending (conn s)" "stdout s' = stdout s" "inbuf_step_size s' \<le> 2 ^ 14"
    "fin \<longrightarrow> flgs AND 1 \<noteq> 0" by (rule copy_stdin_step [OF assms(1,2)])
  have "copied kb s s' (if c = [] then [] else [c]) [] ds" using c assms(3) by (simp add: copied_def chunk_records_def)
  then show ?thesis using that [of fin s'] True c(1,10) by simp
next
  case False
  have "copied kb s s [] [] ds" using assms by (simp add: copied_def)
  then show ?thesis using that [of False s "[]"] False by simp
qed

lemma copy_network_copied:
  assumes "\<forall>k. recv env k \<noteq> None" "copied kb s0 s cs [] ds" "\<forall>d \<in> set ds. data_ok d \<and> payload d \<noteq> []"
  obtains fin s' ds1 ds2 where "copy_network env s = Inr (fin, s')" "ds = ds1 @ ds2" "copied kb s s' [] ds1 ds2"
    "if fin then ds2 = [] else ds1 \<noteq> []"
proof -
  have s: "gcm_ready kb (conn s)" "pending (conn s) = server_stream kb ds" "inbuf_step_size s \<le> 2 ^ 14"
    using assms(2) by (simp_all add: copied_def)
  obtain fin s' ds1 ds2 where r: "copy_network env s = Inr (fin, s')" "ds = ds1 @ ds2"
    "s' = s\<lparr>conn := conn s', stdout := stdout s @ map payload ds1\<rparr>" "same_conn (conn s) (conn s')" "gcm_ready kb (conn s')"
    "pending (conn s') = server_stream kb ds2" "if fin then ds2 = [] else ds1 \<noteq> []"
    using copy_network_step [OF assms(1) s(1,2) assms(3)] by blast
  have o: "stdin_left s' = stdin_left s" "inbuf_step_size s' = inbuf_step_size s" "stdout s' = stdout s @ map payload ds1"
    by (subst r(3), simp)+
  have "written (conn s') = written (conn s)" "write_seq64_be (conn s') = write_seq64_be (conn s)"
    by (subst r(4) [unfolded same_conn_def], simp)+
  then have "copied kb s s' [] ds1 ds2" using o r(5,6) s(3) by (simp add: copied_def)
  then show ?thesis using that r(1,2,7) by blast
qed

lemma copy_loop_copied:
  assumes "\<forall>k. recv env k \<noteq> None"
  shows "gcm_ready kb (conn s) \<Longrightarrow> inbuf_step_size s \<le> 2 ^ 14 \<Longrightarrow> pending (conn s) = server_stream kb ds \<Longrightarrow>
    \<forall>d \<in> set ds. data_ok d \<and> payload d \<noteq> [] \<Longrightarrow> None \<notin> set polls \<Longrightarrow>
    \<exists>fin s' cs ds1 ds2. copy_loop env os flgs polls s = Inr (fin, s') \<and> ds = ds1 @ ds2 \<and> copied kb s s' cs ds1 ds2 \<and>
      (fin \<longrightarrow> flgs AND 1 \<noteq> 0 \<or> ds2 = []) \<and> (length ds < server_ready polls \<longrightarrow> fin)"
proof (induction polls arbitrary: s ds)
  case Nil
  then have "copied kb s s [] [] ds" by (simp add: copied_def)
  then show ?case by (intro exI [of _ False] exI [of _ s] exI [of _ "[]"] exI [of _ ds]) (simp add: server_ready_def)
next
  case (Cons p polls)
  obtain r0 r1 where p: "p = Some (r0, r1)" using Cons.prems(5) by (cases p) auto
  obtain fin1 s1 cs where c: "(if r0 \<and> fd0_open s then copy_stdin env os flgs s else Inr (False, s)) = Inr (fin1, s1)"
    "copied kb s s1 cs [] ds" "fin1 \<longrightarrow> flgs AND 1 \<noteq> 0" by (rule copy_stdin_copied [OF Cons.prems(1-3)])
  have IH: "\<exists>fin s' cs' ds1 ds2. copy_loop env os flgs polls s2 = Inr (fin, s') \<and> ds' = ds1 @ ds2 \<and> copied kb s2 s' cs' ds1 ds2 \<and>
      (fin \<longrightarrow> flgs AND 1 \<noteq> 0 \<or> ds2 = []) \<and> (length ds' < server_ready polls \<longrightarrow> fin)"
    if "copied kb s0 s2 cs0 ds0 ds'" "set ds' \<subseteq> set ds" for s0 s2 cs0 ds0 ds'
    using that Cons.prems(4,5) by (intro Cons.IH) (auto simp: copied_def)
  consider "fin1" | "\<not> fin1" "\<not> r1" | "\<not> fin1" "r1" by blast
  then show ?case
  proof cases
    case 1
    then have "copy_loop env os flgs (p # polls) s = Inr (True, s1)" using p c(1) by simp
    then show ?thesis using c(2,3) 1 by (intro exI [of _ True] exI [of _ s1] exI [of _ cs] exI [of _ "[]"] exI [of _ ds]) simp
  next
    case 2
    then have l: "copy_loop env os flgs (p # polls) s = copy_loop env os flgs polls s1" "server_ready (p # polls) = server_ready polls"
      using p c(1) by (simp_all add: server_ready_def)
    obtain fin s' cs' ds1 ds2 where i: "copy_loop env os flgs polls s1 = Inr (fin, s')" "ds = ds1 @ ds2" "copied kb s1 s' cs' ds1 ds2"
      "fin \<longrightarrow> flgs AND 1 \<noteq> 0 \<or> ds2 = []" "length ds < server_ready polls \<longrightarrow> fin" using IH [OF c(2) order_refl] by blast
    then show ?thesis unfolding l using copied_trans [OF c(2) i(3)]
      by (intro exI [of _ fin] exI [of _ s'] exI [of _ "cs @ cs'"] exI [of _ ds1] exI [of _ ds2]) simp
  next
    case 3
    obtain fin2 s2 ds1 ds2 where n: "copy_network env s1 = Inr (fin2, s2)" "ds = ds1 @ ds2" "copied kb s1 s2 [] ds1 ds2"
      "if fin2 then ds2 = [] else ds1 \<noteq> []" by (rule copy_network_copied [OF assms c(2) Cons.prems(4)])
    note t = copied_trans [OF c(2) n(3), simplified]
    show ?thesis
    proof (cases fin2)
      case True
      then have "copy_loop env os flgs (p # polls) s = Inr (True, s2)" using p c(1) n(1) 3 by simp
      then show ?thesis using t n(2,4) True by (intro exI [of _ True] exI [of _ s2] exI [of _ cs] exI [of _ ds1] exI [of _ ds2]) simp
    next
      case False
      then have l: "copy_loop env os flgs (p # polls) s = copy_loop env os flgs polls s2" "server_ready (p # polls) = Suc (server_ready polls)"
        "length ds2 < length ds" using p c(1) n 3 by (simp_all add: server_ready_def)
      have "set ds2 \<subseteq> set ds" using n(2) by simp
      then obtain fin s' cs' ds3 ds4 where i: "copy_loop env os flgs polls s2 = Inr (fin, s')" "ds2 = ds3 @ ds4" "copied kb s2 s' cs' ds3 ds4"
        "fin \<longrightarrow> flgs AND 1 \<noteq> 0 \<or> ds4 = []" "length ds2 < server_ready polls \<longrightarrow> fin" using IH [OF t] by blast
      then have "ds = (ds1 @ ds3) @ ds4" "length ds < server_ready (p # polls) \<longrightarrow> fin"
        using i(2,5) l(2,3) n(2) by (simp, linarith)
      then show ?thesis unfolding l(1) using i(1,4) copied_trans [OF t i(3)] by blast
    qed
  qed
qed

section \<open>Properties\<close>


text \<open>The keys, the buffers and one record of two bytes.\<close>

definition sample_ready :: "u8 list \<Rightarrow> tls_state" where
  "sample_ready stream =
     (let enc = the (aes_setkey sample_aes (take 16 (sample_kb []))); dec = the (aes_setkey sample_aes (take 16 (drop 16 (sample_kb []))))
      in install_keys [] enc dec (client_cipher (sample_kb []) (replicate 16 0)) (take 4 (drop 32 (sample_kb []))) (drop 36 (sample_kb []))
           (sample_tls\<lparr>incoming := stream\<rparr>))"

lemma sample_ready: "gcm_ready (sample_kb []) (sample_ready stream)" "pending (sample_ready stream) = stream"
proof -
  let ?kb = "sample_kb []"
  have l: "length ?kb = 40" by (simp add: sample_kb_def key_block_def length_P_sha256)
  have k: "length (take 16 ?kb) \<in> {16, 24, 32}" "length (take 16 (drop 16 ?kb)) \<in> {16, 24, 32}" using l by simp_all
  obtain enc dec where s: "aes_setkey sample_aes (take 16 ?kb) = Some enc" "aes_setkey sample_aes (take 16 (drop 16 ?kb)) = Some dec"
    using aes_setkey_ref [OF k(1) sample_key_length] aes_setkey_ref [OF k(2) sample_key_length] by blast
  note b = setkey_block_cipher(1) [OF k(1) sample_key_length s(1), folded client_cipher_def]
    setkey_block_cipher(1) [OF k(2) sample_key_length s(2), folded server_cipher_def]
  show "gcm_ready ?kb (sample_ready stream)" "pending (sample_ready stream) = stream"
    using l b s by (simp_all add: sample_ready_def gcm_ready_def gcm_keys_def install_keys_def sample_tls_def inbuf_ok_def pending_def
      ENCRYPTION_AESGCM_def)
qed


text \<open>
  C31. A record without content, which a server may send at any time (section 6.2.1 of RFC 5246), ends the session as if it were
  the end of the stream: \<^verbatim>\<open>tls_run_copy_loop\<close> takes the length 0 that \<^verbatim>\<open>tls_xread_record\<close> returns for both for the end and returns,
  while everything after that record is still pending and nothing of it is ever written.
\<close>

theorem empty_record_ends_session:
  assumes "\<forall>k. recv env k \<noteq> None" "gcm_ready kb tls" "pending tls = data_record kb (e, [], tag) @ rest" "data_ok (e, [], tag)"
  shows "\<exists>s. tls_run_copy_loop env os flgs (Some (False, True) # polls) tls input = Inr (True, s) \<and>
    stdout s = [] \<and> pending (conn s) = rest"
proof -
  obtain t where t: "tls_xread_record (recv env) (fresh_in env) tls = Inr (length (payload (e, [], tag)), t)" "pending t = rest"
    by (rule read_data [OF assms])
  have "copy_network env s = Inr (True, s\<lparr>conn := t\<rparr>)" if "conn s = tls" for s
    using t(1) that by (subst copy_network.simps) simp
  then show ?thesis using t(2) by (simp add: tls_run_copy_loop_def)
qed

theorem empty_record_ends_session_witness:
  "\<exists>s. tls_run_copy_loop sample_env (\<lambda>_. Some 7) 0 [Some (False, True)]
      (sample_ready (data_record (sample_kb []) (replicate 8 0, [], replicate 16 0) @ [23, 3])) [] = Inr (True, s) \<and>
    stdout s = [] \<and> pending (conn s) = [23, 3]"
  by (rule empty_record_ends_session [OF _ sample_ready]) (simp_all add: sample_env_def)

end
