(* ===== verification/Spec2Isabelle.thy ===== *)
theory Spec2Isabelle
  imports RB_Prelude RB_Spherepop RB_HashCore RB_Md5Sha RB_Sha512 RB_Sha3 RB_Aes RB_Math RB_MathExpr RB_Init
    RB_Fe RB_Gcm RB_Hmac RB_Pstm RB_PstmArith RB_PstmMul RB_PstmDiv RB_Montgomery RB_PstmExp RB_Rsa
    RB_TlsRecord RB_TlsKeys RB_TlsRead RB_TlsDer RB_TlsHandshake RB_TlsSession RB_TlsRsaSession RB_TlsCopy
begin

text \<open>
  \<^bold>\<open>Rustybox.\<close> Rustybox is a multi-call binary: most applets are a mechanical translation of BusyBox
  to Rust (raw buffers, C integers), and those under \<^verbatim>\<open>src/modern/\<close> are written anew. This library models
  the parts that carry an algorithm or a protocol of their own: the event-log kernel \<^verbatim>\<open>spherepop\<close>, the PID 1 supervisor
  \<^verbatim>\<open>init\<close>, the arithmetic of the shells, the hash functions, and the TLS client from the
  block cipher up to the record layer, the handshake and the copy loop of a session.

  \<^bold>\<open>The theories.\<close>
  \<^item> \<open>RB_Prelude\<close>: machine integers, options as failures, the string functions of Rust, lists and maps; the
    locale \<open>replayable\<close> of a step function and an invariant it keeps.
  \<^item> \<open>RB_Spherepop\<close>, \<^verbatim>\<open>src/modern/spherepop.rs\<close>: the kernel record, \<open>rep\<close> with path compression,
    the handler \<open>apply_event\<close> for every event, \<open>replay\<close>, the canonical views and the line parser. Shown: replay always returns
    a well-formed kernel (C1); merges give the partition generated by their pairs in any order (C2), stored
    relations are normalised without COLLAPSE (C3), MERGE is idempotent, UNLINK undoes LINK; two errors
    of COLLAPSE and POP (C5, C6). It interprets \<open>replayable\<close> twice.
  \<^item> \<open>RB_HashCore\<close>, \<open>RB_Md5Sha\<close>, \<open>RB_Sha512\<close>, \<open>RB_Sha3\<close>, \<^verbatim>\<open>src/libbb/hash_md5_sha.rs\<close>: contexts, block functions,
    streaming and padding. The locale \<open>block_buffer\<close> holds the contract of a buffer that is filled and compressed
    and \<open>block_hash\<close> adds padding and length; the 64-byte and the 128-byte contexts
    interpret them. Shown: any sequence of calls yields the digest of the standard for MD5, SHA-256, SHA-512 and
    SHA-3 (C8, C9, C11, C13), the permutation is Keccak-f; SHA-1 always panics (C10).
  \<^item> \<open>RB_Aes\<close>, \<^verbatim>\<open>src/networking/tls_aes.rs\<close>: key expansion, rounds on the column-major array and CBC. Shown: block
    encryption is FIPS 197 (C14), CBC decryption inverts CBC encryption by the locales
    \<open>block_cipher\<close> and \<open>cbc_mode\<close>.
  \<^item> \<open>RB_Math\<close>, \<open>RB_MathExpr\<close>, \<^verbatim>\<open>src/shell/math.rs\<close> with \<^verbatim>\<open>endofname\<close> and \<^verbatim>\<open>skip_whitespace\<close> of libbb:
    the number scanner, the operator table, the two stacks and the recursive evaluation of
    variables, with the shell's lookup and store as parameters. Shown: evaluation is total for finitely many
    variables, circular ones included (C16); the stacks stay in their bounds (C17), though not in the tighter one
    a comment claims; expressions rendered with the parentheses of C evaluate as in C (C19), and stored numbers,
    assignments and increments behave as documented (assignments: C21).
  \<^item> \<open>RB_Init\<close>, \<^verbatim>\<open>src/modern/init.rs\<close>: inittab parser, spawning, signals, shutdown, restart and the main loop
    as transitions that append to a trace of system calls, with what the operating system answers as a parameter.
    Shown: invariant of the table (C23), order of start-up, the supervising pass, three defects of the waiting
    and reloading (two of them C26 and C28), the halting sequence (C29), the format (C30) and the guard on PID 1.
  \<^item> \<open>RB_Fe\<close>, \<^verbatim>\<open>src/networking/tls_fe.rs\<close>: arithmetic modulo \<open>2^255 - 19\<close> on 32 bytes and the ladder of X25519. Shown:
    no carry is lost and each operation is the one of the field (C32); \<open>curve25519\<close> is the scalar multiple
    (C34). The locale \<open>mulmod\<close> carries the inversion chain.
  \<^item> \<open>RB_Gcm\<close>, \<^verbatim>\<open>src/networking/tls_aesgcm.rs\<close>: GHASH; it is that of SP 800-38D (C35).
  \<^item> \<open>RB_Hmac\<close>, \<^verbatim>\<open>src/networking/tls.rs\<close>: HMAC with precomputed pads and the PRF of TLS 1.2 (C36), on the contexts of \<open>RB_Md5Sha\<close>.
  \<^item> \<open>RB_Pstm\<close>, \<^verbatim>\<open>src/networking/tls_pstm.rs\<close>: the big integers of an RSA key and their reading from bytes.
    \<open>RB_PstmArith\<close> has comparison, shifts, addition and subtraction, \<open>RB_PstmMul\<close> (\<^verbatim>\<open>tls_pstm_mul_comba.rs\<close>,
    \<^verbatim>\<open>tls_pstm_sqr_comba.rs\<close>) multiplication and squaring, \<open>RB_PstmDiv\<close> division: each operation is shown to compute the
    number it should and to keep the invariant of the representation. Subtraction loses a borrow over a zero digit,
    so division is right only under the condition \<open>div_safe\<close> (C24), and there is a remainder greater than its divisor (C15).
  \<^item> \<open>RB_Montgomery\<close>, \<^verbatim>\<open>tls_pstm_montgomery_reduce.rs\<close>: the reduction (C25), whose scratch buffer is measured in the wrong
    unit, so that the caller must lend a large one.
  \<^item> \<open>RB_PstmExp\<close>: \<open>pstm_exptmod\<close>. The loop over the exponent in windows is proved in the locale \<open>window_power\<close>, interpreted
    on Montgomery's residues; the result is the modular power (C20).
  \<^item> \<open>RB_Rsa\<close>, \<^verbatim>\<open>src/networking/tls_rsa.rs\<close>: conversion to bytes, PKCS 1 padding, encryption and the private operation.
  \<^item> \<open>RB_TlsRecord\<close>, \<^verbatim>\<open>src/networking/tls.rs\<close>: writing and decrypting records on explicit buffers. Shown: what is sent under
    AES-GCM is the record of the RFC (C37); reading returns the payload, whatever the tag (C38), since it is not
    compared; records under CBC round trip (C39).
  \<^item> \<open>RB_TlsKeys\<close>, \<^verbatim>\<open>src/networking/tls.rs\<close>: from the chosen suite to the keys; the result meets the
    assumptions of the record layer (C40).
  \<^item> \<open>RB_TlsRead\<close>: \<open>tls_xread_record\<close>, which collects records in a growing buffer that may hold the beginning of the next
    ones. Its abstract specification reads a list of bytes record by record; the code refines it for every cutting of the
    stream (C18). A handshake message after the handshake crashes (C12).
  \<^item> \<open>RB_TlsDer\<close>: the DER scanner and the search for the key; every RSA key in a certificate is found (C27).
  \<^item> \<open>RB_TlsHandshake\<close>: all messages of the handshake as the code sends and reads them, with \<open>tls_handshake\<close> as their composition;
    the premaster secret of the RSA key exchange and its encryption.
  \<^item> \<open>RB_TlsSession\<close>: the messages of RFC 5246 as the reference and one lemma per message; a handshake under
    AES-GCM for every way to agree on the secret, applied to X25519 (C22), and what happens when the server leaves out its key (C33).
  \<^item> \<open>RB_TlsRsaSession\<close>: the same handshake with RSA, from the key in the certificate to the power the client sends (C7).
  \<^item> \<open>RB_TlsCopy\<close>: \<open>tls_run_copy_loop\<close>. Data goes through unchanged and in order in both directions (C4); a record without
    content ends the session (C31).

  \<^bold>\<open>Conventions.\<close> Integers keep their width as words where they can wrap; sizes that
  the code bounds are natural numbers. A panic, the end of the process with a message and an access outside a buffer
  are \<^const>\<open>None\<close> (or a value of an error type where the code reports one). Buffers changed in place are new lists, and a buffer that
  the code reads while writing it is modelled with the offsets it uses.

  \<^bold>\<open>Fuel and partial functions.\<close> \<open>rep_loop\<close> and the bit loop of GHASH are partial functions whose
  results are proved to exist (in C1 and C35). The recursion of the arithmetic into variables has fuel; the number of variables plus one
  always suffices, as C16 shows together with independence of
  larger fuel. The main loop of \<open>init\<close> runs for a given number of iterations, since it does not end by itself; its
  properties hold for every number, and the copy loop of TLS for a given list of answers of \<open>poll\<close>. The first loop of the division has fuel 4 and the
  conversion of a number to bytes four times its digits; C24, C20 and C7 show that both suffice. All other loops are total functions with a measure.

  \<^bold>\<open>Parameters.\<close> The answers of the operating system to \<open>init\<close>, lookup and store of shell variables, \<open>strtoull\<close>; for TLS the
  sizes in which \<open>read\<close> delivers bytes, the answers of \<open>poll\<close>, the random bytes, and the content of freshly allocated memory.

  \<^bold>\<open>Not modelled.\<close> The transpiled applets around files, sockets, terminals and devices (editors, shells, archivers, coreutils,
  networking, login, modules and daemons): their behaviour lies in calls to libc and the kernel. Of the big integers,
  \<open>pstm_mod_2d\<close>, which nothing calls, and the release of memory; the remainder that \<open>pstm_div_2d\<close> can return is
  never asked for. Of the applets under \<^verbatim>\<open>src/modern/\<close>, those that wrap third-party crates
  (regular expressions, directory walks, archives, compression, digests) or a few system calls.
\<close>

end
